(* ===== verification/Prelude.thy ===== *)
theory Prelude imports Main "HOL-Library.Word" "HOL-Library.Sublist"
begin

text \<open>
  Shared vocabulary of the development: Python exceptions as values, a bind for fallible
  code, the integer helpers of \<^verbatim>\<open>vllm/utils/math_utils.py\<close>, Python's slicing and
  indexing, and the generic lemmas on lists that several components use.

  A function of the source that can raise returns \<open>py_error + 'a\<close>: \<open>Inl e\<close> is the
  exception \<open>e\<close>, \<open>Inr x\<close> the normal return of \<open>x\<close>. \<open>Diverges\<close> is not an exception but a
  loop that does not return. The state is threaded
  explicitly and the state at a raise is not part of the result: the engine does not resume
  from these exceptions.
\<close>

section \<open>Errors\<close>

datatype py_error = AssertionError | ValueError | RuntimeError | IndexError | KeyError
  | OverflowError | ZeroDivisionError | TypeError | AttributeError | StopIteration | Diverges

type_synonym 'a res = "py_error + 'a"

definition bind_res :: "'a res \<Rightarrow> ('a \<Rightarrow> 'b res) \<Rightarrow> 'b res" where
  "bind_res x f = (case x of Inl e \<Rightarrow> Inl e | Inr a \<Rightarrow> f a)"

definition assert_res :: "bool \<Rightarrow> py_error \<Rightarrow> unit res" where
  "assert_res b e = (if b then Inr () else Inl e)"

named_theorems res_simps "evaluation of fallible code"
named_theorems int_defs "definitions of the integer helpers"

lemma bind_res_Inl [simp, res_simps]: "bind_res (Inl e) f = Inl e"
  by (simp add: bind_res_def)

lemma bind_res_Inr [simp, res_simps]: "bind_res (Inr a) f = f a"
  by (simp add: bind_res_def)

lemma bind_res_eq_Inr:
  "bind_res x f = Inr b \<longleftrightarrow> (\<exists>a. x = Inr a \<and> f a = Inr b)"
  by (cases x) auto

lemma bind_res_assoc: "bind_res (bind_res x f) g = bind_res x (\<lambda>a. bind_res (f a) g)"
  by (cases x) auto

lemma assert_res_True [simp, res_simps]: "assert_res True e = Inr ()"
  by (simp add: assert_res_def)

lemma assert_res_False [simp, res_simps]: "assert_res False e = Inl e"
  by (simp add: assert_res_def)

lemma assert_res_eq_Inr [simp]: "assert_res b e = Inr u \<longleftrightarrow> b"
  by (simp add: assert_res_def)

lemma bind_res_cong [fundef_cong]:
  "x = y \<Longrightarrow> (\<And>a. y = Inr a \<Longrightarrow> f a = g a) \<Longrightarrow> bind_res x f = bind_res y g"
  by (cases y) auto

text \<open>A loop over a list whose body can raise, threading a state.\<close>

fun fold_res :: "('a \<Rightarrow> 's \<Rightarrow> 's res) \<Rightarrow> 'a list \<Rightarrow> 's \<Rightarrow> 's res" where
  "fold_res f [] s = Inr s"
| "fold_res f (x # xs) s = bind_res (f x s) (fold_res f xs)"

lemma fold_res_append:
  "fold_res f (xs @ ys) s = bind_res (fold_res f xs s) (fold_res f ys)"
  by (induction xs arbitrary: s) (auto simp: bind_res_def split: sum.splits)

text \<open>The invariant rule for such a loop.\<close>

lemma fold_res_inv:
  assumes "\<And>x s s'. x \<in> set xs \<Longrightarrow> P s \<Longrightarrow> f x s = Inr s' \<Longrightarrow> P s'"
    and "P s" and "fold_res f xs s = Inr s'"
  shows "P s'"
  using assms
proof (induction xs arbitrary: s)
  case Nil
  then show ?case by simp
next
  case (Cons x xs)
  from Cons.prems(3) obtain s1 where s1: "f x s = Inr s1" "fold_res f xs s1 = Inr s'"
    by (auto simp: bind_res_eq_Inr)
  have "P s1" using Cons.prems(1)[of x s s1] Cons.prems(2) s1(1) by simp
  then show ?case using Cons.IH[of s1] Cons.prems(1) s1(2) by auto
qed

section \<open>Integer helpers: \<open>utils/math_utils.py\<close>\<close>

definition cdiv :: "int \<Rightarrow> int \<Rightarrow> int" where
  "cdiv a b = - (a div (- b))"

definition round_up :: "int \<Rightarrow> int \<Rightarrow> int" where
  "round_up x y = ((x + y - 1) div y) * y"

definition round_down :: "int \<Rightarrow> int \<Rightarrow> int" where
  "round_down x y = (x div y) * y"

declare cdiv_def [int_defs] round_up_def [int_defs] round_down_def [int_defs]

lemma le_div_iff_mult:
  assumes "0 < (b::int)"
  shows "k \<le> x div b \<longleftrightarrow> k * b \<le> x"
proof
  assume "k \<le> x div b"
  then have "k * b \<le> (x div b) * b" using assms by (simp add: mult_right_mono)
  also have "\<dots> \<le> x"
    using pos_mod_sign[OF assms, of x] div_mult_mod_eq[of x b] by linarith
  finally show "k * b \<le> x" .
next
  assume "k * b \<le> x"
  then have "(k * b) div b \<le> x div b" using assms by (rule zdiv_mono1)
  then show "k \<le> x div b" using assms by simp
qed

lemma cdiv_le_iff: "0 < b \<Longrightarrow> cdiv a b \<le> n \<longleftrightarrow> a \<le> n * b"
  using le_div_iff_mult[of b "- n" "- a"] by (auto simp: cdiv_def div_minus_right)

lemma cdiv_nonneg: "0 < b \<Longrightarrow> 0 \<le> a \<Longrightarrow> 0 \<le> cdiv a b"
  using cdiv_le_iff[of b a "-1"] by linarith

lemma cdiv_ge: "0 < b \<Longrightarrow> a \<le> cdiv a b * b"
  using cdiv_le_iff[of b a "cdiv a b"] by simp

lemma cdiv_mono: "0 < b \<Longrightarrow> a \<le> a' \<Longrightarrow> cdiv a b \<le> cdiv a' b"
  using cdiv_le_iff[of b a "cdiv a' b"] cdiv_ge[of b a'] by linarith

section \<open>Python sequences\<close>

text \<open>
  \<open>py_get\<close> is \<^verbatim>\<open>xs[i]\<close>, with negative indices counted from the end and
  \<open>IndexError\<close> out of range. \<open>py_slice\<close> is \<^verbatim>\<open>xs[a:b]\<close>, which clips.
\<close>

definition py_index :: "int \<Rightarrow> int \<Rightarrow> int" where
  "py_index n i = (if i < 0 then n + i else i)"

definition py_get :: "'a list \<Rightarrow> int \<Rightarrow> 'a res" where
  "py_get xs i =
     (let j = py_index (int (length xs)) i
      in if 0 \<le> j \<and> j < int (length xs) then Inr (xs ! nat j) else Inl IndexError)"

definition clip :: "int \<Rightarrow> int \<Rightarrow> nat" where
  "clip n i = nat (max 0 (min n (if i < 0 then n + i else i)))"

definition py_slice :: "'a list \<Rightarrow> int \<Rightarrow> int \<Rightarrow> 'a list" where
  "py_slice xs a b =
     (let n = int (length xs); i = clip n a; j = clip n b in take (j - i) (drop i xs))"

lemma py_get_nat: "py_get xs (int i) = (if i < length xs then Inr (xs ! i) else Inl IndexError)"
  by (simp add: py_get_def py_index_def)

lemma py_get_Inr_nonneg:
  "0 \<le> i \<Longrightarrow> py_get xs i = Inr x \<longleftrightarrow> nat i < length xs \<and> xs ! nat i = x"
  by (auto simp: py_get_def py_index_def)

lemma clip_nonneg: "0 \<le> i \<Longrightarrow> clip (int n) i = min n (nat i)"
  by (auto simp: clip_def)

lemma py_slice_nonneg:
  "0 \<le> a \<Longrightarrow> 0 \<le> b \<Longrightarrow> py_slice xs a b = take (nat b - nat a) (drop (nat a) xs)"
  by (auto simp: py_slice_def clip_nonneg Let_def min_def)

lemma py_slice_length:
  assumes "0 \<le> a" "a \<le> b" "b \<le> int (length xs)"
  shows "int (length (py_slice xs a b)) = b - a"
  using assms by (simp add: py_slice_nonneg)

section \<open>Lists\<close>

definition remove_at :: "nat \<Rightarrow> 'a list \<Rightarrow> 'a list" where
  "remove_at i xs = take i xs @ drop (Suc i) xs"

lemma in_split_distinct:
  assumes "x \<in> set xs" "distinct xs"
  obtains ys zs where "xs = ys @ x # zs" "x \<notin> set ys" "x \<notin> set zs"
  using assms by (metis distinct.simps(2) distinct_append not_distinct_conv_prefix split_list
      Un_iff disjoint_insert(1) list.simps(15))

lemma remove1_split: "x \<notin> set ys \<Longrightarrow> remove1 x (ys @ x # zs) = ys @ zs"
  by (simp add: remove1_append)

end
