(* ===== verification/FreeQueue.thy ===== *)
theory FreeQueue imports Prelude
begin

text \<open>
  \<^verbatim>\<open>vllm/v1/core/kv_cache_utils.py\<close>: the block metadata \<open>KVCacheBlock\<close> and the
  intrusive doubly linked list \<open>FreeKVCacheBlockQueue\<close> of free blocks.

  The code links Python objects through \<open>prev_free_block\<close> and \<open>next_free_block\<close>, with
  a fake head and a fake tail. The model keeps the objects in a store: a \<open>ref\<close> is a pointer
  (\<open>Head\<close> and \<open>Tail\<close> for the fake blocks, \<open>Blk i\<close> for the block whose
  \<open>block_id\<close> is \<open>i\<close>), and the store maps pointers to objects. Every pointer write
  of the code is one write here, in the code's order.

  \<open>queue_repr q xs\<close> says that the links of \<open>q\<close> spell the list \<open>xs\<close> of block
  ids. Each operation is shown to implement the list operation its docstring promises.
\<close>

section \<open>Blocks and the store\<close>

datatype ref = Head | Tail | Blk nat

type_synonym bytes = "8 word list"

record kv_block =
  block_id :: int
  ref_cnt :: int
  block_hash :: "bytes option"
  block_hash_num_tokens :: "int option"
  prev_free_block :: "ref option"
  next_free_block :: "ref option"
  is_null :: bool

type_synonym store = "ref \<Rightarrow> kv_block"

definition new_block :: "int \<Rightarrow> kv_block" where
  "new_block i = \<lparr>block_id = i, ref_cnt = 0, block_hash = None,
     block_hash_num_tokens = None, prev_free_block = None, next_free_block = None,
     is_null = False\<rparr>"

definition set_block_hash :: "kv_block \<Rightarrow> bytes \<Rightarrow> int option \<Rightarrow> kv_block res" where
  "set_block_hash b h num_tokens =
     bind_res (assert_res (block_hash b = None \<and> block_hash_num_tokens b = None)
       AssertionError)
     (\<lambda>_. Inr (b\<lparr>block_hash := Some h, block_hash_num_tokens := num_tokens\<rparr>))"

definition reset_hash :: "kv_block \<Rightarrow> kv_block" where
  "reset_hash b = b\<lparr>block_hash := None, block_hash_num_tokens := None\<rparr>"

definition upd_block :: "ref \<Rightarrow> (kv_block \<Rightarrow> kv_block) \<Rightarrow> store \<Rightarrow> store" where
  "upd_block r f s = s(r := f (s r))"

definition set_next :: "ref \<Rightarrow> ref option \<Rightarrow> store \<Rightarrow> store" where
  "set_next r v = upd_block r (next_free_block_update (\<lambda>_. v))"

definition set_prev :: "ref \<Rightarrow> ref option \<Rightarrow> store \<Rightarrow> store" where
  "set_prev r v = upd_block r (prev_free_block_update (\<lambda>_. v))"

abbreviation next_of :: "store \<Rightarrow> ref \<Rightarrow> ref option" where
  "next_of s r \<equiv> next_free_block (s r)"

abbreviation prev_of :: "store \<Rightarrow> ref \<Rightarrow> ref option" where
  "prev_of s r \<equiv> prev_free_block (s r)"

named_theorems link_simps "reading a link after a pointer write"

lemma next_set_next [link_simps]: "next_of (set_next r v s) r' = (if r' = r then v else next_of s r')"
  by (simp add: set_next_def upd_block_def)

lemma next_set_prev [link_simps]: "next_of (set_prev r v s) r' = next_of s r'"
  by (simp add: set_prev_def upd_block_def)

lemma prev_set_prev [link_simps]: "prev_of (set_prev r v s) r' = (if r' = r then v else prev_of s r')"
  by (simp add: set_prev_def upd_block_def)

lemma prev_set_next [link_simps]: "prev_of (set_next r v s) r' = prev_of s r'"
  by (simp add: set_next_def upd_block_def)

section \<open>The queue\<close>

record free_queue =
  num_free_blocks :: int
  fq_store :: store

text \<open>\<^verbatim>\<open>FreeKVCacheBlockQueue.__init__\<close>: the loop that links consecutive blocks, then
  the fake head and tail.\<close>

definition link_step :: "ref list \<Rightarrow> nat \<Rightarrow> store \<Rightarrow> store" where
  "link_step blocks i s =
     (let s1 = (if 0 < i then set_prev (blocks ! i) (Some (blocks ! (i - 1))) s else s)
      in if i < length blocks - 1 then set_next (blocks ! i) (Some (blocks ! (i + 1))) s1 else s1)"

definition init_queue :: "ref list \<Rightarrow> store \<Rightarrow> free_queue" where
  "init_queue blocks s =
     (let s1 = fold (link_step blocks) [0..<length blocks] s;
          s2 = s1(Head := new_block (-1), Tail := new_block (-1));
          s3 = (if 0 < length blocks then
                  set_next (last blocks) (Some Tail)
                    (set_prev Tail (Some (last blocks))
                      (set_prev (hd blocks) (Some Head)
                        (set_next Head (Some (hd blocks)) s2)))
                else set_prev Tail (Some Head) (set_next Head (Some Tail) s2))
      in \<lparr>num_free_blocks = int (length blocks), fq_store = s3\<rparr>)"

definition popleft :: "free_queue \<Rightarrow> (ref \<times> free_queue) res" where
  "popleft q =
     (let s = fq_store q in
      case next_of s Head of
        None \<Rightarrow> bind_res (assert_res (num_free_blocks q = 0) AssertionError) (\<lambda>_. Inl ValueError)
      | Some first_block \<Rightarrow>
          if first_block = Tail
          then bind_res (assert_res (num_free_blocks q = 0) AssertionError) (\<lambda>_. Inl ValueError)
          else (case next_of s first_block of
              None \<Rightarrow> Inl RuntimeError
            | Some second \<Rightarrow>
                let s1 = set_next Head (Some second) s;
                    s2 = set_prev second (Some Head) s1;
                    s3 = set_next first_block None (set_prev first_block None s2)
                in Inr (first_block,
                     q\<lparr>num_free_blocks := num_free_blocks q - 1, fq_store := s3\<rparr>)))"

text \<open>The loop of \<open>popleft_n\<close>: \<open>curr_block\<close>, the blocks popped so far, the store.\<close>

fun popleft_loop :: "nat \<Rightarrow> ref option \<Rightarrow> ref list \<Rightarrow> store
    \<Rightarrow> (ref option \<times> ref list \<times> store) res" where
  "popleft_loop 0 cur ret s = Inr (cur, ret, s)"
| "popleft_loop (Suc n) cur ret s =
     (case cur of None \<Rightarrow> Inl AssertionError
      | Some b \<Rightarrow>
          popleft_loop n (next_of s b) (ret @ [b]) (set_next b None (set_prev b None s)))"

definition popleft_n :: "free_queue \<Rightarrow> int \<Rightarrow> (ref list \<times> free_queue) res" where
  "popleft_n q n =
     (if n = 0 then Inr ([], q)
      else bind_res (assert_res (n \<le> num_free_blocks q) AssertionError)
        (\<lambda>_. let q1 = q\<lparr>num_free_blocks := num_free_blocks q - n\<rparr>; s = fq_store q1 in
          bind_res (popleft_loop (nat n) (next_of s Head) [] s)
            (\<lambda>(cur, ret, s1).
               Inr (ret, q1\<lparr>fq_store :=
                 (case cur of None \<Rightarrow> s1
                  | Some b \<Rightarrow> set_prev b (Some Head) (set_next Head (Some b) s1))\<rparr>))))"

definition remove_block :: "free_queue \<Rightarrow> ref \<Rightarrow> free_queue res" where
  "remove_block q b =
     (let s = fq_store q in
      case (prev_of s b, next_of s b) of
        (Some p, Some n) \<Rightarrow>
          let s1 = set_next p (Some n) s;
              s2 = set_prev n (Some p) s1;
              s3 = set_next b None (set_prev b None s2)
          in Inr (q\<lparr>num_free_blocks := num_free_blocks q - 1, fq_store := s3\<rparr>)
      | _ \<Rightarrow> Inl RuntimeError)"

definition append_block :: "free_queue \<Rightarrow> ref \<Rightarrow> free_queue res" where
  "append_block q b =
     (let s = fq_store q in
      case prev_of s Tail of
        None \<Rightarrow> Inl RuntimeError
      | Some last_block \<Rightarrow>
          let s1 = set_prev b (Some last_block) (set_next last_block (Some b) s);
              s2 = set_prev Tail (Some b) (set_next b (Some Tail) s1)
          in Inr (q\<lparr>num_free_blocks := num_free_blocks q + 1, fq_store := s2\<rparr>))"

text \<open>The loop shared by \<open>prepend_n\<close> and \<open>append_n\<close>: chain the blocks after
  \<open>prev_block\<close>; the result is the last block of the chain.\<close>

fun chain_loop :: "ref list \<Rightarrow> ref \<Rightarrow> store \<Rightarrow> ref \<times> store" where
  "chain_loop [] prev_block s = (prev_block, s)"
| "chain_loop (b # bs) prev_block s =
     chain_loop bs b (set_next prev_block (Some b) (set_prev b (Some prev_block) s))"

definition prepend_n :: "free_queue \<Rightarrow> ref list \<Rightarrow> free_queue res" where
  "prepend_n q blocks =
     (if blocks = [] then Inr q
      else let s = fq_store q in
       case next_of s Head of
         None \<Rightarrow> Inl AssertionError
       | Some first_block \<Rightarrow>
           let (prev_block, s1) = chain_loop blocks Head s;
               s2 = set_prev first_block (Some prev_block)
                      (set_next prev_block (Some first_block) s1)
           in Inr (q\<lparr>num_free_blocks := num_free_blocks q + int (length blocks),
                     fq_store := s2\<rparr>))"

definition append_n :: "free_queue \<Rightarrow> ref list \<Rightarrow> free_queue res" where
  "append_n q blocks =
     (if blocks = [] then Inr q
      else let s = fq_store q in
       case prev_of s Tail of
         None \<Rightarrow> Inl AssertionError
       | Some last_block \<Rightarrow>
           let (last', s1) = chain_loop blocks last_block s;
               s2 = set_prev Tail (Some last') (set_next last' (Some Tail) s1)
           in Inr (q\<lparr>num_free_blocks := num_free_blocks q + int (length blocks),
                     fq_store := s2\<rparr>))"

text \<open>The two traversals. Their loops follow pointers and stop only where a pointer does:
  \<open>None\<close> is a traversal that does not return.\<close>

partial_function (option) collect_free :: "store \<Rightarrow> ref \<Rightarrow> ref list \<Rightarrow> ref list option" where
  "collect_free s cur ret =
     (case next_of s cur of None \<Rightarrow> Some ret
      | Some nx \<Rightarrow> collect_free s nx (ret @ [cur]))"

definition get_all_free_blocks :: "free_queue \<Rightarrow> ref list option res" where
  "get_all_free_blocks q =
     (case next_of (fq_store q) Head of None \<Rightarrow> Inl RuntimeError
      | Some first_block \<Rightarrow> Inr (collect_free (fq_store q) first_block []))"

partial_function (option) iter_free :: "store \<Rightarrow> ref option \<Rightarrow> ref list \<Rightarrow> ref list option" where
  "iter_free s cur acc =
     (case cur of None \<Rightarrow> Some acc
      | Some b \<Rightarrow> if b = Tail then Some acc
                 else iter_free s (next_of s b) (acc @ [b]))"

definition iter_blocks_after :: "free_queue \<Rightarrow> ref option \<Rightarrow> ref list option" where
  "iter_blocks_after q cursor =
     iter_free (fq_store q)
       (case cursor of None \<Rightarrow> next_of (fq_store q) Head | Some c \<Rightarrow> next_of (fq_store q) c) []"

section \<open>What the links mean\<close>

text \<open>\<open>linked s ps\<close>: consecutive pointers of \<open>ps\<close> point at each other.\<close>

fun linked :: "store \<Rightarrow> ref list \<Rightarrow> bool" where
  "linked s (p # q # rs) =
     (next_of s p = Some q \<and> prev_of s q = Some p \<and> linked s (q # rs))"
| "linked s _ = True"

definition same_links :: "store \<Rightarrow> store \<Rightarrow> bool" where
  "same_links s t \<longleftrightarrow> (\<forall>r. next_of s r = next_of t r \<and> prev_of s r = prev_of t r)"

definition queue_repr :: "free_queue \<Rightarrow> nat list \<Rightarrow> bool" where
  "queue_repr q xs \<longleftrightarrow>
     distinct xs \<and> num_free_blocks q = int (length xs) \<and>
     linked (fq_store q) (Head # map Blk xs @ [Tail]) \<and>
     prev_of (fq_store q) Head = None \<and> next_of (fq_store q) Tail = None \<and>
     (\<forall>i. i \<notin> set xs \<longrightarrow>
        next_of (fq_store q) (Blk i) = None \<and> prev_of (fq_store q) (Blk i) = None)"

lemma linked_append:
  "linked s (xs @ y # zs) \<longleftrightarrow> linked s (xs @ [y]) \<and> linked s (y # zs)"
proof (induction xs)
  case Nil
  then show ?case by simp
next
  case (Cons x xs)
  then show ?case by (cases xs) auto
qed

lemma linked_append2:
  "linked s (xs @ y # z # zs) \<longleftrightarrow>
     linked s (xs @ [y]) \<and> next_of s y = Some z \<and> prev_of s z = Some y \<and> linked s (z # zs)"
  by (subst linked_append) simp

text \<open>Frame rules: a chain only reads the next link of all but its last pointer and the
  previous link of all but its first.\<close>

lemma linked_cong:
  assumes "\<And>r. r \<in> set (butlast ps) \<Longrightarrow> next_of s r = next_of t r"
    and "\<And>r. r \<in> set (tl ps) \<Longrightarrow> prev_of s r = prev_of t r"
  shows "linked s ps = linked t ps"
  using assms
proof (induction ps rule: linked.induct[where ?a0.0 = s])
  case (1 s p q rs)
  have "linked s (q # rs) = linked t (q # rs)"
    using "1.prems" by (intro "1.IH") (auto split: if_splits)
  then show ?case using "1.prems"(1)[of p] "1.prems"(2)[of q] by simp
qed auto

lemma linked_set_next: "r \<notin> set (butlast ps) \<Longrightarrow> linked (set_next r v s) ps = linked s ps"
  by (rule linked_cong) (auto simp: link_simps)

lemma linked_set_prev: "r \<notin> set (tl ps) \<Longrightarrow> linked (set_prev r v s) ps = linked s ps"
  by (rule linked_cong) (auto simp: link_simps)

lemma in_set_tlD: "x \<in> set (tl xs) \<Longrightarrow> x \<in> set xs"
  by (cases xs) auto

lemma linked_frame:
  "r \<notin> set ps \<Longrightarrow> linked (set_next r v s) ps = linked s ps"
  "r \<notin> set ps \<Longrightarrow> linked (set_prev r v s) ps = linked s ps"
  "r \<notin> set qs \<Longrightarrow> linked (set_prev r v s) (p # qs) = linked s (p # qs)"
  "r \<notin> set qs \<Longrightarrow> linked (set_next r v s) (qs @ [p]) = linked s (qs @ [p])"
  by (auto intro!: linked_set_next linked_set_prev dest: in_set_butlastD in_set_tlD
      simp: butlast_append)

lemmas frame_simps = linked_frame link_simps

lemma linked_nextD:
  assumes "linked s ps" "ps = as @ p # q # bs"
  shows "next_of s p = Some q" "prev_of s q = Some p"
  using assms by (auto simp: linked_append2)

lemma queue_reprD:
  assumes "queue_repr q xs"
  shows "distinct xs" "num_free_blocks q = int (length xs)"
    "linked (fq_store q) (Head # map Blk xs @ [Tail])"
    "prev_of (fq_store q) Head = None" "next_of (fq_store q) Tail = None"
  using assms by (auto simp: queue_repr_def)

lemma next_Head:
  assumes "queue_repr q xs"
  shows "next_of (fq_store q) Head = Some (hd (map Blk xs @ [Tail]))"
  using queue_reprD(3)[OF assms] by (cases xs) auto

lemma prev_Tail:
  assumes "queue_repr q xs"
  shows "prev_of (fq_store q) Tail = Some (last (Head # map Blk xs))"
proof -
  have "linked (fq_store q) (butlast (Head # map Blk xs) @ last (Head # map Blk xs) # Tail # [])"
    using queue_reprD(3)[OF assms] by (metis append.assoc append_Cons append_Nil
        append_butlast_last_id list.discI)
  then show ?thesis by (rule linked_nextD(2)) simp
qed

section \<open>Splicing a chain\<close>

text \<open>The one lemma behind every operation: chaining \<open>ys\<close> after \<open>p\<close> and closing the
  chain at \<open>n\<close> puts \<open>ys\<close> between \<open>p\<close> and \<open>n\<close> and touches no other link.\<close>

definition close_chain :: "ref \<times> store \<Rightarrow> ref \<Rightarrow> store" where
  "close_chain c n = set_prev n (Some (fst c)) (set_next (fst c) (Some n) (snd c))"

lemma splice:
  assumes "linked s (as @ [p])" "linked s (n # bs)" "distinct (as @ p # ys @ n # bs)"
  shows "linked (close_chain (chain_loop ys p s) n) (as @ p # ys @ n # bs) \<and>
    (\<forall>r. r \<notin> set (p # ys) \<longrightarrow> next_of (close_chain (chain_loop ys p s) n) r = next_of s r) \<and>
    (\<forall>r. r \<notin> set (ys @ [n]) \<longrightarrow> prev_of (close_chain (chain_loop ys p s) n) r = prev_of s r)"
  using assms
proof (induction ys arbitrary: as p s)
  case Nil
  let ?s' = "set_prev n (Some p) (set_next p (Some n) s)"
  have "linked ?s' (as @ [p])"
    using Nil by (subst linked_cong[of _ _ s]) (auto simp: link_simps butlast_append dest!: in_set_tlD)
  moreover have "linked ?s' (n # bs)"
    using Nil by (subst linked_cong[of _ _ s])
      (auto simp: link_simps split: if_splits dest!: in_set_butlastD)
  ultimately show ?case
    using Nil by (auto simp: close_chain_def linked_append2 link_simps)
next
  case (Cons b ys)
  let ?s1 = "set_next p (Some b) (set_prev b (Some p) s)"
  have "linked ?s1 (as @ [p])"
    using Cons.prems by (subst linked_cong[of _ _ s])
      (auto simp: link_simps butlast_append dest!: in_set_tlD)
  then have 1: "linked ?s1 ((as @ [p]) @ [b])"
    using linked_append2[of ?s1 as p b "[]"] Cons.prems by (simp add: link_simps)
  have 2: "linked ?s1 (n # bs)"
    using Cons.prems by (subst linked_cong[of _ _ s])
      (auto simp: link_simps split: if_splits dest!: in_set_butlastD)
  note IH = Cons.IH[OF 1 2]
  show ?case using IH Cons.prems by (auto simp: link_simps)
qed

lemma close_chain_Nil: "close_chain (chain_loop [] p s) n = set_prev n (Some p) (set_next p (Some n) s)"
  by (simp add: close_chain_def)

lemma set_next_prev_comm: "set_next r v (set_prev r' v' s) = set_prev r' v' (set_next r v s)"
  by (auto simp: set_next_def set_prev_def upd_block_def fun_eq_iff)

text \<open>Both ends of the chain of a queue, split at a boundary.\<close>

lemma distinct_Head_Tail: "distinct (Head # map Blk xs @ [Tail]) \<longleftrightarrow> distinct xs"
  by (auto simp: distinct_map inj_on_def)

lemma repr_split:
  assumes "queue_repr q (as @ bs)"
  obtains ps p n ns where "Head # map Blk as = ps @ [p]" "map Blk bs @ [Tail] = n # ns"
    "linked (fq_store q) (ps @ [p])" "linked (fq_store q) (n # ns)"
    "next_of (fq_store q) p = Some n" "prev_of (fq_store q) n = Some p"
proof -
  obtain ps p where ps: "Head # map Blk as = ps @ [p]" by (metis rev_exhaust list.discI)
  obtain n ns where ns: "map Blk bs @ [Tail] = n # ns" by (cases "map Blk bs @ [Tail]") auto
  have "Head # map Blk (as @ bs) @ [Tail] = (Head # map Blk as) @ (map Blk bs @ [Tail])" by simp
  also have "\<dots> = ps @ p # n # ns" by (simp only: ps ns append.assoc append_Cons append_Nil)
  finally have "linked (fq_store q) (ps @ p # n # ns)" using queue_reprD(3)[OF assms] by simp
  then show ?thesis using that[OF ps ns] by (simp add: linked_append2)
qed

lemma split_distinct:
  assumes "Head # map Blk as = ps @ [p]" "map Blk bs @ [Tail] = n # ns" "distinct (as @ xs @ bs)"
  shows "distinct (ps @ p # map Blk xs @ n # ns)"
proof -
  have "Head # map Blk (as @ xs @ bs) @ [Tail]
      = (Head # map Blk as) @ map Blk xs @ (map Blk bs @ [Tail])" by simp
  also have "\<dots> = ps @ p # map Blk xs @ n # ns"
    by (simp only: assms append.assoc append_Cons append_Nil)
  finally show ?thesis using assms(3) distinct_Head_Tail by metis
qed

lemma split_ends:
  assumes "Head # map Blk as = ps @ [p]" "map Blk bs @ [Tail] = n # ns"
  shows "p = Head \<or> p \<in> Blk ` set as" "n = Tail \<or> n \<in> Blk ` set bs"
    "ps @ p # map Blk xs @ n # ns = Head # map Blk (as @ xs @ bs) @ [Tail]"
proof -
  show "p = Head \<or> p \<in> Blk ` set as" using assms(1) by (cases as rule: rev_cases) auto
  show "n = Tail \<or> n \<in> Blk ` set bs" using assms(2) by (cases bs) auto
  have "ps @ p # map Blk xs @ n # ns = (ps @ [p]) @ map Blk xs @ (n # ns)" by simp
  also have "\<dots> = (Head # map Blk as) @ map Blk xs @ (map Blk bs @ [Tail])"
    by (simp only: assms)
  finally show "ps @ p # map Blk xs @ n # ns = Head # map Blk (as @ xs @ bs) @ [Tail]" by simp
qed

text \<open>Inserting \<open>xs\<close> anywhere in the chain.\<close>

lemma insert_repr:
  assumes q: "queue_repr q (as @ bs)" and xs: "distinct xs" "set xs \<inter> set (as @ bs) = {}"
    and ps: "Head # map Blk as = ps @ [p]" "map Blk bs @ [Tail] = n # ns"
  shows "queue_repr (q\<lparr>num_free_blocks := num_free_blocks q + int (length xs),
      fq_store := close_chain (chain_loop (map Blk xs) p (fq_store q)) n\<rparr>) (as @ xs @ bs)"
proof -
  let ?s = "fq_store q" and ?s' = "close_chain (chain_loop (map Blk xs) p (fq_store q)) n"
  obtain ps' p' n' ns' where sp: "Head # map Blk as = ps' @ [p']" "map Blk bs @ [Tail] = n' # ns'"
    "linked ?s (ps' @ [p'])" "linked ?s (n' # ns')" using repr_split[OF q] by metis
  then have lk: "linked ?s (ps @ [p])" "linked ?s (n # ns)" using ps by auto
  have d: "distinct (as @ xs @ bs)" using q xs by (auto simp: queue_repr_def)
  note S = splice[OF lk split_distinct[OF ps d]]
  note E = split_ends[OF ps]
  have "linked ?s' (Head # map Blk (as @ xs @ bs) @ [Tail])" using S E(3)[of xs] by simp
  moreover have "prev_of ?s' Head = None" "next_of ?s' Tail = None"
    using S E(1,2) q by (auto simp: queue_repr_def)
  moreover have "next_of ?s' (Blk i) = None \<and> prev_of ?s' (Blk i) = None"
    if "i \<notin> set (as @ xs @ bs)" for i
  proof -
    have "Blk i \<notin> set (p # map Blk xs)" "Blk i \<notin> set (map Blk xs @ [n])" using that E(1,2) by auto
    then show ?thesis using S q that by (simp add: queue_repr_def)
  qed
  ultimately show ?thesis using q d by (simp add: queue_repr_def)
qed

section \<open>Each operation implements its list operation\<close>

lemma append_n_repr:
  assumes "queue_repr q xs" "distinct ys" "set ys \<inter> set xs = {}"
  obtains q' where "append_n q (map Blk ys) = Inr q'" "queue_repr q' (xs @ ys)"
proof (cases "ys = []")
  case True
  then show ?thesis using that assms by (simp add: append_n_def)
next
  case False
  have q: "queue_repr q (xs @ [])" using assms by simp
  obtain ps p n ns where ps: "Head # map Blk xs = ps @ [p]" "map Blk [] @ [Tail] = n # ns"
    "prev_of (fq_store q) n = Some p" using repr_split[OF q] by metis
  have ap: "append_n q (map Blk ys) = Inr (q\<lparr>num_free_blocks := num_free_blocks q + int (length ys),
      fq_store := close_chain (chain_loop (map Blk ys) p (fq_store q)) Tail\<rparr>)"
    using ps False by (auto simp: append_n_def close_chain_def Let_def split: prod.split)
  have "queue_repr (q\<lparr>num_free_blocks := num_free_blocks q + int (length ys),
      fq_store := close_chain (chain_loop (map Blk ys) p (fq_store q)) n\<rparr>) (xs @ ys @ [])"
    using insert_repr[OF q assms(2) _ ps(1,2)] assms(3) by simp
  with ap ps(2) that show ?thesis by simp
qed

lemma prepend_n_repr:
  assumes "queue_repr q xs" "distinct ys" "set ys \<inter> set xs = {}"
  obtains q' where "prepend_n q (map Blk ys) = Inr q'" "queue_repr q' (ys @ xs)"
proof (cases "ys = []")
  case True
  then show ?thesis using that assms by (simp add: prepend_n_def)
next
  case False
  have q: "queue_repr q ([] @ xs)" using assms by simp
  obtain ps p n ns where ps: "Head # map Blk [] = ps @ [p]" "map Blk xs @ [Tail] = n # ns"
    "next_of (fq_store q) p = Some n" using repr_split[OF q] by metis
  have p: "p = Head" using ps(1) by (cases ps) auto
  have ap: "prepend_n q (map Blk ys) = Inr (q\<lparr>num_free_blocks := num_free_blocks q + int (length ys),
      fq_store := close_chain (chain_loop (map Blk ys) Head (fq_store q)) n\<rparr>)"
    using ps p False by (auto simp: prepend_n_def close_chain_def Let_def split: prod.split)
  have "queue_repr (q\<lparr>num_free_blocks := num_free_blocks q + int (length ys),
      fq_store := close_chain (chain_loop (map Blk ys) p (fq_store q)) n\<rparr>) ([] @ ys @ xs)"
    using insert_repr[OF q assms(2) _ ps(1,2)] assms(3) by simp
  with ap p that show ?thesis by simp
qed

lemma append_block_eq: "prev_of (fq_store q) Tail \<noteq> None \<Longrightarrow> append_block q b = append_n q [b]"
  by (auto simp: append_block_def append_n_def Let_def set_next_prev_comm)

lemma append_block_repr:
  assumes "queue_repr q xs" "x \<notin> set xs"
  obtains q' where "append_block q (Blk x) = Inr q'" "queue_repr q' (xs @ [x])"
  using append_n_repr[of q xs "[x]"] append_block_eq[of q "Blk x"] prev_Tail[OF assms(1)] assms
  by auto

text \<open>Removing a segment \<open>xs\<close> of the chain: its neighbours are joined and its own links
  are cleared.\<close>

lemma delete_repr:
  assumes q: "queue_repr q (as @ xs @ bs)"
    and ps: "Head # map Blk as = ps @ [p]" "map Blk bs @ [Tail] = n # ns"
    and nx: "\<And>r. next_of s' r = (if r = p then Some n else if r \<in> Blk ` set xs then None
               else next_of (fq_store q) r)"
    and pv: "\<And>r. prev_of s' r = (if r = n then Some p else if r \<in> Blk ` set xs then None
               else prev_of (fq_store q) r)"
  shows "queue_repr (q\<lparr>num_free_blocks := num_free_blocks q - int (length xs), fq_store := s'\<rparr>)
           (as @ bs)"
proof -
  let ?s = "fq_store q"
  have d: "distinct (as @ xs @ bs)" using q by (simp add: queue_repr_def)
  have D: "distinct (ps @ p # map Blk xs @ n # ns)" by (rule split_distinct[OF ps d])
  note E = split_ends[OF ps]
  have A: "linked ?s (ps @ p # map Blk xs @ n # ns)"
    using q E(3)[of xs] by (simp add: queue_repr_def)
  then have "linked ?s ((ps @ p # map Blk xs) @ n # ns)" by simp
  then have "linked ?s (n # ns)" using linked_append by blast
  moreover have "linked ?s (ps @ [p])" using A linked_append by blast
  moreover have X: "r \<notin> Blk ` set xs" if "r \<in> set (ps @ p # n # ns)" for r using D that by auto
  moreover have "linked s' (ps @ [p]) = linked ?s (ps @ [p])"
  proof (rule linked_cong)
    fix r assume "r \<in> set (butlast (ps @ [p]))"
    then show "next_of s' r = next_of ?s r" using D X[of r] by (auto simp: nx)
  next
    fix r assume "r \<in> set (tl (ps @ [p]))"
    then have "r \<in> set (ps @ [p])" by (rule in_set_tlD)
    then show "prev_of s' r = prev_of ?s r" using D X[of r] by (auto simp: pv)
  qed
  moreover have "linked s' (n # ns) = linked ?s (n # ns)"
  proof (rule linked_cong)
    fix r assume "r \<in> set (butlast (n # ns))"
    then have "r \<in> set (n # ns)" by (rule in_set_butlastD)
    then show "next_of s' r = next_of ?s r" using D X[of r] by (auto simp: nx)
  next
    fix r assume "r \<in> set (tl (n # ns))"
    then show "prev_of s' r = prev_of ?s r" using D X[of r] by (auto simp: pv)
  qed
  ultimately have "linked s' (ps @ p # map Blk [] @ n # ns)"
    by (auto simp: linked_append2 nx pv)
  then have "linked s' (Head # map Blk (as @ bs) @ [Tail])" using E(3)[of "[]"] by simp
  moreover have "prev_of s' Head = None" "next_of s' Tail = None"
    using q E(1,2) by (auto simp: nx pv queue_repr_def)
  moreover have "next_of s' (Blk i) = None \<and> prev_of s' (Blk i) = None" if "i \<notin> set (as @ bs)" for i
    using that q E(1,2) by (auto simp: nx pv queue_repr_def)
  ultimately show ?thesis using q d by (auto simp: queue_repr_def)
qed

lemma popleft_empty: "queue_repr q [] \<Longrightarrow> popleft q = Inl ValueError"
  by (simp add: popleft_def queue_repr_def)

lemma popleft_repr:
  assumes "queue_repr q (x # xs)"
  obtains q' where "popleft q = Inr (Blk x, q')" "queue_repr q' xs"
proof -
  let ?s = "fq_store q"
  have q: "queue_repr q ([] @ [x] @ xs)" "queue_repr q ([x] @ xs)" using assms by auto
  obtain ps p n ns where ps: "Head # map Blk [x] = ps @ [p]" "map Blk xs @ [Tail] = n # ns"
    "next_of ?s p = Some n" using repr_split[OF q(2)] by metis
  have p: "p = Blk x" using ps(1) by (cases ps rule: rev_cases) (auto simp: Cons_eq_append_conv)
  have hd: "next_of ?s Head = Some (Blk x)" using next_Head[OF assms] by simp
  let ?s' = "set_next (Blk x) None (set_prev (Blk x) None (set_prev n (Some Head) (set_next Head (Some n) ?s)))"
  have pop: "popleft q = Inr (Blk x, q\<lparr>num_free_blocks := num_free_blocks q - 1, fq_store := ?s'\<rparr>)"
    using hd ps(3) p by (simp add: popleft_def Let_def)
  have "n \<noteq> Blk x" using ps(2) queue_reprD(1)[OF assms] by (cases xs) auto
  then have "queue_repr (q\<lparr>num_free_blocks := num_free_blocks q - int (length [x]), fq_store := ?s'\<rparr>) ([] @ xs)"
    by (intro delete_repr[OF q(1), where ps = "[]" and p = Head and n = n and ns = ns])
      (auto simp: ps link_simps)
  with pop that show ?thesis by simp
qed

lemma remove_block_repr:
  assumes "queue_repr q (as @ x # bs)"
  obtains q' where "remove_block q (Blk x) = Inr q'" "queue_repr q' (as @ bs)"
proof -
  let ?s = "fq_store q"
  have q: "queue_repr q (as @ [x] @ bs)" "queue_repr q ((as @ [x]) @ bs)" using assms by auto
  obtain ps p n' ns' where ps: "Head # map Blk as = ps @ [p]" "map Blk ([x] @ bs) @ [Tail] = n' # ns'"
    "prev_of ?s n' = Some p" using repr_split[OF q(1)] by metis
  obtain ps' p' n ns where ns: "Head # map Blk (as @ [x]) = ps' @ [p']" "map Blk bs @ [Tail] = n # ns"
    "next_of ?s p' = Some n" using repr_split[OF q(2)] by metis
  have e: "n' = Blk x" "p' = Blk x" using ps(2) ns(1) by auto
  let ?s' = "set_next (Blk x) None (set_prev (Blk x) None (set_prev n (Some p) (set_next p (Some n) ?s)))"
  have rem: "remove_block q (Blk x) = Inr (q\<lparr>num_free_blocks := num_free_blocks q - 1, fq_store := ?s'\<rparr>)"
    using ps(3) ns(3) e by (simp add: remove_block_def Let_def)
  have "p \<noteq> Blk x" "n \<noteq> Blk x"
    using split_ends(1,2)[OF ps(1) ns(2)] queue_reprD(1)[OF assms] by auto
  then have "queue_repr (q\<lparr>num_free_blocks := num_free_blocks q - int (length [x]), fq_store := ?s'\<rparr>) (as @ bs)"
    by (intro delete_repr[OF q(1) ps(1) ns(2)]) (auto simp: link_simps)
  with rem that show ?thesis by simp
qed

lemma remove_block_notin:
  "queue_repr q xs \<Longrightarrow> x \<notin> set xs \<Longrightarrow> remove_block q (Blk x) = Inl RuntimeError"
  by (simp add: remove_block_def queue_repr_def Let_def)

lemma popleft_loop_spec:
  fixes s :: store
  assumes "linked s (map Blk ys @ n # ns)" "distinct (map Blk ys @ n # ns)"
  obtains s' where
    "popleft_loop (length ys) (Some (hd (map Blk ys @ [n]))) ret s = Inr (Some n, ret @ map Blk ys, s')"
    "\<And>r. next_of s' r = (if r \<in> Blk ` set ys then None else next_of s r)"
    "\<And>r. prev_of s' r = (if r \<in> Blk ` set ys then None else prev_of s r)"
  using assms
proof (induction ys arbitrary: s ret thesis)
  case Nil
  then show ?case by simp
next
  case (Cons y ys)
  let ?s1 = "set_next (Blk y) None (set_prev (Blk y) None s)"
  have nx: "next_of s (Blk y) = Some (hd (map Blk ys @ [n]))"
    using Cons.prems(2) by (cases ys) auto
  have "linked s (map Blk ys @ n # ns)" using Cons.prems(2) by (cases ys) auto
  then have "linked ?s1 (map Blk ys @ n # ns)" using Cons.prems(3) by (simp add: frame_simps)
  with Cons.IH[where s = ?s1 and ret = "ret @ [Blk y]"] Cons.prems(3) obtain s' where s':
    "popleft_loop (length ys) (Some (hd (map Blk ys @ [n]))) (ret @ [Blk y]) ?s1
       = Inr (Some n, (ret @ [Blk y]) @ map Blk ys, s')"
    "\<And>r. next_of s' r = (if r \<in> Blk ` set ys then None else next_of ?s1 r)"
    "\<And>r. prev_of s' r = (if r \<in> Blk ` set ys then None else prev_of ?s1 r)" by auto
  show ?case
    by (rule Cons.prems(1)[of s']) (use s' nx in \<open>auto simp: link_simps\<close>)
qed

lemma popleft_n_repr:
  assumes "queue_repr q (xs @ ys)"
  obtains q' where "popleft_n q (int (length xs)) = Inr (map Blk xs, q')" "queue_repr q' ys"
proof (cases "xs = []")
  case True
  then show ?thesis using that assms by (simp add: popleft_n_def)
next
  case False
  let ?s = "fq_store q"
  have q: "queue_repr q ([] @ xs @ ys)" using assms by simp
  obtain ps p n ns where ps: "Head # map Blk xs = ps @ [p]" "map Blk ys @ [Tail] = n # ns"
    using repr_split[OF assms] by metis
  have "linked ?s (Head # map Blk [] @ map Blk xs @ n # ns)"
    using queue_reprD(3)[OF assms] ps(2) by simp
  then have L: "linked ?s (map Blk xs @ n # ns)" using False by (cases xs) auto
  have D: "distinct (map Blk xs @ n # ns)"
    using split_distinct[of "[]" "[]" Head ys n ns xs] ps(2) queue_reprD(1)[OF assms] by simp
  obtain s' where s':
    "popleft_loop (length xs) (Some (hd (map Blk xs @ [n]))) [] ?s = Inr (Some n, [] @ map Blk xs, s')"
    "\<And>r. next_of s' r = (if r \<in> Blk ` set xs then None else next_of ?s r)"
    "\<And>r. prev_of s' r = (if r \<in> Blk ` set xs then None else prev_of ?s r)"
    using popleft_loop_spec[OF L D, where ret = "[]"] by blast
  have hd: "next_of ?s Head = Some (hd (map Blk xs @ [n]))"
    using next_Head[OF assms] False by (cases xs) auto
  let ?s2 = "set_prev n (Some Head) (set_next Head (Some n) s')"
  have pop: "popleft_n q (int (length xs)) =
      Inr (map Blk xs, q\<lparr>num_free_blocks := num_free_blocks q - int (length xs), fq_store := ?s2\<rparr>)"
    using hd s'(1) False queue_reprD(2)[OF assms] by (simp add: popleft_n_def Let_def)
  have "queue_repr (q\<lparr>num_free_blocks := num_free_blocks q - int (length xs), fq_store := ?s2\<rparr>) ([] @ ys)"
    by (intro delete_repr[OF q, where ps = "[]" and p = Head and n = n and ns = ns])
      (use D in \<open>auto simp: ps link_simps s'\<close>)
  with pop that show ?thesis by simp
qed

lemma popleft_n_too_many:
  "queue_repr q xs \<Longrightarrow> int (length xs) < n \<Longrightarrow> popleft_n q n = Inl AssertionError"
  by (auto simp: popleft_n_def queue_repr_def)

section \<open>Traversals return the list\<close>

lemma collect_free_spec:
  assumes "linked s (map Blk xs @ [Tail])" "next_of s Tail = None"
  shows "collect_free s (hd (map Blk xs @ [Tail])) ret = Some (ret @ map Blk xs)"
  using assms
proof (induction xs arbitrary: ret)
  case Nil
  then show ?case by (simp add: collect_free.simps)
next
  case (Cons x xs)
  have "next_of s (Blk x) = Some (hd (map Blk xs @ [Tail]))" "linked s (map Blk xs @ [Tail])"
    using Cons.prems(1) by (cases xs; auto)+
  then show ?case using Cons.IH[of "ret @ [Blk x]"] Cons.prems(2) by (simp add: collect_free.simps)
qed

lemma iter_free_spec:
  assumes "linked s (map Blk xs @ [Tail])"
  shows "iter_free s (Some (hd (map Blk xs @ [Tail]))) acc = Some (acc @ map Blk xs)"
  using assms
proof (induction xs arbitrary: acc)
  case Nil
  then show ?case by (simp add: iter_free.simps)
next
  case (Cons x xs)
  have "next_of s (Blk x) = Some (hd (map Blk xs @ [Tail]))" "linked s (map Blk xs @ [Tail])"
    using Cons.prems by (cases xs; auto)+
  then show ?case using Cons.IH[of "acc @ [Blk x]"] by (simp add: iter_free.simps)
qed

lemma linked_suffix: "linked s (as @ bs) \<Longrightarrow> linked s bs"
  by (cases bs) (simp, metis linked_append)

lemma get_all_free_blocks_repr:
  assumes "queue_repr q xs"
  shows "get_all_free_blocks q = Inr (Some (map Blk xs))"
proof -
  have "linked (fq_store q) ([Head] @ map Blk xs @ [Tail])" using queue_reprD(3)[OF assms] by simp
  then have "linked (fq_store q) (map Blk xs @ [Tail])" by (rule linked_suffix)
  then show ?thesis
    using collect_free_spec[of "fq_store q" xs "[]"] next_Head[OF assms] queue_reprD(5)[OF assms]
    by (simp add: get_all_free_blocks_def)
qed

lemma iter_blocks_after_repr:
  assumes "queue_repr q xs"
  shows "iter_blocks_after q None = Some (map Blk xs)"
    and "xs = as @ x # bs \<Longrightarrow> iter_blocks_after q (Some (Blk x)) = Some (map Blk bs)"
proof -
  let ?s = "fq_store q"
  have L: "linked ?s ([Head] @ map Blk xs @ [Tail])" using queue_reprD(3)[OF assms] by simp
  then have "linked ?s (map Blk xs @ [Tail])" by (rule linked_suffix)
  then show "iter_blocks_after q None = Some (map Blk xs)"
    using iter_free_spec[of ?s xs "[]"] next_Head[OF assms] by (simp add: iter_blocks_after_def)
  assume xs: "xs = as @ x # bs"
  have "linked ?s ((Head # map Blk as) @ Blk x # map Blk bs @ [Tail])" using L xs by simp
  then have 1: "linked ?s (Blk x # map Blk bs @ [Tail])" by (rule linked_suffix)
  then have "next_of ?s (Blk x) = Some (hd (map Blk bs @ [Tail]))" by (cases bs) auto
  moreover have "linked ?s (map Blk bs @ [Tail])" using 1 linked_suffix[of ?s "[Blk x]"] by simp
  ultimately show "iter_blocks_after q (Some (Blk x)) = Some (map Blk bs)"
    using iter_free_spec[of ?s bs "[]"] by (simp add: iter_blocks_after_def)
qed

section \<open>The initial queue\<close>

definition fresh_store :: "nat \<Rightarrow> store" where
  "fresh_store n r = (case r of Blk i \<Rightarrow> if i < n then new_block (int i) else new_block (-1)
                      | _ \<Rightarrow> new_block (-1))"

lemma link_fold_spec:
  fixes s :: store and n :: nat
  defines "bs \<equiv> map Blk [0..<n]"
  assumes "\<And>r. next_of s r = None" "\<And>r. prev_of s r = None" "k \<le> n"
  shows "next_of (fold (link_step bs) [0..<k] s) r =
      (case r of Blk i \<Rightarrow> if i < k \<and> i + 1 < n then Some (Blk (i + 1)) else None | _ \<Rightarrow> None) \<and>
    prev_of (fold (link_step bs) [0..<k] s) r =
      (case r of Blk i \<Rightarrow> if 0 < i \<and> i < k then Some (Blk (i - 1)) else None | _ \<Rightarrow> None)"
  using assms(4)
proof (induction k arbitrary: r)
  case 0
  then show ?case using assms(2,3) by (simp split: ref.split)
next
  case (Suc k)
  have k: "k \<le> n" "k < n" using Suc.prems by auto
  have nth: "bs ! k = Blk k" "0 < k \<Longrightarrow> bs ! (k - 1) = Blk (k - 1)"
    "k < n - 1 \<Longrightarrow> bs ! (k + 1) = Blk (k + 1)" "length bs = n"
    using k by (auto simp: bs_def)
  show ?case
    using Suc.IH[OF k(1), of r] nth k
    by (cases r) (auto simp: link_step_def Let_def link_simps less_Suc_eq)
qed

lemma linked_upt:
  assumes "\<And>i. a \<le> i \<Longrightarrow> i + 1 < b \<Longrightarrow> next_of s (Blk i) = Some (Blk (i + 1)) \<and> prev_of s (Blk (i + 1)) = Some (Blk i)"
  shows "linked s (map Blk [a..<b])"
  using assms
proof (induction "b - a" arbitrary: a)
  case 0
  then show ?case by simp
next
  case (Suc d)
  then have IH: "linked s (map Blk [Suc a..<b])" by auto
  show ?case
  proof (cases "Suc a < b")
    case True
    then show ?thesis using IH Suc.prems[of a] by (simp add: upt_conv_Cons)
  next
    case False
    then have "[a..<b] = [a]" using Suc.hyps(2) by (simp add: upt_conv_Cons)
    then show ?thesis by simp
  qed
qed

lemma init_queue_repr_of:
  assumes f: "\<And>r. next_of s0 r = None" "\<And>r. prev_of s0 r = None"
  shows "queue_repr (init_queue (map Blk [0..<n]) s0) [0..<n]"
proof (cases "n = 0")
  case True
  then show ?thesis
    by (auto simp: init_queue_def queue_repr_def Let_def link_simps f new_block_def)
next
  case False
  let ?bs = "map Blk [0..<n]"
  let ?s1 = "fold (link_step ?bs) [0..<n] s0"
  let ?s = "fq_store (init_queue ?bs s0)"
  note L = link_fold_spec[of s0 n n, OF f, simplified]
  have ends: "hd ?bs = Blk 0" "last ?bs = Blk (n - 1)" using False by (auto simp: hd_map last_map)
  have nx: "next_of ?s r = (case r of Head \<Rightarrow> Some (Blk 0) | Tail \<Rightarrow> None
      | Blk i \<Rightarrow> if i + 1 < n then Some (Blk (i + 1)) else if i + 1 = n then Some Tail else None)" for r
    using L[of r] ends False
    by (cases r) (auto simp: init_queue_def Let_def link_simps new_block_def)
  have pv: "prev_of ?s r = (case r of Head \<Rightarrow> None | Tail \<Rightarrow> Some (Blk (n - 1))
      | Blk i \<Rightarrow> if i = 0 then Some Head else if i < n then Some (Blk (i - 1)) else None)" for r
    using L[of r] ends False
    by (cases r) (auto simp: init_queue_def Let_def link_simps new_block_def)
  have "linked ?s (map Blk [0..<n])" by (rule linked_upt) (auto simp: nx pv)
  moreover have split: "map Blk [0..<n] = map Blk [0..<n - 1] @ [Blk (n - 1)]"
    using False by (cases n) auto
  ultimately have "linked ?s (map Blk [0..<n - 1] @ [Blk (n - 1)])" by simp
  then have "linked ?s (map Blk [0..<n - 1] @ Blk (n - 1) # [Tail])"
    using False by (simp add: linked_append2 nx pv)
  then have "linked ?s (map Blk [0..<n] @ [Tail])" by (simp add: split)
  moreover have "[0..<n] = 0 # [1..<n]" using False by (simp add: upt_conv_Cons)
  ultimately have 1: "linked ?s (map Blk [0..<n] @ [Tail])" and 2: "[0..<n] = 0 # [1..<n]" by auto
  have "linked s (Head # map Blk xs @ [Tail])"
    if "linked s (map Blk xs @ [Tail])" "xs = 0 # ys" "next_of s Head = Some (Blk 0)"
      "prev_of s (Blk 0) = Some Head" for s xs ys
    using that by simp
  from this[OF 1 2] have "linked ?s (Head # map Blk [0..<n] @ [Tail])" by (simp only: nx pv) simp
  then show ?thesis using False by (auto simp: queue_repr_def nx pv) (simp add: init_queue_def Let_def)
qed

lemma init_queue_repr: "queue_repr (init_queue (map Blk [0..<n]) (fresh_store n)) [0..<n]"
  by (rule init_queue_repr_of) (simp_all add: fresh_store_def new_block_def split: ref.split)

section \<open>Metadata the queue does not touch\<close>

text \<open>\<open>meta_of s r\<close> is the block without its links.\<close>

definition meta_of :: "store \<Rightarrow> ref \<Rightarrow> kv_block" where
  "meta_of s r = (s r)\<lparr>prev_free_block := None, next_free_block := None\<rparr>"

lemma meta_set_next [simp]: "meta_of (set_next r v s) = meta_of s"
  by (rule ext) (simp add: meta_of_def set_next_def upd_block_def)

lemma meta_set_prev [simp]: "meta_of (set_prev r v s) = meta_of s"
  by (rule ext) (simp add: meta_of_def set_prev_def upd_block_def)

lemma meta_eqD:
  assumes "meta_of s = meta_of t"
  shows "ref_cnt (s r) = ref_cnt (t r)" "block_hash (s r) = block_hash (t r)"
    "block_hash_num_tokens (s r) = block_hash_num_tokens (t r)" "is_null (s r) = is_null (t r)"
    "block_id (s r) = block_id (t r)"
proof -
  have e: "meta_of s r = meta_of t r" using assms by simp
  show "ref_cnt (s r) = ref_cnt (t r)" using arg_cong[OF e, of ref_cnt] by (simp add: meta_of_def)
  show "block_hash (s r) = block_hash (t r)" using arg_cong[OF e, of block_hash] by (simp add: meta_of_def)
  show "block_hash_num_tokens (s r) = block_hash_num_tokens (t r)"
    using arg_cong[OF e, of block_hash_num_tokens] by (simp add: meta_of_def)
  show "is_null (s r) = is_null (t r)" using arg_cong[OF e, of is_null] by (simp add: meta_of_def)
  show "block_id (s r) = block_id (t r)" using arg_cong[OF e, of block_id] by (simp add: meta_of_def)
qed

lemma chain_loop_meta: "meta_of (snd (chain_loop bs p s)) = meta_of s"
  by (induction bs p s rule: chain_loop.induct) simp_all

lemma popleft_loop_meta: "popleft_loop n cur ret s = Inr (cur', ret', s') \<Longrightarrow> meta_of s' = meta_of s"
  by (induction n cur ret s rule: popleft_loop.induct) (auto split: option.splits)

lemma popleft_meta: "popleft q = Inr (b, q') \<Longrightarrow> meta_of (fq_store q') = meta_of (fq_store q)"
  by (auto simp: popleft_def Let_def bind_res_eq_Inr split: option.splits if_splits)

lemma popleft_n_meta: "popleft_n q n = Inr (bs, q') \<Longrightarrow> meta_of (fq_store q') = meta_of (fq_store q)"
  by (auto simp: popleft_n_def Let_def bind_res_eq_Inr
      split: option.splits if_splits) (metis popleft_loop_meta)+

lemma remove_block_meta: "remove_block q b = Inr q' \<Longrightarrow> meta_of (fq_store q') = meta_of (fq_store q)"
  by (auto simp: remove_block_def Let_def split: option.splits)

lemma append_n_meta: "append_n q bs = Inr q' \<Longrightarrow> meta_of (fq_store q') = meta_of (fq_store q)"
  using chain_loop_meta[of bs]
  by (auto simp: append_n_def Let_def split: option.splits if_splits prod.splits) (metis snd_conv)+

lemma prepend_n_meta: "prepend_n q bs = Inr q' \<Longrightarrow> meta_of (fq_store q') = meta_of (fq_store q)"
  using chain_loop_meta[of bs]
  by (auto simp: prepend_n_def Let_def split: option.splits if_splits prod.splits) (metis snd_conv)+

lemma link_fold_meta: "meta_of (fold (link_step bs) is s) = meta_of s"
  by (induction "is" arbitrary: s) (simp_all add: link_step_def Let_def)

lemma init_queue_meta: "meta_of (fq_store (init_queue bs s)) (Blk i) = meta_of s (Blk i)"
proof -
  have "meta_of (t(Head := h, Tail := l)) (Blk i) = meta_of t (Blk i)" for t h l by (simp add: meta_of_def)
  then show ?thesis by (simp add: init_queue_def Let_def link_fold_meta)
qed

lemmas queue_meta = popleft_meta popleft_n_meta remove_block_meta append_n_meta prepend_n_meta

lemma linked_links: "same_links s t \<Longrightarrow> linked s ps = linked t ps"
  by (rule linked_cong) (auto simp: same_links_def)

lemma queue_repr_links:
  assumes "same_links (fq_store q) (fq_store q')" "num_free_blocks q = num_free_blocks q'"
  shows "queue_repr q xs = queue_repr q' xs"
  using assms linked_links[OF assms(1)] by (simp add: queue_repr_def same_links_def)

section \<open>The interface the block pool relies on\<close>

text \<open>
  What \<open>BlockPool\<close> uses of its queue: a representation \<open>repr\<close> of a queue as the
  list of its block ids, and the five operations with the list operations they implement.
\<close>

locale free_list =
  fixes repr :: "'q \<Rightarrow> nat list \<Rightarrow> bool"
    and count :: "'q \<Rightarrow> int"
    and pop_n :: "'q \<Rightarrow> int \<Rightarrow> (ref list \<times> 'q) res"
    and remove :: "'q \<Rightarrow> ref \<Rightarrow> 'q res"
    and append :: "'q \<Rightarrow> ref list \<Rightarrow> 'q res"
    and prepend :: "'q \<Rightarrow> ref list \<Rightarrow> 'q res"
  assumes repr_distinct: "repr q xs \<Longrightarrow> distinct xs"
    and count_law: "repr q xs \<Longrightarrow> count q = int (length xs)"
    and pop_n_law: "repr q (xs @ ys) \<Longrightarrow>
      \<exists>q'. pop_n q (int (length xs)) = Inr (map Blk xs, q') \<and> repr q' ys"
    and remove_law: "repr q (as @ x # bs) \<Longrightarrow> \<exists>q'. remove q (Blk x) = Inr q' \<and> repr q' (as @ bs)"
    and append_law: "repr q xs \<Longrightarrow> distinct ys \<Longrightarrow> set ys \<inter> set xs = {} \<Longrightarrow>
      \<exists>q'. append q (map Blk ys) = Inr q' \<and> repr q' (xs @ ys)"
    and prepend_law: "repr q xs \<Longrightarrow> distinct ys \<Longrightarrow> set ys \<inter> set xs = {} \<Longrightarrow>
      \<exists>q'. prepend q (map Blk ys) = Inr q' \<and> repr q' (ys @ xs)"
begin

lemma pop_take:
  assumes "repr q xs" "n \<le> length xs"
  shows "\<exists>q'. pop_n q (int n) = Inr (map Blk (take n xs), q') \<and> repr q' (drop n xs)"
  using pop_n_law[of q "take n xs" "drop n xs"] assms by simp

lemma remove_member:
  assumes "repr q xs" "x \<in> set xs"
  shows "\<exists>q'. remove q (Blk x) = Inr q' \<and> repr q' (remove1 x xs)"
proof -
  obtain as bs where xs: "xs = as @ x # bs" "x \<notin> set as"
    using assms in_split_distinct repr_distinct by metis
  then show ?thesis using remove_law[of q as x bs] assms(1) by (simp add: remove1_split)
qed

text \<open>Blocks put at the front are the next to be handed out (LIFO reuse).\<close>

lemma prepend_then_pop:
  assumes "repr q xs" "distinct ys" "set ys \<inter> set xs = {}"
  shows "\<exists>q1 q2. prepend q (map Blk ys) = Inr q1 \<and> pop_n q1 (int (length ys)) = Inr (map Blk ys, q2)
    \<and> repr q2 xs"
  using prepend_law[OF assms] pop_n_law by blast

text \<open>Blocks put at the end outlive every block that was free before (LRU reuse).\<close>

lemma append_then_pop:
  assumes "repr q xs" "distinct ys" "set ys \<inter> set xs = {}" "n \<le> length xs"
  shows "\<exists>q1 q2. append q (map Blk ys) = Inr q1 \<and> pop_n q1 (int n) = Inr (map Blk (take n xs), q2)
    \<and> repr q2 (drop n xs @ ys)"
  using append_law[OF assms(1-3)] pop_take[of _ "xs @ ys" n] assms(4) by fastforce

text \<open>A block that was removed is not handed out.\<close>

lemma removed_not_popped:
  assumes "repr q xs" "x \<in> set xs" "n < length xs"
  shows "\<exists>q1 q2 bs. remove q (Blk x) = Inr q1 \<and> pop_n q1 (int n) = Inr (bs, q2) \<and> Blk x \<notin> set bs"
proof -
  obtain q1 where q1: "remove q (Blk x) = Inr q1" "repr q1 (remove1 x xs)"
    using remove_member[OF assms(1,2)] by blast
  have "n \<le> length (remove1 x xs)" using assms by (simp add: length_remove1)
  from pop_take[OF q1(2) this] obtain q2 where
    q2: "pop_n q1 (int n) = Inr (map Blk (take n (remove1 x xs)), q2)" by blast
  have "x \<notin> set (remove1 x xs)" using repr_distinct[OF assms(1)] by simp
  then have "Blk x \<notin> set (map Blk (take n (remove1 x xs)))" by (auto dest: in_set_takeD)
  with q1 q2 show ?thesis by blast
qed

end

interpretation fq: free_list queue_repr num_free_blocks popleft_n remove_block append_n prepend_n
proof unfold_locales
  show "queue_repr q xs \<Longrightarrow> distinct xs" for q xs by (rule queue_reprD(1))
  show "queue_repr q xs \<Longrightarrow> num_free_blocks q = int (length xs)" for q xs by (rule queue_reprD(2))
qed (metis popleft_n_repr, metis remove_block_repr, metis append_n_repr, metis prepend_n_repr)

section \<open>Any sequence of operations\<close>

datatype queue_op = Popleft | PopleftN nat | Remove nat | Append nat | AppendN "nat list"
  | PrependN "nat list"

fun queue_step :: "free_queue \<Rightarrow> queue_op \<Rightarrow> (ref list \<times> free_queue) res" where
  "queue_step q Popleft = bind_res (popleft q) (\<lambda>(b, q'). Inr ([b], q'))"
| "queue_step q (PopleftN n) = popleft_n q (int n)"
| "queue_step q (Remove x) = bind_res (remove_block q (Blk x)) (\<lambda>q'. Inr ([], q'))"
| "queue_step q (Append x) = bind_res (append_block q (Blk x)) (\<lambda>q'. Inr ([], q'))"
| "queue_step q (AppendN xs) = bind_res (append_n q (map Blk xs)) (\<lambda>q'. Inr ([], q'))"
| "queue_step q (PrependN xs) = bind_res (prepend_n q (map Blk xs)) (\<lambda>q'. Inr ([], q'))"

text \<open>The specification: a list of distinct ids. A step whose precondition fails is
  \<open>None\<close>: the pool never makes it.\<close>

fun list_step :: "nat list \<Rightarrow> queue_op \<Rightarrow> (nat list \<times> nat list) option" where
  "list_step xs Popleft = (case xs of [] \<Rightarrow> None | x # ys \<Rightarrow> Some ([x], ys))"
| "list_step xs (PopleftN n) = (if n \<le> length xs then Some (take n xs, drop n xs) else None)"
| "list_step xs (Remove x) = (if x \<in> set xs then Some ([], remove1 x xs) else None)"
| "list_step xs (Append x) = (if x \<in> set xs then None else Some ([], xs @ [x]))"
| "list_step xs (AppendN ys) =
     (if distinct ys \<and> set ys \<inter> set xs = {} then Some ([], xs @ ys) else None)"
| "list_step xs (PrependN ys) =
     (if distinct ys \<and> set ys \<inter> set xs = {} then Some ([], ys @ xs) else None)"

fun queue_run :: "free_queue \<Rightarrow> queue_op list \<Rightarrow> (ref list \<times> free_queue) res" where
  "queue_run q [] = Inr ([], q)"
| "queue_run q (a # as) = bind_res (queue_step q a) (\<lambda>(out, q1).
     bind_res (queue_run q1 as) (\<lambda>(out', q2). Inr (out @ out', q2)))"

fun list_run :: "nat list \<Rightarrow> queue_op list \<Rightarrow> (nat list \<times> nat list) option" where
  "list_run xs [] = Some ([], xs)"
| "list_run xs (a # as) = (case list_step xs a of None \<Rightarrow> None
     | Some (out, ys) \<Rightarrow> (case list_run ys as of None \<Rightarrow> None
         | Some (out', zs) \<Rightarrow> Some (out @ out', zs)))"

lemma queue_step_refines:
  assumes "queue_repr q xs" "list_step xs a = Some (out, ys)"
  shows "\<exists>q'. queue_step q a = Inr (map Blk out, q') \<and> queue_repr q' ys"
proof (cases a)
  case Popleft
  then obtain x where x: "xs = x # ys" "out = [x]" using assms(2) by (auto split: list.splits)
  obtain q' where "popleft q = Inr (Blk x, q')" "queue_repr q' ys"
    using popleft_repr assms(1) x(1) by blast
  then show ?thesis using Popleft x by simp
next
  case (PopleftN n)
  then show ?thesis using assms fq.pop_take[of q xs n] by (auto split: if_splits)
next
  case (Remove x)
  then show ?thesis using assms fq.remove_member[of q xs x] by (auto split: if_splits)
next
  case (Append x)
  then have x: "x \<notin> set xs" "ys = xs @ [x]" "out = []" using assms(2) by (auto split: if_splits)
  obtain q' where "append_block q (Blk x) = Inr q'" "queue_repr q' ys"
    using append_block_repr[OF assms(1) x(1)] x(2) by blast
  then show ?thesis using Append x by simp
next
  case (AppendN zs)
  then show ?thesis using assms fq.append_law[of q xs zs] by (auto split: if_splits)
next
  case (PrependN zs)
  then show ?thesis using assms fq.prepend_law[of q xs zs] by (auto split: if_splits)
qed

lemma queue_run_refines:
  assumes "queue_repr q xs" "list_run xs as = Some (out, ys)"
  shows "\<exists>q'. queue_run q as = Inr (map Blk out, q') \<and> queue_repr q' ys"
  using assms
proof (induction as arbitrary: q xs out)
  case Nil
  then show ?case by auto
next
  case (Cons a as)
  from Cons.prems(2) obtain o1 zs o2 where
    1: "list_step xs a = Some (o1, zs)" "list_run zs as = Some (o2, ys)" "out = o1 @ o2"
    by (auto split: option.splits)
  obtain q1 where q1: "queue_step q a = Inr (map Blk o1, q1)" "queue_repr q1 zs"
    using queue_step_refines[OF Cons.prems(1) 1(1)] by blast
  obtain q2 where "queue_run q1 as = Inr (map Blk o2, q2)" "queue_repr q2 ys"
    using Cons.IH[OF q1(2) 1(2)] by blast
  then show ?case using q1(1) 1(3) by auto
qed

section \<open>Properties\<close>



text \<open>
  \<open>remove\<close> is safe in any position: it unlinks exactly the given block, and on a
  block that is not in the queue it raises instead of corrupting the links.
\<close>
theorem remove_unlinks_exactly:
  assumes "queue_repr q xs"
  shows "if x \<in> set xs
    then \<exists>q'. remove_block q (Blk x) = Inr q' \<and> queue_repr q' (remove1 x xs)
    else remove_block q (Blk x) = Inl RuntimeError"
  using fq.remove_member[OF assms] remove_block_notin[OF assms] by simp

theorem remove_unlinks_exactly_witness:
  "(\<exists>q'. remove_block (init_queue (map Blk [0..<3]) (fresh_store 3)) (Blk 1) = Inr q' \<and>
       queue_repr q' [0, 2]) \<and>
   remove_block (init_queue (map Blk [0..<3]) (fresh_store 3)) (Blk 7) = Inl RuntimeError"
proof -
  have "[0..<3] = [0, 1, 2::nat]" by code_simp
  then show ?thesis
    using remove_unlinks_exactly[OF init_queue_repr[of 3], of 1]
      remove_unlinks_exactly[OF init_queue_repr[of 3], of 7] by simp
qed

end
