(* ===== verification/BlockMap.thy ===== *)
theory BlockMap imports FreeQueue
begin

text \<open>
  \<open>BlockHashToBlockMap\<close> of \<^verbatim>\<open>vllm/v1/core/block_pool.py\<close>: the prefix-cache index
  from a hash key to one block, or to an insertion-ordered dict of the blocks that share it.
  A block is named by its id; the inner dict is the list of its ids in insertion order.
\<close>

section \<open>The map\<close>

datatype cache_entry = Single nat | Multi "nat list"

type_synonym block_map = "bytes \<Rightarrow> cache_entry option"

definition map_empty :: block_map where
  "map_empty = (\<lambda>_. None)"

definition map_get_one_block :: "block_map \<Rightarrow> bytes \<Rightarrow> nat option res" where
  "map_get_one_block m key =
     (case m key of None \<Rightarrow> Inr None
      | Some (Single b) \<Rightarrow> Inr (Some b)
      | Some (Multi bs) \<Rightarrow> (case bs of [] \<Rightarrow> Inl StopIteration | b # _ \<Rightarrow> Inr (Some b)))"

definition map_contain :: "block_map \<Rightarrow> bytes \<Rightarrow> nat \<Rightarrow> bool" where
  "map_contain m key b =
     (case m key of None \<Rightarrow> False
      | Some (Single a) \<Rightarrow> a = b
      | Some (Multi bs) \<Rightarrow> b \<in> set bs)"

text \<open>Assigning a key of an insertion-ordered dict.\<close>

definition dict_add :: "nat list \<Rightarrow> nat \<Rightarrow> nat list" where
  "dict_add bs b = (if b \<in> set bs then bs else bs @ [b])"

definition map_insert :: "block_map \<Rightarrow> bytes \<Rightarrow> nat \<Rightarrow> block_map" where
  "map_insert m key b =
     (case m key of None \<Rightarrow> m(key \<mapsto> Single b)
      | Some (Single a) \<Rightarrow> m(key \<mapsto> Multi (dict_add [a] b))
      | Some (Multi bs) \<Rightarrow> m(key \<mapsto> Multi (dict_add bs b)))"

definition map_pop :: "block_map \<Rightarrow> bytes \<Rightarrow> nat \<Rightarrow> nat option \<times> block_map" where
  "map_pop m key b =
     (let m0 = m(key := None) in
      case m key of None \<Rightarrow> (None, m0)
      | Some (Single a) \<Rightarrow> if a = b then (Some a, m0) else (None, m0(key \<mapsto> Single a))
      | Some (Multi bs) \<Rightarrow>
          let bs' = remove1 b bs;
              m1 = (if 0 < length bs' then m0(key \<mapsto> Multi bs') else m0)
          in (if b \<in> set bs then Some b else None, m1))"

section \<open>Contents\<close>

definition map_ids :: "block_map \<Rightarrow> bytes \<Rightarrow> nat list" where
  "map_ids m key = (case m key of None \<Rightarrow> [] | Some (Single b) \<Rightarrow> [b] | Some (Multi bs) \<Rightarrow> bs)"

definition map_wf :: "block_map \<Rightarrow> bool" where
  "map_wf m \<longleftrightarrow> (\<forall>key bs. m key = Some (Multi bs) \<longrightarrow> bs \<noteq> [] \<and> distinct bs)"

section \<open>The interface the block pool relies on\<close>

text \<open>A multi-valued index: \<open>ids\<close> are the values of a key in insertion order.\<close>

locale block_index =
  fixes wf :: "'m \<Rightarrow> bool"
    and ids :: "'m \<Rightarrow> bytes \<Rightarrow> nat list"
    and empty :: 'm
    and get :: "'m \<Rightarrow> bytes \<Rightarrow> nat option res"
    and has :: "'m \<Rightarrow> bytes \<Rightarrow> nat \<Rightarrow> bool"
    and add :: "'m \<Rightarrow> bytes \<Rightarrow> nat \<Rightarrow> 'm"
    and del :: "'m \<Rightarrow> bytes \<Rightarrow> nat \<Rightarrow> nat option \<times> 'm"
  assumes wf_empty: "wf empty" "ids empty k = []"
    and wf_ids: "wf m \<Longrightarrow> distinct (ids m k)"
    and get_law: "wf m \<Longrightarrow> get m k = Inr (case ids m k of [] \<Rightarrow> None | b # _ \<Rightarrow> Some b)"
    and has_law: "wf m \<Longrightarrow> has m k b \<longleftrightarrow> b \<in> set (ids m k)"
    and add_wf: "wf m \<Longrightarrow> wf (add m k b)"
    and add_ids: "wf m \<Longrightarrow> ids (add m k b) k' =
      (if k' = k then if b \<in> set (ids m k) then ids m k else ids m k @ [b] else ids m k')"
    and del_wf: "wf m \<Longrightarrow> wf (snd (del m k b))"
    and del_ids: "wf m \<Longrightarrow> ids (snd (del m k b)) k' =
      (if k' = k then remove1 b (ids m k) else ids m k')"
    and del_res: "wf m \<Longrightarrow> fst (del m k b) = (if b \<in> set (ids m k) then Some b else None)"
begin

text \<open>The first block registered under a key keeps serving it.\<close>

lemma add_keeps_first:
  assumes "wf m" "get m k = Inr (Some a)"
  shows "get (add m k b) k = Inr (Some a)"
  using assms by (simp add: get_law add_wf add_ids split: list.splits)

lemma get_added:
  assumes "wf m"
  shows "\<exists>a. get (add m k b) k = Inr (Some a)"
  using assms by (cases "ids m k") (simp_all add: get_law add_wf add_ids)

lemma del_not_has: "wf m \<Longrightarrow> \<not> has (snd (del m k b)) k b"
  by (simp add: has_law del_wf del_ids wf_ids)

lemma del_other: "wf m \<Longrightarrow> k' \<noteq> k \<or> b' \<noteq> b \<Longrightarrow> has (snd (del m k b)) k' b' = has m k' b'"
  by (auto simp: has_law del_wf del_ids wf_ids)

lemma add_has: "wf m \<Longrightarrow> has (add m k b) k' b' \<longleftrightarrow> has m k' b' \<or> (k' = k \<and> b' = b)"
  by (auto simp: has_law add_wf add_ids)

lemma add_then_del:
  assumes "wf m" "\<not> has m k b"
  shows "fst (del (add m k b) k b) = Some b \<and> ids (snd (del (add m k b) k b)) k' = ids m k'"
  using assms by (simp add: has_law add_wf add_ids del_res del_ids remove1_append)

end

interpretation bm: block_index map_wf map_ids map_empty map_get_one_block map_contain map_insert map_pop
proof unfold_locales
  show "map_wf map_empty" "map_ids map_empty k = []" for k
    by (simp_all add: map_wf_def map_empty_def map_ids_def)
  fix m :: block_map and k k' b
  assume wf: "map_wf m"
  show "distinct (map_ids m k)"
    using wf by (auto simp: map_ids_def map_wf_def split: option.split cache_entry.split)
  show "map_get_one_block m k = Inr (case map_ids m k of [] \<Rightarrow> None | b # _ \<Rightarrow> Some b)"
    using wf by (auto simp: map_get_one_block_def map_ids_def map_wf_def
        split: option.split cache_entry.split list.split)
  show "map_contain m k b \<longleftrightarrow> b \<in> set (map_ids m k)"
    by (auto simp: map_contain_def map_ids_def split: option.split cache_entry.split)
  show "map_wf (map_insert m k b)"
    using wf by (auto simp: map_wf_def map_insert_def dict_add_def
        split: option.splits cache_entry.splits if_splits)
  show "map_ids (map_insert m k b) k' = (if k' = k then if b \<in> set (map_ids m k) then map_ids m k
      else map_ids m k @ [b] else map_ids m k')"
    by (auto simp: map_ids_def map_insert_def dict_add_def split: option.splits cache_entry.splits)
  show "map_wf (snd (map_pop m k b))"
    using wf by (auto simp: map_wf_def map_pop_def Let_def
        split: option.splits cache_entry.splits if_splits)
  show "map_ids (snd (map_pop m k b)) k' = (if k' = k then remove1 b (map_ids m k) else map_ids m k')"
    by (auto simp: map_ids_def map_pop_def Let_def split: option.splits cache_entry.splits)
  show "fst (map_pop m k b) = (if b \<in> set (map_ids m k) then Some b else None)"
    by (auto simp: map_ids_def map_pop_def Let_def split: option.splits cache_entry.splits)
qed

end
