(* ===== verification/RequestModel.thy ===== *)
theory RequestModel imports FreeQueue
begin

text \<open>
  \<^verbatim>\<open>vllm/v1/request.py\<close>: the request object the scheduler and the cache managers
  share, its status machine and its ordering.

  Fields that only travel through this code (trace headers, connector transfer parameters, KV
  hints, streaming queue) are left out. \<open>arrival_time\<close> is only compared, so an integer
  stands for the float. The block hasher is a Python callable stored on the request; here it
  is an argument of the operations that call it.
\<close>

section \<open>Statuses\<close>

datatype request_status = WAITING | WAITING_FOR_STRUCTURED_OUTPUT_GRAMMAR
  | WAITING_FOR_REMOTE_KVS | WAITING_FOR_STREAMING_REQ | RUNNING | PREEMPTED
  | FINISHED_STOPPED | FINISHED_LENGTH_CAPPED | FINISHED_ABORTED | FINISHED_IGNORED
  | FINISHED_ERROR | FINISHED_REPETITION

text \<open>The class is an \<open>IntEnum\<close> with \<open>auto()\<close> values: statuses compare as the
  integers 1 to 12 in order of declaration.\<close>

fun status_value :: "request_status \<Rightarrow> nat" where
  "status_value WAITING = 1"
| "status_value WAITING_FOR_STRUCTURED_OUTPUT_GRAMMAR = 2"
| "status_value WAITING_FOR_REMOTE_KVS = 3"
| "status_value WAITING_FOR_STREAMING_REQ = 4"
| "status_value RUNNING = 5"
| "status_value PREEMPTED = 6"
| "status_value FINISHED_STOPPED = 7"
| "status_value FINISHED_LENGTH_CAPPED = 8"
| "status_value FINISHED_ABORTED = 9"
| "status_value FINISHED_IGNORED = 10"
| "status_value FINISHED_ERROR = 11"
| "status_value FINISHED_REPETITION = 12"

lemma status_value_inj: "status_value a = status_value b \<Longrightarrow> a = b"
  by (cases a; cases b; simp)

instantiation request_status :: linorder
begin

definition less_eq_request_status :: "request_status \<Rightarrow> request_status \<Rightarrow> bool" where
  "less_eq_request_status a b \<longleftrightarrow> status_value a \<le> status_value b"

definition less_request_status :: "request_status \<Rightarrow> request_status \<Rightarrow> bool" where
  "less_request_status a b \<longleftrightarrow> status_value a < status_value b"

instance
  by standard (auto simp: less_eq_request_status_def less_request_status_def intro: status_value_inj)

end

datatype finish_reason = STOP | LENGTH_REASON | ABORT | ERROR | REPETITION

definition status_is_finished :: "request_status \<Rightarrow> bool" where
  "status_is_finished s \<longleftrightarrow> PREEMPTED < s"

fun finished_reason_map :: "request_status \<Rightarrow> finish_reason option" where
  "finished_reason_map FINISHED_STOPPED = Some STOP"
| "finished_reason_map FINISHED_LENGTH_CAPPED = Some LENGTH_REASON"
| "finished_reason_map FINISHED_ABORTED = Some ABORT"
| "finished_reason_map FINISHED_IGNORED = Some LENGTH_REASON"
| "finished_reason_map FINISHED_ERROR = Some ERROR"
| "finished_reason_map WAITING_FOR_STREAMING_REQ = Some STOP"
| "finished_reason_map FINISHED_REPETITION = Some REPETITION"
| "finished_reason_map _ = None"

section \<open>Request data\<close>

record repetition_params =
  max_pattern_size :: int
  min_pattern_size :: int
  min_count :: int

record sampling_params =
  sp_max_tokens :: "int option"
  min_tokens :: int
  eos_token_id :: "int option"
  stop_token_ids :: "int list option"
  repetition_detection :: "repetition_params option"
  sp_skip_reading_prefix_cache :: "bool option"
  sp_structured_outputs :: bool
  sp_kv_cache_report_mode :: "string option"

record pooling_params =
  pp_skip_reading_prefix_cache :: "bool option"

record lora_request =
  lora_name :: string
  lora_int_id :: int
  lora_path :: string

text \<open>\<open>MultiModalFeatureSpec\<close> with its \<open>PlaceholderRange\<close>; \<open>is_embed\<close> is the mask of
  positions that take an embedding.\<close>

record mm_feature =
  mm_identifier :: string
  mm_offset :: int
  mm_length :: int
  is_embed :: "bool list option"

definition get_num_embeds :: "mm_feature \<Rightarrow> int" where
  "get_num_embeds f =
     (case is_embed f of None \<Rightarrow> mm_length f
      | Some m \<Rightarrow> int (length (filter id m)))"

datatype stop_reason = StopToken int | StopStr string

record request =
  request_id :: string
  client_index :: int
  priority :: int
  arrival_time :: int
  req_sampling_params :: "sampling_params option"
  req_pooling_params :: "pooling_params option"
  req_lora :: "lora_request option"
  structured_output :: bool
  status :: request_status
  req_stop_reason :: "stop_reason option"
  max_tokens :: int
  kv_cache_report_mode :: "string option"
  prompt_token_ids :: "int list option"
  prompt_embeds :: "bytes list option"
  num_prompt_tokens :: int
  output_token_ids :: "int list"
  all_token_ids :: "int list"
  num_output_placeholders :: int
  num_stale_output_tokens :: int
  drop_stale_output :: bool
  num_in_flight_tokens :: int
  next_decode_eligible_step :: int
  last_sched_seq :: int
  spec_token_ids :: "int list"
  num_computed_tokens :: int
  cache_salt :: "string option"
  mm_features :: "mm_feature list"
  session_id :: "string option"
  is_prefill_chunk :: bool
  shared_prefix_boundary :: int
  replay_start :: int
  num_nans_in_logits :: int
  num_preemptions :: int
  block_hashes :: "bytes list"
  skip_reading_prefix_cache :: bool
  resumable :: bool
  abort_immediately :: bool

definition length_from_prompt_token_ids_or_embeds ::
    "int list option \<Rightarrow> bytes list option \<Rightarrow> int res" where
  "length_from_prompt_token_ids_or_embeds ids embeds =
     (case ids of
        None \<Rightarrow> (case embeds of None \<Rightarrow> Inl ValueError | Some e \<Rightarrow> Inr (int (length e)))
      | Some t \<Rightarrow> (case embeds of None \<Rightarrow> Inr (int (length t))
          | Some e \<Rightarrow> if length e \<noteq> length t then Inl ValueError else Inr (int (length t))))"

definition get_skip_reading_prefix_cache ::
    "sampling_params option \<Rightarrow> pooling_params option \<Rightarrow> bool" where
  "get_skip_reading_prefix_cache sp pp =
     (case Option.bind sp sp_skip_reading_prefix_cache of
        Some b \<Rightarrow> b
      | None \<Rightarrow> (case Option.bind pp pp_skip_reading_prefix_cache of Some b \<Rightarrow> b | None \<Rightarrow> False))"

text \<open>The constructor's choice of budget and first status.\<close>

definition init_budget ::
    "sampling_params option \<Rightarrow> pooling_params option
      \<Rightarrow> (int \<times> request_status \<times> string option) res" where
  "init_budget sp pp =
     (case pp of
        Some _ \<Rightarrow> Inr (1, WAITING, None)
      | None \<Rightarrow> (case sp of
          None \<Rightarrow> Inl ValueError
        | Some s \<Rightarrow> (case sp_max_tokens s of
            None \<Rightarrow> Inl AssertionError
          | Some m \<Rightarrow> Inr (m,
              (if sp_structured_outputs s then WAITING_FOR_STRUCTURED_OUTPUT_GRAMMAR else WAITING),
              Some (case sp_kv_cache_report_mode s of None \<Rightarrow> ''incremental'' | Some mode \<Rightarrow> mode)))))"

definition init_all_token_ids ::
    "int list option \<Rightarrow> bool list option \<Rightarrow> int \<Rightarrow> int list" where
  "init_all_token_ids ids is_tok n =
     (case ids of
        None \<Rightarrow> replicate (nat n) 0
      | Some t \<Rightarrow> (case is_tok of None \<Rightarrow> t
          | Some m \<Rightarrow> map (\<lambda>(x, b). if b then x else 0) (zip t m)))"

type_synonym hasher = "request \<Rightarrow> bytes list res"

section \<open>Operations\<close>

definition update_block_hashes :: "hasher option \<Rightarrow> request \<Rightarrow> request res" where
  "update_block_hashes hasher r =
     (case hasher of None \<Rightarrow> Inr r
      | Some h \<Rightarrow> bind_res (h r) (\<lambda>new. Inr (r\<lparr>block_hashes := block_hashes r @ new\<rparr>)))"

definition new_request ::
    "string \<Rightarrow> int list option \<Rightarrow> sampling_params option \<Rightarrow> pooling_params option \<Rightarrow> int \<Rightarrow> int
     \<Rightarrow> bytes list option \<Rightarrow> bool list option \<Rightarrow> mm_feature list option \<Rightarrow> lora_request option
     \<Rightarrow> string option \<Rightarrow> int \<Rightarrow> hasher option \<Rightarrow> bool \<Rightarrow> string option \<Rightarrow> bool \<Rightarrow> request res" where
  "new_request rid ids sp pp client arrival embeds is_tok mm lora salt prio hasher resum session abort =
     bind_res (init_budget sp pp) (\<lambda>(budget, st, mode).
     bind_res (length_from_prompt_token_ids_or_embeds ids embeds) (\<lambda>n.
     update_block_hashes hasher
       \<lparr>request_id = rid, client_index = client, priority = prio, arrival_time = arrival,
        req_sampling_params = sp, req_pooling_params = pp, req_lora = lora,
        structured_output = (case sp of None \<Rightarrow> False | Some s \<Rightarrow> sp_structured_outputs s),
        status = st, req_stop_reason = None, max_tokens = budget, kv_cache_report_mode = mode,
        prompt_token_ids = ids, prompt_embeds = embeds, num_prompt_tokens = n,
        output_token_ids = [], all_token_ids = init_all_token_ids ids is_tok n,
        num_output_placeholders = 0, num_stale_output_tokens = 0, drop_stale_output = False,
        num_in_flight_tokens = 0, next_decode_eligible_step = 0, last_sched_seq = 0,
        spec_token_ids = [], num_computed_tokens = 0, cache_salt = salt,
        mm_features = (case mm of None \<Rightarrow> [] | Some fs \<Rightarrow> fs), session_id = session,
        is_prefill_chunk = False, shared_prefix_boundary = 0, replay_start = 0,
        num_nans_in_logits = 0, num_preemptions = 0, block_hashes = [],
        skip_reading_prefix_cache = get_skip_reading_prefix_cache sp pp,
        resumable = resum, abort_immediately = abort\<rparr>))"

definition append_output_token_ids :: "hasher option \<Rightarrow> int list \<Rightarrow> request \<Rightarrow> request res" where
  "append_output_token_ids hasher toks r =
     update_block_hashes hasher
       (r\<lparr>output_token_ids := output_token_ids r @ toks, all_token_ids := all_token_ids r @ toks\<rparr>)"

definition num_tokens :: "request \<Rightarrow> int" where
  "num_tokens r = int (length (all_token_ids r))"

definition num_tokens_with_spec :: "request \<Rightarrow> int" where
  "num_tokens_with_spec r = int (length (all_token_ids r)) + int (length (spec_token_ids r))"

definition num_output_tokens :: "request \<Rightarrow> int" where
  "num_output_tokens r = int (length (output_token_ids r))"

definition has_encoder_inputs :: "request \<Rightarrow> bool" where
  "has_encoder_inputs r \<longleftrightarrow> 0 < length (mm_features r)"

definition is_finished :: "request \<Rightarrow> bool" where
  "is_finished r = status_is_finished (status r)"

definition get_finished_reason :: "request \<Rightarrow> finish_reason option" where
  "get_finished_reason r = finished_reason_map (status r)"

definition get_num_encoder_embeds :: "request \<Rightarrow> nat \<Rightarrow> int res" where
  "get_num_encoder_embeds r input_id =
     (if input_id < length (mm_features r) then Inr (get_num_embeds (mm_features r ! input_id))
      else Inl AssertionError)"

text \<open>\<open>__lt__\<close>: priority, then arrival, then id; \<open>x\<close> and \<open>y\<close> are Python's \<open>id()\<close> of the two objects. Python
  compares strings by code points, which is the lexicographic order on characters.\<close>

fun str_less :: "string \<Rightarrow> string \<Rightarrow> bool" where
  "str_less _ [] = False"
| "str_less [] (_ # _) = True"
| "str_less (a # as) (b # bs) =
     (if (of_char a :: nat) = of_char b then str_less as bs else (of_char a :: nat) < of_char b)"

definition request_lt :: "nat \<Rightarrow> nat \<Rightarrow> request \<Rightarrow> request \<Rightarrow> bool" where
  "request_lt x y a b =
     (if priority a \<noteq> priority b then priority a < priority b
      else if arrival_time a \<noteq> arrival_time b then arrival_time a < arrival_time b
      else if request_id a \<noteq> request_id b then str_less (request_id a) (request_id b)
      else x < y)"

text \<open>A plain request with the given id and prompt, on which the witnesses evaluate.\<close>

definition example_request :: "string \<Rightarrow> int list \<Rightarrow> request" where
  "example_request rid ids =
     \<lparr>request_id = rid, client_index = 0, priority = 0, arrival_time = 0,
      req_sampling_params = None, req_pooling_params = None, req_lora = None,
      structured_output = False, status = WAITING, req_stop_reason = None, max_tokens = 16,
      kv_cache_report_mode = None, prompt_token_ids = Some ids, prompt_embeds = None,
      num_prompt_tokens = int (length ids), output_token_ids = [], all_token_ids = ids,
      num_output_placeholders = 0, num_stale_output_tokens = 0, drop_stale_output = False,
      num_in_flight_tokens = 0, next_decode_eligible_step = 0, last_sched_seq = 0,
      spec_token_ids = [], num_computed_tokens = 0, cache_salt = None, mm_features = [],
      session_id = None, is_prefill_chunk = False, shared_prefix_boundary = 0, replay_start = 0,
      num_nans_in_logits = 0, num_preemptions = 0, block_hashes = [],
      skip_reading_prefix_cache = False, resumable = False, abort_immediately = False\<rparr>"

section \<open>Lemmas\<close>

lemma finished_iff_reason:
  "status_is_finished s \<longleftrightarrow> finished_reason_map s \<noteq> None \<and> s \<noteq> WAITING_FOR_STREAMING_REQ"
  by (cases s) (auto simp: status_is_finished_def less_request_status_def)

lemma str_less_trans: "str_less a b \<Longrightarrow> str_less b c \<Longrightarrow> str_less a c"
  by (induction a b arbitrary: c rule: str_less.induct) (case_tac c; auto split: if_splits)+

lemma str_less_irrefl: "\<not> str_less a a"
  by (induction a) auto

lemma of_char_cases: "a \<noteq> b \<Longrightarrow> (of_char a :: nat) < of_char b \<or> (of_char b :: nat) < of_char a"
  by (metis linorder_neqE_nat of_char_eq_iff)

lemma str_less_total: "a \<noteq> b \<Longrightarrow> str_less a b \<or> str_less b a"
proof (induction a b rule: str_less.induct)
  case (1 a)
  then show ?case by (cases a) auto
next
  case (3 a as b bs)
  then show ?case using of_char_cases[of a b] by auto
qed auto

lemma request_lt_irrefl: "\<not> request_lt x x a a"
  by (simp add: request_lt_def)

lemma request_lt_trans: "request_lt x y a b \<Longrightarrow> request_lt y z b c \<Longrightarrow> request_lt x z a c"
  unfolding request_lt_def
  by (auto split: if_splits dest: str_less_trans simp: str_less_irrefl)

lemma request_lt_total: "x \<noteq> y \<Longrightarrow> request_lt x y a b \<or> request_lt y x b a"
  unfolding request_lt_def using str_less_total[of "request_id a" "request_id b"] by auto

end
