(* ===== verification/HashKeys.thy ===== *)
theory HashKeys imports RequestModel
begin

text \<open>
  The keys of the prefix cache, from \<^verbatim>\<open>vllm/v1/core/kv_cache_utils.py\<close>: packing a
  block hash with its KV cache group, the extra keys that separate requests (LoRA, multimodal
  inputs, cache salt, prompt embeddings), the chained block hasher, and the views of the hashes
  at a coarser block size. \<open>get_mm_features_in_window\<close> is from
  \<^verbatim>\<open>vllm/multimodal/utils.py\<close>.

  The hash functions are not under the repository: \<open>sha\<close> (SHA-256 over the bytes of the
  prompt embeddings of a block), \<open>hf\<close> (the configured block hash) and \<open>nh\<close> (the module
  variable \<open>NONE_HASH\<close>) are arguments of the definitions that use them.
\<close>

section \<open>Packing a hash with its group id\<close>

definition to_bytes_be4 :: "int \<Rightarrow> bytes res" where
  "to_bytes_be4 g =
     (if 0 \<le> g \<and> g < 2 ^ 32
      then Inr [word_of_int (g div 2 ^ 24), word_of_int (g div 2 ^ 16),
                word_of_int (g div 2 ^ 8), word_of_int g]
      else Inl OverflowError)"

definition from_bytes_be :: "bytes \<Rightarrow> int" where
  "from_bytes_be bs = foldl (\<lambda>acc b. acc * 256 + uint b) 0 bs"

definition make_block_hash_with_group_id :: "bytes \<Rightarrow> int \<Rightarrow> bytes res" where
  "make_block_hash_with_group_id h group_id =
     bind_res (to_bytes_be4 group_id) (\<lambda>b. Inr (h @ b))"

definition get_block_hash :: "bytes \<Rightarrow> bytes" where
  "get_block_hash key = take (length key - 4) key"

definition get_group_id :: "bytes \<Rightarrow> int" where
  "get_group_id key = from_bytes_be (drop (length key - 4) key)"

datatype ext_hash = ExtBytes bytes | ExtInt int

text \<open>\<open>use_int\<close> is the environment flag \<open>VLLM_KV_EVENTS_USE_INT_BLOCK_HASHES\<close>.\<close>

definition maybe_convert_block_hash :: "bool \<Rightarrow> bytes \<Rightarrow> ext_hash" where
  "maybe_convert_block_hash use_int h =
     (if \<not> use_int then ExtBytes h else ExtInt (from_bytes_be h mod 2 ^ 64))"

section \<open>Extra keys\<close>

datatype extra_key = KeyMM string int | KeyLora string string | KeySalt string | KeyEmbeds bytes

text \<open>The multimodal loop, over the features from the start index on; \<open>cur\<close> is
  \<open>curr_mm_idx\<close>.\<close>

fun mm_keys_loop :: "mm_feature list \<Rightarrow> int \<Rightarrow> int \<Rightarrow> int \<Rightarrow> extra_key list \<times> int" where
  "mm_keys_loop [] cur start stop = ([], cur)"
| "mm_keys_loop (f # fs) cur start stop =
     (if stop > mm_offset f then
        if start \<ge> mm_offset f + mm_length f then mm_keys_loop fs (cur + 1) start stop
        else let k = KeyMM (mm_identifier f) (mm_offset f - start) in
          if stop \<ge> mm_offset f + mm_length f then
            (case mm_keys_loop fs (cur + 1) start stop of (ks, i) \<Rightarrow> (k # ks, i))
          else ([k], cur)
      else ([], cur))"

definition gen_mm_extra_hash_keys ::
    "mm_feature list \<Rightarrow> int \<Rightarrow> int \<Rightarrow> int \<Rightarrow> (extra_key list \<times> int) res" where
  "gen_mm_extra_hash_keys fs start stop start_mm_idx =
     (if fs = [] then Inr ([], start_mm_idx)
      else if mm_offset (last fs) + mm_length (last fs) \<le> start then Inr ([], start_mm_idx)
      else bind_res
        (if start_mm_idx < 0
         then bind_res (assert_res (- start_mm_idx \<le> int (length fs)) AssertionError)
                (\<lambda>_. Inr (int (length fs) + start_mm_idx))
         else Inr start_mm_idx)
        (\<lambda>i. Inr (mm_keys_loop (drop (nat i) fs) i start stop)))"

definition gen_lora_extra_hash_keys :: "request \<Rightarrow> extra_key list" where
  "gen_lora_extra_hash_keys r =
     (case req_lora r of None \<Rightarrow> [] | Some l \<Rightarrow> [KeyLora (lora_name l) (lora_path l)])"

text \<open>The digests of a request's embeddings are memoised on the request by block range.\<close>

type_synonym embeds_memo = "int \<times> int \<Rightarrow> bytes option"

definition gen_prompt_embeds_extra_hash_keys ::
    "(bytes \<Rightarrow> bytes) \<Rightarrow> request \<Rightarrow> int \<Rightarrow> int \<Rightarrow> embeds_memo \<Rightarrow> extra_key list \<times> embeds_memo" where
  "gen_prompt_embeds_extra_hash_keys sha r start stop memo =
     (case prompt_embeds r of None \<Rightarrow> ([], memo)
      | Some rows \<Rightarrow> (case memo (start, stop) of
          Some h \<Rightarrow> ([KeyEmbeds h], memo)
        | None \<Rightarrow> let h = sha (concat (py_slice rows start stop))
                 in ([KeyEmbeds h], memo((start, stop) \<mapsto> h))))"

text \<open>What the memoised function returns; the definitions below use it, as
  \<open>gen_prompt_embeds_memo\<close> justifies.\<close>

definition embeds_keys :: "(bytes \<Rightarrow> bytes) \<Rightarrow> request \<Rightarrow> int \<Rightarrow> int \<Rightarrow> extra_key list" where
  "embeds_keys sha r start stop =
     (case prompt_embeds r of None \<Rightarrow> []
      | Some rows \<Rightarrow> [KeyEmbeds (sha (concat (py_slice rows start stop)))])"

definition memo_ok :: "(bytes \<Rightarrow> bytes) \<Rightarrow> request \<Rightarrow> embeds_memo \<Rightarrow> bool" where
  "memo_ok sha r memo \<longleftrightarrow> (\<forall>rows a b h. prompt_embeds r = Some rows \<longrightarrow> memo (a, b) = Some h \<longrightarrow>
     h = sha (concat (py_slice rows a b)))"

lemma gen_prompt_embeds_memo:
  assumes "memo_ok sha r memo"
  shows "fst (gen_prompt_embeds_extra_hash_keys sha r a b memo) = embeds_keys sha r a b \<and>
    memo_ok sha r (snd (gen_prompt_embeds_extra_hash_keys sha r a b memo))"
  using assms
  by (auto simp: gen_prompt_embeds_extra_hash_keys_def embeds_keys_def memo_ok_def Let_def
      split: option.splits)

text \<open>A salt takes part only in the first block, and only when it is a non-empty string.\<close>

definition cache_salt_keys :: "request \<Rightarrow> int \<Rightarrow> extra_key list" where
  "cache_salt_keys r start =
     (case cache_salt r of None \<Rightarrow> []
      | Some s \<Rightarrow> if start = 0 \<and> s \<noteq> [] then [KeySalt s] else [])"

definition generate_block_hash_extra_keys ::
    "(bytes \<Rightarrow> bytes) \<Rightarrow> request \<Rightarrow> int \<Rightarrow> int \<Rightarrow> int \<Rightarrow> (extra_key list option \<times> int) res" where
  "generate_block_hash_extra_keys sha r start stop start_mm_idx =
     bind_res (gen_mm_extra_hash_keys (mm_features r) start stop start_mm_idx)
       (\<lambda>(mm_keys, new_idx).
          let ks = gen_lora_extra_hash_keys r @ mm_keys @ cache_salt_keys r start
                     @ embeds_keys sha r start stop
          in Inr (if ks = [] then None else Some ks, new_idx))"

datatype event_key = EvMM string int | EvStr string | EvBytes bytes

fun untag_key :: "extra_key \<Rightarrow> event_key" where
  "untag_key (KeyMM i off) = EvMM i off"
| "untag_key (KeyLora n p) = EvStr n"
| "untag_key (KeySalt s) = EvStr s"
| "untag_key (KeyEmbeds h) = EvBytes h"

definition to_event_extra_keys ::
    "extra_key list option list option \<Rightarrow> event_key list option list option" where
  "to_event_extra_keys extra =
     (case extra of None \<Rightarrow> None
      | Some ks \<Rightarrow> if ks = [] then None else Some (map (map_option (map untag_key)) ks))"

section \<open>The chained block hash\<close>

type_synonym hash_fn = "bytes \<times> int list \<times> extra_key list option \<Rightarrow> bytes"

definition hash_block_tokens ::
    "hash_fn \<Rightarrow> bytes \<Rightarrow> bytes option \<Rightarrow> int list \<Rightarrow> extra_key list option \<Rightarrow> bytes" where
  "hash_block_tokens hf nh parent toks extra =
     hf ((case parent of None \<Rightarrow> nh | Some p \<Rightarrow> if p = [] then nh else p), toks, extra)"

text \<open>\<open>bisect_left\<close> of Python's \<open>bisect\<close> module on the keys \<open>ks\<close>.\<close>

function bisect_left :: "int list \<Rightarrow> int \<Rightarrow> nat \<Rightarrow> nat \<Rightarrow> nat" where
  "bisect_left ks x lo hi =
     (if lo < hi then
        let m = (lo + hi) div 2 in
        if ks ! m < x then bisect_left ks x (m + 1) hi else bisect_left ks x lo m
      else lo)"
  by pat_completeness auto
termination by (relation "measure (\<lambda>(ks, x, lo, hi). hi - lo)") auto

declare bisect_left.simps [simp del]

definition get_mm_features_in_window :: "mm_feature list \<Rightarrow> int \<Rightarrow> int \<Rightarrow> nat \<times> nat" where
  "get_mm_features_in_window fs start stop =
     (bisect_left (map (\<lambda>f. mm_offset f + mm_length f) fs) (start + 1) 0 (length fs),
      bisect_left (map mm_offset fs) stop 0 (length fs))"

function hash_loop ::
    "(bytes \<Rightarrow> bytes) \<Rightarrow> hash_fn \<Rightarrow> bytes \<Rightarrow> int \<Rightarrow> request \<Rightarrow> int \<Rightarrow> int \<Rightarrow> bytes option \<Rightarrow> bytes list
      \<Rightarrow> bytes list res" where
  "hash_loop sha hf nh B r start mm_idx prev acc =
     (if B \<le> 0 then Inl Diverges
      else if start + B > num_tokens r then Inr acc
      else bind_res (generate_block_hash_extra_keys sha r start (start + B) mm_idx)
        (\<lambda>(extra, mm_idx').
           let h = hash_block_tokens hf nh prev (py_slice (all_token_ids r) start (start + B)) extra
           in hash_loop sha hf nh B r (start + B) mm_idx' (Some h) (acc @ [h])))"
  by pat_completeness auto
termination
  by (relation "measure (\<lambda>(sha, hf, nh, B, r, start, i, p, acc). nat (num_tokens r - start + 1))") auto

declare hash_loop.simps [simp del]

definition request_block_hasher ::
    "(bytes \<Rightarrow> bytes) \<Rightarrow> hash_fn \<Rightarrow> bytes \<Rightarrow> int \<Rightarrow> request \<Rightarrow> bytes list res" where
  "request_block_hasher sha hf nh B r =
     (let start = int (length (block_hashes r)) * B in
      if start + B > num_tokens r then Inr []
      else
        let fs = mm_features r;
            idx = (if 0 < start \<and> fs \<noteq> [] \<and> mm_offset (last fs) + mm_length (last fs) > start
                   then int (fst (get_mm_features_in_window fs start (start + B))) else 0);
            prev = (if block_hashes r = [] then None else Some (last (block_hashes r)))
        in hash_loop sha hf nh B r start idx prev [])"

section \<open>Block hashes at a coarser block size\<close>

datatype hash_list = RawHashes "bytes list" | ScaledHashes "bytes list" int

definition scaled_hashes :: "bytes list \<Rightarrow> int \<Rightarrow> int \<Rightarrow> hash_list res" where
  "scaled_hashes hs hash_block_size target =
     (if hash_block_size = 0 then Inl ZeroDivisionError
      else bind_res (assert_res (target mod hash_block_size = 0) AssertionError)
        (\<lambda>_. Inr (ScaledHashes hs (target div hash_block_size))))"

fun hash_list_len :: "hash_list \<Rightarrow> int" where
  "hash_list_len (RawHashes hs) = int (length hs)"
| "hash_list_len (ScaledHashes hs scale) = int (length hs) div scale"

fun hash_list_get :: "hash_list \<Rightarrow> int \<Rightarrow> bytes res" where
  "hash_list_get (RawHashes hs) i = py_get hs i"
| "hash_list_get (ScaledHashes hs scale) i = py_get hs ((i + 1) * scale - 1)"

text \<open>Slicing from \<open>a\<close> (a non-negative index) to the end, the only slice the code takes.\<close>

definition hash_list_from :: "hash_list \<Rightarrow> int \<Rightarrow> bytes list res" where
  "hash_list_from hl a =
     (case hl of RawHashes hs \<Rightarrow> Inr (drop (nat a) hs)
      | ScaledHashes hs scale \<Rightarrow>
          fold_res (\<lambda>i acc. bind_res (hash_list_get hl (int i)) (\<lambda>h. Inr (acc @ [h])))
            [nat a..<nat (hash_list_len hl)] [])"

definition resolve_block_hashes ::
    "hash_list \<Rightarrow> int \<Rightarrow> int \<Rightarrow> bool \<Rightarrow> int option \<Rightarrow> hash_list res" where
  "resolve_block_hashes hl hash_block_size block_size fine_grained alignment =
     (if block_size = hash_block_size then Inr hl
      else case hl of
        ScaledHashes hs scale \<Rightarrow>
          bind_res (assert_res (scale = block_size div hash_block_size) AssertionError)
            (\<lambda>_. Inr hl)
      | RawHashes hs \<Rightarrow>
          (case alignment of
             Some al \<Rightarrow>
               if fine_grained \<and> al < block_size then
                 if al = 0 then Inl ZeroDivisionError
                 else if block_size mod al = 0 then Inr hl
                 else scaled_hashes hs hash_block_size block_size
               else scaled_hashes hs hash_block_size block_size
           | None \<Rightarrow> scaled_hashes hs hash_block_size block_size))"

section \<open>Lemmas: packing\<close>

lemma from_bytes_be4:
  assumes "0 \<le> g" "g < 2 ^ 32"
  shows "from_bytes_be [word_of_int (g div 2 ^ 24), word_of_int (g div 2 ^ 16),
      word_of_int (g div 2 ^ 8), word_of_int g] = g"
proof -
  have "uint (word_of_int x :: 8 word) = x mod 256" for x
    by (simp add: uint_word_of_int)
  then have "from_bytes_be [word_of_int (g div 2 ^ 24), word_of_int (g div 2 ^ 16),
      word_of_int (g div 2 ^ 8), word_of_int g]
    = ((g div 16777216 mod 256 * 256 + g div 65536 mod 256) * 256 + g div 256 mod 256) * 256 + g mod 256"
    by (simp add: from_bytes_be_def)
  also have "\<dots> = g"
  proof -
    have e: "g div 65536 = g div 256 div 256" "g div 16777216 = g div 256 div 256 div 256"
      using zdiv_zmult2_eq[of 256 g 256] zdiv_zmult2_eq[of 256 "g div 256" 256]
        zdiv_zmult2_eq[of 65536 g 256] by simp_all
    have "0 \<le> g div 16777216" "g div 16777216 < 256" 
      using assms le_div_iff_mult[of 16777216 0 g] le_div_iff_mult[of 16777216 256 g] by simp_all
    then have "g div 16777216 mod 256 = g div 16777216" by (rule mod_pos_pos_trivial)
    moreover have "x div 256 * 256 + x mod 256 = x" for x :: int by (rule div_mult_mod_eq)
    ultimately show ?thesis unfolding e by metis
  qed
  finally show ?thesis .
qed

lemmas from_bytes_be4_num = from_bytes_be4[simplified]

lemma make_block_hash_Inr:
  "make_block_hash_with_group_id h g = Inr k \<Longrightarrow>
     0 \<le> g \<and> g < 2 ^ 32 \<and> get_block_hash k = h \<and> get_group_id k = g \<and> length k = length h + 4"
  by (auto simp: make_block_hash_with_group_id_def to_bytes_be4_def get_block_hash_def
      get_group_id_def from_bytes_be4_num split: if_splits)

lemma make_block_hash_ok:
  "0 \<le> g \<Longrightarrow> g < 2 ^ 32 \<Longrightarrow> \<exists>k. make_block_hash_with_group_id h g = Inr k"
  by (simp add: make_block_hash_with_group_id_def to_bytes_be4_def)

section \<open>Lemmas: the multimodal window\<close>

lemma bisect_left_stop: "\<not> lo < hi \<Longrightarrow> bisect_left ks x lo hi = lo"
  by (subst bisect_left.simps) simp

lemma bisect_left_step:
  "lo < hi \<Longrightarrow> bisect_left ks x lo hi =
     (if ks ! ((lo + hi) div 2) < x then bisect_left ks x ((lo + hi) div 2 + 1) hi
      else bisect_left ks x lo ((lo + hi) div 2))"
  by (subst bisect_left.simps) (simp add: Let_def)

lemma bisect_left_bounds: "lo \<le> hi \<Longrightarrow> lo \<le> bisect_left ks x lo hi \<and> bisect_left ks x lo hi \<le> hi"
proof (induction ks x lo hi rule: bisect_left.induct)
  case (1 ks x lo hi)
  show ?case
  proof (cases "lo < hi")
    case True
    then have m: "(lo + hi) div 2 + 1 \<le> hi" "lo \<le> (lo + hi) div 2" by auto
    show ?thesis
      using "1.IH"(1)[OF True refl _ m(1)] "1.IH"(2)[OF True refl _ m(2)] m
      by (auto simp: bisect_left_step[OF True])
  next
    case False
    then show ?thesis using "1.prems" by (simp add: bisect_left_stop)
  qed
qed

text \<open>On sorted keys everything left of the result is below \<open>x\<close>.\<close>

lemma bisect_left_below:
  assumes "sorted ks" "hi \<le> length ks" "lo \<le> hi" "\<And>i. i < lo \<Longrightarrow> ks ! i < x"
    and "i < bisect_left ks x lo hi"
  shows "ks ! i < x"
  using assms
proof (induction ks x lo hi rule: bisect_left.induct)
  case (1 ks x lo hi)
  show ?case
  proof (cases "lo < hi")
    case False
    then have "bisect_left ks x lo hi = lo" by (rule bisect_left_stop)
    then show ?thesis using "1.prems"(4)[of i] "1.prems"(5) by simp
  next
    case True
    let ?m = "(lo + hi) div 2"
    have m: "?m < hi" "lo \<le> ?m" using True by auto
    show ?thesis
    proof (cases "ks ! ?m < x")
      case less: True
      have "ks ! j < x" if "j < ?m + 1" for j
        using sorted_nth_mono[OF "1.prems"(1), of j ?m] that less m "1.prems"(2) by fastforce
      then show ?thesis
        using "1.IH"(1)[OF True refl less "1.prems"(1,2)] m True less "1.prems"(5)
        by (simp add: bisect_left_step)
    next
      case False
      then show ?thesis
        using "1.IH"(2)[OF True refl False "1.prems"(1)] m True "1.prems"(2,4,5)
        by (simp add: bisect_left_step)
    qed
  qed
qed

definition mm_sorted :: "mm_feature list \<Rightarrow> bool" where
  "mm_sorted fs \<longleftrightarrow> (\<forall>f \<in> set fs. 0 \<le> mm_offset f \<and> 0 \<le> mm_length f) \<and>
     sorted_wrt (\<lambda>f g. mm_offset f + mm_length f \<le> mm_offset g) fs"

lemma mm_sorted_Cons:
  "mm_sorted (f # fs) \<longleftrightarrow> 0 \<le> mm_offset f \<and> 0 \<le> mm_length f \<and> mm_sorted fs \<and>
     (\<forall>g \<in> set fs. mm_offset f + mm_length f \<le> mm_offset g)"
  by (auto simp: mm_sorted_def)

lemma mm_sorted_drop: "mm_sorted fs \<Longrightarrow> mm_sorted (drop n fs)"
  unfolding mm_sorted_def by (metis in_set_dropD sorted_wrt_drop)

text \<open>The features that overlap a block, whatever index the scan starts from.\<close>

definition window_keys :: "mm_feature list \<Rightarrow> int \<Rightarrow> int \<Rightarrow> extra_key list" where
  "window_keys fs start stop =
     map (\<lambda>f. KeyMM (mm_identifier f) (mm_offset f - start))
       (filter (\<lambda>f. mm_offset f < stop \<and> start < mm_offset f + mm_length f) fs)"

definition idx_ok :: "mm_feature list \<Rightarrow> int \<Rightarrow> int \<Rightarrow> bool" where
  "idx_ok fs start i \<longleftrightarrow> 0 \<le> i \<and> i \<le> int (length fs) \<and>
     (\<forall>f \<in> set (take (nat i) fs). mm_offset f + mm_length f \<le> start)"

lemma mm_keys_loop_spec:
  assumes "mm_sorted fs" "start < stop"
  shows "\<exists>n. mm_keys_loop fs cur start stop = (window_keys fs start stop, cur + int n) \<and>
     n \<le> length fs \<and> (\<forall>f \<in> set (take n fs). mm_offset f + mm_length f \<le> stop)"
  using assms(1)
proof (induction fs arbitrary: cur)
  case Nil
  then show ?case by (auto simp: window_keys_def)
next
  case (Cons f fs)
  let ?stop = "mm_offset f + mm_length f"
  obtain n where n: "mm_keys_loop fs (cur + 1) start stop = (window_keys fs start stop, cur + 1 + int n)"
    "n \<le> length fs" "\<forall>g \<in> set (take n fs). mm_offset g + mm_length g \<le> stop"
    using Cons.IH[of "cur + 1"] Cons.prems by (auto simp: mm_sorted_Cons)
  have later: "?stop \<le> mm_offset g" "0 \<le> mm_length f" if "g \<in> set fs" for g
    using Cons.prems that by (auto simp: mm_sorted_Cons)
  have none: "window_keys fs start stop = []" if "stop \<le> ?stop"
    using later that by (force simp: window_keys_def filter_empty_conv)
  show ?case
  proof (cases "mm_offset f < stop \<and> ?stop \<le> stop")
    case True
    then show ?thesis using n assms(2)
      by (intro exI[of _ "Suc n"]) (auto simp: window_keys_def)
  next
    case False
    then show ?thesis using none Cons.prems assms(2)
      by (intro exI[of _ 0]) (auto simp: window_keys_def mm_sorted_Cons)
  qed
qed

lemma window_keys_skip:
  assumes "\<forall>f \<in> set (take n fs). mm_offset f + mm_length f \<le> start"
  shows "window_keys (drop n fs) start stop = window_keys fs start stop"
proof -
  have "window_keys fs start stop = window_keys (take n fs @ drop n fs) start stop" by simp
  also have "\<dots> = window_keys (take n fs) start stop @ window_keys (drop n fs) start stop"
    by (simp only: window_keys_def filter_append map_append)
  also have "window_keys (take n fs) start stop = []"
    using assms by (fastforce simp: window_keys_def filter_empty_conv)
  finally show ?thesis by simp
qed

lemma mm_sorted_last:
  assumes "mm_sorted fs" "f \<in> set fs"
  shows "mm_offset f + mm_length f \<le> mm_offset (last fs) + mm_length (last fs)"
  using assms
proof (induction fs)
  case (Cons a fs)
  show ?case
  proof (cases "fs = []")
    case False
    then have "last fs \<in> set fs" by simp
    then have "mm_offset a + mm_length a \<le> mm_offset (last fs)" "0 \<le> mm_length (last fs)"
      using Cons.prems(1) by (simp_all add: mm_sorted_def)
    then have 1: "mm_offset a + mm_length a \<le> mm_offset (last fs) + mm_length (last fs)"
      by linarith
    show ?thesis
    proof (cases "f = a")
      case True
      then show ?thesis using 1 False by simp
    next
      case False
      then show ?thesis using Cons \<open>fs \<noteq> []\<close> by (simp add: mm_sorted_Cons)
    qed
  qed (use Cons.prems in auto)
qed simp

lemma gen_mm_spec:
  assumes "mm_sorted fs" "idx_ok fs start i" "start < stop"
  shows "\<exists>i'. gen_mm_extra_hash_keys fs start stop i = Inr (window_keys fs start stop, i') \<and>
     idx_ok fs stop i'"
proof -
  have weaken: "idx_ok fs stop i" using assms(2,3) by (fastforce simp: idx_ok_def)
  consider "fs = []" | "fs \<noteq> []" "mm_offset (last fs) + mm_length (last fs) \<le> start"
    | "fs \<noteq> []" "start < mm_offset (last fs) + mm_length (last fs)" by linarith
  then show ?thesis
  proof cases
    case 1
    then show ?thesis using weaken by (auto simp: gen_mm_extra_hash_keys_def window_keys_def)
  next
    case 2
    have "mm_offset f + mm_length f \<le> start" if "f \<in> set fs" for f
      using mm_sorted_last[OF assms(1) that] 2 by simp
    then have "window_keys fs start stop = []"
      by (force simp: window_keys_def filter_empty_conv)
    then show ?thesis using 2 weaken by (auto simp: gen_mm_extra_hash_keys_def)
  next
    case 3
    let ?d = "drop (nat i) fs"
    obtain n where n: "mm_keys_loop ?d i start stop = (window_keys ?d start stop, i + int n)"
      "n \<le> length ?d" "\<forall>f \<in> set (take n ?d). mm_offset f + mm_length f \<le> stop"
      using mm_keys_loop_spec[OF mm_sorted_drop[OF assms(1)] assms(3)] by blast
    have i: "0 \<le> i" "nat i \<le> length fs" using assms(2) by (auto simp: idx_ok_def)
    have "take (nat (i + int n)) fs = take (nat i) fs @ take n ?d"
      using i by (simp add: nat_add_distrib take_add)
    then have "idx_ok fs stop (i + int n)"
      using weaken n(2,3) i by (auto simp: idx_ok_def)
    moreover have "window_keys ?d start stop = window_keys fs start stop"
      using assms(2) by (intro window_keys_skip) (simp add: idx_ok_def)
    ultimately show ?thesis using 3 i n(1) by (auto simp: gen_mm_extra_hash_keys_def)
  qed
qed

lemma window_idx_ok:
  assumes "mm_sorted fs" "idx = fst (get_mm_features_in_window fs start stop)"
  shows "idx_ok fs start (int idx)"
proof -
  let ?ks = "map (\<lambda>f. mm_offset f + mm_length f) fs"
  have len: "\<And>f. f \<in> set fs \<Longrightarrow> 0 \<le> mm_length f"
    and "sorted_wrt (\<lambda>f g. mm_offset f + mm_length f \<le> mm_offset g) fs"
    using assms(1) by (auto simp: mm_sorted_def)
  then have "sorted_wrt (\<lambda>f g. mm_offset f + mm_length f \<le> mm_offset g + mm_length g) fs"
    by (auto elim!: sorted_wrt_mono_rel[rotated] dest!: len)
  then have sorted: "sorted ?ks" by (simp add: sorted_wrt_map)
  have b: "idx \<le> length fs" using assms(2) bisect_left_bounds[of 0 "length fs"]
    by (simp add: get_mm_features_in_window_def)
  have "mm_offset (fs ! j) + mm_length (fs ! j) \<le> start" if "j < idx" for j
    using bisect_left_below[OF sorted, of "length fs" 0 "start + 1" j] that b assms(2)
    by (simp add: get_mm_features_in_window_def)
  then show ?thesis using b by (auto simp: idx_ok_def in_set_conv_nth)
qed

section \<open>The chain a request should have\<close>

definition block_tokens :: "int \<Rightarrow> request \<Rightarrow> nat \<Rightarrow> int list" where
  "block_tokens B r k = py_slice (all_token_ids r) (int k * B) (int k * B + B)"

definition canon_extra :: "(bytes \<Rightarrow> bytes) \<Rightarrow> int \<Rightarrow> request \<Rightarrow> nat \<Rightarrow> extra_key list option" where
  "canon_extra sha B r k =
     (let start = int k * B;
          ks = gen_lora_extra_hash_keys r @ window_keys (mm_features r) start (start + B)
                 @ cache_salt_keys r start @ embeds_keys sha r start (start + B)
      in if ks = [] then None else Some ks)"

primrec canon_hash :: "(bytes \<Rightarrow> bytes) \<Rightarrow> hash_fn \<Rightarrow> bytes \<Rightarrow> int \<Rightarrow> request \<Rightarrow> nat \<Rightarrow> bytes" where
  "canon_hash sha hf nh B r 0 =
     hash_block_tokens hf nh None (block_tokens B r 0) (canon_extra sha B r 0)"
| "canon_hash sha hf nh B r (Suc k) =
     hash_block_tokens hf nh (Some (canon_hash sha hf nh B r k)) (block_tokens B r (Suc k))
       (canon_extra sha B r (Suc k))"

definition canon_prev :: "(bytes \<Rightarrow> bytes) \<Rightarrow> hash_fn \<Rightarrow> bytes \<Rightarrow> int \<Rightarrow> request \<Rightarrow> nat \<Rightarrow> bytes option" where
  "canon_prev sha hf nh B r k =
     (case k of 0 \<Rightarrow> None | Suc j \<Rightarrow> Some (canon_hash sha hf nh B r j))"

lemma canon_hash_prev:
  "canon_hash sha hf nh B r k =
     hash_block_tokens hf nh (canon_prev sha hf nh B r k) (block_tokens B r k) (canon_extra sha B r k)"
  by (cases k) (simp_all add: canon_prev_def)

definition full_blocks :: "int \<Rightarrow> request \<Rightarrow> nat" where
  "full_blocks B r = nat (num_tokens r div B)"

lemma full_blocks_iff:
  assumes "0 < B"
  shows "k < full_blocks B r \<longleftrightarrow> int k * B + B \<le> num_tokens r"
proof -
  have "k < full_blocks B r \<longleftrightarrow> int k + 1 \<le> num_tokens r div B"
    by (auto simp: full_blocks_def)
  also have "\<dots> \<longleftrightarrow> (int k + 1) * B \<le> num_tokens r" by (rule le_div_iff_mult[OF assms])
  finally show ?thesis by (simp add: algebra_simps)
qed

lemma extra_keys_spec:
  assumes "mm_sorted (mm_features r)" "idx_ok (mm_features r) (int k * B) i" "0 < B"
  shows "\<exists>i'. generate_block_hash_extra_keys sha r (int k * B) (int k * B + B) i
      = Inr (canon_extra sha B r k, i') \<and> idx_ok (mm_features r) (int (Suc k) * B) i'"
proof -
  obtain i' where "gen_mm_extra_hash_keys (mm_features r) (int k * B) (int k * B + B) i
      = Inr (window_keys (mm_features r) (int k * B) (int k * B + B), i')"
    "idx_ok (mm_features r) (int k * B + B) i'"
    using gen_mm_spec[OF assms(1,2), of "int k * B + B"] assms(3) by auto
  then show ?thesis
    by (auto simp: generate_block_hash_extra_keys_def canon_extra_def Let_def algebra_simps)
qed

lemma hash_loop_spec:
  assumes "mm_sorted (mm_features r)" "0 < B"
    and "idx_ok (mm_features r) (int k * B) i" "k \<le> full_blocks B r"
  shows "hash_loop sha hf nh B r (int k * B) i (canon_prev sha hf nh B r k) acc
    = Inr (acc @ map (canon_hash sha hf nh B r) [k..<full_blocks B r])"
  using assms(3,4)
proof (induction "full_blocks B r - k" arbitrary: k i acc)
  case 0
  then have "\<not> int k * B + B \<le> num_tokens r" "k = full_blocks B r"
    using full_blocks_iff[OF assms(2), of k r] by auto
  then show ?case using assms(2) by (subst hash_loop.simps) simp
next
  case (Suc m)
  then have lt: "k < full_blocks B r" by simp
  obtain i' where e: "generate_block_hash_extra_keys sha r (int k * B) (int k * B + B) i
      = Inr (canon_extra sha B r k, i')" and i': "idx_ok (mm_features r) (int (Suc k) * B) i'"
    using extra_keys_spec[OF assms(1) Suc.prems(1) assms(2)] by blast
  have "hash_loop sha hf nh B r (int k * B) i (canon_prev sha hf nh B r k) acc
      = hash_loop sha hf nh B r (int (Suc k) * B) i' (canon_prev sha hf nh B r (Suc k))
          (acc @ [canon_hash sha hf nh B r k])"
    using lt full_blocks_iff[OF assms(2), of k r] assms(2) e
    by (subst hash_loop.simps)
      (simp add: Let_def canon_hash_prev[of sha hf nh B r k] block_tokens_def
        canon_prev_def[of sha hf nh B r "Suc k"] algebra_simps)
  also have "\<dots> = Inr ((acc @ [canon_hash sha hf nh B r k])
      @ map (canon_hash sha hf nh B r) [Suc k..<full_blocks B r])"
    using Suc.hyps(1)[of "Suc k" i' "acc @ [canon_hash sha hf nh B r k]"] Suc.hyps(2) i' lt by simp
  finally show ?case using lt by (simp add: upt_conv_Cons)
qed

text \<open>Given the hashes of the first \<open>k\<close> blocks, the hasher returns those of the others.\<close>

lemma hasher_spec:
  assumes "mm_sorted (mm_features r)" "0 < B" "k \<le> full_blocks B r"
    and "block_hashes r = map (canon_hash sha hf nh B r) [0..<k]"
  shows "request_block_hasher sha hf nh B r = Inr (map (canon_hash sha hf nh B r) [k..<full_blocks B r])"
proof (cases "k < full_blocks B r")
  case False
  then show ?thesis using assms full_blocks_iff[OF assms(2), of k r]
    by (simp add: request_block_hasher_def)
next
  case True
  let ?fs = "mm_features r"
  let ?s = "int k * B"
  let ?idx = "if 0 < ?s \<and> ?fs \<noteq> [] \<and> mm_offset (last ?fs) + mm_length (last ?fs) > ?s
    then int (fst (get_mm_features_in_window ?fs ?s (?s + B))) else 0"
  have prev: "(if block_hashes r = [] then None else Some (last (block_hashes r)))
      = canon_prev sha hf nh B r k"
    using assms(4) by (cases k) (auto simp: canon_prev_def)
  have idx: "idx_ok ?fs ?s ?idx"
    using window_idx_ok[OF assms(1) refl, of ?s "?s + B"] by (simp add: idx_ok_def)
  have len: "length (block_hashes r) = k" using assms(4) by simp
  have "request_block_hasher sha hf nh B r = hash_loop sha hf nh B r ?s ?idx (canon_prev sha hf nh B r k) []"
    using True full_blocks_iff[OF assms(2), of k r]
    by (simp only: request_block_hasher_def Let_def len prev) simp
  then show ?thesis using hash_loop_spec[OF assms(1,2) idx assms(3), of sha hf nh "[]"] by simp
qed

section \<open>Incremental hashing\<close>

lemma py_slice_append:
  assumes "0 \<le> a" "a \<le> b" "b \<le> int (length xs)"
  shows "py_slice (xs @ ys) a b = py_slice xs a b"
  using assms by (simp add: py_slice_def clip_def Let_def)

lemma canon_extra_cong:
  "mm_features r' = mm_features r \<Longrightarrow> req_lora r' = req_lora r \<Longrightarrow> cache_salt r' = cache_salt r
    \<Longrightarrow> prompt_embeds r' = prompt_embeds r \<Longrightarrow> canon_extra sha B r' k = canon_extra sha B r k"
  by (simp add: canon_extra_def gen_lora_extra_hash_keys_def cache_salt_keys_def embeds_keys_def)

lemma canon_hash_append:
  assumes "0 < B" "all_token_ids r' = all_token_ids r @ toks" "mm_features r' = mm_features r"
    "req_lora r' = req_lora r" "cache_salt r' = cache_salt r" "prompt_embeds r' = prompt_embeds r"
  shows "k < full_blocks B r \<Longrightarrow> canon_hash sha hf nh B r' k = canon_hash sha hf nh B r k"
proof (induction k)
  case 0
  then have "block_tokens B r' 0 = block_tokens B r 0"
    using assms(1,2) full_blocks_iff[OF assms(1), of 0 r]
    by (simp add: block_tokens_def num_tokens_def py_slice_append)
  then show ?case using canon_extra_cong[OF assms(3-6)] by simp
next
  case (Suc k)
  then have "block_tokens B r' (Suc k) = block_tokens B r (Suc k)"
    using assms(1,2) full_blocks_iff[OF assms(1), of "Suc k" r]
    by (simp add: block_tokens_def num_tokens_def py_slice_append)
  then show ?case using canon_extra_cong[OF assms(3-6)] Suc by simp
qed

lemma full_blocks_mono: "0 < B \<Longrightarrow> num_tokens r \<le> num_tokens r' \<Longrightarrow> full_blocks B r \<le> full_blocks B r'"
  by (simp add: full_blocks_def nat_mono zdiv_mono1)

definition hashes_current :: "(bytes \<Rightarrow> bytes) \<Rightarrow> hash_fn \<Rightarrow> bytes \<Rightarrow> int \<Rightarrow> request \<Rightarrow> bool" where
  "hashes_current sha hf nh B r \<longleftrightarrow>
     request_block_hasher sha hf nh B (r\<lparr>block_hashes := []\<rparr>) = Inr (block_hashes r)"

lemma canon_hash_block_hashes:
  "canon_hash sha hf nh B (r\<lparr>block_hashes := hs\<rparr>) = canon_hash sha hf nh B r"
proof
  show "canon_hash sha hf nh B (r\<lparr>block_hashes := hs\<rparr>) k = canon_hash sha hf nh B r k" for k
    by (induction k) (simp_all add: canon_extra_def gen_lora_extra_hash_keys_def
        cache_salt_keys_def embeds_keys_def block_tokens_def)
qed

lemma full_blocks_block_hashes: "full_blocks B (r\<lparr>block_hashes := hs\<rparr>) = full_blocks B r"
  by (simp add: full_blocks_def num_tokens_def)

lemma hashes_current_iff:
  assumes "mm_sorted (mm_features r)" "0 < B"
  shows "hashes_current sha hf nh B r \<longleftrightarrow>
    block_hashes r = map (canon_hash sha hf nh B r) [0..<full_blocks B r]"
  using hasher_spec[of "r\<lparr>block_hashes := []\<rparr>" B 0 sha hf nh] assms
  by (auto simp: hashes_current_def canon_hash_block_hashes full_blocks_block_hashes)

lemma append_step:
  assumes "mm_sorted (mm_features r)" "0 < B" "hashes_current sha hf nh B r"
  shows "\<exists>r'. append_output_token_ids (Some (request_block_hasher sha hf nh B)) toks r = Inr r' \<and>
    hashes_current sha hf nh B r' \<and> mm_features r' = mm_features r \<and>
    all_token_ids r' = all_token_ids r @ toks"
proof -
  let ?C = "canon_hash sha hf nh B"
  let ?r1 = "r\<lparr>output_token_ids := output_token_ids r @ toks, all_token_ids := all_token_ids r @ toks\<rparr>"
  have le: "full_blocks B r \<le> full_blocks B ?r1"
    using assms(2) by (intro full_blocks_mono) (simp_all add: num_tokens_def)
  have same: "map (?C ?r1) [0..<full_blocks B r] = map (?C r) [0..<full_blocks B r]"
    using canon_hash_append[OF assms(2), of ?r1 r toks] by simp
  then have bh: "block_hashes ?r1 = map (?C ?r1) [0..<full_blocks B r]"
    using assms by (simp add: hashes_current_iff)
  then have h: "request_block_hasher sha hf nh B ?r1 = Inr (map (?C ?r1) [full_blocks B r..<full_blocks B ?r1])"
    using assms le by (intro hasher_spec) simp_all
  let ?r2 = "?r1\<lparr>block_hashes := block_hashes ?r1 @ map (?C ?r1) [full_blocks B r..<full_blocks B ?r1]\<rparr>"
  have "block_hashes ?r2 = map (?C ?r1) ([0..<full_blocks B r] @ [full_blocks B r..<full_blocks B ?r1])"
    using bh by simp
  also have "[0..<full_blocks B r] @ [full_blocks B r..<full_blocks B ?r1] = [0..<full_blocks B ?r1]"
    using le by (metis le_add_diff_inverse upt_add_eq_append zero_le)
  also have "map (?C ?r1) [0..<full_blocks B ?r1] = map (?C ?r2) [0..<full_blocks B ?r2]"
  proof -
    have "full_blocks B ?r2 = full_blocks B ?r1" by (simp add: full_blocks_def num_tokens_def)
    moreover have "?C ?r2 k = ?C ?r1 k" if "k < full_blocks B ?r1" for k
      using canon_hash_append[OF assms(2), of ?r2 ?r1 "[]"] that by simp
    ultimately show ?thesis by simp
  qed
  finally have "hashes_current sha hf nh B ?r2" using assms by (simp add: hashes_current_iff)
  moreover have "append_output_token_ids (Some (request_block_hasher sha hf nh B)) toks r = Inr ?r2"
    using h by (simp add: append_output_token_ids_def update_block_hashes_def)
  ultimately show ?thesis by (intro exI[of _ ?r2]) simp
qed

text \<open>Property C29. Whatever batches of output tokens are appended to a request, the block hashes
  it accumulates incrementally are exactly those that hashing the final token sequence from
  scratch gives, and no append fails (sorted multimodal features, positive block size).\<close>

theorem incremental_hashing_is_scratch_hashing:
  assumes "mm_sorted (mm_features r)" "0 < B" "hashes_current sha hf nh B r"
  shows "\<exists>r'. fold_res (append_output_token_ids (Some (request_block_hasher sha hf nh B))) batches r
      = Inr r' \<and> request_block_hasher sha hf nh B (r'\<lparr>block_hashes := []\<rparr>) = Inr (block_hashes r') \<and>
      all_token_ids r' = all_token_ids r @ concat batches"
  using assms
proof (induction batches arbitrary: r)
  case Nil
  then show ?case by (simp add: hashes_current_def)
next
  case (Cons toks batches)
  obtain r1 where r1: "append_output_token_ids (Some (request_block_hasher sha hf nh B)) toks r = Inr r1"
    "hashes_current sha hf nh B r1" "mm_features r1 = mm_features r"
    "all_token_ids r1 = all_token_ids r @ toks"
    using append_step[OF Cons.prems] by blast
  then show ?case using Cons.IH[of r1] Cons.prems(1,2) by auto
qed

text \<open>A small injective-looking hash for the witnesses.\<close>

definition example_hash :: hash_fn where
  "example_hash = (\<lambda>(p, toks, extra). p @ map word_of_int toks @
     (case extra of None \<Rightarrow> [] | Some ks \<Rightarrow> [1, 2, 3]))"

lemma example_no_mm: "mm_sorted (mm_features (example_request rid ids))"
  by (simp add: example_request_def mm_sorted_def)

lemma example_current: "int (length ids) < B \<Longrightarrow> hashes_current sha hf nh B (example_request rid ids)"
  by (simp add: hashes_current_def request_block_hasher_def example_request_def num_tokens_def)

theorem incremental_hashing_is_scratch_hashing_witness:
  "\<exists>r'. fold_res (append_output_token_ids (Some (request_block_hasher id example_hash [9] 2)))
      [[2, 3], [], [4, 5, 6]] (example_request ''r'' [1]) = Inr r' \<and>
    request_block_hasher id example_hash [9] 2 (r'\<lparr>block_hashes := []\<rparr>) = Inr (block_hashes r') \<and>
    all_token_ids r' = all_token_ids (example_request ''r'' [1]) @ concat [[2, 3], [], [4, 5, 6]]"
  using incremental_hashing_is_scratch_hashing[OF example_no_mm, of 2 id example_hash "[9]" "''r''" "[1]"
      "[[2, 3], [], [4, 5, 6]]"] example_current[of "[1]" 2] by simp

section \<open>Soundness of sharing by hash\<close>

text \<open>The inputs the hash function receives for the first \<open>n\<close> blocks of a request.\<close>

definition chain_input ::
    "(bytes \<Rightarrow> bytes) \<Rightarrow> hash_fn \<Rightarrow> bytes \<Rightarrow> int \<Rightarrow> request \<Rightarrow> nat \<Rightarrow> bytes \<times> int list \<times> extra_key list option" where
  "chain_input sha hf nh B r k =
     ((case canon_prev sha hf nh B r k of None \<Rightarrow> nh | Some p \<Rightarrow> if p = [] then nh else p),
      block_tokens B r k, canon_extra sha B r k)"

lemma canon_hash_input: "canon_hash sha hf nh B r k = hf (chain_input sha hf nh B r k)"
  by (subst canon_hash_prev) (simp add: hash_block_tokens_def chain_input_def)

definition hashed_inputs ::
    "(bytes \<Rightarrow> bytes) \<Rightarrow> hash_fn \<Rightarrow> bytes \<Rightarrow> int \<Rightarrow> request \<Rightarrow> (bytes \<times> int list \<times> extra_key list option) set" where
  "hashed_inputs sha hf nh B r = chain_input sha hf nh B r ` {..<full_blocks B r}"

lemma chain_input_in:
  "hashed_inputs sha hf nh B r \<subseteq> S \<Longrightarrow> k < full_blocks B r \<Longrightarrow> chain_input sha hf nh B r k \<in> S"
  unfolding hashed_inputs_def by blast

lemma canon_hash_in:
  "hashed_inputs sha hf nh B r \<subseteq> S \<Longrightarrow> k < full_blocks B r \<Longrightarrow> canon_hash sha hf nh B r k \<in> hf ` S"
  using chain_input_in[of sha hf nh B r S k] by (simp add: canon_hash_input)

lemma canon_hash_collision:
  assumes "inj_on hf S" "nh \<notin> hf ` S" "[] \<notin> hf ` S"
    and "hashed_inputs sha hf nh B r1 \<subseteq> S" "hashed_inputs sha hf nh B r2 \<subseteq> S"
  shows "i < full_blocks B r1 \<Longrightarrow> j < full_blocks B r2 \<Longrightarrow>
    canon_hash sha hf nh B r1 i = canon_hash sha hf nh B r2 j \<Longrightarrow>
    i = j \<and> (\<forall>k \<le> i. block_tokens B r1 k = block_tokens B r2 k \<and> canon_extra sha B r1 k = canon_extra sha B r2 k)"
proof (induction i arbitrary: j)
  case 0
  have in1: "chain_input sha hf nh B r1 0 \<in> S" and in2: "chain_input sha hf nh B r2 j \<in> S"
    using assms(4,5) 0 by (auto simp: hashed_inputs_def)
  have eq: "chain_input sha hf nh B r1 0 = chain_input sha hf nh B r2 j"
    using assms(1) in1 in2 0(3) by (auto simp: canon_hash_input dest: inj_onD)
  have "j = 0"
  proof (rule ccontr)
    assume "j \<noteq> 0"
    then obtain l where l: "j = Suc l" using not0_implies_Suc by blast
    have "canon_hash sha hf nh B r2 l \<in> hf ` S"
      using canon_hash_in[OF assms(5), of l] 0(2) l by simp
    moreover have "canon_hash sha hf nh B r2 l = nh \<or> canon_hash sha hf nh B r2 l = []"
      using eq l by (auto simp: chain_input_def canon_prev_def split: if_splits)
    ultimately show False using assms(2,3) by auto
  qed
  then show ?case using eq by (simp add: chain_input_def)
next
  case (Suc i)
  have in1: "chain_input sha hf nh B r1 (Suc i) \<in> S" and in2: "chain_input sha hf nh B r2 j \<in> S"
    using assms(4,5) Suc.prems by (auto simp: hashed_inputs_def)
  have eq: "chain_input sha hf nh B r1 (Suc i) = chain_input sha hf nh B r2 j"
    using assms(1) in1 in2 Suc.prems(3) by (auto simp: canon_hash_input dest: inj_onD)
  have c1: "canon_hash sha hf nh B r1 i \<in> hf ` S"
    using canon_hash_in[OF assms(4), of i] Suc.prems(1) by simp
  then have n1: "canon_hash sha hf nh B r1 i \<noteq> nh" "canon_hash sha hf nh B r1 i \<noteq> []"
    using assms(2,3) by auto
  then obtain l where l: "j = Suc l"
    using eq by (cases j) (auto simp: chain_input_def canon_prev_def split: if_splits)
  have "canon_hash sha hf nh B r1 i = canon_hash sha hf nh B r2 l"
    using eq n1 l by (auto simp: chain_input_def canon_prev_def split: if_splits)
  then have "i = l \<and> (\<forall>k \<le> i. block_tokens B r1 k = block_tokens B r2 k \<and> canon_extra sha B r1 k = canon_extra sha B r2 k)"
    using Suc.IH[of l] Suc.prems(1,2) l by simp
  then show ?case using eq l by (auto simp: chain_input_def le_Suc_eq)
qed

lemma py_slice_block:
  "0 \<le> a \<Longrightarrow> 0 \<le> b \<Longrightarrow> a + b \<le> int (length xs) \<Longrightarrow> py_slice xs a (a + b) = take (nat b) (drop (nat a) xs)"
  by (simp add: py_slice_def clip_def Let_def nat_add_distrib)

lemma take_blocks:
  assumes "0 < B" "i < full_blocks B r"
  shows "take (nat (int (Suc i) * B)) (all_token_ids r) = concat (map (block_tokens B r) [0..<Suc i])"
  using assms(2)
proof (induction i)
  case 0
  then show ?case using full_blocks_iff[OF assms(1), of 0 r] assms(1)
    by (simp add: block_tokens_def py_slice_def clip_def num_tokens_def)
next
  case (Suc i)
  then have i: "int (Suc i) * B + B \<le> int (length (all_token_ids r))" "i < full_blocks B r"
    using full_blocks_iff[OF assms(1), of "Suc i" r] by (auto simp: num_tokens_def)
  have "0 \<le> int (Suc i) * B" using assms(1) by simp
  then have "block_tokens B r (Suc i) = take (nat B) (drop (nat (int (Suc i) * B)) (all_token_ids r))"
    using i assms(1) py_slice_block[of "int (Suc i) * B" B] by (simp only: block_tokens_def) simp
  moreover have "nat (int (Suc (Suc i)) * B) = nat (int (Suc i) * B) + nat B"
    using assms(1) \<open>0 \<le> int (Suc i) * B\<close> by (simp add: nat_add_distrib[symmetric] algebra_simps)
  ultimately show ?case using Suc.IH i(2) by (simp add: take_add)
qed

lemma canon_extra_parts:
  assumes "canon_extra sha B r1 k = canon_extra sha B r2 k"
  shows "gen_lora_extra_hash_keys r1 = gen_lora_extra_hash_keys r2 \<and>
    cache_salt_keys r1 (int k * B) = cache_salt_keys r2 (int k * B) \<and>
    window_keys (mm_features r1) (int k * B) (int k * B + B)
      = window_keys (mm_features r2) (int k * B) (int k * B + B)"
proof -
  let ?L = "\<lambda>r. gen_lora_extra_hash_keys r"
  let ?S = "\<lambda>r. cache_salt_keys r (int k * B)"
  let ?W = "\<lambda>r. window_keys (mm_features r) (int k * B) (int k * B + B)"
  let ?E = "\<lambda>r. embeds_keys sha r (int k * B) (int k * B + B)"
  define ks where "ks r = ?L r @ ?W r @ ?S r @ ?E r" for r
  have eq: "ks r1 = ks r2"
    using assms by (auto simp: canon_extra_def ks_def Let_def split: if_splits)
  have lora: "filter (\<lambda>x. case x of KeyLora _ _ \<Rightarrow> True | _ \<Rightarrow> False) (ks r) = ?L r" for r
    by (simp add: ks_def gen_lora_extra_hash_keys_def window_keys_def cache_salt_keys_def
        embeds_keys_def filter_map comp_def split: option.split)
  have salt: "filter (\<lambda>x. case x of KeySalt _ \<Rightarrow> True | _ \<Rightarrow> False) (ks r) = ?S r" for r
    by (simp add: ks_def gen_lora_extra_hash_keys_def window_keys_def cache_salt_keys_def
        embeds_keys_def filter_map comp_def split: option.split)
  have mm: "filter (\<lambda>x. case x of KeyMM _ _ \<Rightarrow> True | _ \<Rightarrow> False) (ks r) = ?W r" for r
    by (simp add: ks_def gen_lora_extra_hash_keys_def window_keys_def cache_salt_keys_def
        embeds_keys_def filter_map comp_def split: option.split)
  show ?thesis using eq lora[of r1] lora[of r2] salt[of r1] salt[of r2] mm[of r1] mm[of r2] by metis
qed

text \<open>Property C28. Prefix sharing is sound: if the block hash does not collide on the inputs the two
  requests feed it, and never produces the seed or the empty string, then a hash that two
  requests have in common is at the same block index, the tokens up to the end of that block are
  the same, and so are the LoRA adapter, the cache salt and the multimodal items overlapping
  each of those blocks. A cached block is therefore never served to a request with another
  prefix, salt, adapter or image.\<close>

theorem equal_block_hash_means_equal_prefix:
  assumes "inj_on hf (hashed_inputs sha hf nh B r1 \<union> hashed_inputs sha hf nh B r2)"
    and "nh \<notin> hf ` (hashed_inputs sha hf nh B r1 \<union> hashed_inputs sha hf nh B r2)"
    and "[] \<notin> hf ` (hashed_inputs sha hf nh B r1 \<union> hashed_inputs sha hf nh B r2)"
    and "mm_sorted (mm_features r1)" "mm_sorted (mm_features r2)" "0 < B"
    and "request_block_hasher sha hf nh B (r1\<lparr>block_hashes := []\<rparr>) = Inr hs1"
    and "request_block_hasher sha hf nh B (r2\<lparr>block_hashes := []\<rparr>) = Inr hs2"
    and "i < length hs1" "j < length hs2" "hs1 ! i = hs2 ! j"
  shows "i = j \<and>
    take (nat (int (Suc i) * B)) (all_token_ids r1) = take (nat (int (Suc i) * B)) (all_token_ids r2) \<and>
    gen_lora_extra_hash_keys r1 = gen_lora_extra_hash_keys r2 \<and>
    cache_salt_keys r1 0 = cache_salt_keys r2 0 \<and>
    (\<forall>k \<le> i. window_keys (mm_features r1) (int k * B) (int k * B + B)
      = window_keys (mm_features r2) (int k * B) (int k * B + B))"
proof -
  let ?C = "canon_hash sha hf nh B"
  have hs: "hs1 = map (?C r1) [0..<full_blocks B r1]" "hs2 = map (?C r2) [0..<full_blocks B r2]"
    using assms(7,8) hashes_current_iff[of "r1\<lparr>block_hashes := hs1\<rparr>" B sha hf nh] assms(4-6)
      hashes_current_iff[of "r2\<lparr>block_hashes := hs2\<rparr>" B sha hf nh]
    by (simp_all add: hashes_current_def canon_hash_block_hashes full_blocks_block_hashes)
  have eq: "i = j" and parts: "\<And>k. k \<le> i \<Longrightarrow> block_tokens B r1 k = block_tokens B r2 k"
      "\<And>k. k \<le> i \<Longrightarrow> canon_extra sha B r1 k = canon_extra sha B r2 k"
    using canon_hash_collision[OF assms(1-3) Un_upper1 Un_upper2, of i j] assms(9-11) hs by auto
  have "concat (map (block_tokens B r1) [0..<Suc i]) = concat (map (block_tokens B r2) [0..<Suc i])"
    using parts(1) by (intro arg_cong[of _ _ concat] map_cong) auto
  then have "take (nat (int (Suc i) * B)) (all_token_ids r1) = take (nat (int (Suc i) * B)) (all_token_ids r2)"
    using take_blocks[OF assms(6), of i r1] take_blocks[OF assms(6), of i r2] assms(9,10) hs eq by simp
  then show ?thesis
    using eq canon_extra_parts[OF parts(2)] canon_extra_parts[OF parts(2), of 0] by simp
qed

lemma full_blocks_example: "full_blocks 2 (example_request rid ids) = nat (int (length ids) div 2)"
  by (simp add: full_blocks_def num_tokens_def example_request_def)

lemma example_hash_eq: "example_hash (p, toks, None) = p @ map word_of_int toks"
  by (simp add: example_hash_def)

lemma chain_input_example:
  "chain_input id example_hash [9] 2 (example_request rid (a # b # ids)) 0 = ([9], [a, b], None)"
  "chain_input id example_hash [9] 2 (example_request rid (a # b # c # d # ids)) (Suc 0)
     = ([9, word_of_int a, word_of_int b], [c, d], None)"
  by (simp_all add: chain_input_def canon_prev_def block_tokens_def canon_extra_def example_request_def
      py_slice_def clip_def gen_lora_extra_hash_keys_def window_keys_def cache_salt_keys_def
      embeds_keys_def hash_block_tokens_def example_hash_def)

lemma hashed_inputs_example:
  "hashed_inputs id example_hash [9] 2 (example_request ''r'' [1, 2, 3, 4])
     = {([9], [1, 2], None), ([9, 1, 2], [3, 4], None)}"
  "hashed_inputs id example_hash [9] 2 (example_request ''q'' [1, 2, 3, 4, 5])
     = {([9], [1, 2], None), ([9, 1, 2], [3, 4], None)}"
  by (simp_all add: hashed_inputs_def full_blocks_example lessThan_Suc numeral_2_eq_2
      chain_input_example insert_commute)

lemma hasher_example:
  "request_block_hasher id example_hash [9] 2 ((example_request ''r'' [1, 2, 3, 4])\<lparr>block_hashes := []\<rparr>)
     = Inr [[9, 1, 2], [9, 1, 2, 3, 4]]"
  "request_block_hasher id example_hash [9] 2 ((example_request ''q'' [1, 2, 3, 4, 5])\<lparr>block_hashes := []\<rparr>)
     = Inr [[9, 1, 2], [9, 1, 2, 3, 4]]"
  using hasher_spec[of "(example_request ''r'' [1, 2, 3, 4])\<lparr>block_hashes := []\<rparr>" 2 0 id example_hash "[9]"]
    hasher_spec[of "(example_request ''q'' [1, 2, 3, 4, 5])\<lparr>block_hashes := []\<rparr>" 2 0 id example_hash "[9]"]
    example_no_mm
  by (simp_all add: canon_hash_block_hashes full_blocks_block_hashes full_blocks_example
      canon_hash_input chain_input_example upt_rec example_hash_eq)

theorem equal_block_hash_means_equal_prefix_witness:
  "take 4 (all_token_ids (example_request ''r'' [1, 2, 3, 4]))
     = take 4 (all_token_ids (example_request ''q'' [1, 2, 3, 4, 5]))"
proof -
  have "1 = (1::nat) \<and> take (nat (int (Suc 1) * 2)) (all_token_ids (example_request ''r'' [1, 2, 3, 4]))
     = take (nat (int (Suc 1) * 2)) (all_token_ids (example_request ''q'' [1, 2, 3, 4, 5])) \<and>
    gen_lora_extra_hash_keys (example_request ''r'' [1, 2, 3, 4])
      = gen_lora_extra_hash_keys (example_request ''q'' [1, 2, 3, 4, 5]) \<and>
    cache_salt_keys (example_request ''r'' [1, 2, 3, 4]) 0
      = cache_salt_keys (example_request ''q'' [1, 2, 3, 4, 5]) 0 \<and>
    (\<forall>k \<le> 1. window_keys (mm_features (example_request ''r'' [1, 2, 3, 4])) (int k * 2) (int k * 2 + 2)
      = window_keys (mm_features (example_request ''q'' [1, 2, 3, 4, 5])) (int k * 2) (int k * 2 + 2))"
    by (rule equal_block_hash_means_equal_prefix[where sha = id and hf = example_hash and nh = "[9]",
          OF _ _ _ example_no_mm example_no_mm _ hasher_example])
      (simp_all only: hashed_inputs_example, auto simp: example_hash_def inj_on_def)
  then show ?thesis by simp
qed

text \<open>Property C30. Packing a block hash with its KV cache group is lossless: for every group id
  that fits in 32 bits both parts are recovered from the key, and any other group id raises
  \<open>OverflowError\<close> instead of producing a key.\<close>

theorem group_id_packing_round_trip:
  "case make_block_hash_with_group_id h g of
     Inl e \<Rightarrow> e = OverflowError \<and> (g < 0 \<or> 2 ^ 32 \<le> g)
   | Inr k \<Rightarrow> 0 \<le> g \<and> g < 2 ^ 32 \<and> get_block_hash k = h \<and> get_group_id k = g"
  using make_block_hash_Inr[of h g]
  by (auto simp: make_block_hash_with_group_id_def to_bytes_be4_def split: sum.split if_splits)

section \<open>Coarser views\<close>

lemma scaled_get:
  assumes "0 < scale" "0 \<le> i" "i < int (length hs) div scale"
  shows "hash_list_get (ScaledHashes hs scale) i = Inr (hs ! nat ((i + 1) * scale - 1))"
proof -
  have "(i + 1) * scale \<le> int (length hs)" using le_div_iff_mult[OF assms(1), of "i + 1" "int (length hs)"] assms(3) by linarith
  moreover have "0 < (i + 1) * scale" using assms(1,2) by simp
  ultimately show ?thesis by (simp add: py_get_def py_index_def Let_def)
qed

lemma scaled_get_out:
  assumes "0 < scale" "int (length hs) div scale \<le> i" "0 \<le> i"
  shows "hash_list_get (ScaledHashes hs scale) i = Inl IndexError"
proof -
  have "\<not> (i + 1) * scale \<le> int (length hs)" using le_div_iff_mult[OF assms(1), of "i + 1" "int (length hs)"] assms(2) by linarith
  then show ?thesis by (simp add: py_get_def py_index_def Let_def)
qed

lemma scaled_from:
  assumes "0 < scale" "n \<le> nat (int (length hs) div scale)"
  shows "fold_res (\<lambda>i acc. bind_res (hash_list_get (ScaledHashes hs scale) (int i)) (\<lambda>h. Inr (acc @ [h])))
      [a..<n] acc = Inr (acc @ map (\<lambda>i. hs ! nat ((int i + 1) * scale - 1)) [a..<n])"
proof -
  have get: "hash_list_get (ScaledHashes hs scale) (int i) = Inr (hs ! nat ((int i + 1) * scale - 1))"
    if "i < n" for i
    using scaled_get[OF assms(1), of "int i" hs] assms(2) that by linarith
  have "\<forall>i \<in> set is. i < n \<Longrightarrow> fold_res (\<lambda>i acc. bind_res (hash_list_get (ScaledHashes hs scale) (int i))
      (\<lambda>h. Inr (acc @ [h]))) is acc = Inr (acc @ map (\<lambda>i. hs ! nat ((int i + 1) * scale - 1)) is)" for "is"
    by (induction "is" arbitrary: acc) (simp_all add: get del: hash_list_get.simps)
  then show ?thesis by simp
qed

text \<open>The view as a list, also where the block sizes are equal.\<close>

definition view_of :: "bytes list \<Rightarrow> int \<Rightarrow> bytes list" where
  "view_of hs scale = map (\<lambda>i. hs ! nat ((int i + 1) * scale - 1)) [0..<nat (int (length hs) div scale)]"

lemma view_spec:
  assumes "0 < hash_block_size" "0 < block_size" "block_size mod hash_block_size = 0"
  defines "scale \<equiv> block_size div hash_block_size"
  obtains hl where "resolve_block_hashes (RawHashes hs) hash_block_size block_size False None = Inr hl"
    "\<And>a. hash_list_from hl (int a) = Inr (drop a (view_of hs scale))"
    "\<And>i. i < length (view_of hs scale) \<Longrightarrow> hash_list_get hl (int i) = Inr (view_of hs scale ! i)"
proof (cases "block_size = hash_block_size")
  case True
  have v: "view_of hs scale = hs"
    using True assms(1) by (intro nth_equalityI) (simp_all add: view_of_def scale_def nat_add_distrib)
  show ?thesis using that[of "RawHashes hs"] True v
    by (simp add: resolve_block_hashes_def hash_list_from_def py_get_nat)
next
  case False
  have "hash_block_size \<le> block_size" using assms zmod_trivial_iff[of block_size hash_block_size] by force
  then have pos: "0 < scale" using assms by (simp add: pos_imp_zdiv_pos_iff)
  let ?hl = "ScaledHashes hs scale"
  have 1: "resolve_block_hashes (RawHashes hs) hash_block_size block_size False None = Inr ?hl"
    using False assms by (simp add: resolve_block_hashes_def scaled_hashes_def)
  have 2: "hash_list_from ?hl (int a) = Inr (drop a (view_of hs scale))" for a
    using scaled_from[OF pos order.refl, of hs a "[]"]
    by (simp add: hash_list_from_def view_of_def drop_map del: hash_list_get.simps)
  have 3: "hash_list_get ?hl (int i) = Inr (view_of hs scale ! i)" if "i < length (view_of hs scale)" for i
    using scaled_get[OF pos, of "int i" hs] that
    by (simp add: view_of_def zless_nat_eq_int_zless del: hash_list_get.simps)
  show ?thesis using that[OF 1 2 3] .
qed

text \<open>Viewing the hashes at a coarser block size that the hash block size divides: the
  view has one entry for each complete coarse block, entry \<open>i\<close> is the hash of the last fine
  block of coarse block \<open>i\<close> (so it identifies the whole prefix), the entries from an index on
  are read in order, an index past the end raises, and a block size that is not a multiple
  fails its assertion.\<close>

theorem coarser_view_of_hashes:
  assumes "0 < hash_block_size" "0 < block_size" "block_size \<noteq> hash_block_size"
  shows "if block_size mod hash_block_size = 0
    then \<exists>hl. resolve_block_hashes (RawHashes hs) hash_block_size block_size False None = Inr hl \<and>
      (let scale = block_size div hash_block_size; n = int (length hs) div scale
       in hash_list_len hl = n \<and>
          (\<forall>i. 0 \<le> i \<longrightarrow> hash_list_get hl i =
             (if i < n then Inr (hs ! nat ((i + 1) * scale - 1)) else Inl IndexError)) \<and>
          (\<forall>a. hash_list_from hl (int a) =
             Inr (map (\<lambda>i. hs ! nat ((int i + 1) * scale - 1)) [a..<nat n])))
    else resolve_block_hashes (RawHashes hs) hash_block_size block_size False None = Inl AssertionError"
proof (cases "block_size mod hash_block_size = 0")
  case False
  then show ?thesis using assms by (simp add: resolve_block_hashes_def scaled_hashes_def)
next
  case True
  let ?s = "block_size div hash_block_size"
  have "hash_block_size \<le> block_size" using True assms zmod_trivial_iff[of block_size hash_block_size] by force
  then have pos: "0 < ?s" using assms by (simp add: pos_imp_zdiv_pos_iff)
  show ?thesis using True assms pos scaled_get[OF pos] scaled_get_out[OF pos]
    by (auto simp: resolve_block_hashes_def scaled_hashes_def Let_def hash_list_from_def
        scaled_from[OF pos order.refl] simp del: hash_list_get.simps)
qed

theorem coarser_view_of_hashes_witness:
  "\<exists>hl. resolve_block_hashes (RawHashes [[1], [2], [3], [4], [5]]) 16 32 False None = Inr hl \<and>
     hash_list_len hl = 2 \<and> hash_list_get hl 1 = Inr [4]"
  using coarser_view_of_hashes[of 16 32 "[[1], [2], [3], [4], [5]]"] by (auto simp: Let_def)

end
