(* ===== verification/BlockPool.thy ===== *)
theory BlockPool imports BlockMap HashKeys
begin

text \<open>
  \<open>BlockPool\<close> of \<^verbatim>\<open>vllm/v1/core/block_pool.py\<close>: allocation, reference counting,
  prefix caching and eviction of KV cache blocks. A block is named by its \<open>block_id\<close>; its
  metadata lives in the store of the free queue, under \<open>Blk block_id\<close>.

  What the pool calls but does not own is recorded: the calls on the metrics collector and the
  reuse callbacks are traces, in call order. The iteration order of a Python \<open>set\<close> filled in a
  given order is the field \<open>set_order\<close>, about which only \<open>set_order_ok\<close> is assumed. \<open>env_int\<close>
  is the environment flag \<open>VLLM_KV_EVENTS_USE_INT_BLOCK_HASHES\<close>.
\<close>

section \<open>State\<close>

record block_stored =
  ev_block_hashes :: "ext_hash list"
  ev_parent_block_hash :: "ext_hash option"
  ev_token_ids :: "int list"
  ev_block_size :: int
  ev_lora_id :: "int option"
  ev_medium :: string
  ev_lora_name :: "string option"
  ev_extra_keys :: "event_key list option list option"
  ev_group_idx :: int
  ev_session_id :: "string option"

datatype kv_event = BlockStored block_stored | BlockRemoved "ext_hash list" string int
  | AllBlocksCleared

datatype metric_call = OnBlockAllocated nat | OnBlockEvicted nat | OnBlockAccessed nat
  | MetricsReset

record block_pool =
  num_gpu_blocks :: nat
  medium :: string
  enable_caching :: bool
  hash_block_size :: int
  queue :: free_queue
  cached_map :: block_map
  hashes_by_block :: "nat \<Rightarrow> bytes list option"
  null_block :: nat
  enable_kv_cache_events :: bool
  kv_event_queue :: "kv_event list"
  metrics :: "metric_call list option"
  reuse_watchers :: "(nat \<times> nat) list"
  reuse_log :: "(nat \<times> nat) list"
  set_order :: "bytes list \<Rightarrow> bytes list"
  env_int :: bool

definition blk :: "block_pool \<Rightarrow> nat \<Rightarrow> kv_block" where
  "blk p i = fq_store (queue p) (Blk i)"

definition upd_blk :: "nat \<Rightarrow> (kv_block \<Rightarrow> kv_block) \<Rightarrow> block_pool \<Rightarrow> block_pool" where
  "upd_blk i f p = p\<lparr>queue := (queue p)\<lparr>fq_store := upd_block (Blk i) f (fq_store (queue p))\<rparr>\<rparr>"

definition log_metric :: "metric_call \<Rightarrow> block_pool \<Rightarrow> block_pool" where
  "log_metric c p = p\<lparr>metrics := map_option (\<lambda>cs. cs @ [c]) (metrics p)\<rparr>"

definition push_event :: "kv_event \<Rightarrow> block_pool \<Rightarrow> block_pool" where
  "push_event e p = p\<lparr>kv_event_queue := kv_event_queue p @ [e]\<rparr>"

definition new_block_pool ::
    "int \<Rightarrow> bool \<Rightarrow> int \<Rightarrow> bool \<Rightarrow> metric_call list option \<Rightarrow> string
      \<Rightarrow> (bytes list \<Rightarrow> bytes list) \<Rightarrow> bool \<Rightarrow> block_pool res" where
  "new_block_pool n caching hbs events mets med so ei =
     bind_res (assert_res (0 < n) AssertionError) (\<lambda>_.
       let q = init_queue (map Blk [0..<nat n]) (fresh_store (nat n)) in
       bind_res (popleft q) (\<lambda>(b, q').
         (case b of
            Blk i \<Rightarrow> Inr (upd_blk i (is_null_update (\<lambda>_. True))
              \<lparr>num_gpu_blocks = nat n, medium = med, enable_caching = caching,
               hash_block_size = hbs, queue = q', cached_map = map_empty,
               hashes_by_block = (\<lambda>_. None), null_block = i, enable_kv_cache_events = events,
               kv_event_queue = [], metrics = mets, reuse_watchers = [], reuse_log = [],
               set_order = so, env_int = ei\<rparr>)
          | _ \<Rightarrow> Inl AttributeError)))"

section \<open>Lookup\<close>

fun get_cached_block_loop :: "block_pool \<Rightarrow> bytes \<Rightarrow> int list \<Rightarrow> nat list \<Rightarrow> nat list option res" where
  "get_cached_block_loop p h [] acc = Inr (Some acc)"
| "get_cached_block_loop p h (g # gs) acc =
     bind_res (make_block_hash_with_group_id h g) (\<lambda>key.
     bind_res (map_get_one_block (cached_map p) key) (\<lambda>ob.
       case ob of None \<Rightarrow> Inr None | Some b \<Rightarrow> get_cached_block_loop p h gs (acc @ [b])))"

definition get_cached_block :: "block_pool \<Rightarrow> bytes \<Rightarrow> int list \<Rightarrow> nat list option res" where
  "get_cached_block p h gids = get_cached_block_loop p h gids []"

section \<open>Registering and removing hashes\<close>

definition insert_block_hash :: "bytes \<Rightarrow> nat \<Rightarrow> int option \<Rightarrow> block_pool \<Rightarrow> block_pool res" where
  "insert_block_hash key b ntok p =
     (if block_hash (blk p b) = Some key then Inr p
      else if map_contain (cached_map p) key b then Inr p
      else bind_res
        (if block_hash (blk p b) = None
         then bind_res (set_block_hash (blk p b) key ntok) (\<lambda>b'. Inr (upd_blk b (\<lambda>_. b') p))
         else let hs = (case hashes_by_block p b of None \<Rightarrow> [] | Some hs \<Rightarrow> hs) in
           Inr (p\<lparr>hashes_by_block :=
             (hashes_by_block p)(b \<mapsto> (if key \<in> set hs then hs else hs @ [key]))\<rparr>))
        (\<lambda>p1. Inr (p1\<lparr>cached_map := map_insert (cached_map p1) key b\<rparr>)))"

fun pop_hashes_loop :: "nat \<Rightarrow> bytes list \<Rightarrow> bytes list \<Rightarrow> block_map \<Rightarrow> bytes list \<times> block_map" where
  "pop_hashes_loop b [] acc m = (acc, m)"
| "pop_hashes_loop b (h # hs) acc m =
     (case map_pop m h b of (r, m') \<Rightarrow>
        pop_hashes_loop b hs (if r \<noteq> None then acc @ [h] else acc) m')"

definition remove_cached_block_hashes :: "nat \<Rightarrow> block_pool \<Rightarrow> bytes list \<times> block_pool" where
  "remove_cached_block_hashes b p =
     (let primary = (case block_hash (blk p b) of None \<Rightarrow> [] | Some h \<Rightarrow> [h]);
          aux = (case hashes_by_block p b of None \<Rightarrow> [] | Some hs \<Rightarrow> set_order p hs);
          hs = primary @ aux;
          p1 = p\<lparr>hashes_by_block := (hashes_by_block p)(b := None)\<rparr>
      in if hs = [] then ([], p1)
         else case pop_hashes_loop b hs [] (cached_map p1) of (removed, m) \<Rightarrow>
           (removed, upd_blk b reset_hash (p1\<lparr>cached_map := m\<rparr>)))"

definition emit_block_removed_events :: "bytes list \<Rightarrow> block_pool \<Rightarrow> block_pool" where
  "emit_block_removed_events hs p =
     (if \<not> enable_kv_cache_events p then p
      else fold (\<lambda>h. push_event (BlockRemoved [maybe_convert_block_hash (env_int p) (get_block_hash h)]
             (medium p) (get_group_id h))) hs p)"

fun move_loop :: "nat \<Rightarrow> int option \<Rightarrow> bytes list \<Rightarrow> block_pool \<Rightarrow> block_pool res" where
  "move_loop dst n [] p = Inr p"
| "move_loop dst n (h # hs) p = bind_res (insert_block_hash h dst n p) (move_loop dst n hs)"

definition move_block_hashes :: "nat \<Rightarrow> nat \<Rightarrow> block_pool \<Rightarrow> block_pool res" where
  "move_block_hashes src dst p =
     bind_res (assert_res (block_hash (blk p dst) = None) AssertionError) (\<lambda>_.
     bind_res (assert_res (hashes_by_block p dst = None) AssertionError) (\<lambda>_.
       let ntok = block_hash_num_tokens (blk p src) in
       case remove_cached_block_hashes src p of (hs, p1) \<Rightarrow> move_loop dst ntok hs p1))"

definition maybe_evict_cached_block :: "nat \<Rightarrow> block_pool \<Rightarrow> bool \<times> block_pool" where
  "maybe_evict_cached_block b p =
     (let p1 = log_metric (OnBlockEvicted b) p in
      case remove_cached_block_hashes b p1 of (hs, p2) \<Rightarrow>
        if hs = [] then (False, p2) else (True, emit_block_removed_events hs p2))"

section \<open>Caching full blocks\<close>

text \<open>The loop over \<open>new_full_blocks\<close>: the index, the remaining blocks, the mask, the hashes
  for events.\<close>

fun cache_full_loop ::
    "bytes list \<Rightarrow> int \<Rightarrow> int \<Rightarrow> int \<Rightarrow> bool list option \<Rightarrow> nat \<Rightarrow> nat list \<Rightarrow> ext_hash list
      \<Rightarrow> block_pool \<Rightarrow> (ext_hash list \<times> block_pool) res" where
  "cache_full_loop hs ncached bs gid bmask i [] acc p = Inr (acc, p)"
| "cache_full_loop hs ncached bs gid bmask i (b # rest) acc p =
     (if is_null (blk p b) \<or> (case bmask of None \<Rightarrow> False | Some m \<Rightarrow> \<not> m ! i)
      then cache_full_loop hs ncached bs gid bmask (Suc i) rest acc p
      else bind_res (py_get hs (int i)) (\<lambda>h.
       let num_hash_tokens = (ncached + int i + 1) * bs in
       bind_res (make_block_hash_with_group_id h gid) (\<lambda>key.
       bind_res
        (if block_hash (blk p b) \<noteq> None
         then bind_res
           (assert_res (case block_hash_num_tokens (blk p b) of None \<Rightarrow> False
              | Some n \<Rightarrow> n < num_hash_tokens) AssertionError)
           (\<lambda>_. case remove_cached_block_hashes b p of (removed, p1) \<Rightarrow>
              Inr (emit_block_removed_events removed p1))
         else Inr p)
        (\<lambda>p1. bind_res (insert_block_hash key b (Some num_hash_tokens) p1) (\<lambda>p2.
          cache_full_loop hs ncached bs gid bmask (Suc i) rest
            (if enable_kv_cache_events p then acc @ [maybe_convert_block_hash (env_int p) h] else acc)
            p2)))))"

definition build_block_stored_event ::
    "block_pool \<Rightarrow> request \<Rightarrow> ext_hash list \<Rightarrow> ext_hash option \<Rightarrow> int \<Rightarrow> int \<Rightarrow> int \<Rightarrow> int
      \<Rightarrow> extra_key list option list \<Rightarrow> kv_event" where
  "build_block_stored_event p r hs parent start stop bs gid extra =
     BlockStored \<lparr>ev_block_hashes = hs, ev_parent_block_hash = parent,
       ev_token_ids = py_slice (all_token_ids r) start stop, ev_block_size = bs,
       ev_lora_id = map_option lora_int_id (req_lora r), ev_medium = medium p,
       ev_lora_name = map_option lora_name (req_lora r),
       ev_extra_keys = to_event_extra_keys (Some extra), ev_group_idx = gid,
       ev_session_id = session_id r\<rparr>"

text \<open>The extra keys of the blocks \<open>i, ..., hi - 1\<close> that are neither null nor masked out.\<close>

fun extra_keys_loop ::
    "(bytes \<Rightarrow> bytes) \<Rightarrow> block_pool \<Rightarrow> request \<Rightarrow> nat list \<Rightarrow> int \<Rightarrow> int \<Rightarrow> bool list option \<Rightarrow> nat list
      \<Rightarrow> int \<Rightarrow> extra_key list option list \<Rightarrow> extra_key list option list res" where
  "extra_keys_loop sha p r blocks ncached bs bmask [] mm acc = Inr acc"
| "extra_keys_loop sha p r blocks ncached bs bmask (i # is) mm acc =
     bind_res (py_get blocks (int i)) (\<lambda>b.
       if is_null (blk p b) \<or> (case bmask of None \<Rightarrow> False | Some m \<Rightarrow> \<not> m ! (i - nat ncached))
       then extra_keys_loop sha p r blocks ncached bs bmask is mm acc
       else bind_res (generate_block_hash_extra_keys sha r (int i * bs) (int i * bs + bs) mm)
         (\<lambda>(k, mm'). extra_keys_loop sha p r blocks ncached bs bmask is mm' (acc @ [k])))"

definition cache_full_blocks ::
    "(bytes \<Rightarrow> bytes) \<Rightarrow> request \<Rightarrow> nat list \<Rightarrow> nat \<Rightarrow> nat \<Rightarrow> int \<Rightarrow> int \<Rightarrow> bool list option
      \<Rightarrow> block_pool \<Rightarrow> block_pool res" where
  "cache_full_blocks sha r blocks ncached nfull bs gid bmask p =
     (if nfull \<le> ncached then Inr p
      else let new_full = py_slice blocks (int ncached) (int nfull) in
       bind_res (assert_res (case bmask of None \<Rightarrow> True | Some m \<Rightarrow> length m = length new_full)
         AssertionError) (\<lambda>_.
       bind_res (resolve_block_hashes (RawHashes (block_hashes r)) (hash_block_size p) bs False None)
         (\<lambda>hl.
       bind_res (hash_list_from hl (int ncached)) (\<lambda>hs.
       bind_res (cache_full_loop hs (int ncached) bs gid bmask 0 new_full [] p) (\<lambda>(new_hashes, p1).
         if \<not> enable_kv_cache_events p then Inr p1
         else bind_res
           (if ncached = 0 then Inr None
            else bind_res (hash_list_get hl (int ncached - 1))
              (\<lambda>h. Inr (Some (maybe_convert_block_hash (env_int p) h))))
           (\<lambda>parent.
           bind_res (extra_keys_loop sha p1 r blocks (int ncached) bs bmask [ncached..<nfull] 0 [])
             (\<lambda>extra. Inr (push_event
               (build_block_stored_event p1 r new_hashes parent (int ncached * bs) (int nfull * bs)
                  bs gid extra) p1)))))))) "

fun cached_events_loop ::
    "(bytes \<Rightarrow> bytes) \<Rightarrow> block_pool \<Rightarrow> request \<Rightarrow> hash_list \<Rightarrow> int \<Rightarrow> nat list \<Rightarrow> int \<Rightarrow> ext_hash list
      \<Rightarrow> extra_key list option list \<Rightarrow> (ext_hash list \<times> extra_key list option list) res" where
  "cached_events_loop sha p r hl bs [] mm hs ks = Inr (hs, ks)"
| "cached_events_loop sha p r hl bs (i # is) mm hs ks =
     bind_res (hash_list_get hl (int i)) (\<lambda>h.
     bind_res (generate_block_hash_extra_keys sha r (int i * bs) (int i * bs + bs) mm)
       (\<lambda>(k, mm'). cached_events_loop sha p r hl bs is mm'
          (hs @ [maybe_convert_block_hash (env_int p) h]) (ks @ [k])))"

definition emit_cached_block_events ::
    "(bytes \<Rightarrow> bytes) \<Rightarrow> request \<Rightarrow> nat \<Rightarrow> int \<Rightarrow> int \<Rightarrow> block_pool \<Rightarrow> block_pool res" where
  "emit_cached_block_events sha r ncached bs gid p =
     (if \<not> enable_kv_cache_events p \<or> ncached = 0 then Inr p
      else bind_res (resolve_block_hashes (RawHashes (block_hashes r)) (hash_block_size p) bs False None)
        (\<lambda>hl. bind_res (cached_events_loop sha p r hl bs [0..<ncached] 0 [] []) (\<lambda>(hs, ks).
          if hs = [] then Inr p
          else Inr (push_event
            (build_block_stored_event p r hs None 0 (int ncached * bs) bs gid ks) p))))"

section \<open>Partial blocks\<close>

definition get_partial_block_hash :: "block_pool \<Rightarrow> request \<Rightarrow> int \<Rightarrow> bytes res" where
  "get_partial_block_hash p r ntok =
     (if hash_block_size p = 0 then Inl ZeroDivisionError
      else bind_res (assert_res (ntok mod hash_block_size p = 0) AssertionError) (\<lambda>_.
       let n = ntok div hash_block_size p in
       bind_res (assert_res (0 < n \<and> n \<le> int (length (block_hashes r))) AssertionError) (\<lambda>_.
         py_get (block_hashes r) (n - 1))))"

definition get_partial_block_parent_hash_and_start ::
    "block_pool \<Rightarrow> request \<Rightarrow> int \<Rightarrow> (bytes option \<times> int) res" where
  "get_partial_block_parent_hash_and_start p r ntok =
     (let n = ntok div hash_block_size p in
      bind_res (if 1 < n then bind_res (py_get (block_hashes r) (n - 2)) (\<lambda>h. Inr (Some h))
                else Inr None)
        (\<lambda>parent. Inr (parent, (n - 1) * hash_block_size p)))"

definition partial_stored_event ::
    "(bytes \<Rightarrow> bytes) \<Rightarrow> block_pool \<Rightarrow> request \<Rightarrow> int \<Rightarrow> int \<Rightarrow> bytes \<Rightarrow> kv_event res" where
  "partial_stored_event sha p r ntok gid h =
     bind_res (get_partial_block_parent_hash_and_start p r ntok) (\<lambda>(parent, start).
       let fs = mm_features r;
           mm = (if 0 < start \<and> fs \<noteq> [] \<and> mm_offset (last fs) + mm_length (last fs) > start
                 then int (fst (get_mm_features_in_window fs start ntok)) else 0)
       in bind_res (generate_block_hash_extra_keys sha r start ntok mm) (\<lambda>(k, _).
         Inr (build_block_stored_event p r [maybe_convert_block_hash (env_int p) h]
           (map_option (maybe_convert_block_hash (env_int p)) parent) start ntok
           (ntok - start) gid [k])))"

definition cache_partial_block ::
    "(bytes \<Rightarrow> bytes) \<Rightarrow> request \<Rightarrow> nat \<Rightarrow> int \<Rightarrow> int \<Rightarrow> int \<Rightarrow> bool \<Rightarrow> block_pool
      \<Rightarrow> (bytes option \<times> block_pool) res" where
  "cache_partial_block sha r b ntok gid bs replace p =
     (if is_null (blk p b) then Inr (None, p)
      else if hash_block_size p = 0 then Inl ZeroDivisionError
      else bind_res (assert_res (bs mod hash_block_size p = 0) AssertionError) (\<lambda>_.
       bind_res
         (if replace then Inr ()
          else if bs > hash_block_size p then
            (if bs = 0 then Inl ZeroDivisionError
             else assert_res (ntok mod bs \<noteq> 0) AssertionError)
          else Inl AssertionError) (\<lambda>_.
       bind_res (get_partial_block_hash p r ntok) (\<lambda>h.
       let n = ntok div hash_block_size p in
       bind_res (make_block_hash_with_group_id h gid) (\<lambda>key.
       let cached0 = (block_hash (blk p b) = Some key \<or> map_contain (cached_map p) key b);
           remove = (\<lambda>p. case remove_cached_block_hashes b p of (hs, p1) \<Rightarrow>
                           emit_block_removed_events hs p1);
           shorter = (block_hash (blk p b) \<noteq> None \<and>
             (case block_hash_num_tokens (blk p b) of None \<Rightarrow> False
              | Some m \<Rightarrow> m < n * hash_block_size p));
           cached = (if replace then False else cached0);
           p1 = (if replace then remove p else if \<not> cached0 \<and> shorter then remove p else p)
       in bind_res (insert_block_hash key b (Some (n * hash_block_size p)) p1) (\<lambda>p2.
         if enable_kv_cache_events p \<and> \<not> cached
         then bind_res (partial_stored_event sha p2 r ntok gid h)
                (\<lambda>e. Inr (Some key, push_event e p2))
         else Inr (Some key, p2)))))))"

section \<open>Allocation and release\<close>

definition refs_ids :: "ref list \<Rightarrow> nat list" where
  "refs_ids rs = concat (map (\<lambda>r. case r of Blk i \<Rightarrow> [i] | _ \<Rightarrow> []) rs)"

definition notify_reuse :: "nat list \<Rightarrow> block_pool \<Rightarrow> block_pool" where
  "notify_reuse bs p = fold (\<lambda>b p.
     case map_of (reuse_watchers p) b of None \<Rightarrow> p
     | Some w \<Rightarrow> p\<lparr>reuse_watchers := filter (\<lambda>(k, _). k \<noteq> b) (reuse_watchers p),
                   reuse_log := reuse_log p @ [(w, b)]\<rparr>) bs p"

definition alloc_step :: "nat \<Rightarrow> block_pool \<Rightarrow> block_pool res" where
  "alloc_step b p =
     (let p1 = (if enable_caching p then snd (maybe_evict_cached_block b p) else p) in
      bind_res (assert_res (ref_cnt (blk p1 b) = 0) AssertionError) (\<lambda>_.
        Inr (log_metric (OnBlockAllocated b)
          (upd_blk b (ref_cnt_update (\<lambda>n. n + 1)) p1))))"

definition get_num_free_blocks :: "block_pool \<Rightarrow> int" where
  "get_num_free_blocks p = num_free_blocks (queue p)"

definition get_new_blocks :: "int \<Rightarrow> block_pool \<Rightarrow> (nat list \<times> block_pool) res" where
  "get_new_blocks n p =
     (if n > get_num_free_blocks p then Inl ValueError
      else bind_res (popleft_n (queue p) n) (\<lambda>(rs, q).
        let ret = refs_ids rs;
            p1 = p\<lparr>queue := q\<rparr>;
            p2 = (if reuse_watchers p1 \<noteq> [] then notify_reuse ret p1 else p1)
        in bind_res (fold_res alloc_step ret p2) (\<lambda>p3. Inr (ret, p3))))"

text \<open>Assigning a key of the watcher dict keeps the position of an existing key.\<close>

definition set_watcher :: "nat \<Rightarrow> nat \<Rightarrow> (nat \<times> nat) list \<Rightarrow> (nat \<times> nat) list" where
  "set_watcher b w ws =
     (if b \<in> set (map fst ws) then map (\<lambda>(k, v). (k, if k = b then w else v)) ws
      else ws @ [(b, w)])"

fun unpin_loop :: "nat \<Rightarrow> nat list \<Rightarrow> nat list \<Rightarrow> block_pool \<Rightarrow> (nat list \<times> block_pool) res" where
  "unpin_loop w [] released p = Inr (released, p)"
| "unpin_loop w (b # bs) released p =
     bind_res (assert_res (0 < ref_cnt (blk p b) \<and> \<not> is_null (blk p b)) AssertionError) (\<lambda>_.
       let p1 = upd_blk b (ref_cnt_update (\<lambda>n. n - 1)) p;
           p2 = p1\<lparr>reuse_watchers := set_watcher b w (reuse_watchers p1)\<rparr>
       in unpin_loop w bs (if ref_cnt (blk p2 b) = 0 then released @ [b] else released) p2)"

definition unpin_blocks :: "nat list \<Rightarrow> nat \<Rightarrow> block_pool \<Rightarrow> block_pool res" where
  "unpin_blocks bs w p =
     bind_res (unpin_loop w bs [] p) (\<lambda>(released, p1).
     bind_res (append_n (queue p1) (map Blk released)) (\<lambda>q. Inr (p1\<lparr>queue := q\<rparr>)))"

definition touch_step :: "nat \<Rightarrow> block_pool \<Rightarrow> block_pool res" where
  "touch_step b p =
     bind_res (if ref_cnt (blk p b) = 0 \<and> \<not> is_null (blk p b)
               then bind_res (remove_block (queue p) (Blk b)) (\<lambda>q. Inr (p\<lparr>queue := q\<rparr>))
               else Inr p)
       (\<lambda>p1. Inr (log_metric (OnBlockAccessed b) (upd_blk b (ref_cnt_update (\<lambda>n. n + 1)) p1)))"

definition touch :: "nat list \<Rightarrow> block_pool \<Rightarrow> block_pool res" where
  "touch bs = fold_res touch_step bs"

definition is_block_writable :: "block_pool \<Rightarrow> nat \<Rightarrow> bool" where
  "is_block_writable p b \<longleftrightarrow>
     \<not> is_null (blk p b) \<and> ref_cnt (blk p b) = 1 \<and> block_hash (blk p b) = None"

text \<open>The loop of \<open>free_blocks\<close> over the blocks of this pool, with the two lists.\<close>

fun free_loop :: "nat list \<Rightarrow> nat list \<Rightarrow> nat list \<Rightarrow> block_pool \<Rightarrow> nat list \<times> nat list \<times> block_pool" where
  "free_loop [] first lst p = (first, lst, p)"
| "free_loop (b # bs) first lst p =
     (let p1 = upd_blk b (ref_cnt_update (\<lambda>n. n - 1)) p in
      if ref_cnt (blk p1 b) = 0 \<and> \<not> is_null (blk p1 b)
      then if block_hash (blk p1 b) = None \<or> \<not> enable_caching p1
           then free_loop bs (first @ [b]) lst p1
           else free_loop bs first (lst @ [b]) p1
      else free_loop bs first lst p1)"

definition free_own_blocks :: "nat list \<Rightarrow> block_pool \<Rightarrow> block_pool res" where
  "free_own_blocks bs p =
     (case free_loop bs [] [] p of (first, lst, p1) \<Rightarrow>
        bind_res (prepend_n (queue p1) (map Blk first)) (\<lambda>q1.
        bind_res (append_n q1 (map Blk lst)) (\<lambda>q2. Inr (p1\<lparr>queue := q2\<rparr>))))"

text \<open>With several pools a block is named by its pool and its id; the blocks of the other
  pools are grouped, in the order the pools first occur, and freed in their own pool.\<close>

definition free_blocks ::
    "nat \<Rightarrow> (nat \<times> nat) list \<Rightarrow> (nat \<Rightarrow> block_pool) \<Rightarrow> (nat \<Rightarrow> block_pool) res" where
  "free_blocks self ordered pools =
     (let of_pool = (\<lambda>g. map snd (filter (\<lambda>x. fst x = g) ordered));
          others = rev (remdups (rev (filter (\<lambda>g. g \<noteq> self) (map fst ordered))))
      in bind_res (free_own_blocks (of_pool self) (pools self)) (\<lambda>p.
           fold_res (\<lambda>g ps. bind_res (free_own_blocks (of_pool g) (ps g)) (\<lambda>p'. Inr (ps(g := p'))))
             others (pools(self := p))))"

section \<open>Eviction, reset, events\<close>

text \<open>\<open>ids\<close> is the set of block ids, in the order the loop visits it.\<close>

definition evict_blocks :: "nat list \<Rightarrow> block_pool \<Rightarrow> block_pool res" where
  "evict_blocks ids p = fold_res (\<lambda>b p.
     bind_res (assert_res (b < num_gpu_blocks p) AssertionError)
       (\<lambda>_. Inr (snd (maybe_evict_cached_block b p)))) ids p"

definition reset_prefix_cache :: "block_pool \<Rightarrow> bool \<times> block_pool" where
  "reset_prefix_cache p =
     (if int (num_gpu_blocks p) - get_num_free_blocks p \<noteq> 1 then (False, p)
      else
        let p1 = p\<lparr>cached_map := map_empty, hashes_by_block := (\<lambda>_. None)\<rparr>;
            p2 = (if reuse_watchers p1 \<noteq> [] then notify_reuse (map fst (reuse_watchers p1)) p1 else p1);
            p3 = fold (\<lambda>b. upd_blk b reset_hash) [0..<num_gpu_blocks p2] p2;
            p4 = log_metric MetricsReset p3
        in (True, if enable_kv_cache_events p4 then push_event AllBlocksCleared p4 else p4))"

definition take_events :: "block_pool \<Rightarrow> kv_event list \<times> block_pool" where
  "take_events p =
     (if \<not> enable_kv_cache_events p then ([], p)
      else (kv_event_queue p, p\<lparr>kv_event_queue := []\<rparr>))"

end
