(* ===== verification/PoolCache.thy ===== *)
theory PoolCache imports BlockPool
begin

text \<open>
  The prefix-cache side of the block pool: \<open>cache_inv\<close> says that the index from hashes to
  blocks and the hashes recorded on the blocks mirror each other, and every operation that
  registers, moves or removes hashes keeps it. The frames \<open>same_alloc\<close> and \<open>same_cache\<close>
  split the state into what allocation and what caching uses, so that each operation is
  proved against its own half only.
\<close>

named_theorems pool_simps "reading the state after a primitive update"

lemma blk_upd_blk [pool_simps]: "blk (upd_blk i f p) j = (if j = i then f (blk p j) else blk p j)"
  by (simp add: blk_def upd_blk_def upd_block_def)

lemma blk_record_fields [pool_simps]:
  "blk (p\<lparr>cached_map := m\<rparr>) = blk p" "blk (p\<lparr>hashes_by_block := hb\<rparr>) = blk p"
  "blk (p\<lparr>reuse_watchers := w\<rparr>) = blk p" "blk (p\<lparr>reuse_log := l\<rparr>) = blk p"
  by (rule ext, simp add: blk_def)+

lemma upd_blk_fields [pool_simps]:
  "num_gpu_blocks (upd_blk i f p) = num_gpu_blocks p" "enable_caching (upd_blk i f p) = enable_caching p"
  "cached_map (upd_blk i f p) = cached_map p" "hashes_by_block (upd_blk i f p) = hashes_by_block p"
  "set_order (upd_blk i f p) = set_order p" "null_block (upd_blk i f p) = null_block p"
  "num_free_blocks (queue (upd_blk i f p)) = num_free_blocks (queue p)"
  "reuse_watchers (upd_blk i f p) = reuse_watchers p" "reuse_log (upd_blk i f p) = reuse_log p"
  "hash_block_size (upd_blk i f p) = hash_block_size p" "env_int (upd_blk i f p) = env_int p"
  "enable_kv_cache_events (upd_blk i f p) = enable_kv_cache_events p" "medium (upd_blk i f p) = medium p"
  "kv_event_queue (upd_blk i f p) = kv_event_queue p"
  by (simp_all add: upd_blk_def)

lemma log_metric_fields [pool_simps]:
  "num_gpu_blocks (log_metric c p) = num_gpu_blocks p" "enable_caching (log_metric c p) = enable_caching p"
  "cached_map (log_metric c p) = cached_map p" "hashes_by_block (log_metric c p) = hashes_by_block p"
  "set_order (log_metric c p) = set_order p" "null_block (log_metric c p) = null_block p"
  "queue (log_metric c p) = queue p" "blk (log_metric c p) i = blk p i"
  "reuse_watchers (log_metric c p) = reuse_watchers p" "reuse_log (log_metric c p) = reuse_log p"
  "enable_kv_cache_events (log_metric c p) = enable_kv_cache_events p" "env_int (log_metric c p) = env_int p"
  "hash_block_size (log_metric c p) = hash_block_size p" "medium (log_metric c p) = medium p"
  "kv_event_queue (log_metric c p) = kv_event_queue p"
  by (simp_all add: log_metric_def blk_def)

lemma push_event_fields [pool_simps]:
  "num_gpu_blocks (push_event e p) = num_gpu_blocks p" "enable_caching (push_event e p) = enable_caching p"
  "cached_map (push_event e p) = cached_map p" "hashes_by_block (push_event e p) = hashes_by_block p"
  "set_order (push_event e p) = set_order p" "null_block (push_event e p) = null_block p"
  "queue (push_event e p) = queue p" "blk (push_event e p) i = blk p i"
  "reuse_watchers (push_event e p) = reuse_watchers p" "reuse_log (push_event e p) = reuse_log p"
  "enable_kv_cache_events (push_event e p) = enable_kv_cache_events p" "env_int (push_event e p) = env_int p"
  "hash_block_size (push_event e p) = hash_block_size p" "medium (push_event e p) = medium p"
  by (simp_all add: push_event_def blk_def)

section \<open>Frames\<close>

definition same_alloc :: "block_pool \<Rightarrow> block_pool \<Rightarrow> bool" where
  "same_alloc p p' \<longleftrightarrow> num_gpu_blocks p' = num_gpu_blocks p \<and> enable_caching p' = enable_caching p \<and>
     null_block p' = null_block p \<and> enable_kv_cache_events p' = enable_kv_cache_events p \<and>
     env_int p' = env_int p \<and> hash_block_size p' = hash_block_size p \<and> medium p' = medium p \<and>
     (\<forall>i. ref_cnt (blk p' i) = ref_cnt (blk p i) \<and> is_null (blk p' i) = is_null (blk p i)) \<and>
     same_links (fq_store (queue p)) (fq_store (queue p')) \<and>
     num_free_blocks (queue p') = num_free_blocks (queue p)"

definition same_cache :: "block_pool \<Rightarrow> block_pool \<Rightarrow> bool" where
  "same_cache p p' \<longleftrightarrow> num_gpu_blocks p' = num_gpu_blocks p \<and> cached_map p' = cached_map p \<and>
     hashes_by_block p' = hashes_by_block p \<and> set_order p' = set_order p \<and>
     (\<forall>i. block_hash (blk p' i) = block_hash (blk p i) \<and>
        block_hash_num_tokens (blk p' i) = block_hash_num_tokens (blk p i) \<and>
        is_null (blk p' i) = is_null (blk p i))"

lemma same_alloc_refl [simp, intro]: "same_alloc p p"
  by (simp add: same_alloc_def same_links_def)

lemma same_alloc_trans: "same_alloc p p' \<Longrightarrow> same_alloc p' p'' \<Longrightarrow> same_alloc p p''"
  by (simp add: same_alloc_def same_links_def)

lemma same_cache_refl [simp, intro]: "same_cache p p"
  by (simp add: same_cache_def)

lemma same_cache_trans: "same_cache p p' \<Longrightarrow> same_cache p' p'' \<Longrightarrow> same_cache p p''"
  by (simp add: same_cache_def)

lemma same_log_metric [simp, intro]: "same_alloc p (log_metric c p)" "same_cache p (log_metric c p)"
  by (simp_all add: same_alloc_def same_cache_def same_links_def pool_simps)

lemma same_push_event [simp, intro]: "same_alloc p (push_event c p)" "same_cache p (push_event c p)"
  by (simp_all add: same_alloc_def same_cache_def same_links_def pool_simps)

lemma same_emit [simp, intro]:
  "same_alloc p (emit_block_removed_events hs p)" "same_cache p (emit_block_removed_events hs p)"
proof -
  have "same_alloc p (fold (\<lambda>h. push_event (e h)) hs p) \<and> same_cache p (fold (\<lambda>h. push_event (e h)) hs p)"
    for e p
  proof (induction hs arbitrary: p)
    case (Cons h hs)
    then show ?case using same_push_event same_alloc_trans same_cache_trans by (metis fold_simps(2))
  qed simp
  then show "same_alloc p (emit_block_removed_events hs p)" "same_cache p (emit_block_removed_events hs p)"
    by (simp_all add: emit_block_removed_events_def)
qed

text \<open>An update of a block that keeps its reference count, its links and nullness is invisible
  to allocation; one that keeps its hash fields is invisible to caching.\<close>

lemma upd_blk_same_alloc:
  assumes "ref_cnt (f (blk p i)) = ref_cnt (blk p i)" "is_null (f (blk p i)) = is_null (blk p i)"
    "next_free_block (f (blk p i)) = next_free_block (blk p i)"
    "prev_free_block (f (blk p i)) = prev_free_block (blk p i)"
  shows "same_alloc p (upd_blk i f p)"
  using assms by (simp add: same_alloc_def same_links_def upd_blk_def blk_def upd_block_def)

lemma upd_blk_same_cache:
  assumes "block_hash (f (blk p i)) = block_hash (blk p i)" "is_null (f (blk p i)) = is_null (blk p i)"
    "block_hash_num_tokens (f (blk p i)) = block_hash_num_tokens (blk p i)"
  shows "same_cache p (upd_blk i f p)"
  using assms by (simp add: same_cache_def pool_simps)

lemma queue_meta_same_cache:
  assumes "meta_of (fq_store q) = meta_of (fq_store (queue p))"
  shows "same_cache p (p\<lparr>queue := q\<rparr>)"
  using meta_eqD[OF assms] by (simp add: same_cache_def blk_def)

section \<open>The invariant\<close>

definition keys_of :: "block_pool \<Rightarrow> nat \<Rightarrow> bytes set" where
  "keys_of p b = (case block_hash (blk p b) of None \<Rightarrow> {} | Some h \<Rightarrow> {h}) \<union>
     (case hashes_by_block p b of None \<Rightarrow> {} | Some hs \<Rightarrow> set hs)"

definition set_order_ok :: "block_pool \<Rightarrow> bool" where
  "set_order_ok p \<longleftrightarrow> (\<forall>hs. distinct hs \<longrightarrow> distinct (set_order p hs) \<and> set (set_order p hs) = set hs)"

definition block_ok :: "block_pool \<Rightarrow> nat \<Rightarrow> bool" where
  "block_ok p b \<longleftrightarrow>
     (case block_hash (blk p b) of
        None \<Rightarrow> block_hash_num_tokens (blk p b) = None \<and> hashes_by_block p b = None
      | Some h \<Rightarrow> block_hash_num_tokens (blk p b) \<noteq> None \<and> b < num_gpu_blocks p \<and>
          \<not> is_null (blk p b) \<and>
          (case hashes_by_block p b of None \<Rightarrow> True | Some hs \<Rightarrow> distinct hs \<and> h \<notin> set hs))"

definition cache_inv :: "block_pool \<Rightarrow> bool" where
  "cache_inv p \<longleftrightarrow> map_wf (cached_map p) \<and> set_order_ok p \<and> (\<forall>b. block_ok p b) \<and>
     (\<forall>k b. b \<in> set (map_ids (cached_map p) k) \<longleftrightarrow> k \<in> keys_of p b)"

lemma cache_invD:
  assumes "cache_inv p"
  shows "map_wf (cached_map p)" "set_order_ok p" "block_ok p b"
    "b \<in> set (map_ids (cached_map p) k) \<longleftrightarrow> k \<in> keys_of p b"
  using assms by (simp_all add: cache_inv_def)

lemma keys_same_cache: "same_cache p p' \<Longrightarrow> keys_of p' b = keys_of p b"
  by (simp add: keys_of_def same_cache_def)

lemma cache_inv_same:
  assumes "same_cache p p'" "cache_inv p"
  shows "cache_inv p'"
proof -
  have "block_ok p' b = block_ok p b" for b
    using assms(1) by (simp add: same_cache_def block_ok_def cong: option.case_cong)
  then show ?thesis using assms keys_same_cache[OF assms(1)]
    by (simp add: cache_inv_def same_cache_def set_order_ok_def)
qed

lemma keys_empty: "cache_inv p \<Longrightarrow> keys_of p b = {} \<longleftrightarrow> block_hash (blk p b) = None"
  using cache_invD(3)[of p b] by (auto simp: keys_of_def block_ok_def split: option.splits)

lemma null_no_keys: "cache_inv p \<Longrightarrow> is_null (blk p b) \<Longrightarrow> keys_of p b = {}"
  using cache_invD(3)[of p b] keys_empty[of p b] by (auto simp: block_ok_def split: option.splits)

lemma contain_iff: "cache_inv p \<Longrightarrow> map_contain (cached_map p) k b \<longleftrightarrow> k \<in> keys_of p b"
  using bm.has_law[of "cached_map p" k b] cache_invD[of p] by blast

section \<open>Registering\<close>

lemma insert_block_hash_ok:
  assumes inv: "cache_inv p" and b: "b < num_gpu_blocks p" "\<not> is_null (blk p b)"
    and t: "block_hash (blk p b) = None \<Longrightarrow> ntok \<noteq> None"
  obtains p' where "insert_block_hash key b ntok p = Inr p'" "cache_inv p'" "same_alloc p p'"
    "\<And>c. keys_of p' c = (if c = b then insert key (keys_of p b) else keys_of p c)"
    "block_hash (blk p' b) = (if block_hash (blk p b) = None then Some key else block_hash (blk p b))"
    "\<And>c. c \<noteq> b \<Longrightarrow> blk p' c = blk p c" "set_order p' = set_order p"
    "enable_kv_cache_events p' = enable_kv_cache_events p"
    "block_hash_num_tokens (blk p' b) =
       (if block_hash (blk p b) = None then ntok else block_hash_num_tokens (blk p b))"
proof (cases "key \<in> keys_of p b")
  case True
  then have "insert_block_hash key b ntok p = Inr p"
    using contain_iff[OF inv] by (simp add: insert_block_hash_def)
  moreover have "block_hash (blk p b) \<noteq> None" using True keys_empty[OF inv, of b] by auto
  ultimately show ?thesis using that[of p] inv True by (auto simp: insert_absorb)
next
  case new: False
  then have no: "block_hash (blk p b) \<noteq> Some key" "\<not> map_contain (cached_map p) key b"
    using contain_iff[OF inv] by (auto simp: keys_of_def)
  have ok: "block_ok p c" for c using inv by (rule cache_invD)
  have wf: "map_wf (cached_map p)" using inv by (rule cache_invD)
  let ?m = "map_insert (cached_map p) key b"
  have ids: "c \<in> set (map_ids ?m k) \<longleftrightarrow> k \<in> (if c = b then insert key (keys_of p b) else keys_of p c)" for c k
    using bm.add_ids[OF wf, of key b k] cache_invD(4)[OF inv] new by auto
  show ?thesis
  proof (cases "block_hash (blk p b)")
    case None
    then have hb: "hashes_by_block p b = None" "block_hash_num_tokens (blk p b) = None"
      using ok[of b] by (auto simp: block_ok_def)
    let ?p1 = "upd_blk b (\<lambda>_. (blk p b)\<lparr>block_hash := Some key, block_hash_num_tokens := ntok\<rparr>) p"
    let ?p' = "?p1\<lparr>cached_map := ?m\<rparr>"
    have e: "insert_block_hash key b ntok p = Inr ?p'"
      using no None hb by (simp add: insert_block_hash_def set_block_hash_def pool_simps)
    have blk': "blk ?p' c = blk ?p1 c" for c by (simp add: blk_def)
    have keys: "keys_of ?p' c = (if c = b then insert key (keys_of p b) else keys_of p c)" for c
      using None hb by (simp add: keys_of_def blk' pool_simps)
    have "block_ok ?p' c" for c
      using ok[of c] None hb b t by (auto simp: block_ok_def blk' pool_simps split: option.splits)
    moreover have "set_order_ok ?p'" using inv by (simp add: cache_inv_def set_order_ok_def pool_simps)
    ultimately have "cache_inv ?p'"
      using keys ids bm.add_wf[OF wf] by (simp add: cache_inv_def)
    moreover have "same_alloc p ?p'"
      by (simp add: same_alloc_def same_links_def blk' pool_simps)
        (simp add: upd_blk_def upd_block_def blk_def)
    ultimately show ?thesis using that[OF e] keys None by (simp add: blk' pool_simps)
  next
    case (Some h)
    let ?hs = "case hashes_by_block p b of None \<Rightarrow> [] | Some hs \<Rightarrow> hs"
    have nin: "key \<notin> set ?hs" using new by (auto simp: keys_of_def split: option.splits)
    let ?p' = "p\<lparr>hashes_by_block := (hashes_by_block p)(b \<mapsto> ?hs @ [key]), cached_map := ?m\<rparr>"
    have if_nin: "(if key \<in> set ?hs then ?hs else ?hs @ [key]) = ?hs @ [key]" using nin by simp
    have e: "insert_block_hash key b ntok p = Inr ?p'"
      unfolding insert_block_hash_def Let_def if_nin using no Some by simp
    have blk': "blk ?p' c = blk p c" for c by (simp add: blk_def)
    have keys: "keys_of ?p' c = (if c = b then insert key (keys_of p b) else keys_of p c)" for c
      by (auto simp: keys_of_def blk' split: option.splits)
    have "block_ok ?p' c" for c
      using ok[of c] Some no nin by (auto simp: block_ok_def blk' split: option.splits)
    moreover have "set_order_ok ?p'" using inv by (simp add: cache_inv_def set_order_ok_def)
    ultimately have "cache_inv ?p'"
      using keys ids bm.add_wf[OF wf] by (simp add: cache_inv_def)
    moreover have "same_alloc p ?p'" by (simp add: same_alloc_def same_links_def blk')
    ultimately show ?thesis using that[OF e] keys Some by (simp add: blk')
  qed
qed

section \<open>Removing\<close>

lemma pop_hashes_loop_spec:
  assumes "map_wf m" "distinct hs" "\<And>h. h \<in> set hs \<Longrightarrow> b \<in> set (map_ids m h)"
  shows "\<exists>m'. pop_hashes_loop b hs acc m = (acc @ hs, m') \<and> map_wf m' \<and>
    (\<forall>k. map_ids m' k = (if k \<in> set hs then remove1 b (map_ids m k) else map_ids m k))"
  using assms
proof (induction hs arbitrary: acc m)
  case Nil
  then show ?case by simp
next
  case (Cons h hs)
  obtain r m1 where pop: "map_pop m h b = (r, m1)" by (cases "map_pop m h b")
  have r: "r = Some b" using bm.del_res[OF Cons.prems(1), of h b] Cons.prems(3)[of h] pop by simp
  have m1: "map_wf m1" "\<And>k. map_ids m1 k = (if k = h then remove1 b (map_ids m h) else map_ids m k)"
    using bm.del_wf[OF Cons.prems(1), of h b] bm.del_ids[OF Cons.prems(1), of h b] pop by simp_all
  have "b \<in> set (map_ids m1 h')" if "h' \<in> set hs" for h'
    using that Cons.prems(2,3) m1(2)[of h'] by auto
  then obtain m' where "pop_hashes_loop b hs (acc @ [h]) m1 = ((acc @ [h]) @ hs, m')" "map_wf m'"
    "\<forall>k. map_ids m' k = (if k \<in> set hs then remove1 b (map_ids m1 k) else map_ids m1 k)"
    using Cons.IH[OF m1(1), of "acc @ [h]"] Cons.prems(2) by auto
  then show ?case using pop r m1(2) Cons.prems(2) by (auto simp: fun_eq_iff)
qed

definition hash_list_of :: "block_pool \<Rightarrow> nat \<Rightarrow> bytes list" where
  "hash_list_of p b = (case block_hash (blk p b) of None \<Rightarrow> []
     | Some h \<Rightarrow> h # (case hashes_by_block p b of None \<Rightarrow> [] | Some hs \<Rightarrow> set_order p hs))"

lemma hash_list_of_props:
  assumes "cache_inv p"
  shows "distinct (hash_list_of p b)" "set (hash_list_of p b) = keys_of p b"
    "hash_list_of p b = [] \<longleftrightarrow> block_hash (blk p b) = None"
  using cache_invD(2)[OF assms] cache_invD(3)[OF assms, of b]
  by (auto simp: hash_list_of_def keys_of_def block_ok_def set_order_ok_def split: option.splits)

lemma remove_hashes_ok:
  assumes inv: "cache_inv p"
  obtains p' where "remove_cached_block_hashes b p = (hash_list_of p b, p')" "cache_inv p'"
    "same_alloc p p'" "\<And>c. keys_of p' c = (if c = b then {} else keys_of p c)"
    "\<And>c. c \<noteq> b \<Longrightarrow> blk p' c = blk p c" "set_order p' = set_order p"
    "enable_kv_cache_events p' = enable_kv_cache_events p"
    "hashes_by_block p' = (hashes_by_block p)(b := None)"
proof -
  have ok: "block_ok p c" for c using inv by (rule cache_invD)
  let ?hs = "hash_list_of p b"
  let ?p1 = "p\<lparr>hashes_by_block := (hashes_by_block p)(b := None)\<rparr>"
  have "\<exists>m'. pop_hashes_loop b ?hs [] (cached_map p) = ([] @ ?hs, m') \<and> map_wf m' \<and>
      (\<forall>k. map_ids m' k = (if k \<in> set ?hs then remove1 b (map_ids (cached_map p) k) else map_ids (cached_map p) k))"
    using cache_invD(4)[OF inv] hash_list_of_props[OF inv]
    by (intro pop_hashes_loop_spec cache_invD(1)[OF inv]) auto
  then obtain m' where m': "pop_hashes_loop b ?hs [] (cached_map p) = (?hs, m')" "map_wf m'"
    "\<And>k. map_ids m' k = (if k \<in> set ?hs then remove1 b (map_ids (cached_map p) k) else map_ids (cached_map p) k)"
    by auto
  show ?thesis
  proof (cases "?hs = []")
    case True
    then have none: "block_hash (blk p b) = None" "hashes_by_block p b = None"
      using hash_list_of_props(3)[OF inv, of b] ok[of b] by (auto simp: block_ok_def)
    then have same: "?p1 = p" by (simp add: fun_upd_idem)
    then have e: "remove_cached_block_hashes b p = (?hs, p)"
      using True none by (simp add: remove_cached_block_hashes_def)
    have "keys_of p b = {}" using keys_empty[OF inv, of b] none by simp
    then show ?thesis by (rule_tac that[OF e inv]) (auto simp: none fun_upd_idem)
  next
    case False
    then obtain h where h: "block_hash (blk p b) = Some h"
      using hash_list_of_props(3)[OF inv, of b] by auto
    let ?p' = "upd_blk b reset_hash (?p1\<lparr>cached_map := m'\<rparr>)"
    have e: "remove_cached_block_hashes b p = (?hs, ?p')"
      using False h m'(1) by (simp add: remove_cached_block_hashes_def hash_list_of_def)
    have blk': "blk ?p' c = (if c = b then reset_hash (blk p c) else blk p c)" for c
      by (simp add: blk_def upd_blk_def upd_block_def)
    have keys: "keys_of ?p' c = (if c = b then {} else keys_of p c)" for c
      by (simp add: keys_of_def reset_hash_def pool_simps)
    have ids: "c \<in> set (map_ids m' k) \<longleftrightarrow> k \<in> keys_of ?p' c" for c k
      using m'(3)[of k] cache_invD(4)[OF inv] hash_list_of_props(2)[OF inv, of b]
        bm.wf_ids[OF cache_invD(1)[OF inv], of k] keys[of c] by auto
    have "block_ok ?p' c" for c
      using ok[of c] by (simp add: block_ok_def reset_hash_def pool_simps cong: option.case_cong)
    moreover have "set_order_ok ?p'" using inv by (simp add: cache_inv_def set_order_ok_def pool_simps)
    ultimately have "cache_inv ?p'" using ids m'(2) by (simp add: cache_inv_def pool_simps)
    moreover have "same_alloc p ?p'"
      by (simp add: same_alloc_def same_links_def blk' reset_hash_def pool_simps)
        (simp add: upd_blk_def upd_block_def reset_hash_def)
    ultimately show ?thesis using that[OF e] keys by (simp add: blk' pool_simps)
  qed
qed

section \<open>The other operations\<close>

lemma events_flag_emit [simp]:
  "enable_kv_cache_events (emit_block_removed_events hs p) = enable_kv_cache_events p"
  "set_order (emit_block_removed_events hs p) = set_order p"
  "hashes_by_block (emit_block_removed_events hs p) = hashes_by_block p"
  "blk (emit_block_removed_events hs p) b = blk p b"
proof -
  have "enable_kv_cache_events (fold (\<lambda>h. push_event (e h)) hs p) = enable_kv_cache_events p \<and>
    set_order (fold (\<lambda>h. push_event (e h)) hs p) = set_order p \<and>
    hashes_by_block (fold (\<lambda>h. push_event (e h)) hs p) = hashes_by_block p \<and>
    blk (fold (\<lambda>h. push_event (e h)) hs p) b = blk p b" for e p
    by (induction hs arbitrary: p) (simp_all add: pool_simps)
  then show "enable_kv_cache_events (emit_block_removed_events hs p) = enable_kv_cache_events p"
    "set_order (emit_block_removed_events hs p) = set_order p"
    "hashes_by_block (emit_block_removed_events hs p) = hashes_by_block p"
    "blk (emit_block_removed_events hs p) b = blk p b"
    by (simp_all add: emit_block_removed_events_def)
qed

lemma keys_emit [simp]: "keys_of (emit_block_removed_events hs p) c = keys_of p c"
  by (rule keys_same_cache) simp

lemma remove_emit_ok:
  assumes inv: "cache_inv p"
  obtains p' where "(case remove_cached_block_hashes b p of (hs, p1) \<Rightarrow> emit_block_removed_events hs p1) = p'"
    "cache_inv p'" "same_alloc p p'" "\<And>c. keys_of p' c = (if c = b then {} else keys_of p c)"
    "\<And>c. c \<noteq> b \<Longrightarrow> blk p' c = blk p c" "enable_kv_cache_events p' = enable_kv_cache_events p"
proof -
  obtain p1 where p1: "remove_cached_block_hashes b p = (hash_list_of p b, p1)" "cache_inv p1"
    "same_alloc p p1" "\<And>c. keys_of p1 c = (if c = b then {} else keys_of p c)"
    "\<And>c. c \<noteq> b \<Longrightarrow> blk p1 c = blk p c" "enable_kv_cache_events p1 = enable_kv_cache_events p"
    using remove_hashes_ok[OF inv, of b] by metis
  let ?p' = "emit_block_removed_events (hash_list_of p b) p1"
  have "cache_inv ?p'" using cache_inv_same[OF same_emit(2) p1(2)] .
  moreover have "same_alloc p ?p'" using same_alloc_trans[OF p1(3) same_emit(1)] .
  ultimately show ?thesis using that[of ?p'] p1 by simp
qed

lemma maybe_evict_ok:
  assumes inv: "cache_inv p"
  obtains p' where "maybe_evict_cached_block b p = (block_hash (blk p b) \<noteq> None, p')"
    "cache_inv p'" "same_alloc p p'" "\<And>c. keys_of p' c = (if c = b then {} else keys_of p c)"
    "\<And>c. c \<noteq> b \<Longrightarrow> blk p' c = blk p c"
proof -
  let ?p0 = "log_metric (OnBlockEvicted b) p"
  have inv0: "cache_inv ?p0" using cache_inv_same[OF same_log_metric(2) inv] .
  have k0: "keys_of ?p0 c = keys_of p c" for c by (rule keys_same_cache) simp
  have l0: "hash_list_of ?p0 b = hash_list_of p b" by (simp add: hash_list_of_def pool_simps cong: option.case_cong)
  obtain p1 where p1: "remove_cached_block_hashes b ?p0 = (hash_list_of p b, p1)" "cache_inv p1"
    "same_alloc ?p0 p1" "\<And>c. keys_of p1 c = (if c = b then {} else keys_of p c)"
    "\<And>c. c \<noteq> b \<Longrightarrow> blk p1 c = blk p c"
    using remove_hashes_ok[OF inv0, of b] k0 l0 by (metis log_metric_fields(8))
  let ?p' = "if hash_list_of p b = [] then p1 else emit_block_removed_events (hash_list_of p b) p1"
  have e: "maybe_evict_cached_block b p = (block_hash (blk p b) \<noteq> None, ?p')"
    using p1(1) hash_list_of_props(3)[OF inv, of b] by (simp add: maybe_evict_cached_block_def Let_def)
  have "cache_inv ?p'" using cache_inv_same[OF same_emit(2) p1(2)] p1(2) by simp
  moreover have "same_alloc p ?p'"
    using same_alloc_trans[OF same_log_metric(1) p1(3)] same_alloc_trans[OF _ same_emit(1)] by auto
  ultimately show ?thesis using that[OF e] p1(4,5) by simp
qed

lemma move_loop_ok:
  assumes "cache_inv p" "dst < num_gpu_blocks p" "\<not> is_null (blk p dst)" "n \<noteq> None"
  shows "\<exists>p'. move_loop dst n hs p = Inr p' \<and> cache_inv p' \<and> same_alloc p p' \<and>
    (\<forall>c. keys_of p' c = (if c = dst then keys_of p dst \<union> set hs else keys_of p c)) \<and>
    (\<forall>h t. block_hash (blk p dst) = None \<longrightarrow> hs = h # t \<longrightarrow>
       block_hash (blk p' dst) = Some h \<and> block_hash_num_tokens (blk p' dst) = n) \<and>
    (block_hash (blk p dst) \<noteq> None \<longrightarrow> block_hash (blk p' dst) = block_hash (blk p dst) \<and>
       block_hash_num_tokens (blk p' dst) = block_hash_num_tokens (blk p dst))"
  using assms
proof (induction hs arbitrary: p)
  case Nil
  then show ?case by auto
next
  case (Cons h hs)
  obtain p1 where p1: "insert_block_hash h dst n p = Inr p1" "cache_inv p1" "same_alloc p p1"
    "\<And>c. keys_of p1 c = (if c = dst then insert h (keys_of p dst) else keys_of p c)"
    "block_hash (blk p1 dst) = (if block_hash (blk p dst) = None then Some h else block_hash (blk p dst))"
    "block_hash_num_tokens (blk p1 dst) =
       (if block_hash (blk p dst) = None then n else block_hash_num_tokens (blk p dst))"
    by (rule insert_block_hash_ok[OF Cons.prems(1-3), of n h])
      (use Cons.prems(4) in simp, rule that, assumption+)
  have "dst < num_gpu_blocks p1" "\<not> is_null (blk p1 dst)"
    using p1(3) Cons.prems(2,3) by (auto simp: same_alloc_def)
  from Cons.IH[OF p1(2) this Cons.prems(4)] obtain p' where
    "move_loop dst n hs p1 = Inr p'" "cache_inv p'" "same_alloc p1 p'"
    "\<And>c. keys_of p' c = (if c = dst then keys_of p1 dst \<union> set hs else keys_of p1 c)"
    "block_hash (blk p1 dst) \<noteq> None \<longrightarrow> block_hash (blk p' dst) = block_hash (blk p1 dst) \<and>
       block_hash_num_tokens (blk p' dst) = block_hash_num_tokens (blk p1 dst)" by blast
  then show ?case using p1 same_alloc_trans[OF p1(3)] by auto
qed

lemma move_block_hashes_ok:
  assumes inv: "cache_inv p" and d: "block_hash (blk p dst) = None" "src \<noteq> dst"
    "dst < num_gpu_blocks p" "\<not> is_null (blk p dst)"
  shows "\<exists>p'. move_block_hashes src dst p = Inr p' \<and> cache_inv p' \<and> same_alloc p p' \<and>
    keys_of p' src = {} \<and> keys_of p' dst = keys_of p src \<and>
    (\<forall>c. c \<noteq> src \<longrightarrow> c \<noteq> dst \<longrightarrow> keys_of p' c = keys_of p c) \<and>
    block_hash (blk p' dst) = block_hash (blk p src) \<and>
    block_hash_num_tokens (blk p' dst) = block_hash_num_tokens (blk p src)"
proof -
  obtain p1 where p1: "remove_cached_block_hashes src p = (hash_list_of p src, p1)" "cache_inv p1"
    "same_alloc p p1" "\<And>c. keys_of p1 c = (if c = src then {} else keys_of p c)"
    "\<And>c. c \<noteq> src \<Longrightarrow> blk p1 c = blk p c"
    using remove_hashes_ok[OF inv, of src] by metis
  have kd: "keys_of p dst = {}" using keys_empty[OF inv] d(1) by simp
  have aux: "hashes_by_block p dst = None" using cache_invD(3)[OF inv, of dst] d(1) by (simp add: block_ok_def)
  let ?n = "block_hash_num_tokens (blk p src)"
  let ?hs = "hash_list_of p src"
  have e: "move_block_hashes src dst p = move_loop dst ?n ?hs p1"
    using p1(1) d(1) aux by (simp add: move_block_hashes_def Let_def)
  have d1: "dst < num_gpu_blocks p1" "\<not> is_null (blk p1 dst)" "block_hash (blk p1 dst) = None"
    using p1(3,5) d by (auto simp: same_alloc_def)
  show ?thesis
  proof (cases "block_hash (blk p src)")
    case None
    then have "?hs = []" by (simp add: hash_list_of_def)
    moreover have "keys_of p src = {}" using keys_empty[OF inv] None by simp
    moreover have "block_hash_num_tokens (blk p src) = None"
      using cache_invD(3)[OF inv, of src] None by (simp add: block_ok_def)
    moreover have "block_hash_num_tokens (blk p dst) = None"
      using cache_invD(3)[OF inv, of dst] d(1) by (simp add: block_ok_def)
    ultimately show ?thesis using e p1 None d d1 kd by (intro exI[of _ p1]) simp
  next
    case (Some h)
    then obtain t where t: "?hs = h # t" by (simp add: hash_list_of_def)
    have "?n \<noteq> None" using cache_invD(3)[OF inv, of src] Some by (auto simp: block_ok_def)
    from move_loop_ok[OF p1(2) d1(1,2) this, of ?hs] obtain p' where
      "move_loop dst ?n ?hs p1 = Inr p'" "cache_inv p'" "same_alloc p1 p'"
      "\<And>c. keys_of p' c = (if c = dst then keys_of p1 dst \<union> set ?hs else keys_of p1 c)"
      "block_hash (blk p' dst) = Some h" "block_hash_num_tokens (blk p' dst) = ?n"
      using d1(3) t by blast
    then show ?thesis
      using e p1(4) same_alloc_trans[OF p1(3)] hash_list_of_props(2)[OF inv, of src] kd d(2) Some
      by (intro exI[of _ p']) auto
  qed
qed

section \<open>Caching full blocks\<close>

definition group_key :: "bytes \<Rightarrow> int \<Rightarrow> bytes" where
  "group_key h gid = (case make_block_hash_with_group_id h gid of Inl _ \<Rightarrow> [] | Inr k \<Rightarrow> k)"

lemma make_group_key:
  "0 \<le> gid \<Longrightarrow> gid < 2 ^ 32 \<Longrightarrow> make_block_hash_with_group_id h gid = Inr (group_key h gid)"
  using make_block_hash_ok[of gid h] by (auto simp: group_key_def)

text \<open>The blocks of a slice that are cached, with their index in the slice: neither null nor
  masked out.\<close>

fun selected :: "block_pool \<Rightarrow> bool list option \<Rightarrow> nat \<Rightarrow> nat list \<Rightarrow> (nat \<times> nat) list" where
  "selected p bmask i [] = []"
| "selected p bmask i (b # bs) =
     (if is_null (blk p b) \<or> (case bmask of None \<Rightarrow> False | Some m \<Rightarrow> \<not> m ! i)
      then [] else [(b, i)]) @ selected p bmask (Suc i) bs"

lemma selected_cong: "(\<And>b. is_null (blk p' b) = is_null (blk p b)) \<Longrightarrow> selected p' bmask i bs = selected p bmask i bs"
  by (induction bs arbitrary: i) simp_all

lemma selected_subset: "(b, j) \<in> set (selected p bmask i bs) \<Longrightarrow>
    b \<in> set bs \<and> \<not> is_null (blk p b) \<and> i \<le> j \<and> j < i + length bs \<and> bs ! (j - i) = b"
proof (induction bs arbitrary: i)
  case (Cons c bs)
  show ?case
  proof (cases "(b, j) \<in> set (selected p bmask (Suc i) bs)")
    case True
    note IH = Cons.IH[OF True]
    then have "j - i = Suc (j - Suc i)" by auto
    then show ?thesis using IH by auto
  next
    case False
    then show ?thesis using Cons.prems by (auto split: if_splits)
  qed
qed simp

text \<open>What a block needs to be cached at index \<open>j\<close>: a valid id, and either no hash yet or a
  partial entry that the full block extends.\<close>

definition cacheable :: "block_pool \<Rightarrow> nat \<Rightarrow> int \<Rightarrow> bool" where
  "cacheable p b boundary \<longleftrightarrow> b < num_gpu_blocks p \<and>
     (block_hash (blk p b) \<noteq> None \<longrightarrow>
       (\<exists>n. block_hash_num_tokens (blk p b) = Some n \<and> n < boundary))"

lemma cache_one_ok:
  assumes inv: "cache_inv p" and c: "cacheable p b boundary" "\<not> is_null (blk p b)"
  obtains p1 p2 where
    "(if block_hash (blk p b) \<noteq> None
      then bind_res (assert_res (case block_hash_num_tokens (blk p b) of None \<Rightarrow> False
              | Some n \<Rightarrow> n < boundary) AssertionError)
           (\<lambda>_. case remove_cached_block_hashes b p of (removed, p1) \<Rightarrow>
              Inr (emit_block_removed_events removed p1))
      else Inr p) = Inr p1"
    "insert_block_hash key b (Some boundary) p1 = Inr p2" "cache_inv p2" "same_alloc p p2"
    "\<And>c. keys_of p2 c = (if c = b then {key} else keys_of p c)" "\<And>c. c \<noteq> b \<Longrightarrow> blk p2 c = blk p c"
    "enable_kv_cache_events p2 = enable_kv_cache_events p"
proof -
  let ?step = "if block_hash (blk p b) \<noteq> None
      then bind_res (assert_res (case block_hash_num_tokens (blk p b) of None \<Rightarrow> False
              | Some n \<Rightarrow> n < boundary) AssertionError)
           (\<lambda>_. case remove_cached_block_hashes b p of (removed, p1) \<Rightarrow>
              Inr (emit_block_removed_events removed p1))
      else Inr p"
  obtain p1 where p1: "?step = Inr p1" "cache_inv p1" "same_alloc p p1"
    "\<And>c. keys_of p1 c = (if c = b then {} else keys_of p c)" "\<And>c. c \<noteq> b \<Longrightarrow> blk p1 c = blk p c"
    "enable_kv_cache_events p1 = enable_kv_cache_events p"
  proof (cases "block_hash (blk p b)")
    case None
    then have "keys_of p b = {}" using keys_empty[OF inv] by simp
    then show ?thesis using that[of p] None inv by simp
  next
    case (Some h)
    obtain q where q: "(case remove_cached_block_hashes b p of (hs, p1) \<Rightarrow> emit_block_removed_events hs p1) = q"
      "cache_inv q" "same_alloc p q" "\<And>c. keys_of q c = (if c = b then {} else keys_of p c)"
      "\<And>c. c \<noteq> b \<Longrightarrow> blk q c = blk p c" "enable_kv_cache_events q = enable_kv_cache_events p"
      using remove_emit_ok[OF inv, of b] by metis
    have "?step = Inr q" using Some c(1) q(1) by (auto simp: cacheable_def split: prod.splits)
    then show ?thesis using that[of q] q(2-) by simp
  qed
  have b1: "b < num_gpu_blocks p1" "\<not> is_null (blk p1 b)"
    using p1(3) c by (auto simp: same_alloc_def cacheable_def)
  obtain p2 where p2: "insert_block_hash key b (Some boundary) p1 = Inr p2" "cache_inv p2" "same_alloc p1 p2"
    "\<And>c. keys_of p2 c = (if c = b then insert key (keys_of p1 b) else keys_of p1 c)"
    "\<And>c. c \<noteq> b \<Longrightarrow> blk p2 c = blk p1 c" "enable_kv_cache_events p2 = enable_kv_cache_events p1"
    by (rule insert_block_hash_ok[OF p1(2) b1, of "Some boundary" key]) (simp, rule that, assumption+)
  show ?thesis
    using that[OF p1(1) p2(1,2) same_alloc_trans[OF p1(3) p2(3)]] p2(4-6) p1(4-6) by simp
qed

lemma cache_full_loop_ok:
  assumes "cache_inv p" "0 \<le> gid" "gid < 2 ^ 32" "distinct (filter (\<lambda>b. \<not> is_null (blk p b)) bs)"
    and "\<And>b j. (b, j) \<in> set (selected p bmask i bs) \<Longrightarrow>
      j < length hs \<and> cacheable p b ((nc + int j + 1) * bsz)"
  shows "\<exists>p'. cache_full_loop hs nc bsz gid bmask i bs acc p =
      Inr (acc @ (if enable_kv_cache_events p
                  then map (\<lambda>(b, j). maybe_convert_block_hash (env_int p) (hs ! j)) (selected p bmask i bs)
                  else []), p') \<and>
    cache_inv p' \<and> same_alloc p p' \<and> enable_kv_cache_events p' = enable_kv_cache_events p \<and>
    (\<forall>(b, j) \<in> set (selected p bmask i bs). keys_of p' b = {group_key (hs ! j) gid}) \<and>
    (\<forall>c. c \<notin> fst ` set (selected p bmask i bs) \<longrightarrow> keys_of p' c = keys_of p c)"
  using assms
proof (induction bs arbitrary: i acc p)
  case Nil
  then show ?case by auto
next
  case (Cons b bs)
  show ?case
  proof (cases "is_null (blk p b) \<or> (case bmask of None \<Rightarrow> False | Some m \<Rightarrow> \<not> m ! i)")
    case True
    then show ?thesis
      using Cons.IH[of p "Suc i" acc] Cons.prems by (auto split: if_splits)
  next
    case False
    note sel = False
    then have nn: "\<not> is_null (blk p b)" by simp
    have in_sel: "(b, i) \<in> set (selected p bmask i (b # bs))" using sel by simp
    then have i: "i < length hs" "cacheable p b ((nc + int i + 1) * bsz)" using Cons.prems(5) by auto
    let ?key = "group_key (hs ! i) gid"
    obtain p1 p2 where step:
      "(if block_hash (blk p b) \<noteq> None
        then bind_res (assert_res (case block_hash_num_tokens (blk p b) of None \<Rightarrow> False
              | Some n \<Rightarrow> n < (nc + int i + 1) * bsz) AssertionError)
           (\<lambda>_. case remove_cached_block_hashes b p of (removed, p1) \<Rightarrow>
              Inr (emit_block_removed_events removed p1))
        else Inr p) = Inr p1"
      "insert_block_hash ?key b (Some ((nc + int i + 1) * bsz)) p1 = Inr p2"
      and p2: "cache_inv p2" "same_alloc p p2"
      "\<And>c. keys_of p2 c = (if c = b then {?key} else keys_of p c)" "\<And>c. c \<noteq> b \<Longrightarrow> blk p2 c = blk p c"
      "enable_kv_cache_events p2 = enable_kv_cache_events p"
      by (rule cache_one_ok[OF Cons.prems(1) i(2) nn, of ?key]) (rule that, assumption+)
    have null2: "is_null (blk p2 c) = is_null (blk p c)" for c using p2(2) by (simp add: same_alloc_def)
    have sel2: "selected p2 bmask (Suc i) bs = selected p bmask (Suc i) bs"
      by (rule selected_cong[OF null2])
    have env2: "env_int p2 = env_int p" using p2(2) by (simp add: same_alloc_def)
    have b_notin: "b \<notin> fst ` set (selected p bmask (Suc i) bs)"
      using Cons.prems(4) nn selected_subset by fastforce
    have "\<exists>p'. cache_full_loop hs nc bsz gid bmask (Suc i) bs
        (if enable_kv_cache_events p then acc @ [maybe_convert_block_hash (env_int p) (hs ! i)] else acc) p2 =
      Inr ((if enable_kv_cache_events p then acc @ [maybe_convert_block_hash (env_int p) (hs ! i)] else acc) @
          (if enable_kv_cache_events p2
           then map (\<lambda>(b, j). maybe_convert_block_hash (env_int p2) (hs ! j)) (selected p2 bmask (Suc i) bs)
           else []), p') \<and>
      cache_inv p' \<and> same_alloc p2 p' \<and> enable_kv_cache_events p' = enable_kv_cache_events p2 \<and>
      (\<forall>(b, j) \<in> set (selected p2 bmask (Suc i) bs). keys_of p' b = {group_key (hs ! j) gid}) \<and>
      (\<forall>c. c \<notin> fst ` set (selected p2 bmask (Suc i) bs) \<longrightarrow> keys_of p' c = keys_of p2 c)"
    proof (rule Cons.IH[OF p2(1) Cons.prems(2,3)])
      show "distinct (filter (\<lambda>b. \<not> is_null (blk p2 b)) bs)" using Cons.prems(4) null2 by (auto split: if_splits)
      fix c j assume cj: "(c, j) \<in> set (selected p2 bmask (Suc i) bs)"
      then have c: "c \<noteq> b" using b_notin sel2 by force
      have "(c, j) \<in> set (selected p bmask i (b # bs))" using cj sel2 by simp
      then show "j < length hs \<and> cacheable p2 c ((nc + int j + 1) * bsz)"
        using Cons.prems(5)[of c j] p2(4)[OF c] p2(2) by (simp add: cacheable_def same_alloc_def)
    qed
    then obtain p' where p': "cache_full_loop hs nc bsz gid bmask (Suc i) bs
        (if enable_kv_cache_events p then acc @ [maybe_convert_block_hash (env_int p) (hs ! i)] else acc) p2 =
      Inr ((if enable_kv_cache_events p then acc @ [maybe_convert_block_hash (env_int p) (hs ! i)] else acc) @
          (if enable_kv_cache_events p
           then map (\<lambda>(b, j). maybe_convert_block_hash (env_int p) (hs ! j)) (selected p bmask (Suc i) bs)
           else []), p')"
      "cache_inv p'" "same_alloc p2 p'" "enable_kv_cache_events p' = enable_kv_cache_events p"
      "\<forall>(b, j) \<in> set (selected p bmask (Suc i) bs). keys_of p' b = {group_key (hs ! j) gid}"
      "\<forall>c. c \<notin> fst ` set (selected p bmask (Suc i) bs) \<longrightarrow> keys_of p' c = keys_of p2 c"
      unfolding sel2 env2 p2(5) by (elim exE conjE) (rule that)
    have loop: "cache_full_loop hs nc bsz gid bmask i (b # bs) acc p =
        cache_full_loop hs nc bsz gid bmask (Suc i) bs
        (if enable_kv_cache_events p then acc @ [maybe_convert_block_hash (env_int p) (hs ! i)] else acc) p2"
      using sel step make_group_key[OF Cons.prems(2,3)] i(1)
      by (simp only: cache_full_loop.simps Let_def py_get_nat) simp
    let ?t = "selected p bmask (Suc i) bs"
    have sel_eq: "selected p bmask i (b # bs) = (b, i) # ?t" using sel by simp
    have acc_eq: "(if enable_kv_cache_events p then acc @ [maybe_convert_block_hash (env_int p) (hs ! i)] else acc)
        @ (if enable_kv_cache_events p
           then map (\<lambda>(b, j). maybe_convert_block_hash (env_int p) (hs ! j)) ?t else [])
      = acc @ (if enable_kv_cache_events p
           then map (\<lambda>(b, j). maybe_convert_block_hash (env_int p) (hs ! j)) ((b, i) # ?t) else [])" by simp
    have kb: "keys_of p' b = {?key}" using p'(6) b_notin p2(3) by simp
    have kall: "\<forall>(b, j) \<in> set ((b, i) # ?t). keys_of p' b = {group_key (hs ! j) gid}"
      using kb p'(5) by auto
    have kno: "\<forall>c. c \<notin> fst ` set ((b, i) # ?t) \<longrightarrow> keys_of p' c = keys_of p c"
      using p'(6) p2(3) by simp
    show ?thesis
      unfolding loop sel_eq p'(1) acc_eq
      by (intro exI[of _ p'] conjI refl p'(2) same_alloc_trans[OF p2(2) p'(3)] p'(4) kall kno)
  qed
qed

section \<open>Extra keys for events never fail\<close>

lemma mm_keys_loop_ge: "mm_keys_loop fs cur a b = (ks, i) \<Longrightarrow> cur \<le> i"
proof (induction fs cur a b arbitrary: ks i rule: mm_keys_loop.induct)
  case (2 f fs cur start stop)
  then show ?case
    by (cases "mm_keys_loop fs (cur + 1) start stop") (fastforce simp: Let_def split: if_splits)
qed simp

lemma generate_extra_total:
  assumes "0 \<le> mm"
  shows "\<exists>k mm'. generate_block_hash_extra_keys sha r a b mm = Inr (k, mm') \<and> 0 \<le> mm'"
proof -
  have "\<exists>ks mm'. gen_mm_extra_hash_keys (mm_features r) a b mm = Inr (ks, mm') \<and> 0 \<le> mm'"
  proof (cases "mm_features r = [] \<or> mm_offset (last (mm_features r)) + mm_length (last (mm_features r)) \<le> a")
    case True
    then show ?thesis using assms by (auto simp: gen_mm_extra_hash_keys_def)
  next
    case False
    obtain ks i where ki: "mm_keys_loop (drop (nat mm) (mm_features r)) mm a b = (ks, i)" by fastforce
    show ?thesis using False assms ki mm_keys_loop_ge[OF ki] by (auto simp: gen_mm_extra_hash_keys_def)
  qed
  then show ?thesis by (auto simp: generate_block_hash_extra_keys_def Let_def)
qed

lemma extra_keys_loop_ok:
  assumes "\<And>i. i \<in> set is \<Longrightarrow> i < length blocks" "0 \<le> mm"
  shows "\<exists>ks. extra_keys_loop sha p r blocks nc bsz bmask is mm acc = Inr ks"
  using assms
proof (induction "is" arbitrary: mm acc)
  case (Cons i "is")
  obtain k mm' where "generate_block_hash_extra_keys sha r (int i * bsz) (int i * bsz + bsz) mm = Inr (k, mm')"
    "0 \<le> mm'" using generate_extra_total[OF Cons.prems(2)] by blast
  then show ?case
    using Cons.IH[of mm acc] Cons.IH[of mm' "acc @ [k]"] Cons.prems by (simp add: py_get_nat)
qed simp

section \<open>Looking up\<close>

lemma get_cached_block_loop_spec:
  assumes inv: "cache_inv p" and g: "\<And>g. g \<in> set gids \<Longrightarrow> 0 \<le> g \<and> g < 2 ^ 32"
  shows "get_cached_block_loop p h gids acc = Inr
    (if \<exists>g \<in> set gids. map_ids (cached_map p) (group_key h g) = [] then None
     else Some (acc @ map (\<lambda>g. hd (map_ids (cached_map p) (group_key h g))) gids))"
  using g
proof (induction gids arbitrary: acc)
  case (Cons g gids)
  then have "make_block_hash_with_group_id h g = Inr (group_key h g)" by (intro make_group_key) auto
  then show ?case using Cons bm.get_law[OF cache_invD(1)[OF inv], of "group_key h g"]
    by (cases "map_ids (cached_map p) (group_key h g)") auto
qed simp

lemma get_cached_block_spec:
  assumes inv: "cache_inv p" and g: "\<And>g. g \<in> set gids \<Longrightarrow> 0 \<le> g \<and> g < 2 ^ 32"
  shows "\<exists>ob. get_cached_block p h gids = Inr ob \<and>
    (case ob of None \<Rightarrow> (\<exists>g \<in> set gids. \<forall>b. group_key h g \<notin> keys_of p b)
     | Some bs \<Rightarrow> list_all2 (\<lambda>g b. group_key h g \<in> keys_of p b) gids bs)"
proof -
  have hd: "group_key h g \<in> keys_of p (hd (map_ids (cached_map p) (group_key h g)))"
    if "map_ids (cached_map p) (group_key h g) \<noteq> []" for g
    using cache_invD(4)[OF inv, of "hd (map_ids (cached_map p) (group_key h g))" "group_key h g"] that by simp
  have none: "\<forall>b. group_key h g \<notin> keys_of p b" if "map_ids (cached_map p) (group_key h g) = []" for g
    using cache_invD(4)[OF inv, of _ "group_key h g"] that by simp
  have "get_cached_block p h gids = Inr
    (if \<exists>g \<in> set gids. map_ids (cached_map p) (group_key h g) = [] then None
     else Some ([] @ map (\<lambda>g. hd (map_ids (cached_map p) (group_key h g))) gids))"
    unfolding get_cached_block_def by (rule get_cached_block_loop_spec[OF inv g])
  then show ?thesis using hd none by (auto simp: list_all2_conv_all_nth)
qed

section \<open>\<open>cache_full_blocks\<close>\<close>

lemma py_slice_nat: "py_slice xs (int a) (int b) = take (b - a) (drop a xs)"
proof -
  have clip: "clip (int n) (int k) = min n k" for n k by (auto simp: clip_def min_def max_def)
  show ?thesis by (cases "a \<le> length xs") (auto simp: py_slice_def Let_def clip min_def)
qed

text \<open>What the callers guarantee of the blocks \<open>ncached..nfull\<close>.\<close>

definition full_args_ok :: "request \<Rightarrow> nat list \<Rightarrow> nat \<Rightarrow> nat \<Rightarrow> int \<Rightarrow> int \<Rightarrow> bool list option \<Rightarrow> block_pool \<Rightarrow> bool" where
  "full_args_ok r blocks ncached nfull bsz gid bmask p \<longleftrightarrow>
     0 < hash_block_size p \<and> 0 < bsz \<and> bsz mod hash_block_size p = 0 \<and> 0 \<le> gid \<and> gid < 2 ^ 32 \<and>
     ncached \<le> nfull \<and> nfull \<le> length blocks \<and>
     int nfull \<le> int (length (block_hashes r)) div (bsz div hash_block_size p) \<and>
     (case bmask of None \<Rightarrow> True | Some m \<Rightarrow> length m = nfull - ncached) \<and>
     distinct (filter (\<lambda>b. \<not> is_null (blk p b)) (take (nfull - ncached) (drop ncached blocks))) \<and>
     (\<forall>(b, j) \<in> set (selected p bmask 0 (take (nfull - ncached) (drop ncached blocks))).
        cacheable p b ((int ncached + int j + 1) * bsz))"

lemma cache_full_blocks_ok:
  assumes inv: "cache_inv p" and args: "full_args_ok r blocks ncached nfull bsz gid bmask p"
  defines "sel \<equiv> selected p bmask 0 (take (nfull - ncached) (drop ncached blocks))"
    and "hv \<equiv> view_of (block_hashes r) (bsz div hash_block_size p)"
  shows "\<exists>p'. cache_full_blocks sha r blocks ncached nfull bsz gid bmask p = Inr p' \<and>
    cache_inv p' \<and> same_alloc p p' \<and>
    (\<forall>(b, j) \<in> set sel. keys_of p' b = {group_key (hv ! (ncached + j)) gid}) \<and>
    (\<forall>c. c \<notin> fst ` set sel \<longrightarrow> keys_of p' c = keys_of p c) \<and>
    (enable_kv_cache_events p \<and> ncached < nfull \<longrightarrow>
      (\<exists>ev. last (kv_event_queue p') = BlockStored ev \<and>
        ev_block_hashes ev = map (\<lambda>(b, j). maybe_convert_block_hash (env_int p) (hv ! (ncached + j))) sel \<and>
        ev_parent_block_hash ev =
          (if ncached = 0 then None else Some (maybe_convert_block_hash (env_int p) (hv ! (ncached - 1)))) \<and>
        ev_token_ids ev = py_slice (all_token_ids r) (int ncached * bsz) (int nfull * bsz)))"
proof (cases "nfull \<le> ncached")
  case True
  then have "sel = []" by (simp add: sel_def)
  moreover have "\<not> ncached < nfull" using True by simp
  ultimately show ?thesis using True inv by (intro exI[of _ p]) (simp add: cache_full_blocks_def)
next
  case False
  let ?new = "take (nfull - ncached) (drop ncached blocks)"
  note A = args[unfolded full_args_ok_def]
  obtain hl where hl: "resolve_block_hashes (RawHashes (block_hashes r)) (hash_block_size p) bsz False None = Inr hl"
    "\<And>a. hash_list_from hl (int a) = Inr (drop a hv)"
    "\<And>i. i < length hv \<Longrightarrow> hash_list_get hl (int i) = Inr (hv ! i)"
    using view_spec[of "hash_block_size p" bsz "block_hashes r"] A unfolding hv_def by metis
  have nfull: "nfull \<le> length hv" using A by (simp add: hv_def view_of_def nat_le_iff le_nat_iff)
  have "nfull \<le> length blocks" using A by simp
  then have len: "length ?new = nfull - ncached" by simp
  have idx: "j < length (drop ncached hv) \<and> cacheable p b ((int ncached + int j + 1) * bsz)"
    if "(b, j) \<in> set (selected p bmask 0 ?new)" for b j
    using selected_subset[OF that] A that nfull len by fastforce
  have "\<exists>p1. cache_full_loop (drop ncached hv) (int ncached) bsz gid bmask 0 ?new [] p =
      Inr ([] @ (if enable_kv_cache_events p
          then map (\<lambda>(b, j). maybe_convert_block_hash (env_int p) (drop ncached hv ! j)) sel else []), p1) \<and>
    cache_inv p1 \<and> same_alloc p p1 \<and> enable_kv_cache_events p1 = enable_kv_cache_events p \<and>
    (\<forall>(b, j) \<in> set sel. keys_of p1 b = {group_key (drop ncached hv ! j) gid}) \<and>
    (\<forall>c. c \<notin> fst ` set sel \<longrightarrow> keys_of p1 c = keys_of p c)"
    unfolding sel_def using A idx by (intro cache_full_loop_ok inv) auto
  moreover have "drop ncached hv ! j = hv ! (ncached + j)" for j using nfull False by (intro nth_drop) simp
  ultimately obtain p1 where p1: "cache_full_loop (drop ncached hv) (int ncached) bsz gid bmask 0 ?new [] p =
      Inr (if enable_kv_cache_events p
          then map (\<lambda>(b, j). maybe_convert_block_hash (env_int p) (hv ! (ncached + j))) sel else [], p1)"
    "cache_inv p1" "same_alloc p p1" "\<forall>(b, j) \<in> set sel. keys_of p1 b = {group_key (hv ! (ncached + j)) gid}"
    "\<forall>c. c \<notin> fst ` set sel \<longrightarrow> keys_of p1 c = keys_of p c" by auto
  obtain ks where ks: "extra_keys_loop sha p1 r blocks (int ncached) bsz bmask [ncached..<nfull] 0 [] = Inr ks"
    using extra_keys_loop_ok[of "[ncached..<nfull]" blocks 0] A by force
  have mlen: "(case bmask of None \<Rightarrow> True | Some m \<Rightarrow> length m = length ?new)"
    unfolding len using A by simp
  have parent: "(if ncached = 0 then Inr None
      else bind_res (hash_list_get hl (int ncached - 1)) (\<lambda>h. Inr (Some (maybe_convert_block_hash (env_int p) h))))
    = Inr (if ncached = 0 then None else Some (maybe_convert_block_hash (env_int p) (hv ! (ncached - 1))))"
    using hl(3)[of "ncached - 1"] nfull False by (cases ncached) auto
  have run: "cache_full_blocks sha r blocks ncached nfull bsz gid bmask p =
    (if \<not> enable_kv_cache_events p then Inr p1
     else Inr (push_event (build_block_stored_event p1 r
        (map (\<lambda>(b, j). maybe_convert_block_hash (env_int p) (hv ! (ncached + j))) sel)
        (if ncached = 0 then None else Some (maybe_convert_block_hash (env_int p) (hv ! (ncached - 1))))
        (int ncached * bsz) (int nfull * bsz) bsz gid ks) p1))"
    unfolding cache_full_blocks_def Let_def py_slice_nat
    using False mlen hl(1,2) p1(1) ks parent by simp
  show ?thesis
  proof (cases "enable_kv_cache_events p")
    case True
    let ?p' = "push_event (build_block_stored_event p1 r
        (map (\<lambda>(b, j). maybe_convert_block_hash (env_int p) (hv ! (ncached + j))) sel)
        (if ncached = 0 then None else Some (maybe_convert_block_hash (env_int p) (hv ! (ncached - 1))))
        (int ncached * bsz) (int nfull * bsz) bsz gid ks) p1"
    have "keys_of ?p' c = keys_of p1 c" for c by (rule keys_same_cache) simp
    moreover have "cache_inv ?p'" using cache_inv_same[OF same_push_event(2) p1(2)] .
    moreover have "same_alloc p ?p'" using same_alloc_trans[OF p1(3) same_push_event(1)] .
    ultimately show ?thesis using run True p1(4,5)
      by (intro exI[of _ ?p']) (simp add: push_event_def build_block_stored_event_def)
  next
    case False
    then show ?thesis using run p1(2-5) by (intro exI[of _ p1]) simp
  qed
qed

section \<open>\<open>cache_partial_block\<close>\<close>

definition partial_args_ok :: "request \<Rightarrow> nat \<Rightarrow> int \<Rightarrow> int \<Rightarrow> int \<Rightarrow> bool \<Rightarrow> block_pool \<Rightarrow> bool" where
  "partial_args_ok r b n gid bsz replace p \<longleftrightarrow>
     b < num_gpu_blocks p \<and> \<not> is_null (blk p b) \<and> 0 < hash_block_size p \<and>
     bsz mod hash_block_size p = 0 \<and> (replace \<or> bsz > hash_block_size p \<and> n mod bsz \<noteq> 0) \<and>
     n mod hash_block_size p = 0 \<and> 0 < n div hash_block_size p \<and>
     n div hash_block_size p \<le> int (length (block_hashes r)) \<and> 0 \<le> gid \<and> gid < 2 ^ 32"

lemma partial_event_total:
  assumes "partial_args_ok r b n gid bsz replace p" "hash_block_size p' = hash_block_size p"
  shows "\<exists>e. partial_stored_event sha p' r n gid h = Inr e"
proof -
  let ?k = "n div hash_block_size p"
  have "\<exists>par. (if 1 < ?k then bind_res (py_get (block_hashes r) (?k - 2)) (\<lambda>h. Inr (Some h)) else Inr None) = Inr par"
    using assms(1) py_get_nat[of "block_hashes r" "nat (?k - 2)"] by (auto simp: partial_args_ok_def)
  then obtain par where par: "get_partial_block_parent_hash_and_start p' r n =
      Inr (par, (?k - 1) * hash_block_size p)"
    using assms(2) by (auto simp: get_partial_block_parent_hash_and_start_def Let_def)
  show ?thesis
    using generate_extra_total[of _ sha r "(?k - 1) * hash_block_size p" n]
    by (auto simp: partial_stored_event_def par Let_def bind_res_def split: sum.split)
      (metis of_nat_0_le_iff old.sum.distinct(1) order_refl)+
qed

lemma cache_partial_block_ok:
  assumes inv: "cache_inv p" and args: "partial_args_ok r b n gid bsz replace p"
  defines "key \<equiv> group_key (block_hashes r ! nat (n div hash_block_size p - 1)) gid"
  shows "\<exists>p'. cache_partial_block sha r b n gid bsz replace p = Inr (Some key, p') \<and> cache_inv p' \<and>
    same_alloc p p' \<and> key \<in> keys_of p' b \<and> (replace \<longrightarrow> keys_of p' b = {key}) \<and>
    keys_of p' b \<subseteq> insert key (keys_of p b) \<and> (\<forall>c. c \<noteq> b \<longrightarrow> keys_of p' c = keys_of p c)"
proof -
  note A = args[unfolded partial_args_ok_def]
  let ?B = "hash_block_size p"
  let ?k = "n div ?B"
  let ?h = "block_hashes r ! nat (?k - 1)"
  have h: "get_partial_block_hash p r n = Inr ?h"
  proof -
    have k: "0 < ?k" "?k \<le> int (length (block_hashes r))" using A by simp_all
    then have "nat (?k - 1) < length (block_hashes r)" by linarith
    then show ?thesis using A k py_get_nat[of "block_hashes r" "nat (?k - 1)"]
      by (simp add: get_partial_block_hash_def Let_def)
  qed
  have mk: "make_block_hash_with_group_id ?h gid = Inr key" using A by (simp add: key_def make_group_key)
  let ?cached0 = "block_hash (blk p b) = Some key \<or> map_contain (cached_map p) key b"
  let ?shorter = "block_hash (blk p b) \<noteq> None \<and>
     (case block_hash_num_tokens (blk p b) of None \<Rightarrow> False | Some m \<Rightarrow> m < ?k * ?B)"
  let ?rem = "\<lambda>p. case remove_cached_block_hashes b p of (hs, p1) \<Rightarrow> emit_block_removed_events hs p1"
  obtain q where q: "?rem p = q" "cache_inv q" "same_alloc p q"
      "\<And>c. keys_of q c = (if c = b then {} else keys_of p c)"
    using remove_emit_ok[OF inv, of b] by metis
  define drop where "drop = (replace \<or> \<not> ?cached0 \<and> ?shorter)"
  let ?p1 = "if replace then ?rem p else if \<not> ?cached0 \<and> ?shorter then ?rem p else p"
  obtain p1 where p1: "?p1 = p1" "cache_inv p1" "same_alloc p p1"
      "\<And>c. keys_of p1 c = (if c = b \<and> drop then {} else keys_of p c)"
  proof (cases drop)
    case True
    then have "?p1 = q" using q(1) by (auto simp: drop_def)
    then show ?thesis using that[of q] q True by simp
  next
    case False
    then have "?p1 = p" by (auto simp: drop_def)
    then show ?thesis using that[of p] inv False by simp
  qed
  have b1: "b < num_gpu_blocks p1" "\<not> is_null (blk p1 b)"
    using p1(3) A by (auto simp: same_alloc_def)
  obtain p2 where p2: "insert_block_hash key b (Some (?k * ?B)) p1 = Inr p2" "cache_inv p2" "same_alloc p1 p2"
    "\<And>c. keys_of p2 c = (if c = b then insert key (keys_of p1 b) else keys_of p1 c)"
    by (rule insert_block_hash_ok[OF p1(2) b1, of "Some (?k * ?B)" key]) (simp, rule that, assumption+)
  have s2: "same_alloc p p2" using same_alloc_trans[OF p1(3) p2(3)] .
  have "hash_block_size p2 = ?B" using s2 by (simp add: same_alloc_def)
  then obtain e where e: "partial_stored_event sha p2 r n gid ?h = Inr e"
    using partial_event_total[OF args] by blast
  have guards: "(if replace then Inr () else if bsz > ?B then
            (if bsz = 0 then Inl ZeroDivisionError else assert_res (n mod bsz \<noteq> 0) AssertionError)
          else Inl AssertionError) = Inr ()" using A by auto
  have run: "cache_partial_block sha r b n gid bsz replace p =
    (if enable_kv_cache_events p \<and> \<not> (if replace then False else ?cached0)
     then Inr (Some key, push_event e p2) else Inr (Some key, p2))"
    unfolding cache_partial_block_def Let_def
    using A h mk guards p1(1) p2(1) e by simp
  have k2: "key \<in> keys_of p2 b" "replace \<longrightarrow> keys_of p2 b = {key}"
    "keys_of p2 b \<subseteq> insert key (keys_of p b)" "\<forall>c. c \<noteq> b \<longrightarrow> keys_of p2 c = keys_of p c"
    using p2(4) p1(4) by (auto simp: drop_def)
  have pe: "keys_of (push_event e p2) c = keys_of p2 c" for c by (rule keys_same_cache) simp
  show ?thesis
  proof (cases "enable_kv_cache_events p \<and> \<not> (if replace then False else ?cached0)")
    case True
    then show ?thesis
      using run k2 pe cache_inv_same[OF same_push_event(2) p2(2)] same_alloc_trans[OF s2 same_push_event(1)]
      by (intro exI[of _ "push_event e p2"]) simp
  next
    case False
    have "cache_partial_block sha r b n gid bsz replace p = Inr (Some key, p2)"
      unfolding run by (rule if_not_P[OF False])
    then show ?thesis using k2 p2(2) s2 by (intro exI[of _ p2]) simp
  qed
qed

end
