(* ===== verification/PoolFree.thy ===== *)
theory PoolFree imports PoolCache
begin

text \<open>
  The allocation side of the block pool: \<open>free_inv p xs\<close> says that the free queue is the list
  \<open>xs\<close> and holds exactly the blocks, the null block apart, whose reference count is zero. The
  operations that allocate, touch, free, unpin, evict and reset are described by what they do to
  \<open>xs\<close>, to the reference counts (\<open>refs_changed\<close>) and to the keys of the blocks.
\<close>

section \<open>Reference counts\<close>

definition refs_changed :: "block_pool \<Rightarrow> block_pool \<Rightarrow> (nat \<Rightarrow> int) \<Rightarrow> bool" where
  "refs_changed p p' d \<longleftrightarrow> num_gpu_blocks p' = num_gpu_blocks p \<and> enable_caching p' = enable_caching p \<and>
     null_block p' = null_block p \<and> hash_block_size p' = hash_block_size p \<and>
     enable_kv_cache_events p' = enable_kv_cache_events p \<and> env_int p' = env_int p \<and>
     (\<forall>i. ref_cnt (blk p' i) = ref_cnt (blk p i) + d i \<and> is_null (blk p' i) = is_null (blk p i))"

definition same_queue :: "block_pool \<Rightarrow> block_pool \<Rightarrow> bool" where
  "same_queue p p' \<longleftrightarrow> same_links (fq_store (queue p)) (fq_store (queue p')) \<and>
     num_free_blocks (queue p') = num_free_blocks (queue p)"

lemma refs_changed_trans:
  "refs_changed p p' d \<Longrightarrow> refs_changed p' p'' e \<Longrightarrow> refs_changed p p'' (\<lambda>i. d i + e i)"
  by (simp add: refs_changed_def)

lemma refs_changed_0 [simp, intro]: "refs_changed p p (\<lambda>_. 0)"
  by (simp add: refs_changed_def)

lemma same_queue_refl [simp, intro]: "same_queue p p"
  by (simp add: same_queue_def same_links_def)

lemma same_queue_trans: "same_queue p p' \<Longrightarrow> same_queue p' p'' \<Longrightarrow> same_queue p p''"
  by (simp add: same_queue_def same_links_def)

lemma same_queue_repr: "same_queue p p' \<Longrightarrow> queue_repr (queue p') xs = queue_repr (queue p) xs"
  using queue_repr_links[of "queue p" "queue p'" xs] by (simp add: same_queue_def)

lemma same_alloc_split: "same_alloc p p' \<Longrightarrow> same_queue p p' \<and> refs_changed p p' (\<lambda>_. 0)"
  by (simp add: same_alloc_def same_queue_def refs_changed_def)

lemma upd_ref_frames:
  "refs_changed p (upd_blk b (ref_cnt_update (\<lambda>n. n + d)) p) (\<lambda>i. if i = b then d else 0)"
  "refs_changed p (upd_blk b (ref_cnt_update (\<lambda>n. n - d)) p) (\<lambda>i. if i = b then - d else 0)"
  "same_queue p (upd_blk b (ref_cnt_update f) p)" "same_cache p (upd_blk b (ref_cnt_update f) p)"
  by (simp_all add: refs_changed_def same_queue_def same_cache_def same_links_def pool_simps)
    (simp add: upd_blk_def upd_block_def)

lemma set_queue_frames:
  assumes "meta_of (fq_store q) = meta_of (fq_store (queue p))"
  shows "refs_changed p (p\<lparr>queue := q\<rparr>) (\<lambda>_. 0)" "same_cache p (p\<lparr>queue := q\<rparr>)"
  using meta_eqD[OF assms] by (simp_all add: refs_changed_def same_cache_def blk_def)

lemma watcher_frames:
  "same_queue p (p\<lparr>reuse_watchers := w, reuse_log := l\<rparr>)" "same_cache p (p\<lparr>reuse_watchers := w, reuse_log := l\<rparr>)"
  "refs_changed p (p\<lparr>reuse_watchers := w, reuse_log := l\<rparr>) (\<lambda>_. 0)"
  by (simp_all add: refs_changed_def same_queue_def same_cache_def same_links_def pool_simps)

lemma notify_reuse_form: "\<exists>w l. notify_reuse bs p = p\<lparr>reuse_watchers := w, reuse_log := l\<rparr>"
proof (induction bs arbitrary: p)
  case Nil
  show ?case by (rule exI[of _ "reuse_watchers p"], rule exI[of _ "reuse_log p"]) (simp add: notify_reuse_def)
next
  case (Cons b bs)
  show ?case
  proof (cases "map_of (reuse_watchers p) b")
    case None
    then have "notify_reuse (b # bs) p = notify_reuse bs p" by (simp add: notify_reuse_def)
    then show ?thesis using Cons.IH[of p] by simp
  next
    case (Some w)
    let ?p1 = "p\<lparr>reuse_watchers := filter (\<lambda>(k, _). k \<noteq> b) (reuse_watchers p), reuse_log := reuse_log p @ [(w, b)]\<rparr>"
    have "notify_reuse (b # bs) p = notify_reuse bs ?p1" using Some by (simp add: notify_reuse_def)
    then show ?thesis using Cons.IH[of ?p1] by auto
  qed
qed

lemma notify_reuse_frames:
  "same_queue p (notify_reuse bs p)" "same_cache p (notify_reuse bs p)"
  "refs_changed p (notify_reuse bs p) (\<lambda>_. 0)"
  using notify_reuse_form[of bs p] watcher_frames by metis+

section \<open>The invariant\<close>

definition free_inv :: "block_pool \<Rightarrow> nat list \<Rightarrow> bool" where
  "free_inv p xs \<longleftrightarrow> queue_repr (queue p) xs \<and> null_block p < num_gpu_blocks p \<and>
     (\<forall>i. i \<in> set xs \<longleftrightarrow> i < num_gpu_blocks p \<and> \<not> is_null (blk p i) \<and> ref_cnt (blk p i) = 0) \<and>
     (\<forall>i < num_gpu_blocks p. is_null (blk p i) \<longleftrightarrow> i = null_block p) \<and>
     (\<forall>i < num_gpu_blocks p. \<not> is_null (blk p i) \<longrightarrow> 0 \<le> ref_cnt (blk p i))"

definition pool_inv :: "block_pool \<Rightarrow> nat list \<Rightarrow> bool" where
  "pool_inv p xs \<longleftrightarrow> cache_inv p \<and> free_inv p xs"

lemma free_invD:
  assumes "free_inv p xs"
  shows "queue_repr (queue p) xs"
    "i \<in> set xs \<longleftrightarrow> i < num_gpu_blocks p \<and> \<not> is_null (blk p i) \<and> ref_cnt (blk p i) = 0"
    "i < num_gpu_blocks p \<Longrightarrow> \<not> is_null (blk p i) \<Longrightarrow> 0 \<le> ref_cnt (blk p i)"
    "distinct xs" "num_free_blocks (queue p) = int (length xs)"
  using assms fq.repr_distinct fq.count_law by (auto simp: free_inv_def)

lemma free_inv_step:
  assumes "free_inv p xs" "refs_changed p p' d" "queue_repr (queue p') ys"
    and "\<And>i. i < num_gpu_blocks p \<Longrightarrow> \<not> is_null (blk p i) \<Longrightarrow>
      0 \<le> ref_cnt (blk p i) + d i \<and> (i \<in> set ys \<longleftrightarrow> ref_cnt (blk p i) + d i = 0)"
    and "\<And>i. i \<in> set ys \<Longrightarrow> i < num_gpu_blocks p \<and> \<not> is_null (blk p i)"
  shows "free_inv p' ys"
proof -
  have e: "num_gpu_blocks p' = num_gpu_blocks p" "null_block p' = null_block p"
    "\<And>i. ref_cnt (blk p' i) = ref_cnt (blk p i) + d i" "\<And>i. is_null (blk p' i) = is_null (blk p i)"
    using assms(2) by (simp_all add: refs_changed_def)
  have "i \<in> set ys \<longleftrightarrow> i < num_gpu_blocks p \<and> \<not> is_null (blk p i) \<and> ref_cnt (blk p i) + d i = 0" for i
    using assms(4)[of i] assms(5)[of i] by blast
  moreover have "0 \<le> ref_cnt (blk p i) + d i" if "i < num_gpu_blocks p" "\<not> is_null (blk p i)" for i
    using assms(4)[OF that] by simp
  moreover have "null_block p < num_gpu_blocks p"
    "\<And>i. i < num_gpu_blocks p \<Longrightarrow> is_null (blk p i) \<longleftrightarrow> i = null_block p"
    using assms(1) by (simp_all add: free_inv_def)
  ultimately show ?thesis using assms(3) by (simp add: free_inv_def e)
qed

lemma free_inv_same_alloc: "same_alloc p p' \<Longrightarrow> free_inv p xs \<Longrightarrow> free_inv p' xs"
  using same_queue_repr[of p p' xs] same_alloc_split[of p p']
  by (intro free_inv_step[of p xs p' "\<lambda>_. 0"]) (auto simp: free_inv_def)

lemma pool_inv_same_alloc: "same_alloc p p' \<Longrightarrow> cache_inv p' \<Longrightarrow> pool_inv p xs \<Longrightarrow> pool_inv p' xs"
  using free_inv_same_alloc by (auto simp: pool_inv_def)

section \<open>Allocation\<close>

lemma alloc_step_ok:
  assumes inv: "cache_inv p" and z: "ref_cnt (blk p b) = 0"
  shows "\<exists>p'. alloc_step b p = Inr p' \<and> cache_inv p' \<and> same_queue p p' \<and>
    refs_changed p p' (\<lambda>i. if i = b then 1 else 0) \<and>
    (\<forall>c. keys_of p' c = (if enable_caching p \<and> c = b then {} else keys_of p c))"
proof -
  obtain q where q: "maybe_evict_cached_block b p = (block_hash (blk p b) \<noteq> None, q)" "cache_inv q"
    "same_alloc p q" "\<And>c. keys_of q c = (if c = b then {} else keys_of p c)"
    using maybe_evict_ok[OF inv, of b] by metis
  let ?p1 = "if enable_caching p then snd (maybe_evict_cached_block b p) else p"
  have p1: "cache_inv ?p1" "same_alloc p ?p1"
    "\<And>c. keys_of ?p1 c = (if enable_caching p \<and> c = b then {} else keys_of p c)"
    using q inv by auto
  let ?p2 = "upd_blk b (ref_cnt_update (\<lambda>n. n + 1)) ?p1"
  let ?p' = "log_metric (OnBlockAllocated b) ?p2"
  have "ref_cnt (blk ?p1 b) = 0" using p1(2) z by (simp add: same_alloc_def)
  then have e: "alloc_step b p = Inr ?p'" by (simp add: alloc_step_def Let_def)
  have "same_cache ?p1 ?p'" using same_cache_trans[OF upd_ref_frames(4) same_log_metric(2)] .
  then have c: "cache_inv ?p'" "\<And>c. keys_of ?p' c = keys_of ?p1 c"
    using cache_inv_same p1(1) keys_same_cache by blast+
  have r: "refs_changed p ?p' (\<lambda>i. 0 + (if i = b then 1 else 0) + 0)"
    using refs_changed_trans[OF refs_changed_trans[OF _ upd_ref_frames(1)]]
      same_alloc_split[OF p1(2)] same_alloc_split[OF same_log_metric(1)] by blast
  have s: "same_queue p ?p'"
    using same_queue_trans[OF same_queue_trans[OF _ upd_ref_frames(3)]]
      same_alloc_split[OF p1(2)] same_alloc_split[OF same_log_metric(1)] by blast
  have r': "refs_changed p ?p' (\<lambda>i. if i = b then 1 else 0)" using r by simp
  show ?thesis using e c(1) s r' c(2) p1(3) by (intro exI[of _ ?p'] conjI allI) simp_all
qed

lemma alloc_loop_ok:
  assumes "cache_inv p" "distinct bs" "\<And>b. b \<in> set bs \<Longrightarrow> ref_cnt (blk p b) = 0"
  shows "\<exists>p'. fold_res alloc_step bs p = Inr p' \<and> cache_inv p' \<and> same_queue p p' \<and>
    refs_changed p p' (\<lambda>i. if i \<in> set bs then 1 else 0) \<and>
    (\<forall>c. keys_of p' c = (if enable_caching p \<and> c \<in> set bs then {} else keys_of p c))"
  using assms
proof (induction bs arbitrary: p)
  case Nil
  then show ?case by auto
next
  case (Cons b bs)
  obtain p1 where p1: "alloc_step b p = Inr p1" "cache_inv p1" "same_queue p p1"
    "refs_changed p p1 (\<lambda>i. if i = b then 1 else 0)"
    "\<And>c. keys_of p1 c = (if enable_caching p \<and> c = b then {} else keys_of p c)"
    using alloc_step_ok[OF Cons.prems(1), of b] Cons.prems(3) by auto
  have "ref_cnt (blk p1 c) = 0" if "c \<in> set bs" for c
    using that Cons.prems(2,3) p1(4) by (auto simp: refs_changed_def)
  then obtain p' where p': "fold_res alloc_step bs p1 = Inr p'" "cache_inv p'" "same_queue p1 p'"
    "refs_changed p1 p' (\<lambda>i. if i \<in> set bs then 1 else 0)"
    "\<And>c. keys_of p' c = (if enable_caching p1 \<and> c \<in> set bs then {} else keys_of p1 c)"
    using Cons.IH[OF p1(2)] Cons.prems(2) by auto
  have "(\<lambda>i. (if i = b then 1 else 0) + (if i \<in> set bs then 1 else 0))
      = (\<lambda>i. if i \<in> set (b # bs) then 1 else (0::int))" using Cons.prems(2) by auto
  then have r: "refs_changed p p' (\<lambda>i. if i \<in> set (b # bs) then 1 else 0)"
    using refs_changed_trans[OF p1(4) p'(4)] by simp
  have k: "keys_of p' c = (if enable_caching p \<and> c \<in> set (b # bs) then {} else keys_of p c)" for c
    using p'(5) p1(5) p1(4) by (auto simp: refs_changed_def)
  show ?case
    using p1(1) p'(1,2) same_queue_trans[OF p1(3) p'(3)] r k by (intro exI[of _ p'] conjI allI) simp_all
qed

lemma refs_ids_Blk [simp]: "refs_ids (map Blk xs) = xs"
  by (induction xs) (simp_all add: refs_ids_def)

lemma get_new_blocks_ok:
  assumes inv: "pool_inv p xs" and k: "k \<le> length xs"
  shows "\<exists>p'. get_new_blocks (int k) p = Inr (take k xs, p') \<and> pool_inv p' (drop k xs) \<and>
    refs_changed p p' (\<lambda>i. if i \<in> set (take k xs) then 1 else 0) \<and>
    (\<forall>c. keys_of p' c = (if enable_caching p \<and> c \<in> set (take k xs) then {} else keys_of p c))"
proof -
  have f: "free_inv p xs" and c: "cache_inv p" using inv by (simp_all add: pool_inv_def)
  let ?ys = "take k xs"
  obtain q where q: "popleft_n (queue p) (int k) = Inr (map Blk ?ys, q)" "queue_repr q (drop k xs)"
    using fq.pop_take[OF free_invD(1)[OF f] k] by blast
  have m: "meta_of (fq_store q) = meta_of (fq_store (queue p))" using queue_meta(2)[OF q(1)] .
  let ?p1 = "p\<lparr>queue := q\<rparr>"
  let ?p2 = "if reuse_watchers ?p1 \<noteq> [] then notify_reuse ?ys ?p1 else ?p1"
  have p2: "same_cache p ?p2" "refs_changed p ?p2 (\<lambda>_. 0)" "queue_repr (queue ?p2) (drop k xs)"
    using same_cache_trans[OF set_queue_frames(2)[OF m] notify_reuse_frames(2)[where bs = ?ys]] set_queue_frames[OF m]
      refs_changed_trans[OF set_queue_frames(1)[OF m] notify_reuse_frames(3)[where bs = ?ys]]
      same_queue_repr[OF notify_reuse_frames(1)[where bs = ?ys and p = ?p1], of "drop k xs"] q(2) by auto
  have D: "distinct ?ys" using free_invD(4)[OF f] by simp
  have z: "ref_cnt (blk ?p2 b) = 0" if "b \<in> set ?ys" for b
    using in_set_takeD[OF that] free_invD(2)[OF f, of b] p2(2) by (simp add: refs_changed_def)
  obtain p' where p': "fold_res alloc_step ?ys ?p2 = Inr p'" "cache_inv p'" "same_queue ?p2 p'"
    "refs_changed ?p2 p' (\<lambda>i. if i \<in> set ?ys then 1 else 0)"
    "\<And>c. keys_of p' c = (if enable_caching ?p2 \<and> c \<in> set ?ys then {} else keys_of ?p2 c)"
    using alloc_loop_ok[OF cache_inv_same[OF p2(1) c] D z] by blast
  have r: "refs_changed p p' (\<lambda>i. if i \<in> set ?ys then 1 else 0)"
    using refs_changed_trans[OF p2(2) p'(4)] by simp
  have run: "get_new_blocks (int k) p = Inr (?ys, p')"
    using k free_invD(5)[OF f] q(1) p'(1)
    by (cases "reuse_watchers p = []") (simp_all add: get_new_blocks_def get_num_free_blocks_def Let_def)
  have disj: "i \<notin> set (drop k xs)" if "i \<in> set ?ys" for i
    using that free_invD(4)[OF f] set_take_disj_set_drop_if_distinct[of xs k k] by auto
  have un: "set xs = set ?ys \<union> set (drop k xs)" by (metis append_take_drop_id set_append)
  have "free_inv p' (drop k xs)"
  proof (rule free_inv_step[OF f r])
    show "queue_repr (queue p') (drop k xs)" using same_queue_repr[OF p'(3)] p2(3) by blast
    fix i
    assume i: "i < num_gpu_blocks p" "\<not> is_null (blk p i)"
    show "0 \<le> ref_cnt (blk p i) + (if i \<in> set ?ys then 1 else 0) \<and>
        (i \<in> set (drop k xs) \<longleftrightarrow> ref_cnt (blk p i) + (if i \<in> set ?ys then 1 else 0) = 0)"
      using free_invD(2)[OF f, of i] free_invD(3)[OF f i] i disj un by auto
  next
    fix i assume "i \<in> set (drop k xs)"
    then show "i < num_gpu_blocks p \<and> \<not> is_null (blk p i)"
      using free_invD(2)[OF f, of i] un by auto
  qed
  moreover have "keys_of p' c = (if enable_caching p \<and> c \<in> set ?ys then {} else keys_of p c)" for c
    using p'(5) keys_same_cache[OF p2(1)] p2(2) by (simp add: refs_changed_def)
  ultimately show ?thesis using run r p'(2) by (auto simp: pool_inv_def)
qed

lemma get_new_blocks_too_many:
  "pool_inv p xs \<Longrightarrow> int (length xs) < n \<Longrightarrow> get_new_blocks n p = Inl ValueError"
  using free_invD(5)[of p xs] by (simp add: get_new_blocks_def get_num_free_blocks_def pool_inv_def)

section \<open>Touching\<close>

lemma touch_step_ok:
  assumes inv: "pool_inv p xs" and b: "b < num_gpu_blocks p"
  shows "\<exists>p'. touch_step b p = Inr p' \<and> pool_inv p' (filter (\<lambda>x. x \<noteq> b) xs) \<and> same_cache p p' \<and>
    refs_changed p p' (\<lambda>i. if i = b then 1 else 0)"
proof -
  have f: "free_inv p xs" and c: "cache_inv p" using inv by (simp_all add: pool_inv_def)
  let ?r = "if ref_cnt (blk p b) = 0 \<and> \<not> is_null (blk p b)
     then bind_res (remove_block (queue p) (Blk b)) (\<lambda>q. Inr (p\<lparr>queue := q\<rparr>)) else Inr p"
  have rem: "remove1 b xs = filter (\<lambda>x. x \<noteq> b) xs"
    using free_invD(4)[OF f] by (simp add: distinct_remove1_removeAll removeAll_filter_not_eq eq_commute)
  obtain p1 where p1: "?r = Inr p1" "same_cache p p1" "refs_changed p p1 (\<lambda>_. 0)"
    "queue_repr (queue p1) (filter (\<lambda>x. x \<noteq> b) xs)"
  proof (cases "ref_cnt (blk p b) = 0 \<and> \<not> is_null (blk p b)")
    case True
    then have "b \<in> set xs" using free_invD(2)[OF f, of b] b by simp
    then obtain q where q: "remove_block (queue p) (Blk b) = Inr q" "queue_repr q (remove1 b xs)"
      using fq.remove_member[OF free_invD(1)[OF f]] by blast
    have m: "meta_of (fq_store q) = meta_of (fq_store (queue p))" using queue_meta(3)[OF q(1)] .
    show ?thesis using that[of "p\<lparr>queue := q\<rparr>"] True q set_queue_frames[OF m] rem by simp
  next
    case False
    then have "b \<notin> set xs" using free_invD(2)[OF f, of b] by auto
    then have "filter (\<lambda>x. x \<noteq> b) xs = xs" by (intro filter_True) auto
    then show ?thesis using that[of p] False free_invD(1)[OF f] by auto
  qed
  let ?p' = "log_metric (OnBlockAccessed b) (upd_blk b (ref_cnt_update (\<lambda>n. n + 1)) p1)"
  have run: "touch_step b p = Inr ?p'" using p1(1) by (simp add: touch_step_def)
  have sc: "same_cache p ?p'"
    using same_cache_trans[OF same_cache_trans[OF p1(2) upd_ref_frames(4)] same_log_metric(2)] .
  have r: "refs_changed p ?p' (\<lambda>i. if i = b then 1 else 0)"
    using refs_changed_trans[OF refs_changed_trans[OF p1(3) upd_ref_frames(1)[of p1 b 1]]
        conjunct2[OF same_alloc_split[OF same_log_metric(1)]], of "OnBlockAccessed b"] by simp
  have "free_inv ?p' (filter (\<lambda>x. x \<noteq> b) xs)"
  proof (rule free_inv_step[OF f r])
    show "queue_repr (queue ?p') (filter (\<lambda>x. x \<noteq> b) xs)"
      using same_queue_repr[OF upd_ref_frames(3)] p1(4) by (simp add: pool_simps)
    fix i assume i: "i < num_gpu_blocks p" "\<not> is_null (blk p i)"
    show "0 \<le> ref_cnt (blk p i) + (if i = b then 1 else 0) \<and>
        (i \<in> set (filter (\<lambda>x. x \<noteq> b) xs) \<longleftrightarrow> ref_cnt (blk p i) + (if i = b then 1 else 0) = 0)"
      using free_invD(2)[OF f, of i] free_invD(3)[OF f i] i by auto
  next
    fix i assume "i \<in> set (filter (\<lambda>x. x \<noteq> b) xs)"
    then show "i < num_gpu_blocks p \<and> \<not> is_null (blk p i)" using free_invD(2)[OF f, of i] by auto
  qed
  then show ?thesis using run sc r cache_inv_same[OF sc c] by (auto simp: pool_inv_def)
qed

lemma count_list_pos: "b \<in> set bs \<Longrightarrow> 0 < count_list bs b"
  by (induction bs) auto

lemma count_list_Cons: "int (count_list (b # bs) i) = (if i = b then 1 else 0) + int (count_list bs i)"
  by simp

lemma touch_ok:
  assumes "pool_inv p xs" "\<And>b. b \<in> set bs \<Longrightarrow> b < num_gpu_blocks p"
  shows "\<exists>p'. touch bs p = Inr p' \<and> pool_inv p' (filter (\<lambda>x. x \<notin> set bs) xs) \<and> same_cache p p' \<and>
    refs_changed p p' (\<lambda>i. int (count_list bs i))"
  using assms
proof (induction bs arbitrary: p xs)
  case Nil
  then show ?case by (auto simp: touch_def)
next
  case (Cons b bs)
  obtain p1 where p1: "touch_step b p = Inr p1" "pool_inv p1 (filter (\<lambda>x. x \<noteq> b) xs)" "same_cache p p1"
    "refs_changed p p1 (\<lambda>i. if i = b then 1 else 0)"
    using touch_step_ok[OF Cons.prems(1)] Cons.prems(2) by auto
  have "c < num_gpu_blocks p1" if "c \<in> set bs" for c
    using that Cons.prems(2) p1(4) by (auto simp: refs_changed_def)
  from Cons.IH[OF p1(2) this] obtain p' where p': "touch bs p1 = Inr p'"
    "pool_inv p' (filter (\<lambda>x. x \<notin> set bs) (filter (\<lambda>x. x \<noteq> b) xs))" "same_cache p1 p'"
    "refs_changed p1 p' (\<lambda>i. int (count_list bs i))" by blast
  have "filter (\<lambda>x. x \<notin> set bs) (filter (\<lambda>x. x \<noteq> b) xs) = filter (\<lambda>x. x \<notin> set (b # bs)) xs"
    by (simp add: conj_commute)
  moreover have "refs_changed p p' (\<lambda>i. int (count_list (b # bs) i))"
    using refs_changed_trans[OF p1(4) p'(4)] by (simp only: count_list_Cons)
  ultimately show ?case using p1(1) p'(1,2) same_cache_trans[OF p1(3) p'(3)] by (auto simp: touch_def)
qed

section \<open>Freeing\<close>

text \<open>\<open>released p bs b\<close>: the references \<open>bs\<close> gives back are the last ones of \<open>b\<close>.\<close>

definition released :: "block_pool \<Rightarrow> nat list \<Rightarrow> nat \<Rightarrow> bool" where
  "released p bs b \<longleftrightarrow> \<not> is_null (blk p b) \<and> ref_cnt (blk p b) = int (count_list bs b)"

definition evict_first :: "block_pool \<Rightarrow> nat \<Rightarrow> bool" where
  "evict_first p b \<longleftrightarrow> block_hash (blk p b) = None \<or> \<not> enable_caching p"

lemma free_loop_ok:
  assumes "\<And>b. b \<in> set bs \<Longrightarrow> \<not> is_null (blk p b) \<Longrightarrow> int (count_list bs b) \<le> ref_cnt (blk p b)"
  shows "\<exists>p'. free_loop bs first lst p =
      (first @ filter (\<lambda>b. released p bs b \<and> evict_first p b) (remdups bs),
       lst @ filter (\<lambda>b. released p bs b \<and> \<not> evict_first p b) (remdups bs), p') \<and>
    same_queue p p' \<and> same_cache p p' \<and> refs_changed p p' (\<lambda>i. - int (count_list bs i))"
  using assms
proof (induction bs arbitrary: first lst p)
  case Nil
  then show ?case by auto
next
  case (Cons b bs)
  let ?p1 = "upd_blk b (ref_cnt_update (\<lambda>n. n - 1)) p"
  have b1: "ref_cnt (blk ?p1 i) = ref_cnt (blk p i) - (if i = b then 1 else 0)"
    "is_null (blk ?p1 i) = is_null (blk p i)" "block_hash (blk ?p1 i) = block_hash (blk p i)" for i
    by (simp_all add: pool_simps)
  have rel: "released ?p1 bs i \<longleftrightarrow> released p (b # bs) i" for i
    using b1 by (auto simp: released_def)
  have ev: "evict_first ?p1 i \<longleftrightarrow> evict_first p i" for i
    by (simp add: evict_first_def pool_simps)
  have pre: "int (count_list bs c) \<le> ref_cnt (blk ?p1 c)" if "c \<in> set bs" "\<not> is_null (blk ?p1 c)" for c
    using Cons.prems[of c] that b1 by (auto split: if_splits)
  let ?first = "if released p (b # bs) b \<and> evict_first p b \<and> b \<notin> set bs then first @ [b] else first"
  let ?lst = "if released p (b # bs) b \<and> \<not> evict_first p b \<and> b \<notin> set bs then lst @ [b] else lst"
  have last: "ref_cnt (blk ?p1 b) = 0 \<and> \<not> is_null (blk ?p1 b) \<longleftrightarrow> released p (b # bs) b \<and> b \<notin> set bs"
  proof (cases "b \<in> set bs")
    case True
    then have "0 < count_list bs b" by (rule count_list_pos)
    moreover have "int (count_list bs b) \<le> ref_cnt (blk ?p1 b)" if "\<not> is_null (blk ?p1 b)"
      using pre[OF True that] .
    ultimately have "ref_cnt (blk ?p1 b) \<noteq> 0 \<or> is_null (blk ?p1 b)" by linarith
    then show ?thesis using True by blast
  next
    case False
    then have "count_list bs b = 0" by simp
    then show ?thesis using False b1[of b] by (auto simp: released_def)
  qed
  have unf: "free_loop (b # bs) first lst p = free_loop bs ?first ?lst ?p1"
  proof (cases "released p (b # bs) b \<and> b \<notin> set bs")
    case True
    then show ?thesis using last ev[of b] by (simp add: Let_def evict_first_def)
  next
    case False
    then have "\<not> (ref_cnt (blk ?p1 b) = 0 \<and> \<not> is_null (blk ?p1 b))" using last by blast
    then have "free_loop (b # bs) first lst p = free_loop bs first lst ?p1"
      unfolding free_loop.simps Let_def by (rule if_not_P)
    moreover have "?first = first" "?lst = lst" using False by auto
    ultimately show ?thesis by simp
  qed
  from Cons.IH[OF pre, of ?first ?lst] obtain p' where p':
    "free_loop bs ?first ?lst ?p1 =
      (?first @ filter (\<lambda>b. released ?p1 bs b \<and> evict_first ?p1 b) (remdups bs),
       ?lst @ filter (\<lambda>b. released ?p1 bs b \<and> \<not> evict_first ?p1 b) (remdups bs), p')"
    "same_queue ?p1 p'" "same_cache ?p1 p'" "refs_changed ?p1 p' (\<lambda>i. - int (count_list bs i))" by blast
  have r: "refs_changed p p' (\<lambda>i. - int (count_list (b # bs) i))"
  proof -
    have "(\<lambda>i. (if i = b then - 1 else 0) + - int (count_list bs i)) = (\<lambda>i. - int (count_list (b # bs) i))"
      by (simp add: fun_eq_iff)
    then show ?thesis using refs_changed_trans[OF upd_ref_frames(2)[of p b 1] p'(4)] by simp
  qed
  have "?first @ filter (\<lambda>b. released ?p1 bs b \<and> evict_first ?p1 b) (remdups bs)
      = first @ filter (\<lambda>c. released p (b # bs) c \<and> evict_first p c) (remdups (b # bs))"
    "?lst @ filter (\<lambda>b. released ?p1 bs b \<and> \<not> evict_first ?p1 b) (remdups bs)
      = lst @ filter (\<lambda>c. released p (b # bs) c \<and> \<not> evict_first p c) (remdups (b # bs))"
    by (simp_all add: rel ev)
  then show ?case
    unfolding unf p'(1)
    using same_queue_trans[OF upd_ref_frames(3) p'(2)] same_cache_trans[OF upd_ref_frames(4) p'(3)] r
    by (intro exI[of _ p'] conjI) simp_all
qed

lemma free_own_blocks_ok:
  assumes inv: "pool_inv p xs" and lt: "\<And>b. b \<in> set bs \<Longrightarrow> b < num_gpu_blocks p"
    and cnt: "\<And>b. b \<in> set bs \<Longrightarrow> \<not> is_null (blk p b) \<Longrightarrow> int (count_list bs b) \<le> ref_cnt (blk p b)"
  defines "F \<equiv> filter (\<lambda>b. released p bs b \<and> evict_first p b) (remdups bs)"
    and "L \<equiv> filter (\<lambda>b. released p bs b \<and> \<not> evict_first p b) (remdups bs)"
  shows "\<exists>p'. free_own_blocks bs p = Inr p' \<and> pool_inv p' (F @ xs @ L) \<and> same_cache p p' \<and>
    refs_changed p p' (\<lambda>i. - int (count_list bs i))"
proof -
  have f: "free_inv p xs" and c: "cache_inv p" using inv by (simp_all add: pool_inv_def)
  obtain p1 where p1: "free_loop bs [] [] p = (F, L, p1)" "same_queue p p1" "same_cache p p1"
    "refs_changed p p1 (\<lambda>i. - int (count_list bs i))"
    using free_loop_ok[OF cnt, of "[]" "[]"] by (auto simp: F_def L_def)
  have pos: "0 < ref_cnt (blk p b)" if "released p bs b" "b \<in> set bs" for b
    using that count_list_pos[OF that(2)] by (simp add: released_def)
  have nx: "b \<notin> set xs" if "b \<in> set F \<union> set L" for b
    using that pos free_invD(2)[OF f, of b] by (force simp: F_def L_def)
  have D: "distinct F" "distinct L" "set F \<inter> set L = {}" by (auto simp: F_def L_def)
  have q0: "queue_repr (queue p1) xs" using same_queue_repr[OF p1(2)] free_invD(1)[OF f] by blast
  obtain q1 where q1: "prepend_n (queue p1) (map Blk F) = Inr q1" "queue_repr q1 (F @ xs)"
    using fq.prepend_law[OF q0 D(1)] nx by blast
  have "set L \<inter> set (F @ xs) = {}" using D(3) nx by auto
  from fq.append_law[OF q1(2) D(2) this] obtain q2 where q2: "append_n q1 (map Blk L) = Inr q2"
    "queue_repr q2 ((F @ xs) @ L)" by blast
  have m: "meta_of (fq_store q2) = meta_of (fq_store (queue p1))"
    using queue_meta(4)[OF q2(1)] queue_meta(5)[OF q1(1)] by simp
  let ?p' = "p1\<lparr>queue := q2\<rparr>"
  have run: "free_own_blocks bs p = Inr ?p'" using p1(1) q1(1) q2(1) by (simp add: free_own_blocks_def)
  have sc: "same_cache p ?p'" using same_cache_trans[OF p1(3) set_queue_frames(2)[OF m]] .
  have r: "refs_changed p ?p' (\<lambda>i. - int (count_list bs i))"
    using refs_changed_trans[OF p1(4) set_queue_frames(1)[OF m]] by simp
  have mem: "i \<in> set (F @ xs @ L) \<longleftrightarrow> i \<in> set xs \<or> i \<in> set bs \<and> released p bs i" for i
    by (auto simp: F_def L_def)
  have "free_inv ?p' (F @ xs @ L)"
  proof (rule free_inv_step[OF f r])
    show "queue_repr (queue ?p') (F @ xs @ L)" using q2(2) by simp
    fix i assume i: "i < num_gpu_blocks p" "\<not> is_null (blk p i)"
    show "0 \<le> ref_cnt (blk p i) + - int (count_list bs i) \<and>
        (i \<in> set (F @ xs @ L) \<longleftrightarrow> ref_cnt (blk p i) + - int (count_list bs i) = 0)"
    proof (cases "i \<in> set bs")
      case True
      then have "0 < count_list bs i" by (rule count_list_pos)
      then show ?thesis
        using cnt[OF True i(2)] i free_invD(2)[OF f, of i] True unfolding mem released_def by auto
    next
      case False
      then have "count_list bs i = 0" by simp
      then show ?thesis
        using False i free_invD(2)[OF f, of i] free_invD(3)[OF f i] unfolding mem by simp
    qed
  next
    fix i assume "i \<in> set (F @ xs @ L)"
    then show "i < num_gpu_blocks p \<and> \<not> is_null (blk p i)"
      using free_invD(2)[OF f, of i] lt[of i] unfolding mem released_def by auto
  qed
  then show ?thesis using run sc r cache_inv_same[OF sc c] by (auto simp: pool_inv_def)
qed

section \<open>Unpinning\<close>

lemma unpin_loop_ok:
  assumes "\<And>b. b \<in> set bs \<Longrightarrow> \<not> is_null (blk p b) \<and> int (count_list bs b) \<le> ref_cnt (blk p b)"
  shows "\<exists>p'. unpin_loop w bs rel p = Inr (rel @ filter (released p bs) (remdups bs), p') \<and>
    same_queue p p' \<and> same_cache p p' \<and> refs_changed p p' (\<lambda>i. - int (count_list bs i))"
  using assms
proof (induction bs arbitrary: rel p)
  case Nil
  then show ?case by auto
next
  case (Cons b bs)
  let ?p1 = "upd_blk b (ref_cnt_update (\<lambda>n. n - 1)) p"
  let ?p2 = "?p1\<lparr>reuse_watchers := set_watcher b w (reuse_watchers ?p1)\<rparr>"
  have b2: "ref_cnt (blk ?p2 i) = ref_cnt (blk p i) - (if i = b then 1 else 0)"
    "is_null (blk ?p2 i) = is_null (blk p i)" for i
    by (simp_all add: pool_simps)
  have rel: "released ?p2 bs i \<longleftrightarrow> released p (b # bs) i" for i
    using b2 by (auto simp: released_def)
  have pre: "\<not> is_null (blk ?p2 c) \<and> int (count_list bs c) \<le> ref_cnt (blk ?p2 c)" if "c \<in> set bs" for c
    using Cons.prems[of c] that b2[of c] by (auto split: if_splits)
  have guard: "0 < ref_cnt (blk p b)" "\<not> is_null (blk p b)" using Cons.prems[of b] by auto
  have last: "ref_cnt (blk ?p2 b) = 0 \<longleftrightarrow> released p (b # bs) b \<and> b \<notin> set bs"
  proof (cases "b \<in> set bs")
    case True
    then show ?thesis using pre[OF True] count_list_pos[OF True] by auto
  next
    case False
    then have "count_list bs b = 0" by simp
    then show ?thesis using False b2[of b] guard(2) by (auto simp: released_def)
  qed
  let ?rel = "if ref_cnt (blk ?p2 b) = 0 then rel @ [b] else rel"
  have unf: "unpin_loop w (b # bs) rel p = unpin_loop w bs ?rel ?p2"
    using guard by (simp add: Let_def)
  from Cons.IH[OF pre, of ?rel] obtain p' where p':
    "unpin_loop w bs ?rel ?p2 = Inr (?rel @ filter (released ?p2 bs) (remdups bs), p')"
    "same_queue ?p2 p'" "same_cache ?p2 p'" "refs_changed ?p2 p' (\<lambda>i. - int (count_list bs i))" by blast
  have fr: "same_queue ?p1 ?p2" "same_cache ?p1 ?p2" "refs_changed ?p1 ?p2 (\<lambda>_. 0)"
    by (simp_all add: same_queue_def same_cache_def refs_changed_def same_links_def pool_simps)
  have r: "refs_changed p p' (\<lambda>i. - int (count_list (b # bs) i))"
  proof -
    have "(\<lambda>i. (if i = b then - 1 else 0) + 0 + - int (count_list bs i)) = (\<lambda>i. - int (count_list (b # bs) i))"
      by (simp add: fun_eq_iff)
    then show ?thesis
      using refs_changed_trans[OF refs_changed_trans[OF upd_ref_frames(2)[of p b 1] fr(3)] p'(4)] by simp
  qed
  have "?rel @ filter (released ?p2 bs) (remdups bs) = rel @ filter (released p (b # bs)) (remdups (b # bs))"
  proof -
    have "released ?p2 bs = released p (b # bs)" using rel by (rule ext)
    then show ?thesis unfolding last by (simp only: remdups.simps) (simp split: if_split)
  qed
  then show ?case
    unfolding unf p'(1)
    using same_queue_trans[OF same_queue_trans[OF upd_ref_frames(3) fr(1)] p'(2)]
      same_cache_trans[OF same_cache_trans[OF upd_ref_frames(4) fr(2)] p'(3)] r
    by (intro exI[of _ p'] conjI) simp_all
qed

lemma unpin_blocks_ok:
  assumes inv: "pool_inv p xs"
    and pre: "\<And>b. b \<in> set bs \<Longrightarrow> b < num_gpu_blocks p \<and> \<not> is_null (blk p b) \<and>
      int (count_list bs b) \<le> ref_cnt (blk p b)"
  shows "\<exists>p'. unpin_blocks bs w p = Inr p' \<and> pool_inv p' (xs @ filter (released p bs) (remdups bs)) \<and>
    same_cache p p' \<and> refs_changed p p' (\<lambda>i. - int (count_list bs i))"
proof -
  have f: "free_inv p xs" and c: "cache_inv p" using inv by (simp_all add: pool_inv_def)
  let ?R = "filter (released p bs) (remdups bs)"
  obtain p1 where p1: "unpin_loop w bs [] p = Inr (?R, p1)" "same_queue p p1" "same_cache p p1"
    "refs_changed p p1 (\<lambda>i. - int (count_list bs i))"
    using unpin_loop_ok[of bs p w "[]"] pre by auto
  have "b \<notin> set xs" if "b \<in> set ?R" for b
    using that pre[of b] count_list_pos[of b bs] free_invD(2)[OF f, of b] by auto
  then have disj: "set ?R \<inter> set xs = {}" by blast
  have q0: "queue_repr (queue p1) xs" using same_queue_repr[OF p1(2)] free_invD(1)[OF f] by blast
  have "distinct ?R" by simp
  from fq.append_law[OF q0 this disj] obtain q where
    q: "append_n (queue p1) (map Blk ?R) = Inr q" "queue_repr q (xs @ ?R)" by blast
  have m: "meta_of (fq_store q) = meta_of (fq_store (queue p1))" using queue_meta(4)[OF q(1)] .
  let ?p' = "p1\<lparr>queue := q\<rparr>"
  have run: "unpin_blocks bs w p = Inr ?p'" using p1(1) q(1) by (simp add: unpin_blocks_def)
  have sc: "same_cache p ?p'" using same_cache_trans[OF p1(3) set_queue_frames(2)[OF m]] .
  have r: "refs_changed p ?p' (\<lambda>i. - int (count_list bs i))"
    using refs_changed_trans[OF p1(4) set_queue_frames(1)[OF m]] by simp
  have "free_inv ?p' (xs @ ?R)"
  proof (rule free_inv_step[OF f r])
    show "queue_repr (queue ?p') (xs @ ?R)" using q(2) by simp
    fix i assume i: "i < num_gpu_blocks p" "\<not> is_null (blk p i)"
    show "0 \<le> ref_cnt (blk p i) + - int (count_list bs i) \<and>
        (i \<in> set (xs @ ?R) \<longleftrightarrow> ref_cnt (blk p i) + - int (count_list bs i) = 0)"
    proof (cases "i \<in> set bs")
      case True
      then show ?thesis
        using pre[OF True] count_list_pos[OF True] i free_invD(2)[OF f, of i] by (auto simp: released_def)
    next
      case False
      then have "count_list bs i = 0" by simp
      then show ?thesis
        using False i free_invD(2)[OF f, of i] free_invD(3)[OF f i] by simp
    qed
  next
    fix i assume "i \<in> set (xs @ ?R)"
    then show "i < num_gpu_blocks p \<and> \<not> is_null (blk p i)"
      using free_invD(2)[OF f, of i] pre[of i] by auto
  qed
  then show ?thesis using run sc r cache_inv_same[OF sc c] by (auto simp: pool_inv_def)
qed

section \<open>Evicting by id\<close>

lemma evict_blocks_ok:
  assumes "pool_inv p xs" "\<And>b. b \<in> set ids \<Longrightarrow> b < num_gpu_blocks p"
  shows "\<exists>p'. evict_blocks ids p = Inr p' \<and> pool_inv p' xs \<and> same_alloc p p' \<and>
    (\<forall>c. keys_of p' c = (if c \<in> set ids then {} else keys_of p c))"
  using assms
proof (induction ids arbitrary: p)
  case Nil
  then show ?case by (auto simp: evict_blocks_def)
next
  case (Cons b ids)
  have c: "cache_inv p" using Cons.prems(1) by (simp add: pool_inv_def)
  obtain q where q: "maybe_evict_cached_block b p = (block_hash (blk p b) \<noteq> None, q)" "cache_inv q"
    "same_alloc p q" "\<And>c. keys_of q c = (if c = b then {} else keys_of p c)"
    using maybe_evict_ok[OF c, of b] by metis
  have "c < num_gpu_blocks q" if "c \<in> set ids" for c
    using that Cons.prems(2) q(3) by (simp add: same_alloc_def)
  from Cons.IH[OF pool_inv_same_alloc[OF q(3,2) Cons.prems(1)] this] obtain p' where
    "evict_blocks ids q = Inr p'" "pool_inv p' xs" "same_alloc q p'"
    "\<forall>c. keys_of p' c = (if c \<in> set ids then {} else keys_of q c)" by blast
  then show ?case using q same_alloc_trans[OF q(3)] Cons.prems(2)
    by (intro exI[of _ p']) (simp add: evict_blocks_def)
qed

section \<open>Reset\<close>

lemma reset_fold:
  "same_alloc p (fold (\<lambda>b. upd_blk b reset_hash) bs p) \<and>
   cached_map (fold (\<lambda>b. upd_blk b reset_hash) bs p) = cached_map p \<and>
   hashes_by_block (fold (\<lambda>b. upd_blk b reset_hash) bs p) = hashes_by_block p \<and>
   set_order (fold (\<lambda>b. upd_blk b reset_hash) bs p) = set_order p \<and>
   (\<forall>i. block_hash (blk (fold (\<lambda>b. upd_blk b reset_hash) bs p) i) =
      (if i \<in> set bs then None else block_hash (blk p i)) \<and>
     block_hash_num_tokens (blk (fold (\<lambda>b. upd_blk b reset_hash) bs p) i) =
      (if i \<in> set bs then None else block_hash_num_tokens (blk p i)))"
proof (induction bs arbitrary: p)
  case (Cons b bs)
  let ?q = "upd_blk b reset_hash p"
  have 1: "same_alloc p ?q" by (rule upd_blk_same_alloc) (simp_all add: reset_hash_def)
  have 2: "block_hash (blk ?q i) = (if i = b then None else block_hash (blk p i))"
    "block_hash_num_tokens (blk ?q i) = (if i = b then None else block_hash_num_tokens (blk p i))" for i
    by (simp_all add: pool_simps reset_hash_def)
  show ?case
    using Cons.IH[of ?q] same_alloc_trans[OF 1] by (simp add: 2 upd_blk_fields)
qed simp

lemma reset_prefix_cache_ok:
  assumes inv: "pool_inv p xs"
  shows "(case reset_prefix_cache p of (ok, p') \<Rightarrow>
    pool_inv p' xs \<and> refs_changed p p' (\<lambda>_. 0) \<and> (ok \<longleftrightarrow> length xs + 1 = num_gpu_blocks p) \<and>
    (if ok then \<forall>b. keys_of p' b = {} else p' = p))"
proof (cases "length xs + 1 = num_gpu_blocks p")
  case False
  then have "int (num_gpu_blocks p) - get_num_free_blocks p \<noteq> 1"
    using inv free_invD(5)[of p xs] by (simp add: get_num_free_blocks_def pool_inv_def)
  then show ?thesis using inv False by (simp add: reset_prefix_cache_def)
next
  case True
  then have one: "int (num_gpu_blocks p) - get_num_free_blocks p = 1"
    using inv free_invD(5)[of p xs] by (simp add: get_num_free_blocks_def pool_inv_def)
  have f: "free_inv p xs" and c: "cache_inv p" using inv by (simp_all add: pool_inv_def)
  let ?p1 = "p\<lparr>cached_map := map_empty, hashes_by_block := (\<lambda>_. None)\<rparr>"
  define p2 where "p2 = (if reuse_watchers ?p1 \<noteq> []
    then notify_reuse (map fst (reuse_watchers ?p1)) ?p1 else ?p1)"
  define p3 where "p3 = fold (\<lambda>b. upd_blk b reset_hash) [0..<num_gpu_blocks p2] p2"
  define p4 where "p4 = log_metric MetricsReset p3"
  define p' where "p' = (if enable_kv_cache_events p4 then push_event AllBlocksCleared p4 else p4)"
  have run: "reset_prefix_cache p = (True, p')"
    using one by (simp add: reset_prefix_cache_def p2_def p3_def p4_def p'_def Let_def)
  have p2: "same_queue ?p1 p2" "same_cache ?p1 p2" "refs_changed ?p1 p2 (\<lambda>_. 0)"
    using notify_reuse_frames by (auto simp: p2_def)
  have p1: "same_queue p ?p1" "refs_changed p ?p1 (\<lambda>_. 0)"
    by (simp_all add: same_queue_def same_links_def refs_changed_def pool_simps)
  have p3: "same_alloc p2 p3" "cached_map p3 = map_empty" "hashes_by_block p3 = (\<lambda>_. None)"
    "set_order p3 = set_order p" "num_gpu_blocks p3 = num_gpu_blocks p"
    using reset_fold[where bs = "[0..<num_gpu_blocks p2]" and p = p2] p2(2) by (auto simp: p3_def same_cache_def same_alloc_def)
  have no: "block_hash (blk p3 i) = None \<and> block_hash_num_tokens (blk p3 i) = None" for i
  proof (cases "i < num_gpu_blocks p")
    case True
    then have "i \<in> set [0..<num_gpu_blocks p2]" using p2(2) by (simp add: same_cache_def)
    then show ?thesis using reset_fold[where bs = "[0..<num_gpu_blocks p2]" and p = p2] unfolding p3_def by presburger
  next
    case False
    then have "block_hash (blk p i) = None \<and> block_hash_num_tokens (blk p i) = None"
      using cache_invD(3)[OF c, of i] by (auto simp: block_ok_def split: option.splits)
    then show ?thesis using reset_fold[where bs = "[0..<num_gpu_blocks p2]" and p = p2] p2(2)
      unfolding p3_def by (simp add: same_cache_def pool_simps)
  qed
  have keys: "keys_of p3 b = {}" for b using no p3(3) by (simp add: keys_of_def)
  have c3: "cache_inv p3"
    using c no p3 keys bm.wf_empty by (simp add: cache_inv_def block_ok_def set_order_ok_def)
  have e: "same_alloc p3 p'" "same_cache p3 p'"
    using same_alloc_trans[OF same_log_metric(1) same_push_event(1)]
      same_cache_trans[OF same_log_metric(2) same_push_event(2)] by (auto simp: p'_def p4_def)
  have sq: "same_queue p p'" and r: "refs_changed p p' (\<lambda>_. 0)"
    using same_queue_trans[OF same_queue_trans[OF same_queue_trans[OF p1(1) p2(1)]]]
      refs_changed_trans[OF refs_changed_trans[OF refs_changed_trans[OF p1(2) p2(3)]]]
      same_alloc_split[OF p3(1)] same_alloc_split[OF e(1)] by fastforce+
  have "free_inv p' xs"
    using free_invD(1)[OF f] same_queue_repr[OF sq]
    by (intro free_inv_step[OF f r]) (auto simp: free_invD(2)[OF f] free_invD(3)[OF f])
  then show ?thesis
    using run True cache_inv_same[OF e(2) c3] keys_same_cache[OF e(2)] keys r by (simp add: pool_inv_def)
qed

section \<open>Construction\<close>

lemma new_block_pool_ok:
  assumes n: "0 < n" and so: "\<And>hs. distinct hs \<Longrightarrow> distinct (so hs) \<and> set (so hs) = set hs"
  shows "\<exists>p. new_block_pool n caching hbs events mets med so ei = Inr p \<and> pool_inv p [1..<nat n] \<and>
    null_block p = 0 \<and> num_gpu_blocks p = nat n \<and> hash_block_size p = hbs \<and> enable_caching p = caching \<and>
    enable_kv_cache_events p = events \<and> env_int p = ei \<and>
    (\<forall>b. keys_of p b = {}) \<and> (\<forall>b. ref_cnt (blk p b) = 0)"
proof -
  let ?q = "init_queue (map Blk [0..<nat n]) (fresh_store (nat n))"
  have "[0..<nat n] = 0 # [1..<nat n]" using n by (simp add: upt_conv_Cons)
  then have "queue_repr ?q (0 # [1..<nat n])" using init_queue_repr[of "nat n"] by simp
  then obtain q where q: "popleft ?q = Inr (Blk 0, q)" "queue_repr q [1..<nat n]"
    by (rule popleft_repr)
  have m: "meta_of (fq_store q) (Blk i) = meta_of (fresh_store (nat n)) (Blk i)" for i
    using queue_meta(1)[OF q(1)] init_queue_meta[of "map Blk [0..<nat n]" "fresh_store (nat n)" i] by simp
  have st: "ref_cnt (fq_store q (Blk i)) = 0" "block_hash (fq_store q (Blk i)) = None"
    "block_hash_num_tokens (fq_store q (Blk i)) = None" "\<not> is_null (fq_store q (Blk i))" for i
    using arg_cong[OF m[of i], of ref_cnt] arg_cong[OF m[of i], of block_hash]
      arg_cong[OF m[of i], of block_hash_num_tokens] arg_cong[OF m[of i], of is_null]
    by (simp_all add: meta_of_def fresh_store_def new_block_def)
  define p0 :: block_pool where "p0 = \<lparr>num_gpu_blocks = nat n, medium = med, enable_caching = caching,
      hash_block_size = hbs, queue = q, cached_map = map_empty, hashes_by_block = (\<lambda>_. None),
      null_block = 0, enable_kv_cache_events = events, kv_event_queue = [], metrics = mets,
      reuse_watchers = [], reuse_log = [], set_order = so, env_int = ei\<rparr>"
  define p where "p = upd_blk 0 (is_null_update (\<lambda>_. True)) p0"
  have run: "new_block_pool n caching hbs events mets med so ei = Inr p"
    using n q(1) by (simp add: new_block_pool_def p_def p0_def)
  have b: "ref_cnt (blk p i) = 0" "block_hash (blk p i) = None"
    "block_hash_num_tokens (blk p i) = None" "is_null (blk p i) \<longleftrightarrow> i = 0" for i
    using st by (simp_all add: p_def pool_simps) (simp_all add: blk_def p0_def st)
  have keys: "keys_of p i = {}" for i using b by (simp add: keys_of_def p_def p0_def pool_simps)
  have "same_queue p0 p" by (simp add: same_queue_def same_links_def p_def upd_blk_def upd_block_def)
  then have q': "queue_repr (queue p) [1..<nat n]" using same_queue_repr[of p0 p] q(2) by (simp add: p0_def)
  have fields: "num_gpu_blocks p = nat n" "null_block p = 0" "hash_block_size p = hbs"
    "enable_caching p = caching" "enable_kv_cache_events p = events" "env_int p = ei"
    "cached_map p = map_empty" "hashes_by_block p = (\<lambda>_. None)" "set_order p = so"
    by (simp_all add: p_def p0_def pool_simps)
  have "cache_inv p" using b(2,3) keys bm.wf_empty so
    by (simp add: cache_inv_def block_ok_def set_order_ok_def fields)
  moreover have "free_inv p [1..<nat n]"
    using q' b(1,4) n by (auto simp: free_inv_def fields)
  ultimately show ?thesis using run keys b(1)
    by (intro exI[of _ p] conjI allI) (simp_all add: pool_inv_def fields)
qed

end
