(* ===== verification/KvManager.thy ===== *)
theory KvManager imports PoolFree "HOL-Library.AList"
begin

text \<open>
  The managers of \<^verbatim>\<open>vllm/v1/core/single_type_kv_cache_manager.py\<close>: one per KV cache
  group, each holding the block table of every request of that group and sharing one block pool.
  The class hierarchy is the field \<open>mgr_kind\<close>, on which the overridden methods branch; the
  managers of full attention (with its R-SWA variant), sliding windows, chunked local attention,
  circular buffers and cross attention are modelled.

  \<open>req_to_blocks\<close> is a \<open>defaultdict\<close>: reading it under a new key creates an empty entry, which
  \<open>access\<close> does; the order of its entries is the insertion order. \<open>mgr_block_size\<close> is the effective
  block size, the one of the spec times the decode-context-parallel world size; it and the
  attention chunk size are positive, as the specs have it. Arguments that these managers ignore (the
  token count of the main model, the end of the prefill) are left out.
\<close>

section \<open>State\<close>

datatype mgr_kind = FullAttention | RSWA int | SlidingWindow int int | ChunkedLocal int
  | CircularBuffer | CrossAttention

record kv_manager =
  mgr_kind :: mgr_kind
  mgr_block_size :: int
  mgr_enable_caching :: bool
  kv_group_id :: int
  prefix_cacheable :: bool
  mgr_use_eagle :: bool
  max_admission_blocks_per_request :: "int option"
  cache_hit_alignment_tokens :: int
  record_new_block_ids :: bool
  new_block_ids :: "nat list"
  req_to_blocks :: "(string \<times> nat list) list"
  num_cached_block :: "string \<Rightarrow> int option"
  partial_hit_reqs :: "string \<Rightarrow> (int \<times> nat) option"
  pending_cow_copies :: "(nat \<times> nat) list"

definition blocks_of :: "kv_manager \<Rightarrow> string \<Rightarrow> nat list" where
  "blocks_of m rid = (case map_of (req_to_blocks m) rid of None \<Rightarrow> [] | Some bs \<Rightarrow> bs)"

definition put_blocks :: "string \<Rightarrow> nat list \<Rightarrow> kv_manager \<Rightarrow> kv_manager" where
  "put_blocks rid bs m = m\<lparr>req_to_blocks := AList.update rid bs (req_to_blocks m)\<rparr>"

definition access :: "string \<Rightarrow> kv_manager \<Rightarrow> kv_manager" where
  "access rid m = put_blocks rid (blocks_of m rid) m"

section \<open>How many blocks a request needs\<close>

definition get_num_skipped_tokens :: "kv_manager \<Rightarrow> int \<Rightarrow> int" where
  "get_num_skipped_tokens m ncomputed =
     (case mgr_kind m of
        SlidingWindow w extra \<Rightarrow> max 0 (ncomputed - w + 1 - extra)
      | ChunkedLocal c \<Rightarrow> ncomputed div c * c
      | _ \<Rightarrow> 0)"

definition get_num_evictable_blocks :: "block_pool \<Rightarrow> nat list \<Rightarrow> int" where
  "get_num_evictable_blocks p bs =
     int (length (filter (\<lambda>b. ref_cnt (blk p b) = 0 \<and> \<not> is_null (blk p b)) bs))"

definition has_partial_local_hit :: "kv_manager \<Rightarrow> nat list \<Rightarrow> int \<Rightarrow> bool" where
  "has_partial_local_hit m new nlocal \<longleftrightarrow> 0 < length new \<and> nlocal mod mgr_block_size m \<noteq> 0"

definition required_blocks :: "kv_manager \<Rightarrow> int \<Rightarrow> bool \<Rightarrow> int" where
  "required_blocks m ntok cap =
     (let n = cdiv ntok (mgr_block_size m) in
      case max_admission_blocks_per_request m of
        Some c \<Rightarrow> if cap then min n c else n
      | None \<Rightarrow> n)"

definition mgr_num_blocks_to_allocate ::
    "string \<Rightarrow> int \<Rightarrow> nat list \<Rightarrow> int \<Rightarrow> int \<Rightarrow> bool \<Rightarrow> kv_manager \<Rightarrow> block_pool \<Rightarrow> int res" where
  "mgr_num_blocks_to_allocate rid ntok new ntotal nlocal cap m p =
     (if mgr_kind m = CircularBuffer then Inr (if blocks_of m rid \<noteq> [] then 0 else 1)
      else
        let required = required_blocks m ntok cap;
            nreq = int (length (blocks_of m rid))
        in if num_cached_block m rid \<noteq> None
           then bind_res (assert_res (length new = 0) AssertionError)
                  (\<lambda>_. Inr (max (required - nreq) 0))
           else
             let nskip = get_num_skipped_tokens m ntotal div mgr_block_size m;
                 nlocal_blocks = int (length new) + nreq;
                 nnew = max (required - max nskip nlocal_blocks) 0;
                 nskip_new = max 0 (nskip - nreq);
                 nevict = get_num_evictable_blocks p (drop (nat nskip_new) new);
                 nnew = (if has_partial_local_hit m new nlocal then nnew + 1 else nnew)
             in Inr (nnew + nevict))"

section \<open>Adopting computed blocks\<close>

definition add_local_computed_blocks ::
    "string \<Rightarrow> int \<Rightarrow> int \<Rightarrow> nat list \<Rightarrow> kv_manager \<Rightarrow> block_pool \<Rightarrow> (kv_manager \<times> block_pool) res" where
  "add_local_computed_blocks rid nlocal next new m p =
     (if mgr_kind m = CircularBuffer then Inr (m, p)
      else if mgr_kind m = CrossAttention
      then bind_res (assert_res (length new = 0) AssertionError) (\<lambda>_. Inr (m, p))
      else bind_res (assert_res (length (blocks_of m rid) = 0) AssertionError) (\<lambda>_.
        let nskip = get_num_skipped_tokens m (nlocal + next) div mgr_block_size m;
            new = (if 0 < nskip then drop (nat nskip) new else new)
        in bind_res (if mgr_enable_caching m then touch new p
                     else bind_res (assert_res (new = []) AssertionError) (\<lambda>_. Inr p)) (\<lambda>p.
          let bs = replicate (nat nskip) (null_block p) @ new;
              m = (put_blocks rid bs m)\<lparr>num_cached_block := (num_cached_block m)(rid \<mapsto> int (length bs))\<rparr>;
              i = nlocal div mgr_block_size m
          in Inr (if has_partial_local_hit m new nlocal
                  then m\<lparr>partial_hit_reqs := (partial_hit_reqs m)(rid \<mapsto> (i, last new)),
                         num_cached_block := (num_cached_block m)(rid \<mapsto> i)\<rparr>
                  else m, p))))"

section \<open>Allocating blocks\<close>

text \<open>\<open>get_new_blocks\<close>, extending the request's table and recording the ids to zero.\<close>

definition grow_blocks ::
    "string \<Rightarrow> int \<Rightarrow> kv_manager \<Rightarrow> block_pool \<Rightarrow> (nat list \<times> kv_manager \<times> block_pool) res" where
  "grow_blocks rid n m p =
     bind_res (get_new_blocks n p) (\<lambda>(bs, p).
       let m = put_blocks rid (blocks_of m rid @ bs) m;
           m = (if record_new_block_ids m then m\<lparr>new_block_ids := new_block_ids m @ bs\<rparr> else m)
       in Inr (bs, m, p))"

definition claim_ring_block ::
    "string \<Rightarrow> kv_manager \<Rightarrow> block_pool \<Rightarrow> (nat list \<times> kv_manager \<times> block_pool) res" where
  "claim_ring_block rid m p =
     (let m = access rid m in
      if blocks_of m rid \<noteq> [] then Inr ([], m, p) else grow_blocks rid 1 m p)"

definition allocate_external_computed_blocks ::
    "string \<Rightarrow> int \<Rightarrow> int \<Rightarrow> kv_manager \<Rightarrow> block_pool \<Rightarrow> (kv_manager \<times> block_pool) res" where
  "allocate_external_computed_blocks rid nlocal next m p =
     (if mgr_kind m = CircularBuffer
      then bind_res (claim_ring_block rid m p) (\<lambda>(_, m, p). Inr (m, p))
      else if mgr_kind m = CrossAttention then Inr (m, p)
      else
        let ntotal = nlocal + next;
            skipped = get_num_skipped_tokens m ntotal;
            next = (if 0 < skipped then min (ntotal - skipped) next else next)
        in if next \<le> 0 then Inr (m, p)
           else
             let m = access rid m;
                 n = max 0 (cdiv ntotal (mgr_block_size m) - int (length (blocks_of m rid)))
             in bind_res (grow_blocks rid n m p) (\<lambda>(_, m, p). Inr (m, p)))"

definition apply_cow ::
    "string \<Rightarrow> int \<Rightarrow> nat \<Rightarrow> nat \<Rightarrow> kv_manager \<Rightarrow> block_pool \<Rightarrow> (kv_manager \<times> block_pool) res" where
  "apply_cow rid i src cow m p =
     (let m = access rid m; bs = blocks_of m rid in
      bind_res (assert_res (i < int (length bs)) AssertionError) (\<lambda>_.
      bind_res (py_get bs i) (\<lambda>b.
      bind_res (assert_res (b = src) AssertionError) (\<lambda>_.
      bind_res (assert_res (\<not> is_null (blk p src) \<and> 0 < ref_cnt (blk p src)) AssertionError) (\<lambda>_.
        Inr ((put_blocks rid (bs[nat (py_index (int (length bs)) i) := cow]) m)
               \<lparr>pending_cow_copies := pending_cow_copies m @ [(src, cow)]\<rparr>,
             upd_blk cow (ref_cnt_update (\<lambda>n. n + 1)) p))))))"

definition redirect_partial_hit ::
    "string \<Rightarrow> kv_manager \<Rightarrow> block_pool \<Rightarrow> (nat list \<times> kv_manager \<times> block_pool) res" where
  "redirect_partial_hit rid m p =
     (case partial_hit_reqs m rid of
        None \<Rightarrow> Inr ([], m, p)
      | Some (i, src) \<Rightarrow>
          let m = m\<lparr>partial_hit_reqs := (partial_hit_reqs m)(rid := None)\<rparr> in
          bind_res (get_new_blocks 1 p) (\<lambda>(bs, p).
          bind_res (py_get bs 0) (\<lambda>cow.
          bind_res (apply_cow rid i src cow m p) (\<lambda>(m, p).
            Inr ([cow], m\<lparr>new_block_ids := new_block_ids m @ [cow]\<rparr>, p)))))"

definition mgr_allocate_new_blocks ::
    "string \<Rightarrow> int \<Rightarrow> kv_manager \<Rightarrow> block_pool \<Rightarrow> (nat list \<times> kv_manager \<times> block_pool) res" where
  "mgr_allocate_new_blocks rid ntok m p =
     (if mgr_kind m = CircularBuffer then claim_ring_block rid m p
      else bind_res (redirect_partial_hit rid m p) (\<lambda>(cow, m, p).
        let m = access rid m;
            n = cdiv ntok (mgr_block_size m) - int (length (blocks_of m rid))
        in if n \<le> 0 then Inr (cow, m, p)
           else bind_res (grow_blocks rid n m p) (\<lambda>(bs, m, p). Inr (cow @ bs, m, p))))"

section \<open>Caching\<close>

definition contiguous_blocks_for_hit :: "int \<Rightarrow> int \<Rightarrow> bool \<Rightarrow> int" where
  "contiguous_blocks_for_hit window bs eagle = cdiv (window - 1) bs + (if eagle then 1 else 0)"

text \<open>The mask over the blocks \<open>start, ..., stop - 1\<close>; \<open>None\<close> caches every block.\<close>

definition swa_block_mask ::
    "nat \<Rightarrow> nat \<Rightarrow> int option \<Rightarrow> int \<Rightarrow> int \<Rightarrow> bool \<Rightarrow> int option \<Rightarrow> int list \<Rightarrow> int option \<Rightarrow> bool list option" where
  "swa_block_mask start stop align window bs eagle retention boundaries final =
     (case align of None \<Rightarrow> None | Some al \<Rightarrow>
        if al mod bs \<noteq> 0 then None
        else
          let need = contiguous_blocks_for_hit window bs eagle;
              shift = (if eagle then 1 else 0);
              segment = (case retention of None \<Rightarrow> Some al
                         | Some r \<Rightarrow> if r = 0 then None else Some r);
              in_segment = (\<lambda>i. case segment of None \<Rightarrow> False | Some t \<Rightarrow>
                 let per = t div bs in
                 shift \<le> i \<and> per - need \<le> (i - shift) mod per \<or>
                 (case final of None \<Rightarrow> False | Some e \<Rightarrow>
                    \<not> eagle \<and> e mod per \<noteq> 0 \<and> max (e - e mod per) (e - need) \<le> i \<and> i < e));
              at_boundary = (\<lambda>i. retention \<noteq> None \<and>
                 (\<exists>t \<in> set boundaries. let e = t div al * al div bs + shift in e - need \<le> i \<and> i < e))
          in if (case segment of None \<Rightarrow> False | Some t \<Rightarrow> t div bs \<le> need) then None
             else Some (map (\<lambda>i. in_segment (int i) \<or> at_boundary (int i)) [start..<stop]))"

definition reachable_block_mask ::
    "kv_manager \<Rightarrow> nat \<Rightarrow> nat \<Rightarrow> int option \<Rightarrow> int list \<Rightarrow> bool list option" where
  "reachable_block_mask m start stop retention boundaries =
     (case mgr_kind m of
        SlidingWindow w _ \<Rightarrow> swa_block_mask start stop (Some (cache_hit_alignment_tokens m)) w
          (mgr_block_size m) (mgr_use_eagle m) retention boundaries None
      | _ \<Rightarrow> None)"

definition cache_blocks_base ::
    "(bytes \<Rightarrow> bytes) \<Rightarrow> request \<Rightarrow> int \<Rightarrow> int option \<Rightarrow> int list \<Rightarrow> kv_manager \<Rightarrow> block_pool
      \<Rightarrow> (kv_manager \<times> block_pool) res" where
  "cache_blocks_base sha r ntok retention boundaries m p =
     (let rid = request_id r; bs = mgr_block_size m;
          nc = (case num_cached_block m rid of None \<Rightarrow> 0 | Some n \<Rightarrow> n);
          nf = ntok div bs
      in if \<not> prefix_cacheable m \<or> nf \<le> nc then Inr (m, p)
         else
           let reach = boundaries @ (if shared_prefix_boundary r \<noteq> 0 then [shared_prefix_boundary r] else []);
               bmask = reachable_block_mask m (nat nc) (nat nf) retention reach;
               m = access rid m
           in bind_res (cache_full_blocks sha r (blocks_of m rid) (nat nc) (nat nf) bs (kv_group_id m) bmask p)
                (\<lambda>p. Inr (m\<lparr>num_cached_block := (num_cached_block m)(rid \<mapsto> nf)\<rparr>, p)))"

definition cache_partial_tail_block ::
    "(bytes \<Rightarrow> bytes) \<Rightarrow> request \<Rightarrow> int \<Rightarrow> kv_manager \<Rightarrow> block_pool \<Rightarrow> (kv_manager \<times> block_pool) res" where
  "cache_partial_tail_block sha r ntok m p =
     (let hbs = hash_block_size p; rid = request_id r;
          boundary = num_prompt_tokens r div hbs * hbs
      in if boundary = 0 \<or> ntok < boundary \<or> boundary mod mgr_block_size m = 0 then Inr (m, p)
         else
           let m = access rid m; i = boundary div mgr_block_size m in
           if int (length (blocks_of m rid)) \<le> i then Inr (m, p)
           else bind_res (py_get (blocks_of m rid) i) (\<lambda>b.
                bind_res (cache_partial_block sha r b boundary (kv_group_id m) (mgr_block_size m) False p)
                  (\<lambda>(_, p). Inr (m, p))))"

definition mgr_cache_blocks ::
    "(bytes \<Rightarrow> bytes) \<Rightarrow> request \<Rightarrow> int \<Rightarrow> int option \<Rightarrow> int list \<Rightarrow> kv_manager \<Rightarrow> block_pool
      \<Rightarrow> (kv_manager \<times> block_pool) res" where
  "mgr_cache_blocks sha r ntok retention boundaries m p =
     (case mgr_kind m of
        CircularBuffer \<Rightarrow> Inr (m, p)
      | CrossAttention \<Rightarrow> Inl ValueError
      | SlidingWindow _ _ \<Rightarrow> cache_blocks_base sha r ntok retention boundaries m p
      | ChunkedLocal _ \<Rightarrow> cache_blocks_base sha r ntok retention boundaries m p
      | _ \<Rightarrow> bind_res (cache_blocks_base sha r ntok retention boundaries m p) (\<lambda>(m, p).
          if mgr_block_size m = hash_block_size p then Inr (m, p)
          else cache_partial_tail_block sha r ntok m p))"

section \<open>Releasing blocks\<close>

definition mgr_pop_blocks_for_free :: "string \<Rightarrow> kv_manager \<Rightarrow> nat list \<times> kv_manager" where
  "mgr_pop_blocks_for_free rid m =
     (blocks_of m rid, m\<lparr>req_to_blocks := AList.delete rid (req_to_blocks m),
        num_cached_block := (num_cached_block m)(rid := None),
        partial_hit_reqs := (partial_hit_reqs m)(rid := None)\<rparr>)"

definition mgr_free :: "string \<Rightarrow> kv_manager \<Rightarrow> block_pool \<Rightarrow> (kv_manager \<times> block_pool) res" where
  "mgr_free rid m p =
     (case mgr_pop_blocks_for_free rid m of (bs, m) \<Rightarrow>
        bind_res (free_own_blocks (rev bs) p) (\<lambda>p. Inr (m, p)))"

text \<open>The backward loop that nulls out table entries: the freed blocks and the new table.\<close>

fun null_out :: "nat \<Rightarrow> nat list \<Rightarrow> nat list \<Rightarrow> nat list \<Rightarrow> nat list \<times> nat list" where
  "null_out nul [] bs freed = (freed, bs)"
| "null_out nul (i # is) bs freed =
     (if bs ! i = nul then (freed, bs) else null_out nul is (bs[i := nul]) (freed @ [bs ! i]))"

definition remove_blocks_in_range ::
    "string \<Rightarrow> int \<Rightarrow> int \<Rightarrow> kv_manager \<Rightarrow> block_pool \<Rightarrow> (kv_manager \<times> block_pool) res" where
  "remove_blocks_in_range rid first lst m p =
     (if map_of (req_to_blocks m) rid = None \<or> lst \<le> first then Inr (m, p)
      else
        let bs = blocks_of m rid; lst = min lst (int (length bs)) in
        case null_out (null_block p) (rev [nat first..<nat lst]) bs [] of (freed, bs) \<Rightarrow>
          let m = put_blocks rid bs m in
          if freed = [] then Inr (m, p)
          else bind_res (free_own_blocks freed p) (\<lambda>p. Inr (m, p)))"

definition mgr_remove_skipped_blocks ::
    "string \<Rightarrow> int \<Rightarrow> int option \<Rightarrow> kv_manager \<Rightarrow> block_pool \<Rightarrow> (kv_manager \<times> block_pool) res" where
  "mgr_remove_skipped_blocks rid processed nprompt m p =
     (case (mgr_kind m, nprompt) of
        (CircularBuffer, _) \<Rightarrow> Inr (m, p)
      | (RSWA w, Some n) \<Rightarrow>
          let window_start = max n (processed - w) in
          remove_blocks_in_range rid (cdiv n (mgr_block_size m)) (window_start div mgr_block_size m) m p
      | _ \<Rightarrow>
          let skipped = get_num_skipped_tokens m processed in
          if skipped \<le> 0 then Inr (m, p)
          else
            let m = access rid m;
                n = min (skipped div mgr_block_size m) (int (length (blocks_of m rid)))
            in remove_blocks_in_range rid 0 n m p)"

section \<open>Queries and drains\<close>

definition mgr_num_common_prefix_blocks :: "string \<Rightarrow> kv_manager \<Rightarrow> block_pool \<Rightarrow> nat \<times> kv_manager" where
  "mgr_num_common_prefix_blocks rid m p =
     (case mgr_kind m of
        FullAttention \<Rightarrow>
          let m = access rid m in
          (length (takeWhile (\<lambda>b. ref_cnt (blk p b) = int (length (req_to_blocks m))) (blocks_of m rid)), m)
      | RSWA _ \<Rightarrow>
          let m = access rid m in
          (length (takeWhile (\<lambda>b. ref_cnt (blk p b) = int (length (req_to_blocks m))) (blocks_of m rid)), m)
      | _ \<Rightarrow> (0, m))"

definition mgr_take_new_block_ids :: "kv_manager \<Rightarrow> nat list \<times> kv_manager" where
  "mgr_take_new_block_ids m = (new_block_ids m, m\<lparr>new_block_ids := []\<rparr>)"

definition mgr_take_pending_cow_copies :: "kv_manager \<Rightarrow> (nat \<times> nat) list \<times> kv_manager" where
  "mgr_take_pending_cow_copies m = (pending_cow_copies m, m\<lparr>pending_cow_copies := []\<rparr>)"

end
