(* ===== verification/KvCoord.thy ===== *)
theory KvCoord imports KvManager
begin

text \<open>
  The allocation side of \<open>KVCacheCoordinator\<close> (\<^verbatim>\<open>vllm/v1/core/kv_cache_coordinator.py\<close>) and
  \<open>KVCacheManager\<close> (\<^verbatim>\<open>vllm/v1/core/kv_cache_manager.py\<close>): one manager per KV cache group over
  one pool, and \<open>allocate_slots\<close>, with which the scheduler obtains blocks for a request. The
  coordinator and the manager above it are one state, \<open>kv_cache\<close>. The cache lookup is in
  \<^verbatim>\<open>KvLookup\<close>.

  \<open>KVCacheBlocks\<close> is compared by identity with the pre-constructed empty instance; \<open>EmptyBlocks\<close>
  is that instance. No modelled manager retains a hit longer than the reconciled one.
\<close>

section \<open>State\<close>

datatype coord_kind = NoPrefixCache | Unitary | Hybrid bool

datatype kv_blocks = EmptyBlocks | Blocks "nat list list"

record kv_cache =
  coord_kind :: coord_kind
  managers :: "kv_manager list"
  pool :: block_pool
  scheduler_block_size :: int
  eagle_group_ids :: "nat list"
  num_reprefillable_tokens :: int
  retention_interval :: "int option"
  max_model_len :: int
  watermark_blocks :: int
  kv_enable_caching :: bool

definition blocks_list :: "kv_cache \<Rightarrow> kv_blocks \<Rightarrow> nat list list" where
  "blocks_list K bs = (case bs of EmptyBlocks \<Rightarrow> map (\<lambda>_. []) (managers K) | Blocks l \<Rightarrow> l)"

definition create_kv_cache_blocks :: "nat list list \<Rightarrow> kv_blocks" where
  "create_kv_cache_blocks bs = (if \<exists>g \<in> set bs. g \<noteq> [] then Blocks bs else EmptyBlocks)"

section \<open>Loops over the managers\<close>

text \<open>A method called on every manager in turn, the \<open>i\<close>-th with the \<open>i\<close>-th argument.\<close>

fun each_manager ::
    "('a \<Rightarrow> kv_manager \<Rightarrow> block_pool \<Rightarrow> ('o \<times> kv_manager \<times> block_pool) res) \<Rightarrow> 'a list
      \<Rightarrow> kv_manager list \<Rightarrow> block_pool \<Rightarrow> ('o list \<times> kv_manager list \<times> block_pool) res" where
  "each_manager f as [] p = Inr ([], [], p)"
| "each_manager f as (m # ms) p =
     bind_res (py_get as 0) (\<lambda>a.
     bind_res (f a m p) (\<lambda>(x, m, p).
     bind_res (each_manager f (drop 1 as) ms p) (\<lambda>(xs, ms, p). Inr (x # xs, m # ms, p))))"

definition no_result ::
    "('a \<Rightarrow> kv_manager \<Rightarrow> block_pool \<Rightarrow> (kv_manager \<times> block_pool) res)
      \<Rightarrow> 'a \<Rightarrow> kv_manager \<Rightarrow> block_pool \<Rightarrow> (unit \<times> kv_manager \<times> block_pool) res" where
  "no_result f a m p = bind_res (f a m p) (\<lambda>(m, p). Inr ((), m, p))"

definition on_managers ::
    "('a \<Rightarrow> kv_manager \<Rightarrow> block_pool \<Rightarrow> ('o \<times> kv_manager \<times> block_pool) res) \<Rightarrow> 'a list
      \<Rightarrow> kv_cache \<Rightarrow> ('o list \<times> kv_cache) res" where
  "on_managers f as K =
     bind_res (each_manager f as (managers K) (pool K))
       (\<lambda>(xs, ms, p). Inr (xs, K\<lparr>managers := ms, pool := p\<rparr>))"

section \<open>The coordinator\<close>

fun coord_num_blocks_to_allocate ::
    "string \<Rightarrow> int \<Rightarrow> nat list list \<Rightarrow> int \<Rightarrow> int \<Rightarrow> int \<Rightarrow> bool \<Rightarrow> kv_manager list \<Rightarrow> block_pool \<Rightarrow> int res" where
  "coord_num_blocks_to_allocate rid ntok news nenc ntotal nlocal cap [] p = Inr 0"
| "coord_num_blocks_to_allocate rid ntok news nenc ntotal nlocal cap (m # ms) p =
     bind_res
       (if mgr_kind m = CrossAttention then mgr_num_blocks_to_allocate rid nenc [] 0 0 cap m p
        else bind_res (py_get news 0)
          (\<lambda>new. mgr_num_blocks_to_allocate rid ntok new ntotal nlocal cap m p)) (\<lambda>n.
     bind_res (coord_num_blocks_to_allocate rid ntok (drop 1 news) nenc ntotal nlocal cap ms p)
       (\<lambda>k. Inr (n + k)))"

definition allocate_new_computed_blocks ::
    "string \<Rightarrow> nat list list \<Rightarrow> int \<Rightarrow> int \<Rightarrow> kv_cache \<Rightarrow> kv_cache res" where
  "allocate_new_computed_blocks rid news nlocal next K =
     (if \<exists>m \<in> set (managers K). num_cached_block m rid \<noteq> None
      then bind_res (assert_res (\<forall>bs \<in> set news. length bs = 0) AssertionError) (\<lambda>_. Inr K)
      else
        bind_res (on_managers (no_result (add_local_computed_blocks rid nlocal next)) news K) (\<lambda>(_, K).
        if 0 < next
        then bind_res (on_managers (no_result (\<lambda>_. allocate_external_computed_blocks rid nlocal next))
               (managers K) K) (\<lambda>(_, K). Inr K)
        else Inr K))"

definition coord_allocate_new_blocks ::
    "string \<Rightarrow> int \<Rightarrow> int \<Rightarrow> kv_cache \<Rightarrow> (nat list list \<times> kv_cache) res" where
  "coord_allocate_new_blocks rid ntok nenc K =
     on_managers (\<lambda>m0. mgr_allocate_new_blocks rid (if mgr_kind m0 = CrossAttention then nenc else ntok))
       (managers K) K"

definition coord_remove_skipped_blocks :: "string \<Rightarrow> int \<Rightarrow> int option \<Rightarrow> kv_cache \<Rightarrow> kv_cache res" where
  "coord_remove_skipped_blocks rid processed nprompt K =
     bind_res (on_managers (no_result (\<lambda>_. mgr_remove_skipped_blocks rid processed nprompt)) (managers K) K)
       (\<lambda>(_, K). Inr K)"

definition coord_free :: "string \<Rightarrow> kv_cache \<Rightarrow> kv_cache res" where
  "coord_free rid K =
     bind_res (on_managers (no_result (\<lambda>_. mgr_free rid)) (managers K) K) (\<lambda>(_, K). Inr K)"

definition coord_pop_blocks_for_free :: "string \<Rightarrow> kv_cache \<Rightarrow> nat list \<times> kv_cache" where
  "coord_pop_blocks_for_free rid K =
     (concat (map (\<lambda>m. fst (mgr_pop_blocks_for_free rid m)) (managers K)),
      K\<lparr>managers := map (\<lambda>m. snd (mgr_pop_blocks_for_free rid m)) (managers K)\<rparr>)"

definition coord_get_blocks :: "string \<Rightarrow> kv_cache \<Rightarrow> nat list list" where
  "coord_get_blocks rid K = map (\<lambda>m. blocks_of m rid) (managers K)"

definition get_num_common_prefix_blocks :: "string \<Rightarrow> kv_cache \<Rightarrow> nat list \<times> kv_cache" where
  "get_num_common_prefix_blocks rid K =
     (if coord_kind K = NoPrefixCache then (map (\<lambda>_. 0) (managers K), K)
      else
        let rs = map (\<lambda>m. mgr_num_common_prefix_blocks rid m (pool K)) (managers K)
        in (map fst rs, K\<lparr>managers := map snd rs\<rparr>))"

subsection \<open>Caching\<close>

definition get_replay_boundaries :: "kv_cache \<Rightarrow> request \<Rightarrow> int list" where
  "get_replay_boundaries K r =
     (if eagle_group_ids K = [] then [num_prompt_tokens r - 1]
      else
        let b = scheduler_block_size K;
            resend = (num_prompt_tokens r - 1) div b * b;
            extension = num_prompt_tokens r div b * b
        in sort (remdups [max (resend - b) 0, max (extension - b) 0]))"

definition align_cacheable :: "kv_cache \<Rightarrow> bool \<Rightarrow> int \<Rightarrow> int" where
  "align_cacheable K partial_hits n = (if partial_hits then n else round_down n (scheduler_block_size K))"

definition num_tokens_to_cache :: "kv_cache \<Rightarrow> int \<Rightarrow> kv_manager \<Rightarrow> int" where
  "num_tokens_to_cache K ncomputed m =
     (case coord_kind K of
        Hybrid partial_hits \<Rightarrow>
          let n = align_cacheable K partial_hits ncomputed in
          if mgr_use_eagle m \<and> 0 < n
          then
            let final = max 0 (ncomputed - num_reprefillable_tokens K)
            in min final (align_cacheable K partial_hits final + mgr_block_size m)
          else n
      | _ \<Rightarrow> max 0 (ncomputed - num_reprefillable_tokens K))"

definition coord_cache_blocks :: "(bytes \<Rightarrow> bytes) \<Rightarrow> request \<Rightarrow> int \<Rightarrow> kv_cache \<Rightarrow> kv_cache res" where
  "coord_cache_blocks sha r ncomputed K =
     (let bounds = get_replay_boundaries K r in
      bind_res (on_managers (no_result (\<lambda>_ m p.
          if \<not> mgr_enable_caching m then Inr (m, p)
          else mgr_cache_blocks sha r (num_tokens_to_cache K ncomputed m) (retention_interval K) bounds m p))
        (managers K) K) (\<lambda>(_, K). Inr K))"

section \<open>\<open>KVCacheManager\<close>\<close>

definition num_free :: "kv_cache \<Rightarrow> int" where
  "num_free K = get_num_free_blocks (pool K)"

text \<open>The first check of \<open>allocate_slots\<close>: does the whole sequence fit?\<close>

definition full_sequence_fits ::
    "request \<Rightarrow> nat list list \<Rightarrow> int \<Rightarrow> int \<Rightarrow> int \<Rightarrow> int \<Rightarrow> kv_cache \<Rightarrow> bool res" where
  "full_sequence_fits r news nenc ntotal nlocal wm K =
     bind_res (coord_num_blocks_to_allocate (request_id r) (min (num_tokens r) (max_model_len K)) news nenc
        ntotal nlocal True (managers K) (pool K))
       (\<lambda>n. Inr (n + wm \<le> num_free K))"

text \<open>\<open>allocate_slots\<close> up to the caching of the new blocks; \<open>None\<close> when there is no room.\<close>

definition reserve_slots ::
    "request \<Rightarrow> int \<Rightarrow> int \<Rightarrow> kv_blocks \<Rightarrow> int \<Rightarrow> int \<Rightarrow> int \<Rightarrow> bool \<Rightarrow> int \<Rightarrow> bool \<Rightarrow> kv_cache
      \<Rightarrow> (nat list list option \<times> kv_cache) res" where
  "reserve_slots r nnew nnewcomp newb nlook next nenc full reserved sched K =
     (if nnew = 0 \<and> next = 0 \<and> nnewcomp = 0 then Inl ValueError
      else
        let rid = request_id r;
            news = blocks_list K newb;
            nlocal = num_computed_tokens r + nnewcomp;
            ntotal = min (nlocal + next) (max_model_len K);
            wm = (if sched \<and> status r \<in> {WAITING, PREEMPTED} then watermark_blocks K else 0)
        in bind_res (if full then full_sequence_fits r news nenc ntotal nlocal wm K else Inr True) (\<lambda>fits.
           if \<not> fits then Inr (None, K)
           else
             let nslot = min (ntotal + nnew + nlook) (max_model_len K) in
             bind_res (coord_remove_skipped_blocks rid (max 0 (ntotal - num_in_flight_tokens r))
               (Some (num_prompt_tokens r)) K) (\<lambda>K.
             bind_res (coord_num_blocks_to_allocate rid nslot news nenc (nlocal + next) nlocal False
               (managers K) (pool K)) (\<lambda>n.
             if n + wm > num_free K - reserved then Inr (None, K)
             else
               bind_res (if newb \<noteq> EmptyBlocks \<or> 0 < next
                         then allocate_new_computed_blocks rid news nlocal next K else Inr K) (\<lambda>K.
               bind_res (coord_allocate_new_blocks rid nslot nenc K) (\<lambda>(bs, K).
                 Inr (Some bs, K)))))))"

definition allocate_slots ::
    "(bytes \<Rightarrow> bytes) \<Rightarrow> request \<Rightarrow> int \<Rightarrow> int \<Rightarrow> kv_blocks \<Rightarrow> int \<Rightarrow> int \<Rightarrow> bool \<Rightarrow> int \<Rightarrow> bool \<Rightarrow> int
      \<Rightarrow> bool \<Rightarrow> kv_cache \<Rightarrow> (kv_blocks option \<times> kv_cache) res" where
  "allocate_slots sha r nnew nnewcomp newb nlook next delay nenc full reserved sched K =
     bind_res (reserve_slots r nnew nnewcomp newb nlook next nenc full reserved sched K) (\<lambda>(res, K).
     case res of
       None \<Rightarrow> Inr (None, K)
     | Some bs \<Rightarrow>
         if delay then Inr (Some (create_kv_cache_blocks bs), K)
         else
           let ntotal = min (num_computed_tokens r + nnewcomp + next) (max_model_len K) in
           bind_res (coord_cache_blocks sha r (min (ntotal + nnew) (num_tokens r)) K)
             (\<lambda>K. Inr (Some (create_kv_cache_blocks bs), K)))"

definition kv_free :: "request \<Rightarrow> kv_cache \<Rightarrow> kv_cache res" where
  "kv_free r K = coord_free (request_id r) K"

definition kv_cache_blocks :: "(bytes \<Rightarrow> bytes) \<Rightarrow> request \<Rightarrow> int \<Rightarrow> kv_cache \<Rightarrow> kv_cache res" where
  "kv_cache_blocks sha r ncomputed K =
     (if kv_enable_caching K then coord_cache_blocks sha r ncomputed K else Inr K)"

text \<open>The pools are reached through the managers: without any, none is reset.\<close>

definition kv_reset_prefix_cache :: "kv_cache \<Rightarrow> bool \<times> kv_cache" where
  "kv_reset_prefix_cache K =
     (if managers K = [] then (True, K)
      else case reset_prefix_cache (pool K) of (ok, p) \<Rightarrow> (ok, K\<lparr>pool := p\<rparr>))"

definition kv_evict_blocks :: "nat list \<Rightarrow> kv_cache \<Rightarrow> kv_cache res" where
  "kv_evict_blocks ids K = bind_res (evict_blocks ids (pool K)) (\<lambda>p. Inr (K\<lparr>pool := p\<rparr>))"

definition take_new_block_ids :: "kv_cache \<Rightarrow> nat list \<times> kv_cache" where
  "take_new_block_ids K =
     (concat (map new_block_ids (managers K)),
      K\<lparr>managers := map (\<lambda>m. snd (mgr_take_new_block_ids m)) (managers K)\<rparr>)"

definition take_kv_cache_block_copies :: "kv_cache \<Rightarrow> (nat \<times> nat) list \<times> nat list \<times> kv_cache" where
  "take_kv_cache_block_copies K =
     (let pairs = concat (map (\<lambda>m. fst (mgr_take_pending_cow_copies m)) (managers K))
      in (pairs, concat (map (\<lambda>(s, d). [s, d]) pairs),
          K\<lparr>managers := map (\<lambda>m. snd (mgr_take_pending_cow_copies m)) (managers K)\<rparr>))"

definition estimate_cached_tokens :: "request \<Rightarrow> kv_cache \<Rightarrow> int" where
  "estimate_cached_tokens r K =
     (let group_tokens = (\<lambda>m. fold (\<lambda>b n. max n (case block_hash_num_tokens (blk (pool K) b) of
            None \<Rightarrow> 0 | Some k \<Rightarrow> k)) (blocks_of m (request_id r)) 0);
          ms = filter (\<lambda>m. prefix_cacheable m \<and> mgr_kind m \<noteq> CrossAttention) (managers K)
      in case map group_tokens ms of [] \<Rightarrow> 0 | n # ns \<Rightarrow> fold (\<lambda>k n. min n k) ns n)"

end
