(* ===== verification/KvInv.thy ===== *)
theory KvInv imports KvCoord
begin

text \<open>
  Who holds which block. \<open>held m\<close> lists the references of a manager: the entries of its block
  tables and both ends of its pending copies. \<open>accounted ext ms p\<close> says that the reference count of
  every block is the number of references of the managers \<open>ms\<close> plus \<open>ext\<close>, the references held
  elsewhere (deferred frees, connectors). The locale \<open>manager_op\<close> is the contract of an operation of
  a manager: with its precondition and enough free blocks it returns, moves references only between
  the pool and this manager, and takes at most \<open>cost\<close> free blocks; the loop of the coordinator over
  all managers then does so too.
\<close>

section \<open>Tables\<close>

definition held :: "kv_manager \<Rightarrow> nat list" where
  "held m = concat (map snd (req_to_blocks m)) @ concat (map (\<lambda>(s, d). [s, d]) (pending_cow_copies m))"

definition cnt :: "kv_manager \<Rightarrow> nat \<Rightarrow> int" where
  "cnt m b = int (count_list (held m) b)"

lemma count_update:
  assumes "distinct (map fst al)"
  shows "count_list (concat (map snd (AList.update k v al))) b
      + count_list (case map_of al k of None \<Rightarrow> [] | Some w \<Rightarrow> w) b
    = count_list (concat (map snd al)) b + count_list v b"
  using assms
proof (induction al)
  case (Cons x al)
  obtain a w where x: "x = (a, w)" by fastforce
  show ?case
  proof (cases "a = k")
    case True
    then show ?thesis using x by simp
  next
    case False
    then show ?thesis using x Cons by simp
  qed
qed simp

lemma count_delete:
  assumes "distinct (map fst al)"
  shows "count_list (concat (map snd (AList.delete k al))) b
      + count_list (case map_of al k of None \<Rightarrow> [] | Some w \<Rightarrow> w) b
    = count_list (concat (map snd al)) b"
  using assms
proof (induction al)
  case (Cons x al)
  obtain a w where x: "x = (a, w)" by fastforce
  show ?case
  proof (cases "a = k")
    case True
    then have "k \<notin> fst ` set al" using Cons.prems x by simp
    then show ?thesis using x True by simp
  next
    case False
    then show ?thesis using x Cons by simp
  qed
qed simp

lemma table_in_held: "b \<in> set (blocks_of m rid) \<Longrightarrow> b \<in> set (held m)"
proof (cases "map_of (req_to_blocks m) rid")
  case (Some bs)
  then have "bs \<in> snd ` set (req_to_blocks m)" by (force dest: map_of_SomeD)
  then show "b \<in> set (blocks_of m rid) \<Longrightarrow> b \<in> set (held m)"
    using Some by (auto simp: blocks_of_def held_def)
qed (simp add: blocks_of_def)

lemma count_le_cnt: "distinct (map fst (req_to_blocks m)) \<Longrightarrow> int (count_list (blocks_of m rid) b) \<le> cnt m b"
  using count_delete[of "req_to_blocks m" rid b] by (simp add: cnt_def held_def blocks_of_def)

lemma blocks_of_put [simp]: "blocks_of (put_blocks rid bs m) r = (if r = rid then bs else blocks_of m r)"
  by (simp add: blocks_of_def put_blocks_def update_conv')

lemma put_frames [simp]:
  "mgr_kind (put_blocks rid bs m) = mgr_kind m" "mgr_block_size (put_blocks rid bs m) = mgr_block_size m"
  "mgr_enable_caching (put_blocks rid bs m) = mgr_enable_caching m"
  "kv_group_id (put_blocks rid bs m) = kv_group_id m" "prefix_cacheable (put_blocks rid bs m) = prefix_cacheable m"
  "mgr_use_eagle (put_blocks rid bs m) = mgr_use_eagle m"
  "max_admission_blocks_per_request (put_blocks rid bs m) = max_admission_blocks_per_request m"
  "cache_hit_alignment_tokens (put_blocks rid bs m) = cache_hit_alignment_tokens m"
  "record_new_block_ids (put_blocks rid bs m) = record_new_block_ids m"
  "new_block_ids (put_blocks rid bs m) = new_block_ids m"
  "num_cached_block (put_blocks rid bs m) = num_cached_block m"
  "partial_hit_reqs (put_blocks rid bs m) = partial_hit_reqs m"
  "pending_cow_copies (put_blocks rid bs m) = pending_cow_copies m"
  by (simp_all add: put_blocks_def)

lemma blocks_of_frames [simp]:
  "blocks_of (m\<lparr>num_cached_block := c\<rparr>) r = blocks_of m r"
  "blocks_of (m\<lparr>partial_hit_reqs := h\<rparr>) r = blocks_of m r"
  "blocks_of (m\<lparr>new_block_ids := n\<rparr>) r = blocks_of m r"
  "blocks_of (m\<lparr>pending_cow_copies := q\<rparr>) r = blocks_of m r"
  by (simp_all add: blocks_of_def)

lemma held_frames [simp]:
  "held (m\<lparr>num_cached_block := c\<rparr>) = held m" "held (m\<lparr>partial_hit_reqs := h\<rparr>) = held m"
  "held (m\<lparr>new_block_ids := n\<rparr>) = held m"
  by (simp_all add: held_def)

lemma cnt_frames [simp]:
  "cnt (m\<lparr>num_cached_block := c\<rparr>) b = cnt m b" "cnt (m\<lparr>partial_hit_reqs := h\<rparr>) b = cnt m b"
  "cnt (m\<lparr>new_block_ids := n\<rparr>) b = cnt m b"
  by (simp_all add: cnt_def)

lemma cnt_put:
  "distinct (map fst (req_to_blocks m)) \<Longrightarrow>
    cnt (put_blocks rid bs m) b = cnt m b + int (count_list bs b) - int (count_list (blocks_of m rid) b)"
  using count_update[of "req_to_blocks m" rid bs b]
  by (simp add: cnt_def held_def put_blocks_def blocks_of_def)

lemma cnt_pending:
  "cnt (m\<lparr>pending_cow_copies := pending_cow_copies m @ [(s, d)]\<rparr>) b =
    cnt m b + (if b = s then 1 else 0) + (if b = d then 1 else 0)"
  by (simp add: cnt_def held_def)

lemma cnt_access [simp]: "distinct (map fst (req_to_blocks m)) \<Longrightarrow> cnt (access rid m) b = cnt m b"
  by (simp add: access_def cnt_put)

lemma blocks_of_access [simp]: "blocks_of (access rid m) r = blocks_of m r"
  by (simp add: access_def)

lemma distinct_put [simp]:
  "distinct (map fst (req_to_blocks m)) \<Longrightarrow> distinct (map fst (req_to_blocks (put_blocks rid bs m)))"
  by (simp add: put_blocks_def distinct_update)

lemma held_iff_cnt: "b \<in> set (held m) \<longleftrightarrow> 0 < cnt m b"
  using count_list_0_iff[of "held m" b] by (auto simp: cnt_def)

section \<open>Managers and the pool\<close>

definition kind_ok :: "mgr_kind \<Rightarrow> bool" where
  "kind_ok k = (case k of ChunkedLocal c \<Rightarrow> 0 < c | SlidingWindow w x \<Rightarrow> 0 < w \<and> 0 \<le> x | _ \<Rightarrow> True)"

definition mgr_ok :: "kv_manager \<Rightarrow> block_pool \<Rightarrow> bool" where
  "mgr_ok m p \<longleftrightarrow> 0 < mgr_block_size m \<and> kind_ok (mgr_kind m) \<and> distinct (map fst (req_to_blocks m)) \<and>
     (\<forall>b \<in> set (held m). b < num_gpu_blocks p)"

definition backed :: "kv_manager \<Rightarrow> block_pool \<Rightarrow> bool" where
  "backed m p \<longleftrightarrow> (\<forall>b < num_gpu_blocks p. \<not> is_null (blk p b) \<longrightarrow> cnt m b \<le> ref_cnt (blk p b))"

definition same_config :: "block_pool \<Rightarrow> block_pool \<Rightarrow> bool" where
  "same_config p p' \<longleftrightarrow> num_gpu_blocks p' = num_gpu_blocks p \<and> null_block p' = null_block p \<and>
     enable_caching p' = enable_caching p \<and> hash_block_size p' = hash_block_size p \<and>
     (\<forall>i. is_null (blk p' i) = is_null (blk p i))"

definition transfers :: "block_pool \<Rightarrow> block_pool \<Rightarrow> (nat \<Rightarrow> int) \<Rightarrow> bool" where
  "transfers p p' d \<longleftrightarrow> same_config p p' \<and>
     (\<forall>b < num_gpu_blocks p. \<not> is_null (blk p b) \<longrightarrow> ref_cnt (blk p' b) = ref_cnt (blk p b) + d b)"

definition accounted :: "(nat \<Rightarrow> int) \<Rightarrow> kv_manager list \<Rightarrow> block_pool \<Rightarrow> bool" where
  "accounted ext ms p \<longleftrightarrow> (\<forall>b < num_gpu_blocks p. \<not> is_null (blk p b) \<longrightarrow>
     0 \<le> ext b \<and> ref_cnt (blk p b) = ext b + (\<Sum>m \<leftarrow> ms. cnt m b))"

lemma same_config_refl [simp]: "same_config p p"
  by (simp add: same_config_def)

lemma same_config_trans: "same_config p q \<Longrightarrow> same_config q r \<Longrightarrow> same_config p r"
  by (simp add: same_config_def)

lemma transfers_config: "transfers p p' d \<Longrightarrow> same_config p p'"
  by (simp add: transfers_def)

lemma transfers_0 [simp]: "transfers p p (\<lambda>_. 0)"
  by (simp add: transfers_def)

lemma transfers_trans: "transfers p q d \<Longrightarrow> transfers q r e \<Longrightarrow> transfers p r (\<lambda>b. d b + e b)"
  by (auto simp: transfers_def same_config_def)

lemma transfers_cong:
  "transfers p q d \<Longrightarrow> (\<And>b. b < num_gpu_blocks p \<Longrightarrow> \<not> is_null (blk p b) \<Longrightarrow> d b = e b) \<Longrightarrow> transfers p q e"
  by (auto simp: transfers_def)

lemma refs_changed_transfers: "refs_changed p p' d \<Longrightarrow> transfers p p' d"
  by (simp add: refs_changed_def transfers_def same_config_def)

lemma mgr_ok_config: "same_config p p' \<Longrightarrow> mgr_ok m p \<Longrightarrow> mgr_ok m p'"
  by (simp add: mgr_ok_def same_config_def)

lemma sum_cnt_nonneg: "0 \<le> (\<Sum>m \<leftarrow> ms. cnt m b)"
  by (induction ms) (simp_all add: cnt_def)

lemma member_cnt_le: "m \<in> set ms \<Longrightarrow> cnt m b \<le> (\<Sum>m \<leftarrow> ms. cnt m b)"
proof (induction ms)
  case (Cons n ms)
  then show ?case using sum_cnt_nonneg[of b ms] by (auto simp: cnt_def)
qed simp

lemma accounted_backed: "accounted ext ms p \<Longrightarrow> m \<in> set ms \<Longrightarrow> backed m p"
  unfolding accounted_def backed_def using member_cnt_le[of m ms] by (simp add: add_increasing)

text \<open>One manager of the list steps: the others keep their account.\<close>

lemma accounted_step:
  assumes "accounted ext (m # ms) p" "transfers p p' (\<lambda>b. cnt m' b - cnt m b)"
  shows "accounted (\<lambda>b. ext b + cnt m' b) ms p'"
  using assms by (auto simp: accounted_def transfers_def same_config_def cnt_def)

lemma accounted_Cons: "accounted (\<lambda>b. ext b + cnt m b) ms p \<Longrightarrow>
    (\<And>b. b < num_gpu_blocks p \<Longrightarrow> \<not> is_null (blk p b) \<Longrightarrow> 0 \<le> ext b) \<Longrightarrow> accounted ext (m # ms) p"
  by (auto simp: accounted_def)

section \<open>The contract of a manager's operation\<close>

locale manager_op =
  fixes f :: "'a \<Rightarrow> kv_manager \<Rightarrow> block_pool \<Rightarrow> ('o \<times> kv_manager \<times> block_pool) res"
    and pre :: "'a \<Rightarrow> kv_manager \<Rightarrow> block_pool \<Rightarrow> bool"
    and cost :: "'a \<Rightarrow> kv_manager \<Rightarrow> block_pool \<Rightarrow> int"
    and post :: "'a \<Rightarrow> kv_manager \<Rightarrow> block_pool \<Rightarrow> 'o \<Rightarrow> kv_manager \<Rightarrow> bool"
  assumes runs: "pool_inv p xs \<Longrightarrow> mgr_ok m p \<Longrightarrow> backed m p \<Longrightarrow> pre a m p \<Longrightarrow> cost a m p \<le> int (length xs) \<Longrightarrow>
      \<exists>x m' p' ys. f a m p = Inr (x, m', p') \<and> pool_inv p' ys \<and>
        int (length xs) \<le> int (length ys) + cost a m p \<and>
        transfers p p' (\<lambda>b. cnt m' b - cnt m b) \<and> mgr_ok m' p' \<and> post a m p x m' \<and>
        (\<forall>b n. pre b n p \<longrightarrow> pre b n p' \<and> cost b n p' \<le> cost b n p \<and>
           (\<forall>y n'. post b n p' y n' \<longrightarrow> post b n p y n'))"
    and cost_nonneg: "mgr_ok m p \<Longrightarrow> pre a m p \<Longrightarrow> 0 \<le> cost a m p"
begin

lemma each_runs:
  assumes "pool_inv p xs" "\<And>m. m \<in> set ms \<Longrightarrow> mgr_ok m p" "accounted ext ms p" "length ms \<le> length as"
    and "\<And>i. i < length ms \<Longrightarrow> pre (as ! i) (ms ! i) p"
    and "(\<Sum>i < length ms. cost (as ! i) (ms ! i) p) \<le> int (length xs)"
  shows "\<exists>os ms' p' ys. each_manager f as ms p = Inr (os, ms', p') \<and> pool_inv p' ys \<and>
    int (length xs) \<le> int (length ys) + (\<Sum>i < length ms. cost (as ! i) (ms ! i) p) \<and>
    same_config p p' \<and> (\<forall>m \<in> set ms'. mgr_ok m p') \<and> accounted ext ms' p' \<and>
    length os = length ms \<and> length ms' = length ms \<and>
    (\<forall>i < length ms. post (as ! i) (ms ! i) p (os ! i) (ms' ! i))"
  using assms
proof (induction ms arbitrary: as p xs ext)
  case Nil
  then show ?case by auto
next
  case (Cons m ms)
  obtain a as' where as: "as = a # as'" using Cons.prems(4) by (cases as) auto
  have split: "(\<Sum>i < length (m # ms). cost (as ! i) ((m # ms) ! i) q)
      = cost a m q + (\<Sum>i < length ms. cost (as' ! i) (ms ! i) q)" for q
    using as by (simp only: length_Cons sum.lessThan_Suc_shift) simp
  have pre: "pre a m p" "\<And>i. i < length ms \<Longrightarrow> pre (as' ! i) (ms ! i) p"
    using Cons.prems(5)[of 0] Cons.prems(5)[of "Suc _"] as by auto
  have ok: "mgr_ok m p" "\<And>n. n \<in> set ms \<Longrightarrow> mgr_ok n p" using Cons.prems(2) by auto
  have nn: "0 \<le> (\<Sum>i < length ms. cost (as' ! i) (ms ! i) p)"
    using cost_nonneg ok(2) pre(2) by (intro sum_nonneg) auto
  have "backed m p" using accounted_backed[OF Cons.prems(3), of m] by simp
  moreover have "cost a m p \<le> int (length xs)" using Cons.prems(6) split[of p] nn by linarith
  ultimately obtain x m' p' ys where s: "f a m p = Inr (x, m', p')" "pool_inv p' ys"
    "int (length xs) \<le> int (length ys) + cost a m p" "transfers p p' (\<lambda>b. cnt m' b - cnt m b)"
    "mgr_ok m' p'" "post a m p x m'"
    "\<And>b n. pre b n p \<Longrightarrow> pre b n p' \<and> cost b n p' \<le> cost b n p \<and>
           (\<forall>y n'. post b n p' y n' \<longrightarrow> post b n p y n')"
    using runs[OF Cons.prems(1) ok(1) _ pre(1)] by blast
  note conf = transfers_config[OF s(4)]
  have le: "(\<Sum>i < length ms. cost (as' ! i) (ms ! i) p') \<le> (\<Sum>i < length ms. cost (as' ! i) (ms ! i) p)"
    using s(7) pre(2) by (intro sum_mono) auto
  have "\<exists>os ms' p'' zs. each_manager f as' ms p' = Inr (os, ms', p'') \<and> pool_inv p'' zs \<and>
    int (length ys) \<le> int (length zs) + (\<Sum>i < length ms. cost (as' ! i) (ms ! i) p') \<and>
    same_config p' p'' \<and> (\<forall>m \<in> set ms'. mgr_ok m p'') \<and> accounted (\<lambda>b. ext b + cnt m' b) ms' p'' \<and>
    length os = length ms \<and> length ms' = length ms \<and>
    (\<forall>i < length ms. post (as' ! i) (ms ! i) p' (os ! i) (ms' ! i))"
  proof (rule Cons.IH[OF s(2) _ accounted_step[OF Cons.prems(3) s(4)]])
    show "mgr_ok n p'" if "n \<in> set ms" for n using mgr_ok_config[OF conf ok(2)[OF that]] .
    show "length ms \<le> length as'" using Cons.prems(4) as by simp
    show "pre (as' ! i) (ms ! i) p'" if "i < length ms" for i using s(7)[OF pre(2)[OF that]] by blast
    show "(\<Sum>i < length ms. cost (as' ! i) (ms ! i) p') \<le> int (length ys)"
      using Cons.prems(6) split[of p] s(3) le by linarith
  qed
  then obtain os ms' p'' zs where r: "each_manager f as' ms p' = Inr (os, ms', p'')" "pool_inv p'' zs"
    "int (length ys) \<le> int (length zs) + (\<Sum>i < length ms. cost (as' ! i) (ms ! i) p')"
    "same_config p' p''" "\<forall>m \<in> set ms'. mgr_ok m p''" "accounted (\<lambda>b. ext b + cnt m' b) ms' p''"
    "length os = length ms" "length ms' = length ms"
    "\<forall>i < length ms. post (as' ! i) (ms ! i) p' (os ! i) (ms' ! i)" by blast
  have run: "each_manager f as (m # ms) p = Inr (x # os, m' # ms', p'')"
    using s(1) r(1) as by (simp add: py_get_def py_index_def)
  have "0 \<le> ext b" if "b < num_gpu_blocks p''" "\<not> is_null (blk p'' b)" for b
    using Cons.prems(3) that conf r(4) by (auto simp: accounted_def same_config_def)
  then have acc: "accounted ext (m' # ms') p''" using accounted_Cons[OF r(6)] by blast
  have po: "post (as ! i) ((m # ms) ! i) p ((x # os) ! i) ((m' # ms') ! i)" if "i < length (m # ms)" for i
    using that s(6) r(9) s(7) pre(2) as by (cases i) auto
  show ?case
    using run r(2) r(3) s(3) le split[of p] same_config_trans[OF conf r(4)] mgr_ok_config[OF r(4) s(5)]
      r(5) acc r(7,8) po
    by (intro exI[of _ "x # os"] exI[of _ "m' # ms'"] exI[of _ p''] exI[of _ zs] conjI) auto
qed

end

end
