(* ===== verification/KvOps.thy ===== *)
theory KvOps imports KvInv
begin

text \<open>
  The operations of a manager keep the contract \<open>manager_op\<close>: adopting cached blocks, allocating
  for externally computed tokens, allocating for new tokens (with the copy of a partial hit),
  dropping blocks behind the attention window, and freeing a request. Each \<open>cost\<close> is the number of
  free blocks the operation may take, and \<open>only_request\<close> says that the tables of other requests stay.
\<close>

section \<open>What an operation leaves alone\<close>

definition same_kind :: "kv_manager \<Rightarrow> kv_manager \<Rightarrow> bool" where
  "same_kind m m' \<longleftrightarrow> mgr_kind m' = mgr_kind m \<and> mgr_block_size m' = mgr_block_size m \<and>
     mgr_enable_caching m' = mgr_enable_caching m \<and> kv_group_id m' = kv_group_id m \<and>
     prefix_cacheable m' = prefix_cacheable m \<and> mgr_use_eagle m' = mgr_use_eagle m \<and>
     max_admission_blocks_per_request m' = max_admission_blocks_per_request m \<and>
     cache_hit_alignment_tokens m' = cache_hit_alignment_tokens m \<and>
     record_new_block_ids m' = record_new_block_ids m"

definition only_request :: "string \<Rightarrow> kv_manager \<Rightarrow> kv_manager \<Rightarrow> bool" where
  "only_request rid m m' \<longleftrightarrow> same_kind m m' \<and>
     (\<forall>r. r \<noteq> rid \<longrightarrow> blocks_of m' r = blocks_of m r \<and> num_cached_block m' r = num_cached_block m r \<and>
        partial_hit_reqs m' r = partial_hit_reqs m r)"

lemma only_request_refl [simp]: "only_request rid m m"
  by (simp add: only_request_def same_kind_def)

lemma only_request_trans: "only_request rid a b \<Longrightarrow> only_request rid b c \<Longrightarrow> only_request rid a c"
  by (simp add: only_request_def same_kind_def)

lemma only_put [simp]: "only_request rid m (put_blocks rid bs m)"
  by (simp add: only_request_def same_kind_def)

lemma only_access [simp]: "only_request rid m (access rid m)"
  by (simp add: access_def)

lemma access_frames [simp]:
  "mgr_kind (access rid m) = mgr_kind m" "mgr_block_size (access rid m) = mgr_block_size m"
  "mgr_enable_caching (access rid m) = mgr_enable_caching m"
  "record_new_block_ids (access rid m) = record_new_block_ids m"
  "num_cached_block (access rid m) = num_cached_block m"
  "partial_hit_reqs (access rid m) = partial_hit_reqs m"
  "pending_cow_copies (access rid m) = pending_cow_copies m"
  by (simp_all add: access_def)

lemma mgr_ok_put:
  assumes "mgr_ok m p" "\<And>b. b \<in> set bs \<Longrightarrow> b < num_gpu_blocks p"
  shows "mgr_ok (put_blocks rid bs m) p"
proof -
  have d: "distinct (map fst (req_to_blocks m))" using assms(1) by (simp add: mgr_ok_def)
  have "b < num_gpu_blocks p" if "b \<in> set (held (put_blocks rid bs m))" for b
  proof (cases "b \<in> set bs")
    case False
    then have "0 < cnt m b" using that cnt_put[OF d, of rid bs b] by (simp add: held_iff_cnt)
    then show ?thesis using assms(1) held_iff_cnt by (auto simp: mgr_ok_def)
  qed (rule assms(2))
  then show ?thesis using assms(1) d by (simp add: mgr_ok_def)
qed

lemma mgr_ok_access: "mgr_ok m p \<Longrightarrow> mgr_ok (access rid m) p"
  unfolding access_def by (rule mgr_ok_put) (auto simp: mgr_ok_def dest: table_in_held)

lemma mgr_ok_frames [simp]:
  "mgr_ok (m\<lparr>num_cached_block := c\<rparr>) p = mgr_ok m p" "mgr_ok (m\<lparr>partial_hit_reqs := h\<rparr>) p = mgr_ok m p"
  "mgr_ok (m\<lparr>new_block_ids := n\<rparr>) p = mgr_ok m p"
  by (simp_all add: mgr_ok_def)

lemma mgr_okD:
  assumes "mgr_ok m p"
  shows "0 < mgr_block_size m" "distinct (map fst (req_to_blocks m))"
    "b \<in> set (blocks_of m rid) \<Longrightarrow> b < num_gpu_blocks p" "b \<in> set (held m) \<Longrightarrow> b < num_gpu_blocks p"
  using assms table_in_held[of b m rid] by (auto simp: mgr_ok_def)

lemma skipped_nonneg: "kind_ok (mgr_kind m) \<Longrightarrow> 0 \<le> n \<Longrightarrow> 0 \<le> get_num_skipped_tokens m n"
  by (auto simp: get_num_skipped_tokens_def kind_ok_def pos_imp_zdiv_nonneg_iff split: mgr_kind.splits)

lemma skipped_le: "kind_ok (mgr_kind m) \<Longrightarrow> 0 \<le> n \<Longrightarrow> get_num_skipped_tokens m n \<le> n"
proof (cases "mgr_kind m")
  case (ChunkedLocal c)
  assume "kind_ok (mgr_kind m)"
  then have "0 < c" using ChunkedLocal by (simp add: kind_ok_def)
  then have "n div c * c \<le> n" using le_div_iff_mult[of c "n div c" n] by simp
  then show ?thesis using ChunkedLocal by (simp add: get_num_skipped_tokens_def)
qed (simp_all add: get_num_skipped_tokens_def kind_ok_def)

section \<open>Adopting cached blocks\<close>

definition num_skipped_blocks :: "kv_manager \<Rightarrow> int \<Rightarrow> int" where
  "num_skipped_blocks m n = get_num_skipped_tokens m n div mgr_block_size m"

lemma num_skipped_blocks_nonneg: "mgr_ok m p \<Longrightarrow> 0 \<le> n \<Longrightarrow> 0 \<le> num_skipped_blocks m n"
  using skipped_nonneg[of m n] by (simp add: num_skipped_blocks_def mgr_ok_def pos_imp_zdiv_nonneg_iff)

definition kept :: "kv_manager \<Rightarrow> int \<Rightarrow> nat list \<Rightarrow> nat list" where
  "kept m n new = drop (nat (num_skipped_blocks m n)) new"

definition special :: "kv_manager \<Rightarrow> bool" where
  "special m \<longleftrightarrow> mgr_kind m = CircularBuffer \<or> mgr_kind m = CrossAttention"

text \<open>The cached blocks of a hit exist, and a hit that ends inside a block ends in its last one.\<close>

definition hit_ok :: "int \<Rightarrow> nat list \<Rightarrow> kv_manager \<Rightarrow> block_pool \<Rightarrow> bool" where
  "hit_ok nlocal new m p \<longleftrightarrow> (\<forall>b \<in> set new. b < num_gpu_blocks p) \<and>
     (has_partial_local_hit m new nlocal \<longrightarrow>
        int (length new) = nlocal div mgr_block_size m + 1 \<and> \<not> is_null (blk p (last new)))"

definition add_pre :: "string \<Rightarrow> int \<Rightarrow> nat list \<Rightarrow> kv_manager \<Rightarrow> block_pool \<Rightarrow> bool" where
  "add_pre rid nlocal new m p \<longleftrightarrow> 0 \<le> nlocal \<and> (mgr_kind m = CrossAttention \<longrightarrow> new = []) \<and>
     (\<not> special m \<longrightarrow> blocks_of m rid = [] \<and> hit_ok nlocal new m p \<and> (\<not> mgr_enable_caching m \<longrightarrow> new = []))"

definition add_cost :: "int \<Rightarrow> nat list \<Rightarrow> kv_manager \<Rightarrow> block_pool \<Rightarrow> int" where
  "add_cost n new m p = (if special m then 0 else get_num_evictable_blocks p (kept m n new))"

definition add_post :: "string \<Rightarrow> int \<Rightarrow> int \<Rightarrow> nat list \<Rightarrow> kv_manager \<Rightarrow> block_pool \<Rightarrow> unit \<Rightarrow> kv_manager \<Rightarrow> bool" where
  "add_post rid nlocal n new m p _ m' \<longleftrightarrow> only_request rid m m' \<and>
     (if special m then m' = m
      else blocks_of m' rid = replicate (nat (num_skipped_blocks m n)) (null_block p) @ kept m n new \<and>
        partial_hit_reqs m' rid =
          (if has_partial_local_hit m (kept m n new) nlocal
           then Some (nlocal div mgr_block_size m, last new) else partial_hit_reqs m rid))"

lemma evictable_length:
  assumes f: "free_inv p xs" and lt: "\<And>b. b \<in> set new \<Longrightarrow> b < num_gpu_blocks p"
  shows "int (length xs) \<le> int (length (filter (\<lambda>x. x \<notin> set new) xs)) + get_num_evictable_blocks p new"
proof -
  have "length xs = length (filter (\<lambda>x. x \<notin> set new) xs) + length (filter (\<lambda>x. x \<in> set new) xs)"
    using sum_length_filter_compl[of "\<lambda>x. x \<notin> set new" xs] by simp
  moreover have "length (filter (\<lambda>x. x \<in> set new) xs) = card (set xs \<inter> set new)"
    using distinct_card[of "filter (\<lambda>x. x \<in> set new) xs"] free_invD(4)[OF f] by (simp add: Int_def)
  moreover have "set xs \<inter> set new \<subseteq> set (filter (\<lambda>b. ref_cnt (blk p b) = 0 \<and> \<not> is_null (blk p b)) new)"
    using free_invD(2)[OF f] by auto
  then have "card (set xs \<inter> set new) \<le> length (filter (\<lambda>b. ref_cnt (blk p b) = 0 \<and> \<not> is_null (blk p b)) new)"
    by (meson card_length card_mono finite_set order_trans)
  ultimately show ?thesis by (simp add: get_num_evictable_blocks_def)
qed

lemma evictable_mono:
  assumes "\<And>b. b \<in> set bs \<Longrightarrow> \<not> is_null (blk p b) \<Longrightarrow> 0 \<le> ref_cnt (blk p b) \<and> ref_cnt (blk p b) \<le> ref_cnt (blk p' b)"
    and "same_config p p'"
  shows "get_num_evictable_blocks p' bs \<le> get_num_evictable_blocks p bs"
proof -
  have "length (filter P xs) \<le> length (filter Q xs)" if "\<And>x. x \<in> set xs \<Longrightarrow> P x \<Longrightarrow> Q x"
    for P Q and xs :: "nat list"
    using that by (induction xs) (auto simp: le_SucI)
  note mono = this
  have "ref_cnt (blk p b) = 0 \<and> \<not> is_null (blk p b)"
    if "b \<in> set bs" "ref_cnt (blk p' b) = 0 \<and> \<not> is_null (blk p' b)" for b
    using assms(1)[OF that(1)] that(2) assms(2) by (auto simp: same_config_def)
  then show ?thesis unfolding get_num_evictable_blocks_def of_nat_le_iff by (intro mono) blast
qed

lemma add_local_transfer:
  assumes inv: "pool_inv p xs" and ok: "mgr_ok m p" and pre: "add_pre rid nlocal new m p" and sp: "\<not> special m"
    and n: "0 \<le> next"
  shows "\<exists>m' p' ys. add_local_computed_blocks rid nlocal next new m p = Inr (m', p') \<and> pool_inv p' ys \<and>
    int (length xs) \<le> int (length ys) + add_cost (nlocal + next) new m p \<and>
    transfers p p' (\<lambda>b. cnt m' b - cnt m b) \<and> mgr_ok m' p' \<and>
    add_post rid nlocal (nlocal + next) new m p () m' \<and> (\<forall>b. ref_cnt (blk p b) \<le> ref_cnt (blk p' b))"
proof -
  have f: "free_inv p xs" using inv by (simp add: pool_inv_def)
  let ?k = "num_skipped_blocks m (nlocal + next)"
  let ?new = "kept m (nlocal + next) new"
  have k: "0 \<le> ?k" using num_skipped_blocks_nonneg[OF ok] pre n by (simp add: add_pre_def)
  have lt: "b < num_gpu_blocks p" if "b \<in> set ?new" for b
    using that pre sp in_set_dropD[of b] by (auto simp: add_pre_def hit_ok_def kept_def)
  obtain p' where p': "touch ?new p = Inr p'" "pool_inv p' (filter (\<lambda>x. x \<notin> set ?new) xs)"
    "refs_changed p p' (\<lambda>i. int (count_list ?new i))"
    using touch_ok[OF inv, of ?new] lt by blast
  have t: "(if mgr_enable_caching m then touch ?new p
      else bind_res (assert_res (?new = []) AssertionError) (\<lambda>_. Inr p)) = Inr p'"
    using p'(1) pre sp by (auto simp: add_pre_def kept_def touch_def)
  have new: "(if 0 < ?k then drop (nat ?k) new else new) = ?new" using k by (auto simp: kept_def)
  have e: "blocks_of m rid = []" using pre sp by (simp add: add_pre_def)
  let ?bs = "replicate (nat ?k) (null_block p) @ ?new"
  let ?m1 = "(put_blocks rid ?bs m)\<lparr>num_cached_block := (num_cached_block m)(rid \<mapsto> int (length ?bs))\<rparr>"
  let ?i = "nlocal div mgr_block_size m"
  define m' where "m' = (if has_partial_local_hit m ?new nlocal
     then ?m1\<lparr>partial_hit_reqs := (partial_hit_reqs m)(rid \<mapsto> (?i, last ?new)),
       num_cached_block := (num_cached_block ?m1)(rid \<mapsto> ?i)\<rparr> else ?m1)"
  have nb: "null_block p' = null_block p" "num_gpu_blocks p' = num_gpu_blocks p"
    using p'(3) by (simp_all add: refs_changed_def)
  have run: "add_local_computed_blocks rid nlocal next new m p = Inr (m', p')"
    unfolding add_local_computed_blocks_def Let_def num_skipped_blocks_def[symmetric] new t
    using sp e by (simp add: special_def m'_def nb has_partial_local_hit_def)
  have null: "null_block p < num_gpu_blocks p" "is_null (blk p (null_block p))"
    using f by (simp_all add: free_inv_def)
  have "mgr_ok (put_blocks rid ?bs m) p" by (rule mgr_ok_put[OF ok]) (use lt null(1) in auto)
  then have "mgr_ok m' p" by (simp add: m'_def)
  then have ok': "mgr_ok m' p'"
    using mgr_ok_config transfers_config[OF refs_changed_transfers[OF p'(3)]] by blast
  have c: "cnt m' b - cnt m b = int (count_list ?bs b)" for b
    using cnt_put[OF mgr_okD(2)[OF ok], of rid ?bs b] e by (simp add: m'_def)
  have "count_list ?bs b = count_list ?new b" if "\<not> is_null (blk p b)" for b
    using that null(2) by (auto simp: count_list_append count_list_0_iff)
  then have tr: "transfers p p' (\<lambda>b. cnt m' b - cnt m b)"
    by (intro transfers_cong[OF refs_changed_transfers[OF p'(3)]]) (simp add: c)
  have "?new \<noteq> [] \<longrightarrow> last ?new = last new" by (simp add: kept_def last_drop)
  then have post: "add_post rid nlocal (nlocal + next) new m p () m'"
    using sp by (auto simp: add_post_def m'_def only_request_def same_kind_def has_partial_local_hit_def)
  have len: "int (length xs) \<le> int (length (filter (\<lambda>x. x \<notin> set ?new) xs)) + add_cost (nlocal + next) new m p"
    using evictable_length[OF f lt] sp by (simp add: add_cost_def)
  show ?thesis using run p'(2,3) len tr ok' post
    by (intro exI[of _ m'] exI[of _ p'] exI[of _ "filter (\<lambda>x. x \<notin> set ?new) xs"]) (simp add: refs_changed_def)
qed

lemma add_stable:
  assumes inv: "pool_inv p xs" and conf: "same_config p p'" and mono: "\<And>b. ref_cnt (blk p b) \<le> ref_cnt (blk p' b)"
    and pre: "add_pre rid nlocal new m p"
  shows "add_pre rid nlocal new m p' \<and> add_cost n new m p' \<le> add_cost n new m p \<and>
    (\<forall>y m'. add_post rid nlocal n new m p' y m' \<longrightarrow> add_post rid nlocal n new m p y m')"
proof -
  have f: "free_inv p xs" using inv by (simp add: pool_inv_def)
  have "get_num_evictable_blocks p' (kept m n new) \<le> get_num_evictable_blocks p (kept m n new)" if "\<not> special m"
  proof (rule evictable_mono[OF _ conf])
    fix b assume b: "b \<in> set (kept m n new)" "\<not> is_null (blk p b)"
    have "b < num_gpu_blocks p"
      using b(1) pre that in_set_dropD[of b] by (auto simp: add_pre_def hit_ok_def kept_def)
    then show "0 \<le> ref_cnt (blk p b) \<and> ref_cnt (blk p b) \<le> ref_cnt (blk p' b)"
      using free_invD(3)[OF f] b(2) mono by blast
  qed
  then show ?thesis using pre conf
    by (auto simp: add_pre_def add_cost_def add_post_def hit_ok_def same_config_def)
qed

interpretation adopt: manager_op "no_result (add_local_computed_blocks rid (int nlocal) (int nx))"
    "add_pre rid (int nlocal)" "add_cost (int nlocal + int nx)" "add_post rid (int nlocal) (int nlocal + int nx)"
  for rid nlocal nx
proof
  fix p :: block_pool and xs :: "nat list" and m :: kv_manager and a :: "nat list"
  assume inv: "pool_inv p xs" and ok: "mgr_ok m p" and pre: "add_pre rid (int nlocal) a m p"
  show "\<exists>x m' p' ys. no_result (add_local_computed_blocks rid (int nlocal) (int nx)) a m p = Inr (x, m', p') \<and>
      pool_inv p' ys \<and> int (length xs) \<le> int (length ys) + add_cost (int nlocal + int nx) a m p \<and>
      transfers p p' (\<lambda>b. cnt m' b - cnt m b) \<and> mgr_ok m' p' \<and>
      add_post rid (int nlocal) (int nlocal + int nx) a m p x m' \<and>
      (\<forall>b n. add_pre rid (int nlocal) b n p \<longrightarrow> add_pre rid (int nlocal) b n p' \<and>
         add_cost (int nlocal + int nx) b n p' \<le> add_cost (int nlocal + int nx) b n p \<and>
         (\<forall>y n'. add_post rid (int nlocal) (int nlocal + int nx) b n p' y n' \<longrightarrow>
            add_post rid (int nlocal) (int nlocal + int nx) b n p y n'))"
  proof (cases "special m")
    case True
    then have "add_local_computed_blocks rid (int nlocal) (int nx) a m p = Inr (m, p)"
      using pre by (auto simp: special_def add_local_computed_blocks_def add_pre_def)
    then show ?thesis using inv ok True
      by (intro exI[of _ "()"] exI[of _ m] exI[of _ p] exI[of _ xs])
        (auto simp: no_result_def add_post_def add_cost_def)
  next
    case False
    obtain m' p' ys where r: "add_local_computed_blocks rid (int nlocal) (int nx) a m p = Inr (m', p')"
      "pool_inv p' ys" "int (length xs) \<le> int (length ys) + add_cost (int nlocal + int nx) a m p"
      "transfers p p' (\<lambda>b. cnt m' b - cnt m b)" "mgr_ok m' p'"
      "add_post rid (int nlocal) (int nlocal + int nx) a m p () m'"
      "\<And>b. ref_cnt (blk p b) \<le> ref_cnt (blk p' b)"
      using add_local_transfer[OF inv ok pre False, of "int nx"] by auto
    show ?thesis using r add_stable[OF inv transfers_config[OF r(4)] r(7)]
      by (intro exI[of _ "()"] exI[of _ m'] exI[of _ p'] exI[of _ ys]) (simp add: no_result_def)
  qed
qed (simp add: add_cost_def get_num_evictable_blocks_def)

end
