(* ===== verification/KvAlloc.thy ===== *)
theory KvAlloc imports KvOps
begin

text \<open>
  Allocation by one manager: \<open>allocate_external_computed_blocks\<close> and \<open>allocate_new_blocks\<close>, with the
  copy-on-write redirection of a partial hit. The locale \<open>manager_alloc\<close> extends the contract by
  where the returned blocks come from: they were free, nobody held them, and no later operation of
  the same loop returns them again.
\<close>

section \<open>The free blocks\<close>

definition free_set :: "block_pool \<Rightarrow> nat set" where
  "free_set p = {b. b < num_gpu_blocks p \<and> \<not> is_null (blk p b) \<and> ref_cnt (blk p b) = 0}"

lemma pool_inv_free_set: "pool_inv p xs \<Longrightarrow> set xs = free_set p"
  using free_invD(2)[of p xs] by (auto simp: pool_inv_def free_set_def)

lemma free_not_held: "accounted ext ms p \<Longrightarrow> b \<in> free_set p \<Longrightarrow> m \<in> set ms \<Longrightarrow> cnt m b = 0"
  using accounted_backed[of ext ms p m] by (fastforce simp: free_set_def backed_def cnt_def)

locale manager_alloc = manager_op f pre cost post
  for f :: "'a \<Rightarrow> kv_manager \<Rightarrow> block_pool \<Rightarrow> (nat list \<times> kv_manager \<times> block_pool) res" and pre cost post +
  assumes taken: "pool_inv p xs \<Longrightarrow> mgr_ok m p \<Longrightarrow> backed m p \<Longrightarrow> pre a m p \<Longrightarrow> cost a m p \<le> int (length xs) \<Longrightarrow>
      f a m p = Inr (x, m', p') \<Longrightarrow>
      free_set p' \<subseteq> free_set p \<and> set x \<subseteq> free_set p - free_set p' \<and>
      (\<forall>b. b \<notin> set x \<longrightarrow> cnt m' b = cnt m b)"
begin

lemma each_taken:
  assumes "pool_inv p xs" "\<And>m. m \<in> set ms \<Longrightarrow> mgr_ok m p" "accounted ext ms p" "length ms \<le> length as"
    and "\<And>i. i < length ms \<Longrightarrow> pre (as ! i) (ms ! i) p"
    and "(\<Sum>i < length ms. cost (as ! i) (ms ! i) p) \<le> int (length xs)"
    and "each_manager f as ms p = Inr (os, ms', p')"
  shows "free_set p' \<subseteq> free_set p \<and> (\<forall>i < length ms. set (os ! i) \<subseteq> free_set p - free_set p' \<and>
      (\<forall>b. b \<notin> set (os ! i) \<longrightarrow> cnt (ms' ! i) b = cnt (ms ! i) b) \<and>
      (\<forall>j < length ms. j \<noteq> i \<longrightarrow> set (os ! i) \<inter> set (os ! j) = {}))"
  using assms
proof (induction ms arbitrary: as p xs ext os ms')
  case Nil
  then show ?case by simp
next
  case (Cons m ms)
  obtain a as' where as: "as = a # as'" using Cons.prems(4) by (cases as) auto
  have split: "(\<Sum>i < length (m # ms). cost (as ! i) ((m # ms) ! i) q)
      = cost a m q + (\<Sum>i < length ms. cost (as' ! i) (ms ! i) q)" for q
    using as by (simp only: length_Cons sum.lessThan_Suc_shift) simp
  have pre: "pre a m p" "\<And>i. i < length ms \<Longrightarrow> pre (as' ! i) (ms ! i) p"
    using Cons.prems(5)[of 0] Cons.prems(5)[of "Suc _"] as by auto
  have ok: "mgr_ok m p" "\<And>n. n \<in> set ms \<Longrightarrow> mgr_ok n p" using Cons.prems(2) by auto
  have nn: "0 \<le> (\<Sum>i < length ms. cost (as' ! i) (ms ! i) p)"
    using cost_nonneg ok(2) pre(2) by (intro sum_nonneg) auto
  have b: "backed m p" using accounted_backed[OF Cons.prems(3), of m] by simp
  have c: "cost a m p \<le> int (length xs)" using Cons.prems(6) split[of p] nn by linarith
  obtain x m1 p1 ys where s: "f a m p = Inr (x, m1, p1)" "pool_inv p1 ys"
    "int (length xs) \<le> int (length ys) + cost a m p" "transfers p p1 (\<lambda>b. cnt m1 b - cnt m b)"
    "\<And>b n. pre b n p \<Longrightarrow> pre b n p1 \<and> cost b n p1 \<le> cost b n p"
    using runs[OF Cons.prems(1) ok(1) b pre(1) c] by blast
  from Cons.prems(7) s(1) as obtain os' ms'' where r: "each_manager f as' ms p1 = Inr (os', ms'', p')"
    "os = x # os'" "ms' = m1 # ms''"
    by (auto simp: py_get_def py_index_def bind_res_eq_Inr)
  have le: "(\<Sum>i < length ms. cost (as' ! i) (ms ! i) p1) \<le> (\<Sum>i < length ms. cost (as' ! i) (ms ! i) p)"
    using s(5) pre(2) by (intro sum_mono) auto
  have h: "free_set p1 \<subseteq> free_set p" "set x \<subseteq> free_set p - free_set p1" "\<And>b. b \<notin> set x \<Longrightarrow> cnt m1 b = cnt m b"
    using taken[OF Cons.prems(1) ok(1) b pre(1) c s(1)] by auto
  have "free_set p' \<subseteq> free_set p1 \<and> (\<forall>i < length ms. set (os' ! i) \<subseteq> free_set p1 - free_set p' \<and>
      (\<forall>b. b \<notin> set (os' ! i) \<longrightarrow> cnt (ms'' ! i) b = cnt (ms ! i) b) \<and>
      (\<forall>j < length ms. j \<noteq> i \<longrightarrow> set (os' ! i) \<inter> set (os' ! j) = {}))"
  proof (rule Cons.IH[OF s(2) _ accounted_step[OF Cons.prems(3) s(4)] _ _ _ r(1)])
    show "mgr_ok n p1" if "n \<in> set ms" for n using mgr_ok_config[OF transfers_config[OF s(4)] ok(2)[OF that]] .
    show "length ms \<le> length as'" using Cons.prems(4) as by simp
    show "pre (as' ! i) (ms ! i) p1" if "i < length ms" for i using s(5)[OF pre(2)[OF that]] by blast
    show "(\<Sum>i < length ms. cost (as' ! i) (ms ! i) p1) \<le> int (length ys)"
      using Cons.prems(6) split[of p] s(3) le by linarith
  qed
  note t = conjunct1[OF this] conjunct2[OF this, rule_format]
  have "set ((x # os') ! i) \<subseteq> free_set p - free_set p' \<and>
      (\<forall>b. b \<notin> set ((x # os') ! i) \<longrightarrow> cnt ((m1 # ms'') ! i) b = cnt ((m # ms) ! i) b) \<and>
      (\<forall>j < length (m # ms). j \<noteq> i \<longrightarrow> set ((x # os') ! i) \<inter> set ((x # os') ! j) = {})"
    if i: "i < length (m # ms)" for i
  proof (cases i)
    case 0
    have "set x \<inter> set ((x # os') ! j) = {}" if "j < length (m # ms)" "j \<noteq> 0" for j
      using t(2)[of "j - 1"] that h(2) by (cases j) auto
    then show ?thesis using 0 h t(1) by auto
  next
    case (Suc k)
    have k: "k < length ms" using i Suc by simp
    have "set (os' ! k) \<inter> set ((x # os') ! j) = {}" if "j < length (m # ms)" "j \<noteq> i" for j
      using t(2)[OF k] that h(2) Suc by (cases j) auto
    then show ?thesis using t(2)[OF k] Suc h(1) by auto
  qed
  then show ?case using h(1) t(1) r(2,3) by auto
qed

end

section \<open>Growing a table\<close>

lemma count_distinct: "distinct xs \<Longrightarrow> count_list xs b = (if b \<in> set xs then 1 else 0)"
  by (induction xs) auto

lemma grow_ok:
  assumes inv: "pool_inv p xs" and ok: "mgr_ok m p" and n: "0 \<le> n" "n \<le> int (length xs)"
  shows "\<exists>m' p' ys bs. grow_blocks rid n m p = Inr (bs, m', p') \<and> pool_inv p' ys \<and>
    int (length xs) = int (length ys) + n \<and> transfers p p' (\<lambda>b. cnt m' b - cnt m b) \<and> mgr_ok m' p' \<and>
    only_request rid m m' \<and> blocks_of m' rid = blocks_of m rid @ bs \<and> int (length bs) = n \<and>
    num_cached_block m' rid = num_cached_block m rid \<and> partial_hit_reqs m' = partial_hit_reqs m \<and>
    pending_cow_copies m' = pending_cow_copies m \<and>
    set ys \<subseteq> set xs \<and> set bs \<subseteq> set xs - set ys \<and> (\<forall>b. b \<notin> set bs \<longrightarrow> cnt m' b = cnt m b)"
proof -
  let ?k = "nat n"
  let ?bs = "take ?k xs"
  have f: "free_inv p xs" using inv by (simp add: pool_inv_def)
  have D: "distinct xs" using free_invD(4)[OF f] .
  have k: "?k \<le> length xs" using n by linarith
  obtain p' where p': "get_new_blocks n p = Inr (?bs, p')" "pool_inv p' (drop ?k xs)"
    "refs_changed p p' (\<lambda>i. if i \<in> set ?bs then 1 else 0)"
    using get_new_blocks_ok[OF inv k, unfolded int_nat_eq if_P[OF n(1)]] by blast
  let ?m1 = "put_blocks rid (blocks_of m rid @ ?bs) m"
  define m' where "m' = (if record_new_block_ids ?m1 then ?m1\<lparr>new_block_ids := new_block_ids ?m1 @ ?bs\<rparr> else ?m1)"
  have run: "grow_blocks rid n m p = Inr (?bs, m', p')" using p'(1) by (simp add: grow_blocks_def m'_def Let_def)
  have lt: "b < num_gpu_blocks p" if "b \<in> set (blocks_of m rid @ ?bs)" for b
  proof (cases "b \<in> set (blocks_of m rid)")
    case False
    then have "b \<in> set xs" using that in_set_takeD[of b ?k xs] by simp
    then show ?thesis using free_invD(2)[OF f, of b] by blast
  qed (rule mgr_okD(3)[OF ok])
  have "mgr_ok ?m1 p" by (rule mgr_ok_put[OF ok lt])
  then have "mgr_ok m' p" by (simp add: m'_def)
  then have ok': "mgr_ok m' p'" using mgr_ok_config transfers_config[OF refs_changed_transfers[OF p'(3)]] by blast
  have c: "cnt m' b = cnt m b + (if b \<in> set ?bs then 1 else 0)" for b
    using cnt_put[OF mgr_okD(2)[OF ok], of rid "blocks_of m rid @ ?bs" b] count_distinct[of ?bs b] D
    by (simp add: m'_def)
  have tr: "transfers p p' (\<lambda>b. cnt m' b - cnt m b)"
    by (intro transfers_cong[OF refs_changed_transfers[OF p'(3)]]) (simp add: c)
  have sub: "set ?bs \<subseteq> set xs - set (drop ?k xs)" "set (drop ?k xs) \<subseteq> set xs"
    using set_take_disj_set_drop_if_distinct[OF D order.refl, of ?k] set_take_subset set_drop_subset by fast+
  have o: "only_request rid m m'" "blocks_of m' rid = blocks_of m rid @ ?bs"
    "num_cached_block m' rid = num_cached_block m rid" "partial_hit_reqs m' = partial_hit_reqs m"
    "pending_cow_copies m' = pending_cow_copies m"
    by (auto simp: m'_def only_request_def same_kind_def)
  have len: "int (length xs) = int (length (drop ?k xs)) + n" "int (length ?bs) = n" using n by auto
  have cb: "\<forall>b. b \<notin> set ?bs \<longrightarrow> cnt m' b = cnt m b" using c by simp
  show ?thesis
    by (intro exI[of _ m'] exI[of _ p'] exI[of _ "drop ?k xs"] exI[of _ ?bs] conjI run p'(2) len tr ok' o sub cb)
qed

lemma claim_ok:
  assumes inv: "pool_inv p xs" and ok: "mgr_ok m p" and n: "(if blocks_of m rid = [] then 1 else 0) \<le> int (length xs)"
  shows "\<exists>m' p' ys bs. claim_ring_block rid m p = Inr (bs, m', p') \<and> pool_inv p' ys \<and>
    int (length xs) = int (length ys) + (if blocks_of m rid = [] then 1 else 0) \<and>
    transfers p p' (\<lambda>b. cnt m' b - cnt m b) \<and> mgr_ok m' p' \<and>
    only_request rid m m' \<and> blocks_of m' rid = blocks_of m rid @ bs \<and> int (length bs) = (if blocks_of m rid = [] then 1 else 0) \<and>
    num_cached_block m' rid = num_cached_block m rid \<and> partial_hit_reqs m' = partial_hit_reqs m \<and>
    set ys \<subseteq> set xs \<and> set bs \<subseteq> set xs - set ys \<and> (\<forall>b. b \<notin> set bs \<longrightarrow> cnt m' b = cnt m b)"
proof -
  let ?m = "access rid m"
  have ok1: "mgr_ok ?m p" by (rule mgr_ok_access[OF ok])
  have c: "cnt ?m b = cnt m b" for b using mgr_okD(2)[OF ok] by simp
  show ?thesis
  proof (cases "blocks_of m rid = []")
    case False
    then have "claim_ring_block rid m p = Inr ([], ?m, p)" by (simp add: claim_ring_block_def)
    then show ?thesis using False inv ok1 c
      by (intro exI[of _ ?m] exI[of _ p] exI[of _ xs] exI[of _ "[]"]) simp
  next
    case True
    obtain m' p' ys bs where g: "grow_blocks rid 1 ?m p = Inr (bs, m', p')" "pool_inv p' ys"
      "int (length xs) = int (length ys) + 1" "transfers p p' (\<lambda>b. cnt m' b - cnt ?m b)" "mgr_ok m' p'"
      "only_request rid ?m m'" "blocks_of m' rid = blocks_of ?m rid @ bs" "int (length bs) = 1"
      "num_cached_block m' rid = num_cached_block ?m rid" "partial_hit_reqs m' = partial_hit_reqs ?m"
      "set ys \<subseteq> set xs" "set bs \<subseteq> set xs - set ys" "\<forall>b. b \<notin> set bs \<longrightarrow> cnt m' b = cnt ?m b"
      using grow_ok[OF inv ok1, of 1 rid] n True by auto
    have "claim_ring_block rid m p = Inr (bs, m', p')" using True g(1) by (simp add: claim_ring_block_def)
    then show ?thesis using g True only_request_trans[OF only_access g(6)] c
      by (intro exI[of _ m'] exI[of _ p'] exI[of _ ys] exI[of _ bs]) auto
  qed
qed

section \<open>External tokens\<close>

definition external_left :: "kv_manager \<Rightarrow> int \<Rightarrow> int \<Rightarrow> int" where
  "external_left m n nx = (let s = get_num_skipped_tokens m n in if 0 < s then min (n - s) nx else nx)"

definition external_cost :: "string \<Rightarrow> int \<Rightarrow> int \<Rightarrow> kv_manager \<Rightarrow> int" where
  "external_cost rid n nx m =
     (if mgr_kind m = CircularBuffer then (if blocks_of m rid = [] then 1 else 0)
      else if mgr_kind m = CrossAttention \<or> external_left m n nx \<le> 0 then 0
      else max 0 (cdiv n (mgr_block_size m) - int (length (blocks_of m rid))))"

definition external_post :: "string \<Rightarrow> int \<Rightarrow> int \<Rightarrow> kv_manager \<Rightarrow> kv_manager \<Rightarrow> bool" where
  "external_post rid n nx m m' \<longleftrightarrow> only_request rid m m' \<and>
     (\<exists>bs. blocks_of m' rid = blocks_of m rid @ bs \<and> int (length bs) = external_cost rid n nx m) \<and>
     num_cached_block m' rid = num_cached_block m rid \<and> partial_hit_reqs m' = partial_hit_reqs m"

lemma external_ok:
  assumes inv: "pool_inv p xs" and ok: "mgr_ok m p" and n: "external_cost rid (nlocal + nx) nx m \<le> int (length xs)"
  shows "\<exists>m' p' ys. allocate_external_computed_blocks rid nlocal nx m p = Inr (m', p') \<and> pool_inv p' ys \<and>
    int (length xs) = int (length ys) + external_cost rid (nlocal + nx) nx m \<and>
    transfers p p' (\<lambda>b. cnt m' b - cnt m b) \<and> mgr_ok m' p' \<and> external_post rid (nlocal + nx) nx m m'"
proof -
  consider (ring) "mgr_kind m = CircularBuffer"
    | (none) "mgr_kind m \<noteq> CircularBuffer" "mgr_kind m = CrossAttention \<or> external_left m (nlocal + nx) nx \<le> 0"
    | (some) "mgr_kind m \<noteq> CircularBuffer" "mgr_kind m \<noteq> CrossAttention" "0 < external_left m (nlocal + nx) nx"
    by linarith
  then show ?thesis
  proof cases
    case ring
    obtain m' p' ys bs where g: "claim_ring_block rid m p = Inr (bs, m', p')" "pool_inv p' ys"
      "int (length xs) = int (length ys) + (if blocks_of m rid = [] then 1 else 0)"
      "transfers p p' (\<lambda>b. cnt m' b - cnt m b)" "mgr_ok m' p'"
      "only_request rid m m'" "blocks_of m' rid = blocks_of m rid @ bs"
      "num_cached_block m' rid = num_cached_block m rid" "partial_hit_reqs m' = partial_hit_reqs m"
      "int (length bs) = (if blocks_of m rid = [] then 1 else 0)"
      using claim_ok[OF inv ok, of rid] n ring by (auto simp: external_cost_def)
    show ?thesis using ring g by (intro exI[of _ m'] exI[of _ p'] exI[of _ ys])
        (auto simp: allocate_external_computed_blocks_def external_cost_def external_post_def)
  next
    case none
    then have "allocate_external_computed_blocks rid nlocal nx m p = Inr (m, p)"
      by (auto simp: allocate_external_computed_blocks_def external_left_def Let_def)
    then show ?thesis using none inv ok
      by (intro exI[of _ m] exI[of _ p] exI[of _ xs]) (auto simp: external_cost_def external_post_def)
  next
    case some
    let ?m = "access rid m"
    let ?n = "max 0 (cdiv (nlocal + nx) (mgr_block_size m) - int (length (blocks_of m rid)))"
    have e: "external_cost rid (nlocal + nx) nx m = ?n" using some by (simp add: external_cost_def)
    have c: "cnt ?m b = cnt m b" for b using mgr_okD(2)[OF ok] by simp
    obtain m' p' ys bs where g: "grow_blocks rid ?n ?m p = Inr (bs, m', p')" "pool_inv p' ys"
      "int (length xs) = int (length ys) + ?n" "transfers p p' (\<lambda>b. cnt m' b - cnt ?m b)" "mgr_ok m' p'"
      "only_request rid ?m m'" "blocks_of m' rid = blocks_of ?m rid @ bs" "int (length bs) = ?n"
      "num_cached_block m' rid = num_cached_block ?m rid" "partial_hit_reqs m' = partial_hit_reqs ?m"
      using grow_ok[OF inv mgr_ok_access[OF ok], of ?n rid rid] n e by auto
    have "\<not> (let s = get_num_skipped_tokens m (nlocal + nx) in if 0 < s then min (nlocal + nx - s) nx else nx) \<le> 0"
      using some(3) by (simp add: external_left_def)
    then have "allocate_external_computed_blocks rid nlocal nx m p = Inr (m', p')"
      using some(1,2) g(1) unfolding allocate_external_computed_blocks_def Let_def by simp
    then show ?thesis using g e c only_request_trans[OF only_access g(6)]
      by (intro exI[of _ m'] exI[of _ p'] exI[of _ ys]) (auto simp: external_post_def)
  qed
qed

interpretation extern: manager_op "no_result (\<lambda>_::kv_manager. allocate_external_computed_blocks rid nlocal nx)"
    "\<lambda>_ _ _. True" "\<lambda>_ m _. max 0 (external_cost rid (nlocal + nx) nx m)"
    "\<lambda>_ m _ _ m'. external_post rid (nlocal + nx) nx m m'"
  for rid nlocal nx
proof
  fix p :: block_pool and xs :: "nat list" and m :: kv_manager
  assume "pool_inv p xs" "mgr_ok m p" "max 0 (external_cost rid (nlocal + nx) nx m) \<le> int (length xs)"
  then obtain m' p' ys where r: "allocate_external_computed_blocks rid nlocal nx m p = Inr (m', p')" "pool_inv p' ys"
    "int (length xs) = int (length ys) + external_cost rid (nlocal + nx) nx m"
    "transfers p p' (\<lambda>b. cnt m' b - cnt m b)" "mgr_ok m' p'" "external_post rid (nlocal + nx) nx m m'"
    using external_ok[of p xs m rid nlocal nx] by auto
  then show "\<exists>x m' p' ys. no_result (\<lambda>_::kv_manager. allocate_external_computed_blocks rid nlocal nx) a m p = Inr (x, m', p') \<and>
      pool_inv p' ys \<and> int (length xs) \<le> int (length ys) + max 0 (external_cost rid (nlocal + nx) nx m) \<and>
      transfers p p' (\<lambda>b. cnt m' b - cnt m b) \<and> mgr_ok m' p' \<and> external_post rid (nlocal + nx) nx m m' \<and>
      (\<forall>b n. True \<longrightarrow> True \<and> max 0 (external_cost rid (nlocal + nx) nx n) \<le> max 0 (external_cost rid (nlocal + nx) nx n) \<and>
         (\<forall>y n'. external_post rid (nlocal + nx) nx n n' \<longrightarrow> external_post rid (nlocal + nx) nx n n'))" for a
    by (intro exI[of _ "()"] exI[of _ m'] exI[of _ p'] exI[of _ ys]) (simp add: no_result_def)
qed simp

section \<open>New tokens\<close>

lemma count_list_update:
  "i < length xs \<Longrightarrow> int (count_list (xs[i := y]) b) =
    int (count_list xs b) - (if xs ! i = b then 1 else 0) + (if y = b then 1 else 0)"
proof (induction xs arbitrary: i)
  case (Cons x xs)
  show ?case
  proof (cases i)
    case (Suc k)
    then have "k < length xs" using Cons.prems by simp
    from Cons.IH[OF this] show ?thesis using Suc by (auto split: if_splits)
  qed simp
qed simp

lemma only_pending [simp]:
  "only_request rid a (c\<lparr>pending_cow_copies := q\<rparr>) = only_request rid a c"
  by (simp add: only_request_def same_kind_def)

definition cow_ok :: "string \<Rightarrow> kv_manager \<Rightarrow> block_pool \<Rightarrow> bool" where
  "cow_ok rid m p = (case partial_hit_reqs m rid of None \<Rightarrow> True
     | Some (i, s) \<Rightarrow> 0 \<le> i \<and> i < int (length (blocks_of m rid)) \<and> blocks_of m rid ! nat i = s \<and>
         \<not> is_null (blk p s))"

definition cow_cost :: "string \<Rightarrow> kv_manager \<Rightarrow> int" where
  "cow_cost rid m = (if partial_hit_reqs m rid = None then 0 else 1)"

lemma apply_cow_ok:
  assumes ok: "mgr_ok m p" and i: "0 \<le> i" "i < int (length (blocks_of m rid))" "blocks_of m rid ! nat i = s"
    and s: "\<not> is_null (blk p s)" "0 < ref_cnt (blk p s)" and c: "c < num_gpu_blocks p"
  defines "m' \<equiv> (put_blocks rid ((blocks_of m rid)[nat i := c]) (access rid m))
      \<lparr>pending_cow_copies := pending_cow_copies m @ [(s, c)]\<rparr>"
    and "p' \<equiv> upd_blk c (ref_cnt_update (\<lambda>n. n + 1)) p"
  shows "apply_cow rid i s c m p = Inr (m', p')" "mgr_ok m' p"
    "cnt m' b = cnt m b + (if b = c then 2 else 0)" "only_request rid m m'"
    "blocks_of m' rid = (blocks_of m rid)[nat i := c]" "num_cached_block m' = num_cached_block m"
    "partial_hit_reqs m' = partial_hit_reqs m"
proof -
  let ?bs = "(blocks_of m rid)[nat i := c]"
  have n: "nat i < length (blocks_of m rid)" using i by simp
  show "apply_cow rid i s c m p = Inr (m', p')"
    using i s n by (simp add: apply_cow_def Let_def py_get_def py_index_def m'_def p'_def)
  have d: "distinct (map fst (req_to_blocks (access rid m)))"
    using mgr_okD(2)[OF mgr_ok_access[OF ok]] .
  have pm: "pending_cow_copies m = pending_cow_copies (put_blocks rid ?bs (access rid m))" by simp
  have cnt: "cnt m' b = cnt m b + (if b = c then 2 else 0)" for b
    using cnt_pending[of "put_blocks rid ?bs (access rid m)" s c b] cnt_put[OF d, of rid ?bs b]
      count_list_update[OF n, of c b] i(3) mgr_okD(2)[OF ok]
    unfolding m'_def pm by auto
  then show "cnt m' b = cnt m b + (if b = c then 2 else 0)" .
  have "b < num_gpu_blocks p" if "b \<in> set (held m')" for b
    using that cnt[of b] c mgr_okD(4)[OF ok, of b] by (auto simp: held_iff_cnt split: if_splits)
  then show "mgr_ok m' p" using ok d by (simp add: mgr_ok_def m'_def put_blocks_def distinct_update)
  show "only_request rid m m'"
    using only_request_trans[OF only_access only_put] by (simp add: m'_def)
  show "blocks_of m' rid = ?bs" "num_cached_block m' = num_cached_block m" "partial_hit_reqs m' = partial_hit_reqs m"
    by (simp_all add: m'_def)
qed

lemma redirect_ok:
  assumes inv: "pool_inv p xs" and ok: "mgr_ok m p" and b: "backed m p" and c: "cow_ok rid m p"
    and n: "cow_cost rid m \<le> int (length xs)"
  shows "\<exists>m' p' ys out. redirect_partial_hit rid m p = Inr (out, m', p') \<and> pool_inv p' ys \<and>
    int (length xs) = int (length ys) + cow_cost rid m \<and> transfers p p' (\<lambda>b. cnt m' b - cnt m b) \<and> mgr_ok m' p' \<and>
    only_request rid m m' \<and> length (blocks_of m' rid) = length (blocks_of m rid) \<and>
    num_cached_block m' rid = num_cached_block m rid \<and> partial_hit_reqs m' rid = None \<and>
    set (blocks_of m' rid) \<subseteq> set (blocks_of m rid) \<union> set out \<and>
    set ys \<subseteq> set xs \<and> set out \<subseteq> set xs - set ys \<and> (\<forall>b. b \<notin> set out \<longrightarrow> cnt m' b = cnt m b)"
proof (cases "partial_hit_reqs m rid")
  case None
  then show ?thesis using inv ok
    by (intro exI[of _ m] exI[of _ p] exI[of _ xs] exI[of _ "[]"]) (simp add: redirect_partial_hit_def cow_cost_def)
next
  case (Some e)
  obtain i s where e: "e = (i, s)" by fastforce
  have f: "free_inv p xs" using inv by (simp add: pool_inv_def)
  obtain c xs' where xs: "xs = c # xs'" using n Some by (cases xs) (auto simp: cow_cost_def)
  have "1 \<le> length xs" using xs by simp
  from get_new_blocks_ok[OF inv this] obtain p1 where p1: "get_new_blocks 1 p = Inr ([c], p1)" "pool_inv p1 xs'"
    "refs_changed p p1 (\<lambda>i. if i = c then 1 else 0)" using xs by auto
  have cf: "c < num_gpu_blocks p" "ref_cnt (blk p c) = 0" "c \<notin> set xs'"
    using free_invD(2)[OF f, of c] free_invD(4)[OF f] xs by auto
  have I: "0 \<le> i" "i < int (length (blocks_of m rid))" "blocks_of m rid ! nat i = s" "\<not> is_null (blk p s)"
    using c Some e by (auto simp: cow_ok_def)
  have "s \<in> set (blocks_of m rid)" using I(1-3) by (auto simp: in_set_conv_nth intro!: exI[of _ "nat i"])
  then have sh: "s \<in> set (held m)" by (rule table_in_held)
  then have "0 < ref_cnt (blk p s)"
    using b I(4) mgr_okD(4)[OF ok sh] by (fastforce simp: backed_def held_iff_cnt)
  moreover have ch: "ref_cnt (blk p1 b) = ref_cnt (blk p b) + (if b = c then 1 else 0)"
    "is_null (blk p1 b) = is_null (blk p b)" for b
    using p1(3) by (simp_all add: refs_changed_def)
  ultimately have s1: "\<not> is_null (blk p1 s)" "0 < ref_cnt (blk p1 s)" using I(4) cf(2) by auto
  let ?m = "m\<lparr>partial_hit_reqs := (partial_hit_reqs m)(rid := None)\<rparr>"
  note conf = transfers_config[OF refs_changed_transfers[OF p1(3)]]
  have ok1: "mgr_ok ?m p1" using mgr_ok_config[OF conf ok] by simp
  have c1: "c < num_gpu_blocks p1" using cf(1) conf by (simp add: same_config_def)
  let ?m2 = "(put_blocks rid ((blocks_of ?m rid)[nat i := c]) (access rid ?m))
      \<lparr>pending_cow_copies := pending_cow_copies ?m @ [(s, c)]\<rparr>"
  let ?p2 = "upd_blk c (ref_cnt_update (\<lambda>n. n + 1)) p1"
  have I': "i < int (length (blocks_of ?m rid))" "blocks_of ?m rid ! nat i = s" using I by simp_all
  note ap = apply_cow_ok[OF ok1 I(1) I' s1 c1]
  let ?m' = "?m2\<lparr>new_block_ids := new_block_ids ?m2 @ [c]\<rparr>"
  have run: "redirect_partial_hit rid m p = Inr ([c], ?m', ?p2)"
    using Some e p1(1) ap(1) by (simp add: redirect_partial_hit_def py_get_def py_index_def)
  have inv2: "pool_inv ?p2 xs'"
  proof -
    have c2: "cache_inv p1" "free_inv p1 xs'" using p1(2) by (simp_all add: pool_inv_def)
    have q: "queue_repr (queue ?p2) xs'" using same_queue_repr[OF upd_ref_frames(3)] free_invD(1)[OF c2(2)] by simp
    have "ref_cnt (blk p1 c) = 1" using p1(3) cf(2) by (simp add: refs_changed_def)
    then have "free_inv ?p2 xs'"
      using free_invD(2,3)[OF c2(2)] cf(3)
      by (intro free_inv_step[OF c2(2) upd_ref_frames(1)[of p1 c 1] q]) auto
    then show ?thesis using cache_inv_same[OF upd_ref_frames(4) c2(1)] by (simp add: pool_inv_def)
  qed
  have r: "refs_changed p ?p2 (\<lambda>i. (if i = c then 1 else 0) + (if i = c then 1 else 0))"
    by (rule refs_changed_trans[OF p1(3) upd_ref_frames(1)])
  have cm: "cnt ?m' b = cnt m b + (if b = c then 2 else 0)" for b using ap(3)[of b] by simp
  have tr: "transfers p ?p2 (\<lambda>b. cnt ?m' b - cnt m b)"
    by (intro transfers_cong[OF refs_changed_transfers[OF r]]) (simp only: cm, simp)
  have ok2: "mgr_ok ?m' ?p2"
    using mgr_ok_config[OF transfers_config[OF refs_changed_transfers[OF upd_ref_frames(1)[of p1 c 1]]]] ap(2) by simp
  have o: "only_request rid m ?m'"
    using ap(4) by (simp add: only_request_def same_kind_def)
  have sub: "set (blocks_of ?m' rid) \<subseteq> set (blocks_of m rid) \<union> set [c]"
    using set_update_subset_insert[of "blocks_of m rid" "nat i" c] by simp
  show ?thesis
    using run inv2 tr ok2 o sub xs cf(3) cm Some
    by (intro exI[of _ ?m'] exI[of _ ?p2] exI[of _ xs'] exI[of _ "[c]"] conjI) (auto simp: cow_cost_def)
qed

definition alloc_tokens :: "int \<Rightarrow> int \<Rightarrow> kv_manager \<Rightarrow> int" where
  "alloc_tokens ntok nenc m = (if mgr_kind m = CrossAttention then nenc else ntok)"

definition alloc_cost :: "string \<Rightarrow> int \<Rightarrow> int \<Rightarrow> kv_manager \<Rightarrow> int" where
  "alloc_cost rid ntok nenc m =
     (if mgr_kind m = CircularBuffer then (if blocks_of m rid = [] then 1 else 0)
      else cow_cost rid m +
        max 0 (cdiv (alloc_tokens ntok nenc m) (mgr_block_size m) - int (length (blocks_of m rid))))"

definition alloc_post :: "string \<Rightarrow> int \<Rightarrow> int \<Rightarrow> kv_manager \<Rightarrow> nat list \<Rightarrow> kv_manager \<Rightarrow> bool" where
  "alloc_post rid ntok nenc m out m' \<longleftrightarrow> only_request rid m m' \<and>
     num_cached_block m' rid = num_cached_block m rid \<and>
     (if mgr_kind m = CircularBuffer then blocks_of m' rid \<noteq> []
      else partial_hit_reqs m' rid = None \<and>
        int (length (blocks_of m' rid)) =
          max (int (length (blocks_of m rid))) (cdiv (alloc_tokens ntok nenc m) (mgr_block_size m))) \<and>
     set (blocks_of m' rid) \<subseteq> set (blocks_of m rid) \<union> set out"

lemma alloc_ok:
  assumes inv: "pool_inv p xs" and ok: "mgr_ok m p" and b: "backed m p" and c: "cow_ok rid m p"
    and n: "alloc_cost rid ntok nenc m \<le> int (length xs)"
  shows "\<exists>m' p' ys out. mgr_allocate_new_blocks rid (alloc_tokens ntok nenc m) m p = Inr (out, m', p') \<and>
    pool_inv p' ys \<and> int (length xs) = int (length ys) + alloc_cost rid ntok nenc m \<and>
    transfers p p' (\<lambda>b. cnt m' b - cnt m b) \<and> mgr_ok m' p' \<and> alloc_post rid ntok nenc m out m' \<and>
    set ys \<subseteq> set xs \<and> set out \<subseteq> set xs - set ys \<and> (\<forall>b. b \<notin> set out \<longrightarrow> cnt m' b = cnt m b)"
proof (cases "mgr_kind m = CircularBuffer")
  case True
  obtain m' p' ys bs where g: "claim_ring_block rid m p = Inr (bs, m', p')" "pool_inv p' ys"
    "int (length xs) = int (length ys) + (if blocks_of m rid = [] then 1 else 0)"
    "transfers p p' (\<lambda>b. cnt m' b - cnt m b)" "mgr_ok m' p'"
    "only_request rid m m'" "blocks_of m' rid = blocks_of m rid @ bs"
    "int (length bs) = (if blocks_of m rid = [] then 1 else 0)"
    "num_cached_block m' rid = num_cached_block m rid" "partial_hit_reqs m' = partial_hit_reqs m"
    "set ys \<subseteq> set xs" "set bs \<subseteq> set xs - set ys" "\<forall>b. b \<notin> set bs \<longrightarrow> cnt m' b = cnt m b"
    using claim_ok[OF inv ok, of rid] n True by (auto simp: alloc_cost_def)
  have "alloc_post rid ntok nenc m bs m'" using True g by (auto simp: alloc_post_def split: if_splits)
  then show ?thesis using True g
    by (intro exI[of _ m'] exI[of _ p'] exI[of _ ys] exI[of _ bs]) (simp add: mgr_allocate_new_blocks_def alloc_cost_def)
next
  case False
  let ?n = "cdiv (alloc_tokens ntok nenc m) (mgr_block_size m) - int (length (blocks_of m rid))"
  have cost: "alloc_cost rid ntok nenc m = cow_cost rid m + max 0 ?n" using False by (simp add: alloc_cost_def)
  have "cow_cost rid m \<le> int (length xs)" using n cost by linarith
  from redirect_ok[OF inv ok b c this] obtain m1 p1 ys out where r:
    "redirect_partial_hit rid m p = Inr (out, m1, p1)" "pool_inv p1 ys"
    "int (length xs) = int (length ys) + cow_cost rid m" "transfers p p1 (\<lambda>b. cnt m1 b - cnt m b)" "mgr_ok m1 p1"
    "only_request rid m m1" "length (blocks_of m1 rid) = length (blocks_of m rid)"
    "num_cached_block m1 rid = num_cached_block m rid" "partial_hit_reqs m1 rid = None"
    "set (blocks_of m1 rid) \<subseteq> set (blocks_of m rid) \<union> set out"
    "set ys \<subseteq> set xs" "set out \<subseteq> set xs - set ys" "\<forall>b. b \<notin> set out \<longrightarrow> cnt m1 b = cnt m b" by blast
  let ?m1 = "access rid m1"
  have k: "mgr_block_size m1 = mgr_block_size m" using r(6) by (simp add: only_request_def same_kind_def)
  have c1: "cnt ?m1 b = cnt m1 b" for b using mgr_okD(2)[OF r(5)] by simp
  have o1: "only_request rid m ?m1" using only_request_trans[OF r(6) only_access] .
  show ?thesis
  proof (cases "?n \<le> 0")
    case True
    have "mgr_allocate_new_blocks rid (alloc_tokens ntok nenc m) m p = Inr (out, ?m1, p1)"
      using False r(1,7) k True by (simp add: mgr_allocate_new_blocks_def)
    moreover have "alloc_post rid ntok nenc m out ?m1"
      using False True o1 r(7-10) by (simp add: alloc_post_def)
    ultimately show ?thesis using r True c1 mgr_ok_access[OF r(5)] cost
      by (intro exI[of _ ?m1] exI[of _ p1] exI[of _ ys] exI[of _ out]) simp
  next
    case pos: False
    have "?n \<le> int (length ys)" "0 \<le> ?n" using n cost r(3) pos by linarith+
    from grow_ok[OF r(2) mgr_ok_access[OF r(5)] this(2,1), of rid rid] obtain m' p' zs bs where g:
      "grow_blocks rid ?n ?m1 p1 = Inr (bs, m', p')" "pool_inv p' zs"
      "int (length ys) = int (length zs) + ?n" "transfers p1 p' (\<lambda>b. cnt m' b - cnt ?m1 b)" "mgr_ok m' p'"
      "only_request rid ?m1 m'" "blocks_of m' rid = blocks_of ?m1 rid @ bs" "int (length bs) = ?n"
      "num_cached_block m' rid = num_cached_block ?m1 rid" "partial_hit_reqs m' = partial_hit_reqs ?m1"
      "set zs \<subseteq> set ys" "set bs \<subseteq> set ys - set zs" "\<forall>b. b \<notin> set bs \<longrightarrow> cnt m' b = cnt ?m1 b" by blast
    have run: "mgr_allocate_new_blocks rid (alloc_tokens ntok nenc m) m p = Inr (out @ bs, m', p')"
      using False r(1,7) k pos g(1) by (simp add: mgr_allocate_new_blocks_def)
    have tr: "transfers p p' (\<lambda>b. cnt m' b - cnt m b)"
      by (rule transfers_cong[OF transfers_trans[OF r(4) g(4)]]) (simp add: c1)
    have len: "int (length (blocks_of m' rid)) = max (int (length (blocks_of m rid)))
        (cdiv (alloc_tokens ntok nenc m) (mgr_block_size m))"
      using g(7,8) r(7) pos by simp
    have post: "alloc_post rid ntok nenc m (out @ bs) m'"
      unfolding alloc_post_def
      using False only_request_trans[OF o1 g(6)] g(9,10) r(8,9) len g(7) r(10) by auto
    have "int (length xs) = int (length zs) + alloc_cost rid ntok nenc m" using r(3) g(3) cost pos by simp
    then show ?thesis using run g(2) tr g(5) post r(11,12) g(11-13) r(13) c1
      by (intro exI[of _ m'] exI[of _ p'] exI[of _ zs] exI[of _ "out @ bs"] conjI) auto
  qed
qed

lemma alloc_cost_nonneg: "0 \<le> alloc_cost rid ntok nenc m"
  by (simp add: alloc_cost_def cow_cost_def)

definition alloc_pre :: "string \<Rightarrow> kv_manager \<Rightarrow> kv_manager \<Rightarrow> block_pool \<Rightarrow> bool" where
  "alloc_pre rid m0 m p \<longleftrightarrow> cow_ok rid m p \<and> mgr_kind m0 = mgr_kind m"

lemma cow_ok_config: "same_config p p' \<Longrightarrow> cow_ok rid m p \<Longrightarrow> cow_ok rid m p'"
  by (auto simp: cow_ok_def same_config_def split: option.splits)

interpretation alloc: manager_alloc
    "\<lambda>m0. mgr_allocate_new_blocks rid (if mgr_kind m0 = CrossAttention then nenc else ntok)"
    "alloc_pre rid" "\<lambda>_ m _. alloc_cost rid ntok nenc m" "\<lambda>_ m _. alloc_post rid ntok nenc m"
  for rid ntok nenc
proof
  fix p :: block_pool and xs :: "nat list" and m a :: kv_manager
  assume A: "pool_inv p xs" "mgr_ok m p" "backed m p" "alloc_pre rid a m p"
    "alloc_cost rid ntok nenc m \<le> int (length xs)"
  have t: "(if mgr_kind a = CrossAttention then nenc else ntok) = alloc_tokens ntok nenc m"
    using A(4) by (simp add: alloc_tokens_def alloc_pre_def)
  have "cow_ok rid m p" using A(4) by (simp add: alloc_pre_def)
  from alloc_ok[OF A(1-3) this A(5)] obtain m' p' ys out where
    r: "mgr_allocate_new_blocks rid (alloc_tokens ntok nenc m) m p = Inr (out, m', p')"
    "pool_inv p' ys" "int (length xs) = int (length ys) + alloc_cost rid ntok nenc m"
    "transfers p p' (\<lambda>b. cnt m' b - cnt m b)" "mgr_ok m' p'" "alloc_post rid ntok nenc m out m'"
    "set ys \<subseteq> set xs" "set out \<subseteq> set xs - set ys" "\<forall>b. b \<notin> set out \<longrightarrow> cnt m' b = cnt m b" by blast
  note conf = transfers_config[OF r(4)]
  have "alloc_pre rid c n p'" if "alloc_pre rid c n p" for c n
    using that cow_ok_config[OF conf] by (simp add: alloc_pre_def)
  then show "\<exists>x m' p' ys. mgr_allocate_new_blocks rid (if mgr_kind a = CrossAttention then nenc else ntok) m p =
        Inr (x, m', p') \<and> pool_inv p' ys \<and> int (length xs) \<le> int (length ys) + alloc_cost rid ntok nenc m \<and>
      transfers p p' (\<lambda>b. cnt m' b - cnt m b) \<and> mgr_ok m' p' \<and> alloc_post rid ntok nenc m x m' \<and>
      (\<forall>b n. alloc_pre rid b n p \<longrightarrow> alloc_pre rid b n p' \<and> alloc_cost rid ntok nenc n \<le> alloc_cost rid ntok nenc n \<and>
         (\<forall>y n'. alloc_post rid ntok nenc n y n' \<longrightarrow> alloc_post rid ntok nenc n y n'))"
    unfolding t using r by (intro exI[of _ out] exI[of _ m'] exI[of _ p'] exI[of _ ys]) simp
  show "free_set p'' \<subseteq> free_set p \<and> set x \<subseteq> free_set p - free_set p'' \<and> (\<forall>b. b \<notin> set x \<longrightarrow> cnt m'' b = cnt m b)"
    if "mgr_allocate_new_blocks rid (if mgr_kind a = CrossAttention then nenc else ntok) m p = Inr (x, m'', p'')"
    for x m'' p''
    using that r(1,7-9) pool_inv_free_set[OF A(1)] pool_inv_free_set[OF r(2)] unfolding t by auto
qed (rule alloc_cost_nonneg)

end
