(* ===== verification/KvRelease.thy ===== *)
theory KvRelease imports KvAlloc
begin

text \<open>
  Giving blocks back: \<open>remove_skipped_blocks\<close> nulls out the table entries no attention window needs
  any more and frees their blocks; \<open>free\<close> drops the whole table of a request. Neither takes a free
  block nor touches another request.
\<close>

section \<open>Nulling out table entries\<close>

lemma null_out_spec:
  assumes "null_out nul is bs freed = (freed', bs')" "\<And>i. i \<in> set is \<Longrightarrow> i < length bs"
  shows "length bs' = length bs \<and> (\<forall>j. j \<notin> set is \<longrightarrow> bs' ! j = bs ! j) \<and>
    (\<forall>j < length bs. bs' ! j = bs ! j \<or> bs' ! j = nul) \<and>
    set freed' \<subseteq> set freed \<union> set bs \<and> (nul \<notin> set freed \<longrightarrow> nul \<notin> set freed') \<and>
    (\<forall>b. b \<noteq> nul \<longrightarrow> int (count_list bs' b) + int (count_list freed' b) = int (count_list bs b) + int (count_list freed b))"
  using assms
proof (induction nul "is" bs freed rule: null_out.induct)
  case (2 nul i "is" bs freed)
  have i: "i < length bs" using "2.prems"(2) by simp
  show ?case
  proof (cases "bs ! i = nul")
    case True
    then show ?thesis using "2.prems"(1) by auto
  next
    case False
    have "null_out nul is (bs[i := nul]) (freed @ [bs ! i]) = (freed', bs')" using "2.prems"(1) False by simp
    moreover have "\<And>j. j \<in> set is \<Longrightarrow> j < length (bs[i := nul])" using "2.prems"(2) by simp
    ultimately have IH: "length bs' = length bs" "\<forall>j. j \<notin> set is \<longrightarrow> bs' ! j = bs[i := nul] ! j"
      "\<forall>j < length bs. bs' ! j = bs[i := nul] ! j \<or> bs' ! j = nul"
      "set freed' \<subseteq> set (freed @ [bs ! i]) \<union> set (bs[i := nul])"
      "nul \<notin> set (freed @ [bs ! i]) \<longrightarrow> nul \<notin> set freed'"
      "\<forall>b. b \<noteq> nul \<longrightarrow> int (count_list bs' b) + int (count_list freed' b)
        = int (count_list (bs[i := nul]) b) + int (count_list (freed @ [bs ! i]) b)"
      using "2.IH"[OF False] by auto
    have 1: "\<forall>j. j \<notin> set (i # is) \<longrightarrow> bs' ! j = bs ! j" using IH(2) by auto
    have 2: "\<forall>j < length bs. bs' ! j = bs ! j \<or> bs' ! j = nul"
    proof (intro allI impI)
      fix j assume "j < length bs"
      then show "bs' ! j = bs ! j \<or> bs' ! j = nul" using IH(3) i by (cases "j = i") auto
    qed
    have 4: "nul \<notin> set freed \<longrightarrow> nul \<notin> set freed'" using IH(5) False by simp
    have 5: "int (count_list bs' b) + int (count_list freed' b) = int (count_list bs b) + int (count_list freed b)"
      if "b \<noteq> nul" for b
      using IH(6) that count_list_update[OF i, of nul b] by (auto simp: count_list_append)
    have n3: "nul \<notin> set freed' \<or> nul \<in> set freed" using 4 by blast
    have 3: "x \<in> set freed \<union> set bs" if "x \<in> set freed'" for x
    proof (cases "x = nul")
      case True
      then show ?thesis using n3 that by blast
    next
      case False
      have "x \<in> set (freed @ [bs ! i]) \<union> set (bs[i := nul])" using IH(4) that by blast
      then show ?thesis using False i set_update_subset_insert[of bs i nul] by auto
    qed
    show ?thesis using IH(1) 1 2 3 4 5 by blast
  qed
qed auto

definition keeps_tail :: "string \<Rightarrow> nat \<Rightarrow> kv_manager \<Rightarrow> block_pool \<Rightarrow> kv_manager \<Rightarrow> bool" where
  "keeps_tail rid n m p m' \<longleftrightarrow> only_request rid m m' \<and>
     length (blocks_of m' rid) = length (blocks_of m rid) \<and>
     (\<forall>j < length (blocks_of m rid). blocks_of m' rid ! j = blocks_of m rid ! j \<or>
        blocks_of m' rid ! j = null_block p \<and> j < n) \<and>
     num_cached_block m' = num_cached_block m \<and> partial_hit_reqs m' = partial_hit_reqs m \<and>
     pending_cow_copies m' = pending_cow_copies m"

lemma keeps_tail_refl: "keeps_tail rid n m p m"
  by (simp add: keeps_tail_def)

lemma remove_range_ok:
  assumes inv: "pool_inv p xs" and ok: "mgr_ok m p" and b: "backed m p"
  shows "\<exists>m' p' ys. remove_blocks_in_range rid first lst m p = Inr (m', p') \<and> pool_inv p' ys \<and>
    length xs \<le> length ys \<and> transfers p p' (\<lambda>b. cnt m' b - cnt m b) \<and> mgr_ok m' p' \<and>
    keeps_tail rid (nat lst) m p m'"
proof (cases "map_of (req_to_blocks m) rid = None \<or> lst \<le> first")
  case True
  then have "remove_blocks_in_range rid first lst m p = Inr (m, p)" by (simp add: remove_blocks_in_range_def)
  then show ?thesis using inv ok keeps_tail_refl by (intro exI[of _ m] exI[of _ p] exI[of _ xs]) simp
next
  case False
  have f: "free_inv p xs" using inv by (simp add: pool_inv_def)
  have null: "null_block p < num_gpu_blocks p" "is_null (blk p (null_block p))"
    using f by (simp_all add: free_inv_def)
  let ?bs = "blocks_of m rid"
  let ?l = "min lst (int (length ?bs))"
  let ?is = "rev [nat first..<nat ?l]"
  obtain freed bs where no: "null_out (null_block p) ?is ?bs [] = (freed, bs)" by fastforce
  have "i < length ?bs" if "i \<in> set ?is" for i using that by auto
  note N = null_out_spec[OF no this]
  then have N: "length bs = length ?bs" "\<forall>j. j \<notin> set ?is \<longrightarrow> bs ! j = ?bs ! j"
    "\<forall>j < length ?bs. bs ! j = ?bs ! j \<or> bs ! j = null_block p"
    "set freed \<subseteq> set ?bs" "null_block p \<notin> set freed"
    "\<And>b. b \<noteq> null_block p \<Longrightarrow> int (count_list bs b) + int (count_list freed b) = int (count_list ?bs b)"
    by auto
  let ?m = "put_blocks rid bs m"
  have nn: "b \<noteq> null_block p" if "\<not> is_null (blk p b)" for b using null(2) that by auto
  have le: "int (count_list freed b) \<le> ref_cnt (blk p b)" if "b \<in> set freed" "\<not> is_null (blk p b)" for b
  proof -
    have "b < num_gpu_blocks p" using that(1) N(4) mgr_okD(3)[OF ok] by blast
    then have "cnt m b \<le> ref_cnt (blk p b)" using b that(2) by (simp add: backed_def)
    then show ?thesis using N(6)[OF nn[OF that(2)]] count_le_cnt[OF mgr_okD(2)[OF ok], of rid b] by linarith
  qed
  have lt: "b < num_gpu_blocks p" if "b \<in> set freed" for b using that N(4) mgr_okD(3)[OF ok] by blast
  from free_own_blocks_ok[OF inv lt le] obtain p' where p': "free_own_blocks freed p = Inr p'"
    "pool_inv p' (filter (\<lambda>b. released p freed b \<and> evict_first p b) (remdups freed) @ xs @
       filter (\<lambda>b. released p freed b \<and> \<not> evict_first p b) (remdups freed))"
    "refs_changed p p' (\<lambda>i. - int (count_list freed i))" by blast
  let ?ys = "filter (\<lambda>b. released p freed b \<and> evict_first p b) (remdups freed) @ xs @
       filter (\<lambda>b. released p freed b \<and> \<not> evict_first p b) (remdups freed)"
  obtain p1 ys where r: "remove_blocks_in_range rid first lst m p = Inr (?m, p1)" "pool_inv p1 ys"
    "length xs \<le> length ys" "refs_changed p p1 (\<lambda>i. - int (count_list freed i))"
  proof (cases "freed = []")
    case True
    then have "remove_blocks_in_range rid first lst m p = Inr (?m, p)"
      using False no by (auto simp: remove_blocks_in_range_def)
    then show ?thesis using that[of p xs] inv True by simp
  next
    case nonempty: False
    then have "remove_blocks_in_range rid first lst m p = Inr (?m, p')"
      using False no p'(1) by (auto simp: remove_blocks_in_range_def)
    then show ?thesis using that[of p' ?ys] p'(2,3) by simp
  qed
  have c: "cnt ?m b = cnt m b - int (count_list freed b)" if "\<not> is_null (blk p b)" for b
    using cnt_put[OF mgr_okD(2)[OF ok], of rid bs b] N(6)[OF nn[OF that]] by simp
  have tr: "transfers p p1 (\<lambda>b. cnt ?m b - cnt m b)"
    by (rule transfers_cong[OF refs_changed_transfers[OF r(4)]]) (simp add: c)
  have "b < num_gpu_blocks p" if "b \<in> set bs" for b
  proof -
    obtain j where j: "j < length bs" "bs ! j = b" using \<open>b \<in> set bs\<close> by (auto simp: in_set_conv_nth)
    then have "b \<in> set ?bs \<or> b = null_block p" using N(1,3) nth_mem[of j ?bs] by metis
    then show ?thesis using mgr_okD(3)[OF ok] null(1) by blast
  qed
  then have "mgr_ok ?m p" by (rule mgr_ok_put[OF ok])
  then have ok': "mgr_ok ?m p1" using mgr_ok_config transfers_config[OF tr] by blast
  have "bs ! j = ?bs ! j \<or> bs ! j = null_block p \<and> j < nat lst" if "j < length ?bs" for j
    using N(2,3) that by (cases "j \<in> set ?is") auto
  then have "keeps_tail rid (nat lst) m p ?m" using N(1) by (simp add: keeps_tail_def)
  then show ?thesis using r(1-3) tr ok' by blast
qed

text \<open>The first block the attention window of the next token may still read.\<close>

definition window_block :: "int \<Rightarrow> int option \<Rightarrow> kv_manager \<Rightarrow> nat" where
  "window_block processed nprompt m =
     (case (mgr_kind m, nprompt) of
        (CircularBuffer, _) \<Rightarrow> 0
      | (RSWA w, Some n) \<Rightarrow> nat (max n (processed - w) div mgr_block_size m)
      | _ \<Rightarrow> nat (num_skipped_blocks m processed))"

lemma keeps_tail_mono: "n \<le> k \<Longrightarrow> keeps_tail rid n m p m' \<Longrightarrow> keeps_tail rid k m p m'"
  by (fastforce simp: keeps_tail_def)

lemma keeps_tail_access: "keeps_tail rid n (access rid m) p m' \<Longrightarrow> keeps_tail rid n m p m'"
  using only_request_trans[OF only_access] by (auto simp: keeps_tail_def)

lemma remove_skipped_ok:
  assumes inv: "pool_inv p xs" and ok: "mgr_ok m p" and b: "backed m p"
  shows "\<exists>m' p' ys. mgr_remove_skipped_blocks rid processed nprompt m p = Inr (m', p') \<and> pool_inv p' ys \<and>
    length xs \<le> length ys \<and> transfers p p' (\<lambda>b. cnt m' b - cnt m b) \<and> mgr_ok m' p' \<and>
    keeps_tail rid (window_block processed nprompt m) m p m'"
proof -
  have base: "\<exists>m' p' ys. (let skipped = get_num_skipped_tokens m processed in
        if skipped \<le> 0 then Inr (m, p)
        else let m = access rid m; n = min (skipped div mgr_block_size m) (int (length (blocks_of m rid)))
             in remove_blocks_in_range rid 0 n m p) = Inr (m', p') \<and> pool_inv p' ys \<and>
    length xs \<le> length ys \<and> transfers p p' (\<lambda>b. cnt m' b - cnt m b) \<and> mgr_ok m' p' \<and>
    keeps_tail rid (nat (num_skipped_blocks m processed)) m p m'"
  proof (cases "get_num_skipped_tokens m processed \<le> 0")
    case True
    then show ?thesis using inv ok keeps_tail_refl
      by (intro exI[of _ m] exI[of _ p] exI[of _ xs]) simp
  next
    case False
    let ?m = "access rid m"
    let ?n = "min (num_skipped_blocks m processed) (int (length (blocks_of m rid)))"
    have c: "cnt ?m b = cnt m b" for b using mgr_okD(2)[OF ok] by simp
    have "backed ?m p" using b by (simp add: backed_def c)
    from remove_range_ok[OF inv mgr_ok_access[OF ok] this, of rid 0 ?n] obtain m' p' ys where
      r: "remove_blocks_in_range rid 0 ?n ?m p = Inr (m', p')" "pool_inv p' ys" "length xs \<le> length ys"
      "transfers p p' (\<lambda>b. cnt m' b - cnt ?m b)" "mgr_ok m' p'" "keeps_tail rid (nat ?n) ?m p m'" by blast
    have "keeps_tail rid (nat (num_skipped_blocks m processed)) m p m'"
      by (rule keeps_tail_mono[OF _ keeps_tail_access[OF r(6)]]) simp
    then show ?thesis using False r c
      by (intro exI[of _ m'] exI[of _ p'] exI[of _ ys]) (simp add: num_skipped_blocks_def Let_def)
  qed
  show ?thesis
  proof (cases "mgr_kind m")
    case CircularBuffer
    then show ?thesis using inv ok keeps_tail_refl
      by (intro exI[of _ m] exI[of _ p] exI[of _ xs]) (simp add: mgr_remove_skipped_blocks_def)
  next
    case (RSWA w)
    show ?thesis
    proof (cases nprompt)
      case (Some n)
      then show ?thesis
        using remove_range_ok[OF inv ok b, of rid "cdiv n (mgr_block_size m)" "max n (processed - w) div mgr_block_size m"] RSWA
        by (simp add: mgr_remove_skipped_blocks_def window_block_def Let_def)
    qed (use base RSWA in \<open>simp add: mgr_remove_skipped_blocks_def window_block_def\<close>)
  qed (use base in \<open>simp_all add: mgr_remove_skipped_blocks_def window_block_def\<close>)
qed

interpretation recycle: manager_op "no_result (\<lambda>_::kv_manager. mgr_remove_skipped_blocks rid processed nprompt)"
    "\<lambda>_ _ _. True" "\<lambda>_ _ _. 0" "\<lambda>_ m p _ m'. keeps_tail rid (window_block processed nprompt m) m p m'"
  for rid processed nprompt
proof
  fix p :: block_pool and xs :: "nat list" and m a :: kv_manager
  assume "pool_inv p xs" "mgr_ok m p" "backed m p"
  from remove_skipped_ok[OF this, of rid processed nprompt] obtain m' p' ys where
    r: "mgr_remove_skipped_blocks rid processed nprompt m p = Inr (m', p')" "pool_inv p' ys"
    "length xs \<le> length ys" "transfers p p' (\<lambda>b. cnt m' b - cnt m b)" "mgr_ok m' p'"
    "keeps_tail rid (window_block processed nprompt m) m p m'" by blast
  have "null_block p' = null_block p" using transfers_config[OF r(4)] by (simp add: same_config_def)
  then show "\<exists>x m' p' ys. no_result (\<lambda>_::kv_manager. mgr_remove_skipped_blocks rid processed nprompt) a m p = Inr (x, m', p') \<and>
      pool_inv p' ys \<and> int (length xs) \<le> int (length ys) + 0 \<and>
      transfers p p' (\<lambda>b. cnt m' b - cnt m b) \<and> mgr_ok m' p' \<and> keeps_tail rid (window_block processed nprompt m) m p m' \<and>
      (\<forall>b n. True \<longrightarrow> True \<and> (0::int) \<le> 0 \<and> (\<forall>y n'. keeps_tail rid (window_block processed nprompt n) n p' n' \<longrightarrow>
         keeps_tail rid (window_block processed nprompt n) n p n'))"
    using r by (intro exI[of _ "()"] exI[of _ m'] exI[of _ p'] exI[of _ ys]) (simp add: no_result_def keeps_tail_def)
qed simp

section \<open>Freeing a request\<close>

definition forgets :: "string \<Rightarrow> kv_manager \<Rightarrow> kv_manager \<Rightarrow> bool" where
  "forgets rid m m' \<longleftrightarrow> only_request rid m m' \<and> map_of (req_to_blocks m') rid = None \<and>
     num_cached_block m' rid = None \<and> partial_hit_reqs m' rid = None \<and>
     pending_cow_copies m' = pending_cow_copies m \<and>
     (\<forall>b. cnt m' b = cnt m b - int (count_list (blocks_of m rid) b))"

lemma pop_forgets:
  assumes ok: "mgr_ok m p"
  shows "forgets rid m (snd (mgr_pop_blocks_for_free rid m)) \<and> mgr_ok (snd (mgr_pop_blocks_for_free rid m)) p"
proof -
  let ?m = "snd (mgr_pop_blocks_for_free rid m)"
  have d: "distinct (map fst (req_to_blocks m))" using mgr_okD(2)[OF ok] .
  have c: "cnt ?m b = cnt m b - int (count_list (blocks_of m rid) b)" for b
    using count_delete[OF d, of rid b]
    by (simp add: mgr_pop_blocks_for_free_def cnt_def held_def blocks_of_def)
  then have "b \<in> set (held m)" if "b \<in> set (held ?m)" for b using that by (simp add: held_iff_cnt)
  then have "mgr_ok ?m p"
    using ok distinct_delete[OF d] by (auto simp: mgr_ok_def mgr_pop_blocks_for_free_def)
  moreover have "forgets rid m ?m" using c
    by (auto simp: forgets_def only_request_def same_kind_def mgr_pop_blocks_for_free_def blocks_of_def delete_conv')
  ultimately show ?thesis by blast
qed

lemma mgr_free_ok:
  assumes inv: "pool_inv p xs" and ok: "mgr_ok m p" and b: "backed m p"
  shows "\<exists>m' p' ys. mgr_free rid m p = Inr (m', p') \<and> pool_inv p' ys \<and> length xs \<le> length ys \<and>
    transfers p p' (\<lambda>b. cnt m' b - cnt m b) \<and> mgr_ok m' p' \<and> forgets rid m m'"
proof -
  let ?bs = "rev (blocks_of m rid)"
  let ?m = "snd (mgr_pop_blocks_for_free rid m)"
  have lt: "b < num_gpu_blocks p" if "b \<in> set ?bs" for b using that mgr_okD(3)[OF ok] by simp
  have le: "int (count_list ?bs b) \<le> ref_cnt (blk p b)" if "b \<in> set ?bs" "\<not> is_null (blk p b)" for b
    using b that(2) lt[OF that(1)] count_le_cnt[OF mgr_okD(2)[OF ok], of rid b] by (auto simp: backed_def)
  from free_own_blocks_ok[OF inv lt le] obtain p' ys where p': "free_own_blocks ?bs p = Inr p'"
    "pool_inv p' ys" "length xs \<le> length ys" "refs_changed p p' (\<lambda>i. - int (count_list ?bs i))" by fastforce
  note F = pop_forgets[OF ok, of rid]
  have run: "mgr_free rid m p = Inr (?m, p')"
    using p'(1) by (simp add: mgr_free_def mgr_pop_blocks_for_free_def)
  have tr: "transfers p p' (\<lambda>b. cnt ?m b - cnt m b)"
    by (rule transfers_cong[OF refs_changed_transfers[OF p'(4)]]) (use F in \<open>simp add: forgets_def\<close>)
  have "mgr_ok ?m p'" using F mgr_ok_config transfers_config[OF tr] by blast
  then show ?thesis using run p'(2,3) tr F by blast
qed

interpretation release: manager_op "no_result (\<lambda>_::kv_manager. mgr_free rid)"
    "\<lambda>_ _ _. True" "\<lambda>_ _ _. 0" "\<lambda>_ m _ _ m'. forgets rid m m'"
  for rid
proof
  fix p :: block_pool and xs :: "nat list" and m a :: kv_manager
  assume "pool_inv p xs" "mgr_ok m p" "backed m p"
  from mgr_free_ok[OF this, of rid] obtain m' p' ys where
    r: "mgr_free rid m p = Inr (m', p')" "pool_inv p' ys"
    "length xs \<le> length ys" "transfers p p' (\<lambda>b. cnt m' b - cnt m b)" "mgr_ok m' p'" "forgets rid m m'" by blast
  then show "\<exists>x m' p' ys. no_result (\<lambda>_::kv_manager. mgr_free rid) a m p = Inr (x, m', p') \<and>
      pool_inv p' ys \<and> int (length xs) \<le> int (length ys) + 0 \<and>
      transfers p p' (\<lambda>b. cnt m' b - cnt m b) \<and> mgr_ok m' p' \<and> forgets rid m m' \<and>
      (\<forall>b n. True \<longrightarrow> True \<and> (0::int) \<le> 0 \<and> (\<forall>y n'. forgets rid n n' \<longrightarrow> forgets rid n n'))"
    by (intro exI[of _ "()"] exI[of _ m'] exI[of _ p'] exI[of _ ys]) (simp add: no_result_def)
qed simp

end
