(* ===== verification/KvSlots.thy ===== *)
theory KvSlots imports KvRelease
begin

text \<open>
  \<open>allocate_slots\<close> as a whole: its check is sufficient. What \<open>get_num_blocks_to_allocate\<close> counts for
  the managers before anything is allocated bounds what touching the hit, allocating for external
  tokens and allocating for new tokens take afterwards, so no manager runs out of blocks half-way.
\<close>

section \<open>The invariant of the cache manager\<close>

definition kv_ok :: "(nat \<Rightarrow> int) \<Rightarrow> kv_cache \<Rightarrow> bool" where
  "kv_ok ext K \<longleftrightarrow> (\<exists>xs. pool_inv (pool K) xs) \<and> (\<forall>m \<in> set (managers K). mgr_ok m (pool K)) \<and>
     accounted ext (managers K) (pool K)"

definition same_settings :: "kv_cache \<Rightarrow> kv_cache \<Rightarrow> bool" where
  "same_settings K K' \<longleftrightarrow> K' = K\<lparr>managers := managers K', pool := pool K'\<rparr> \<and>
     length (managers K') = length (managers K) \<and> same_config (pool K) (pool K')"

lemma same_settings_refl [simp]: "same_settings K K"
  by (simp add: same_settings_def)

lemma same_settings_trans: "same_settings A B \<Longrightarrow> same_settings B C \<Longrightarrow> same_settings A C"
  unfolding same_settings_def using same_config_trans
  by (metis (no_types, lifting) kv_cache.surjective kv_cache.update_convs(2,3))

lemma same_settingsD:
  assumes "same_settings K K'"
  shows "max_model_len K' = max_model_len K" "watermark_blocks K' = watermark_blocks K"
    "length (managers K') = length (managers K)" "same_config (pool K) (pool K')"
  using assms unfolding same_settings_def by (metis kv_cache.select_convs kv_cache.surjective kv_cache.update_convs(2,3))+

lemma num_free_length: "pool_inv (pool K) xs \<Longrightarrow> num_free K = int (length xs)"
  using free_invD(5)[of "pool K" xs] by (simp add: num_free_def get_num_free_blocks_def pool_inv_def)

context manager_op begin

lemma on_managers_runs:
  assumes ok: "kv_ok ext K" and len: "length (managers K) \<le> length as"
    and pre: "\<And>i. i < length (managers K) \<Longrightarrow> pre (as ! i) (managers K ! i) (pool K)"
    and cost: "(\<Sum>i < length (managers K). cost (as ! i) (managers K ! i) (pool K)) \<le> num_free K"
  shows "\<exists>os K'. on_managers f as K = Inr (os, K') \<and> kv_ok ext K' \<and> same_settings K K' \<and>
    num_free K \<le> num_free K' + (\<Sum>i < length (managers K). cost (as ! i) (managers K ! i) (pool K)) \<and>
    length os = length (managers K) \<and>
    (\<forall>i < length (managers K). post (as ! i) (managers K ! i) (pool K) (os ! i) (managers K' ! i))"
proof -
  obtain xs where inv: "pool_inv (pool K) xs" and oks: "\<And>m. m \<in> set (managers K) \<Longrightarrow> mgr_ok m (pool K)"
    and acc: "accounted ext (managers K) (pool K)" using ok by (auto simp: kv_ok_def)
  have c: "(\<Sum>i < length (managers K). cost (as ! i) (managers K ! i) (pool K)) \<le> int (length xs)"
    using cost num_free_length[OF inv] by simp
  from each_runs[OF inv oks acc len pre c] obtain os ms' p' ys where
    r: "each_manager f as (managers K) (pool K) = Inr (os, ms', p')" "pool_inv p' ys"
    "int (length xs) \<le> int (length ys) + (\<Sum>i < length (managers K). cost (as ! i) (managers K ! i) (pool K))"
    "same_config (pool K) p'" "\<forall>m \<in> set ms'. mgr_ok m p'" "accounted ext ms' p'"
    "length os = length (managers K)" "length ms' = length (managers K)"
    "\<forall>i < length (managers K). post (as ! i) (managers K ! i) (pool K) (os ! i) (ms' ! i)" by blast
  let ?K = "K\<lparr>managers := ms', pool := p'\<rparr>"
  have "on_managers f as K = Inr (os, ?K)" using r(1) by (simp add: on_managers_def)
  moreover have "kv_ok ext ?K" using r(2,5,6) by (auto simp: kv_ok_def)
  moreover have "same_settings K ?K" using r(4,8) by (simp add: same_settings_def)
  moreover have "num_free ?K = int (length ys)" using num_free_length[of ?K ys] r(2) by simp
  ultimately show ?thesis using r(3,7,9) num_free_length[OF inv]
    by (intro exI[of _ os] exI[of _ ?K]) simp
qed

end

section \<open>The count\<close>

definition blocks_needed ::
    "string \<Rightarrow> int \<Rightarrow> int \<Rightarrow> int \<Rightarrow> int \<Rightarrow> bool \<Rightarrow> nat list \<Rightarrow> kv_manager \<Rightarrow> block_pool \<Rightarrow> int res" where
  "blocks_needed rid ntok nenc ntotal nlocal cap new m p =
     (if mgr_kind m = CrossAttention then mgr_num_blocks_to_allocate rid nenc [] 0 0 cap m p
      else mgr_num_blocks_to_allocate rid ntok new ntotal nlocal cap m p)"

definition needed :: "string \<Rightarrow> int \<Rightarrow> int \<Rightarrow> int \<Rightarrow> int \<Rightarrow> bool \<Rightarrow> nat list \<Rightarrow> kv_manager \<Rightarrow> block_pool \<Rightarrow> int" where
  "needed rid ntok nenc ntotal nlocal cap new m p =
     (case blocks_needed rid ntok nenc ntotal nlocal cap new m p of Inl _ \<Rightarrow> 0 | Inr n \<Rightarrow> n)"

lemma blocks_needed_Inr:
  "num_cached_block m rid = None \<or> new = [] \<Longrightarrow>
    blocks_needed rid ntok nenc ntotal nlocal cap new m p = Inr (needed rid ntok nenc ntotal nlocal cap new m p)"
  by (auto simp: needed_def blocks_needed_def mgr_num_blocks_to_allocate_def Let_def)

lemma coord_num_blocks_sum:
  assumes "length ms \<le> length news"
    and "\<And>i. i < length ms \<Longrightarrow> num_cached_block (ms ! i) rid = None \<or> news ! i = []"
  shows "coord_num_blocks_to_allocate rid ntok news nenc ntotal nlocal cap ms p =
    Inr (\<Sum>i < length ms. needed rid ntok nenc ntotal nlocal cap (news ! i) (ms ! i) p)"
  using assms
proof (induction ms arbitrary: news)
  case (Cons m ms)
  obtain new news' where n: "news = new # news'" using Cons.prems(1) by (cases news) auto
  have c: "num_cached_block m rid = None \<or> new = []" using Cons.prems(2)[of 0] n by simp
  have ih: "coord_num_blocks_to_allocate rid ntok news' nenc ntotal nlocal cap ms p =
    Inr (\<Sum>i < length ms. needed rid ntok nenc ntotal nlocal cap (news' ! i) (ms ! i) p)"
    using Cons.IH[of news'] Cons.prems(1) Cons.prems(2)[of "Suc _"] n by simp
  have sum: "(\<Sum>i < length (m # ms). needed rid ntok nenc ntotal nlocal cap (news ! i) ((m # ms) ! i) p) =
      needed rid ntok nenc ntotal nlocal cap new m p +
      (\<Sum>i < length ms. needed rid ntok nenc ntotal nlocal cap (news' ! i) (ms ! i) p)"
    unfolding length_Cons sum.lessThan_Suc_shift n by simp
  have head: "(if mgr_kind m = CrossAttention then mgr_num_blocks_to_allocate rid nenc [] 0 0 cap m p
        else bind_res (py_get news 0)
          (\<lambda>new. mgr_num_blocks_to_allocate rid ntok new ntotal nlocal cap m p)) =
      Inr (needed rid ntok nenc ntotal nlocal cap new m p)"
    using blocks_needed_Inr[OF c, of ntok nenc ntotal nlocal cap p] n
    by (simp add: blocks_needed_def py_get_def py_index_def split: if_splits)
  have d: "drop 1 news = news'" using n by simp
  show ?case unfolding coord_num_blocks_to_allocate.simps(2) head bind_res_Inr d ih sum by simp
qed simp

text \<open>A manager that does not know the request yet.\<close>

lemma needed_first:
  assumes "num_cached_block m rid = None" "blocks_of m rid = []" "\<not> special m" "0 \<le> num_skipped_blocks m ntotal"
  shows "needed rid ntok nenc ntotal nlocal False new m p =
    max (cdiv ntok (mgr_block_size m) - max (num_skipped_blocks m ntotal) (int (length new))) 0 +
    (if has_partial_local_hit m new nlocal then 1 else 0) + add_cost ntotal new m p"
proof -
  have "max 0 (num_skipped_blocks m ntotal) = num_skipped_blocks m ntotal" using assms(4) by simp
  then show ?thesis using assms
    by (simp add: needed_def blocks_needed_def mgr_num_blocks_to_allocate_def Let_def required_blocks_def
        num_skipped_blocks_def[symmetric] special_def add_cost_def kept_def split: option.splits)
qed

text \<open>A manager whose table covers the computed tokens.\<close>

lemma needed_running:
  assumes "mgr_kind m \<noteq> CircularBuffer"
    and "mgr_kind m \<noteq> CrossAttention \<Longrightarrow> num_skipped_blocks m ntotal \<le> int (length (blocks_of m rid))"
  shows "needed rid ntok nenc ntotal nlocal False [] m p =
    max 0 (cdiv (alloc_tokens ntok nenc m) (mgr_block_size m) - int (length (blocks_of m rid)))"
proof -
  have "num_skipped_blocks m 0 = 0" if "mgr_kind m = CrossAttention"
    using that by (simp add: num_skipped_blocks_def get_num_skipped_tokens_def)
  then show ?thesis using assms
    by (auto simp: needed_def blocks_needed_def mgr_num_blocks_to_allocate_def Let_def required_blocks_def
        num_skipped_blocks_def[symmetric] alloc_tokens_def has_partial_local_hit_def get_num_evictable_blocks_def
        max.absorb2 max.commute split: option.splits)
qed

lemma needed_ring:
  "mgr_kind m = CircularBuffer \<Longrightarrow>
    needed rid ntok nenc ntotal nlocal cap new m p = (if blocks_of m rid = [] then 1 else 0)"
  by (simp add: needed_def blocks_needed_def mgr_num_blocks_to_allocate_def)

end
