(* ===== verification/KvAdmit.thy ===== *)
theory KvAdmit imports KvSlots
begin

text \<open>
  The argument that the check of \<open>allocate_slots\<close> is sufficient. \<open>slots_pre\<close> is what the scheduler
  guarantees: either the managers know nothing of the request and the hit is one of the cache lookup,
  or no computed blocks are passed and the tables cover the tokens computed so far.
\<close>

section \<open>What the scheduler guarantees\<close>

definition first_request :: "string \<Rightarrow> int \<Rightarrow> nat list list \<Rightarrow> kv_cache \<Rightarrow> bool" where
  "first_request rid nlocal news K \<longleftrightarrow> length news = length (managers K) \<and>
     (\<forall>i < length (managers K). let m = managers K ! i in
        blocks_of m rid = [] \<and> num_cached_block m rid = None \<and> partial_hit_reqs m rid = None \<and>
        add_pre rid nlocal (news ! i) m (pool K))"

definition known_request :: "string \<Rightarrow> int \<Rightarrow> kv_cache \<Rightarrow> bool" where
  "known_request rid ncomputed K \<longleftrightarrow> (\<forall>m \<in> set (managers K). partial_hit_reqs m rid = None \<and>
     (\<not> special m \<longrightarrow> ncomputed \<le> int (length (blocks_of m rid)) * mgr_block_size m))"

definition slots_pre :: "request \<Rightarrow> int \<Rightarrow> kv_blocks \<Rightarrow> int \<Rightarrow> kv_cache \<Rightarrow> bool" where
  "slots_pre r nnewcomp newb nx K \<longleftrightarrow> 0 \<le> num_computed_tokens r \<and> 0 \<le> nnewcomp \<and> 0 \<le> nx \<and>
     num_computed_tokens r + nnewcomp + nx \<le> max_model_len K \<and> 0 \<le> watermark_blocks K \<and>
     (if newb = EmptyBlocks \<and> nx = 0 then known_request (request_id r) (num_computed_tokens r + nnewcomp) K
      else first_request (request_id r) (num_computed_tokens r + nnewcomp) (blocks_list K newb) K)"

section \<open>One manager\<close>

lemma keeps_kind: "keeps_tail rid n m p m' \<Longrightarrow> same_kind m m'"
  by (simp add: keeps_tail_def only_request_def)

lemma add_pre_keeps:
  assumes "keeps_tail rid n m p m'" "same_config p p'" "add_pre rid nlocal new m p"
  shows "add_pre rid nlocal new m' p'"
proof -
  have "blocks_of m' rid = [] \<longleftrightarrow> blocks_of m rid = []"
    using assms(1) by (metis keeps_tail_def length_0_conv)
  then show ?thesis using assms(2,3) keeps_kind[OF assms(1)]
    by (auto simp: add_pre_def special_def hit_ok_def has_partial_local_hit_def same_kind_def same_config_def)
qed

lemma first_budget:
  assumes ok: "mgr_ok m p" and m: "blocks_of m rid = []" "num_cached_block m rid = None" "partial_hit_reqs m rid = None"
    and pre: "add_pre rid nlocal new m p" and n: "0 \<le> nx" "nlocal + nx \<le> nslot"
    and a: "add_post rid nlocal (nlocal + nx) new m p () m2"
    and e: "if 0 < nx then external_post rid (nlocal + nx) nx m2 m3 else m3 = m2"
  shows "add_cost (nlocal + nx) new m p + (if 0 < nx then max 0 (external_cost rid (nlocal + nx) nx m2) else 0) +
      alloc_cost rid nslot nenc m3 \<le> needed rid nslot nenc (nlocal + nx) nlocal False new m p" (is "?lhs \<le> ?rhs")
    and "cow_ok rid m3 p"
proof -
  let ?k = "num_skipped_blocks m (nlocal + nx)"
  have bs: "0 < mgr_block_size m" using mgr_okD(1)[OF ok] .
  have nl: "0 \<le> nlocal" using pre by (simp add: add_pre_def)
  have k: "0 \<le> ?k" using num_skipped_blocks_nonneg[OF ok] n(1) nl by simp
  obtain ext where ext: "blocks_of m3 rid = blocks_of m2 rid @ ext" "same_kind m m3" "same_kind m m2"
    "partial_hit_reqs m3 = partial_hit_reqs m2"
    "int (length ext) = (if 0 < nx then external_cost rid (nlocal + nx) nx m2 else 0)"
    using a e by (auto simp: add_post_def external_post_def only_request_def same_kind_def split: if_splits)
  have kinds: "mgr_kind m2 = mgr_kind m" "mgr_kind m3 = mgr_kind m" "mgr_block_size m2 = mgr_block_size m"
    "mgr_block_size m3 = mgr_block_size m" using ext by (simp_all add: same_kind_def)
  have nonneg: "0 \<le> external_cost rid (nlocal + nx) nx m2" by (simp add: external_cost_def)
  consider (ring) "mgr_kind m = CircularBuffer" | (cross) "mgr_kind m = CrossAttention" | (plain) "\<not> special m"
    by (auto simp: special_def)
  then have "?lhs \<le> ?rhs \<and> cow_ok rid m3 p"
  proof cases
    case ring
    have m2: "m2 = m" using a ring by (simp add: add_post_def special_def)
    have "?rhs = 1" using needed_ring[OF ring] m(1) by simp
    moreover have "add_cost (nlocal + nx) new m p = 0" using ring by (simp add: add_cost_def special_def)
    ultimately show ?thesis using ring m2 m kinds ext
      by (auto simp: alloc_cost_def external_cost_def cow_ok_def)
  next
    case cross
    have m2: "m2 = m" using a cross by (simp add: add_post_def special_def)
    have new: "new = []" using pre cross by (simp add: add_pre_def)
    have "ext = []" using ext(5) kinds cross by (simp add: external_cost_def split: if_splits)
    then have "alloc_cost rid nslot nenc m3 = ?rhs"
      using needed_running[of m "nlocal + nx" rid nslot nenc nlocal p] cross m2 m kinds ext new
      by (simp add: alloc_cost_def cow_cost_def alloc_tokens_def)
    moreover have "add_cost (nlocal + nx) new m p = 0" using cross by (simp add: add_cost_def special_def)
    ultimately show ?thesis using cross m2 m kinds ext by (simp add: external_cost_def cow_ok_def)
  next
    case plain
    let ?new = "kept m (nlocal + nx) new"
    have A: "blocks_of m2 rid = replicate (nat ?k) (null_block p) @ ?new"
      "partial_hit_reqs m2 rid = (if has_partial_local_hit m ?new nlocal
         then Some (nlocal div mgr_block_size m, last new) else None)"
      using a plain m by (auto simp: add_post_def)
    have L: "int (length (blocks_of m2 rid)) = max ?k (int (length new))"
      using A(1) k by (simp add: kept_def)
    have cow: "cow_cost rid m3 \<le> (if has_partial_local_hit m new nlocal then 1 else 0)"
      using A(2) ext(4) by (auto simp: cow_cost_def has_partial_local_hit_def kept_def)
    let ?E = "if 0 < nx then max 0 (external_cost rid (nlocal + nx) nx m2) else 0"
    have E: "?E = int (length ext)" using ext(5) nonneg by auto
    have "?E \<le> max 0 (cdiv (nlocal + nx) (mgr_block_size m) - int (length (blocks_of m2 rid)))"
      using plain kinds by (auto simp: external_cost_def special_def)
    moreover have "cdiv (nlocal + nx) (mgr_block_size m) \<le> cdiv nslot (mgr_block_size m)"
      using cdiv_mono[OF bs n(2)] .
    moreover have "alloc_cost rid nslot nenc m3 = cow_cost rid m3 +
        max 0 (cdiv nslot (mgr_block_size m) - (int (length (blocks_of m2 rid)) + ?E))"
      using plain kinds E ext(1) by (simp add: alloc_cost_def alloc_tokens_def special_def)
    ultimately have "?E + alloc_cost rid nslot nenc m3 \<le>
        max 0 (cdiv nslot (mgr_block_size m) - max ?k (int (length new))) +
        (if has_partial_local_hit m new nlocal then 1 else 0)"
      using cow L by linarith
    then have "?lhs \<le> ?rhs" using needed_first[OF m(2,1) plain k, of nslot nenc nlocal new p]
      by (simp add: max.commute)
    moreover have "cow_ok rid m3 p"
    proof (cases "has_partial_local_hit m ?new nlocal")
      case False
      then show ?thesis using A(2) ext(4) by (simp add: cow_ok_def)
    next
      case True
      then have ne: "?new \<noteq> []" by (simp add: has_partial_local_hit_def)
      then have "has_partial_local_hit m new nlocal" using True by (auto simp: has_partial_local_hit_def kept_def)
      then have h: "int (length new) = nlocal div mgr_block_size m + 1" "\<not> is_null (blk p (last new))"
        using pre plain by (simp_all add: add_pre_def hit_ok_def)
      have lt: "nat ?k < length new" using ne by (simp add: kept_def)
      let ?i = "nat (nlocal div mgr_block_size m)"
      have i: "0 \<le> nlocal div mgr_block_size m" using nl bs by (simp add: pos_imp_zdiv_nonneg_iff)
      have i2: "?i = length new - 1" using h(1) by linarith
      have g: "\<not> length new - 1 < nat ?k" "length new - 1 - nat ?k < length new - nat ?k" "new \<noteq> []"
        using lt by auto
      have "blocks_of m3 rid ! ?i = last new"
        using g ext(1) A(1) i2 by (simp add: nth_append kept_def last_conv_nth)
      moreover have "nlocal div mgr_block_size m < int (length (blocks_of m3 rid))"
        using ext(1) L h(1) by simp
      ultimately show ?thesis using True A(2) ext(4) i h(2) by (simp add: cow_ok_def)
    qed
    ultimately show ?thesis by blast
  qed
  then show "?lhs \<le> ?rhs" "cow_ok rid m3 p" by simp_all
qed

section \<open>All managers\<close>

text \<open>What a successful reservation leaves: room for the tokens, and blocks nobody else has.\<close>

definition covers :: "string \<Rightarrow> int \<Rightarrow> int \<Rightarrow> kv_cache \<Rightarrow> bool" where
  "covers rid nslot nenc K \<longleftrightarrow> (\<forall>m \<in> set (managers K).
     if mgr_kind m = CircularBuffer then blocks_of m rid \<noteq> []
     else alloc_tokens nslot nenc m \<le> int (length (blocks_of m rid)) * mgr_block_size m)"

definition private_blocks :: "string \<Rightarrow> nat list list \<Rightarrow> kv_cache \<Rightarrow> bool" where
  "private_blocks rid out K \<longleftrightarrow> length out = length (managers K) \<and>
     (\<forall>i < length out. \<forall>b \<in> set (out ! i). \<forall>j < length (managers K). \<forall>q.
        b \<in> set (blocks_of (managers K ! j) q) \<longrightarrow> j = i \<and> q = rid)"

definition others_keep :: "string \<Rightarrow> kv_cache \<Rightarrow> kv_cache \<Rightarrow> bool" where
  "others_keep rid K K' \<longleftrightarrow> length (managers K') = length (managers K) \<and>
     (\<forall>i < length (managers K). only_request rid (managers K ! i) (managers K' ! i))"

lemma others_keep_refl [simp]: "others_keep rid K K"
  by (simp add: others_keep_def)

lemma others_keep_trans: "others_keep rid A B \<Longrightarrow> others_keep rid B C \<Longrightarrow> others_keep rid A C"
  unfolding others_keep_def using only_request_trans by metis

lemma alloc_stage:
  assumes ok: "kv_ok ext K" and cow: "\<And>i. i < length (managers K) \<Longrightarrow> cow_ok rid (managers K ! i) (pool K)"
    and cost: "(\<Sum>i < length (managers K). alloc_cost rid ntok nenc (managers K ! i)) \<le> num_free K"
  shows "\<exists>out K'. coord_allocate_new_blocks rid ntok nenc K = Inr (out, K') \<and> kv_ok ext K' \<and>
    same_settings K K' \<and> others_keep rid K K' \<and> covers rid ntok nenc K' \<and> private_blocks rid out K'"
proof -
  let ?ms = "managers K"
  let ?f = "\<lambda>m0. mgr_allocate_new_blocks rid (if mgr_kind m0 = CrossAttention then nenc else ntok)"
  have pre: "alloc_pre rid (?ms ! i) (?ms ! i) (pool K)" if "i < length ?ms" for i
    using cow[OF that] by (simp add: alloc_pre_def)
  from alloc.on_managers_runs[OF ok order.refl pre cost] obtain out K' where
    r: "on_managers ?f ?ms K = Inr (out, K')" "kv_ok ext K'" "same_settings K K'" "length out = length ?ms"
    "\<And>i. i < length ?ms \<Longrightarrow> alloc_post rid ntok nenc (?ms ! i) (out ! i) (managers K' ! i)" by blast
  have run: "coord_allocate_new_blocks rid ntok nenc K = Inr (out, K')"
    using r(1) by (simp add: coord_allocate_new_blocks_def)
  have len: "length (managers K') = length ?ms" using same_settingsD(3)[OF r(3)] .
  obtain xs where inv: "pool_inv (pool K) xs" and oks: "\<And>m. m \<in> set ?ms \<Longrightarrow> mgr_ok m (pool K)"
    and acc: "accounted ext ?ms (pool K)" using ok by (auto simp: kv_ok_def)
  obtain p' where e: "each_manager ?f ?ms ?ms (pool K) = Inr (out, managers K', p')"
    using r(1) by (auto simp: on_managers_def bind_res_eq_Inr)
  have cost': "(\<Sum>i < length ?ms. alloc_cost rid ntok nenc (?ms ! i)) \<le> int (length xs)"
    using cost num_free_length[OF inv] by simp
  note T = alloc.each_taken[OF inv oks acc order.refl pre cost' e]
  have keep: "others_keep rid K K'" using r(5) len by (simp add: others_keep_def alloc_post_def)
  have cov: "covers rid ntok nenc K'"
    unfolding covers_def
  proof
    fix m' assume "m' \<in> set (managers K')"
    then obtain i where i: "i < length ?ms" "m' = managers K' ! i" using len by (metis in_set_conv_nth)
    let ?m = "?ms ! i"
    have po: "alloc_post rid ntok nenc ?m (out ! i) m'" using r(5)[OF i(1)] i(2) by simp
    have k: "mgr_kind m' = mgr_kind ?m" "mgr_block_size m' = mgr_block_size ?m"
      using po by (simp_all add: alloc_post_def only_request_def same_kind_def)
    have bs: "0 < mgr_block_size ?m" using mgr_okD(1)[OF oks] i(1) by simp
    have "alloc_tokens ntok nenc ?m \<le> int (length (blocks_of m' rid)) * mgr_block_size ?m"
      if "mgr_kind ?m \<noteq> CircularBuffer"
      using po that cdiv_le_iff[OF bs, of "alloc_tokens ntok nenc ?m" "int (length (blocks_of m' rid))"]
      by (simp add: alloc_post_def)
    then show "if mgr_kind m' = CircularBuffer then blocks_of m' rid \<noteq> []
        else alloc_tokens ntok nenc m' \<le> int (length (blocks_of m' rid)) * mgr_block_size m'"
      using po k by (auto simp: alloc_post_def alloc_tokens_def)
  qed
  have priv: "j = i \<and> q = rid"
    if i: "i < length ?ms" and b: "b \<in> set (out ! i)" and j: "j < length ?ms"
      and q: "b \<in> set (blocks_of (managers K' ! j) q)" for i b j q
  proof -
    have fr: "b \<in> free_set (pool K)" using T i b by blast
    have z: "cnt (?ms ! j) b = 0" using free_not_held[OF acc fr] j by simp
    have "0 < cnt (managers K' ! j) b" using table_in_held[OF q] by (simp add: held_iff_cnt)
    then have "b \<in> set (out ! j)" using T j z by force
    then have "j = i" using T i j b by blast
    moreover have "q = rid"
    proof (rule ccontr)
      assume "q \<noteq> rid"
      then have "b \<in> set (blocks_of (?ms ! j) q)"
        using r(5)[OF j] q by (simp add: alloc_post_def only_request_def)
      then show False using table_in_held z by (fastforce simp: held_iff_cnt)
    qed
    ultimately show ?thesis by blast
  qed
  then have "private_blocks rid out K'" using r(4) len by (simp add: private_blocks_def)
  then show ?thesis using run r(2,3) keep cov by blast
qed

lemma recycle_stage:
  assumes ok: "kv_ok ext K"
  shows "\<exists>K'. coord_remove_skipped_blocks rid processed nprompt K = Inr K' \<and> kv_ok ext K' \<and> same_settings K K' \<and>
    num_free K \<le> num_free K' \<and> others_keep rid K K' \<and>
    (\<forall>i < length (managers K). keeps_tail rid (window_block processed nprompt (managers K ! i))
       (managers K ! i) (pool K) (managers K' ! i))"
proof -
  have "0 \<le> num_free K" using ok num_free_length by (auto simp: kv_ok_def)
  then have "(\<Sum>i < length (managers K). (0::int)) \<le> num_free K" by simp
  from recycle.on_managers_runs[OF ok order.refl TrueI this, of rid processed nprompt] obtain os K' where
    r: "on_managers (no_result (\<lambda>_. mgr_remove_skipped_blocks rid processed nprompt)) (managers K) K = Inr (os, K')"
    "kv_ok ext K'" "same_settings K K'" "num_free K \<le> num_free K' + (\<Sum>i < length (managers K). 0)"
    "\<forall>i < length (managers K). keeps_tail rid (window_block processed nprompt (managers K ! i))
       (managers K ! i) (pool K) (managers K' ! i)" by blast
  have "others_keep rid K K'" using r(5) same_settingsD(3)[OF r(3)] by (simp add: others_keep_def keeps_tail_def)
  then show ?thesis using r by (intro exI[of _ K']) (simp add: coord_remove_skipped_blocks_def)
qed

lemma known_keeps:
  assumes "known_request rid n K" "same_settings K K'"
    and "\<And>i. i < length (managers K) \<Longrightarrow> keeps_tail rid (w i) (managers K ! i) (pool K) (managers K' ! i)"
  shows "known_request rid n K'"
  unfolding known_request_def
proof
  fix m' assume "m' \<in> set (managers K')"
  then obtain i where i: "i < length (managers K)" "m' = managers K' ! i"
    using same_settingsD(3)[OF assms(2)] by (metis in_set_conv_nth)
  note k = assms(3)[OF i(1)]
  have "managers K ! i \<in> set (managers K)" using i(1) by simp
  then show "partial_hit_reqs m' rid = None \<and>
      (\<not> special m' \<longrightarrow> n \<le> int (length (blocks_of m' rid)) * mgr_block_size m')"
    using assms(1) k i(2) by (auto simp: known_request_def keeps_tail_def only_request_def same_kind_def special_def)
qed

lemma first_keeps:
  assumes "first_request rid nlocal news K" "same_settings K K'"
    and "\<And>i. i < length (managers K) \<Longrightarrow> keeps_tail rid (w i) (managers K ! i) (pool K) (managers K' ! i)"
  shows "first_request rid nlocal news K'"
proof -
  have "blocks_of (managers K' ! i) rid = [] \<and> num_cached_block (managers K' ! i) rid = None \<and>
      partial_hit_reqs (managers K' ! i) rid = None \<and> add_pre rid nlocal (news ! i) (managers K' ! i) (pool K')"
    if i: "i < length (managers K)" for i
  proof -
    note k = assms(3)[OF i]
    have "blocks_of (managers K' ! i) rid = []"
      using k assms(1) i by (metis (mono_tags, lifting) first_request_def keeps_tail_def length_0_conv)
    moreover have "add_pre rid nlocal (news ! i) (managers K' ! i) (pool K')"
      using add_pre_keeps[OF k same_settingsD(4)[OF assms(2)]] assms(1) i by (simp add: first_request_def Let_def)
    ultimately show ?thesis using k assms(1) i by (simp add: first_request_def keeps_tail_def Let_def)
  qed
  then show ?thesis using assms(1) same_settingsD(3)[OF assms(2)] by (simp add: first_request_def Let_def)
qed

text \<open>The two ways the allocation goes after the check.\<close>

lemma known_allocates:
  assumes ok: "kv_ok ext K" and known: "known_request rid nlocal K" and n: "0 \<le> nlocal"
    and fits: "(\<Sum>i < length (managers K). needed rid nslot nenc nlocal nlocal False [] (managers K ! i) (pool K)) \<le> num_free K"
  shows "\<exists>out K'. coord_allocate_new_blocks rid nslot nenc K = Inr (out, K') \<and> kv_ok ext K' \<and>
    same_settings K K' \<and> others_keep rid K K' \<and> covers rid nslot nenc K' \<and> private_blocks rid out K'"
proof (rule alloc_stage[OF ok])
  have m: "mgr_ok (managers K ! i) (pool K)" "partial_hit_reqs (managers K ! i) rid = None"
    "\<not> special (managers K ! i) \<Longrightarrow>
       nlocal \<le> int (length (blocks_of (managers K ! i) rid)) * mgr_block_size (managers K ! i)"
    if "i < length (managers K)" for i
    using ok known that by (simp_all add: kv_ok_def known_request_def)
  show "cow_ok rid (managers K ! i) (pool K)" if "i < length (managers K)" for i
    using m(2)[OF that] by (simp add: cow_ok_def)
  have "alloc_cost rid nslot nenc (managers K ! i) \<le>
      needed rid nslot nenc nlocal nlocal False [] (managers K ! i) (pool K)" if i: "i < length (managers K)" for i
  proof (cases "mgr_kind (managers K ! i) = CircularBuffer")
    case True
    then show ?thesis by (simp add: needed_ring alloc_cost_def)
  next
    case False
    let ?m = "managers K ! i"
    have bs: "0 < mgr_block_size ?m" using mgr_okD(1)[OF m(1)[OF i]] .
    have "num_skipped_blocks ?m nlocal \<le> int (length (blocks_of ?m rid))" if "mgr_kind ?m \<noteq> CrossAttention"
    proof -
      have "get_num_skipped_tokens ?m nlocal \<le> int (length (blocks_of ?m rid)) * mgr_block_size ?m"
        using skipped_le[of ?m nlocal] m(1)[OF i] m(3)[OF i] that False n by (simp add: mgr_ok_def special_def)
      from zdiv_mono1[OF this bs] show ?thesis using bs by (simp add: num_skipped_blocks_def)
    qed
    then show ?thesis using needed_running[of ?m nlocal rid nslot nenc nlocal "pool K"] False m(2)[OF i]
      by (simp add: alloc_cost_def cow_cost_def)
  qed
  then have "(\<Sum>i < length (managers K). alloc_cost rid nslot nenc (managers K ! i)) \<le>
      (\<Sum>i < length (managers K). needed rid nslot nenc nlocal nlocal False [] (managers K ! i) (pool K))"
    by (intro sum_mono) simp
  then show "(\<Sum>i < length (managers K). alloc_cost rid nslot nenc (managers K ! i)) \<le> num_free K"
    using fits by linarith
qed

lemma external_post_ex: "\<exists>m'. external_post rid n nx m m'"
proof
  show "external_post rid n nx m (put_blocks rid (blocks_of m rid @ replicate (nat (external_cost rid n nx m)) 0) m)"
    by (simp add: external_post_def external_cost_def)
qed

lemma first_allocates:
  assumes ok: "kv_ok ext K" and first: "first_request rid nlocal news K"
    and n: "0 \<le> nlocal" "0 \<le> nx" "nlocal + nx \<le> nslot"
    and fits: "(\<Sum>i < length (managers K). needed rid nslot nenc (nlocal + nx) nlocal False (news ! i) (managers K ! i) (pool K))
      \<le> num_free K"
  shows "\<exists>K3 out K'. allocate_new_computed_blocks rid news nlocal nx K = Inr K3 \<and>
    coord_allocate_new_blocks rid nslot nenc K3 = Inr (out, K') \<and> kv_ok ext K' \<and>
    same_settings K K' \<and> others_keep rid K K' \<and> covers rid nslot nenc K' \<and> private_blocks rid out K'"
proof -
  let ?n = "length (managers K)"
  let ?m = "\<lambda>i. managers K ! i"
  define need where "need = (\<lambda>i. needed rid nslot nenc (nlocal + nx) nlocal False (news ! i) (?m i) (pool K))"
  obtain nl nx' where nat: "nlocal = int nl" "nx = int nx'" using n(1,2) by (metis nonneg_int_cases)
  have m: "mgr_ok (?m i) (pool K)" "blocks_of (?m i) rid = []" "num_cached_block (?m i) rid = None"
    "partial_hit_reqs (?m i) rid = None" "add_pre rid nlocal (news ! i) (?m i) (pool K)" if "i < ?n" for i
    using ok first that by (simp_all add: kv_ok_def first_request_def Let_def)
  define E where "E = (\<lambda>m2. if 0 < nx then max 0 (external_cost rid (nlocal + nx) nx m2) else 0)"
  have E0: "0 \<le> E m2" for m2 by (simp add: E_def)
  have budget: "add_cost (nlocal + nx) (news ! i) (?m i) (pool K) + E m2 + alloc_cost rid nslot nenc m3 \<le> need i"
    "cow_ok rid m3 (pool K)"
    if "i < ?n" "add_post rid nlocal (nlocal + nx) (news ! i) (?m i) (pool K) () m2"
      "if 0 < nx then external_post rid (nlocal + nx) nx m2 m3 else m3 = m2" for i m2 m3
    using first_budget(1)[OF m[OF that(1)] n(2,3) that(2,3), of nenc]
      first_budget(2)[OF m[OF that(1)] n(2,3) that(2,3)] by (simp_all add: need_def E_def)
  have budget2: "add_cost (nlocal + nx) (news ! i) (?m i) (pool K) + E m2 \<le> need i"
    if "i < ?n" "add_post rid nlocal (nlocal + nx) (news ! i) (?m i) (pool K) () m2" for i m2
  proof -
    obtain m3 where "if 0 < nx then external_post rid (nlocal + nx) nx m2 m3 else m3 = m2"
      using external_post_ex[of rid "nlocal + nx" nx m2] by (cases "0 < nx") auto
    from budget(1)[OF that this] show ?thesis using alloc_cost_nonneg[of rid nslot nenc m3] by linarith
  qed
  have untracked: "\<not> (\<exists>m \<in> set (managers K). num_cached_block m rid \<noteq> None)"
    using m(3) by (metis in_set_conv_nth)
  have add0: "add_cost (nlocal + nx) (news ! i) (?m i) (pool K) \<le> need i" if i: "i < ?n" for i
  proof (cases "special (?m i)")
    case True
    then show ?thesis using needed_ring[of "?m i"]
        needed_running[of "?m i" "nlocal + nx" rid nslot nenc nlocal "pool K"] m(5)[OF i]
      by (auto simp: need_def add_cost_def special_def add_pre_def)
  next
    case False
    have "0 \<le> num_skipped_blocks (?m i) (nlocal + nx)" using num_skipped_blocks_nonneg[OF m(1)[OF i]] n by simp
    from needed_first[OF m(3)[OF i] m(2)[OF i] False this, of nslot nenc nlocal "news ! i" "pool K"]
    show ?thesis by (simp add: need_def)
  qed
  have "(\<Sum>i < ?n. add_cost (nlocal + nx) (news ! i) (?m i) (pool K)) \<le> (\<Sum>i < ?n. need i)"
    using add0 by (intro sum_mono) simp
  then have c1: "(\<Sum>i < ?n. add_cost (int nl + int nx') (news ! i) (?m i) (pool K)) \<le> num_free K"
    using fits unfolding need_def nat by linarith
  have l1: "?n \<le> length news" using first by (simp add: first_request_def)
  have p1: "add_pre rid (int nl) (news ! i) (?m i) (pool K)" if "i < ?n" for i using m(5)[OF that] nat by simp
  from adopt.on_managers_runs[OF ok l1 p1 c1] obtain os2 K2 where
    K2: "on_managers (no_result (add_local_computed_blocks rid nlocal nx)) news K = Inr (os2, K2)" "kv_ok ext K2"
    "same_settings K K2"
    "num_free K \<le> num_free K2 + (\<Sum>i < ?n. add_cost (nlocal + nx) (news ! i) (?m i) (pool K))"
    "\<And>i. i < ?n \<Longrightarrow> add_post rid nlocal (nlocal + nx) (news ! i) (?m i) (pool K) () (managers K2 ! i)"
    unfolding nat by (auto simp: add_post_def)
  have l2: "length (managers K2) = ?n" using same_settingsD(3)[OF K2(3)] .
  have k2: "others_keep rid K K2" using K2(5) l2 by (simp add: others_keep_def add_post_def)
  have s2: "(\<Sum>i < ?n. add_cost (nlocal + nx) (news ! i) (?m i) (pool K)) + (\<Sum>i < ?n. E (managers K2 ! i)) \<le> num_free K"
  proof -
    have "(\<Sum>i < ?n. add_cost (nlocal + nx) (news ! i) (?m i) (pool K) + E (managers K2 ! i)) \<le> (\<Sum>i < ?n. need i)"
      using budget2 K2(5) by (intro sum_mono) simp
    then show ?thesis using fits by (simp add: need_def sum.distrib)
  qed
  obtain K3 where K3: "allocate_new_computed_blocks rid news nlocal nx K = Inr K3" "kv_ok ext K3"
    "same_settings K2 K3" "num_free K2 \<le> num_free K3 + (\<Sum>i < ?n. E (managers K2 ! i))" "others_keep rid K2 K3"
    "\<And>i. i < ?n \<Longrightarrow> if 0 < nx then external_post rid (nlocal + nx) nx (managers K2 ! i) (managers K3 ! i)
       else managers K3 ! i = managers K2 ! i"
  proof (cases "0 < nx")
    case False
    then have "allocate_new_computed_blocks rid news nlocal nx K = Inr K2"
      using untracked K2(1) by (simp add: allocate_new_computed_blocks_def)
    then show ?thesis using that[of K2] False K2(2) by (simp add: E_def)
  next
    case True
    have c2: "(\<Sum>i < length (managers K2). max 0 (external_cost rid (nlocal + nx) nx (managers K2 ! i))) \<le> num_free K2"
      using s2 K2(4) True l2 by (simp add: E_def)
    from extern.on_managers_runs[OF K2(2) order.refl TrueI c2] obtain os3 K3 where
      r: "on_managers (no_result (\<lambda>_. allocate_external_computed_blocks rid nlocal nx)) (managers K2) K2 = Inr (os3, K3)"
      "kv_ok ext K3" "same_settings K2 K3"
      "num_free K2 \<le> num_free K3 + (\<Sum>i < length (managers K2). max 0 (external_cost rid (nlocal + nx) nx (managers K2 ! i)))"
      "\<forall>i < length (managers K2). external_post rid (nlocal + nx) nx (managers K2 ! i) (managers K3 ! i)" by blast
    have "allocate_new_computed_blocks rid news nlocal nx K = Inr K3"
      using untracked K2(1) r(1) True by (simp add: allocate_new_computed_blocks_def)
    moreover have "others_keep rid K2 K3"
      using r(5) same_settingsD(3)[OF r(3)] by (simp add: others_keep_def external_post_def)
    ultimately show ?thesis using that[of K3] r(2-5) True l2 by (simp add: E_def)
  qed
  have l3: "length (managers K3) = ?n" using same_settingsD(3)[OF K3(3)] l2 by simp
  have B: "add_cost (nlocal + nx) (news ! i) (?m i) (pool K) + E (managers K2 ! i) +
      alloc_cost rid nslot nenc (managers K3 ! i) \<le> need i" "cow_ok rid (managers K3 ! i) (pool K)" if "i < ?n" for i
    using budget[OF that K2(5)[OF that] K3(6)[OF that]] .
  have "(\<Sum>i < ?n. add_cost (nlocal + nx) (news ! i) (?m i) (pool K) + E (managers K2 ! i) +
      alloc_cost rid nslot nenc (managers K3 ! i)) \<le> (\<Sum>i < ?n. need i)"
    using B(1) by (intro sum_mono) simp
  then have c3: "(\<Sum>i < length (managers K3). alloc_cost rid nslot nenc (managers K3 ! i)) \<le> num_free K3"
    using fits K2(4) K3(4) l3 by (simp add: need_def sum.distrib)
  have conf: "same_config (pool K) (pool K3)"
    using same_settingsD(4)[OF same_settings_trans[OF K2(3) K3(3)]] .
  have cow: "cow_ok rid (managers K3 ! i) (pool K3)" if "i < length (managers K3)" for i
    using cow_ok_config[OF conf B(2)] that l3 by simp
  from alloc_stage[OF K3(2) cow c3] obtain out K' where
    "coord_allocate_new_blocks rid nslot nenc K3 = Inr (out, K')" "kv_ok ext K'" "same_settings K3 K'"
    "others_keep rid K3 K'" "covers rid nslot nenc K'" "private_blocks rid out K'" by blast
  then show ?thesis
    using K3(1) same_settings_trans[OF same_settings_trans[OF K2(3) K3(3)]]
      others_keep_trans[OF others_keep_trans[OF k2 K3(5)]] by blast
qed

section \<open>The check is sufficient\<close>

lemma reserve_slots_ok:
  assumes ok: "kv_ok ext K" and pre: "slots_pre r nnewcomp newb nx K"
    and n: "nnew \<noteq> 0 \<or> nx \<noteq> 0 \<or> nnewcomp \<noteq> 0" "0 \<le> nnew" "0 \<le> nlook" "0 \<le> reserved"
  defines "nslot \<equiv> min (num_computed_tokens r + nnewcomp + nx + nnew + nlook) (max_model_len K)"
  shows "\<exists>res K'. reserve_slots r nnew nnewcomp newb nlook nx nenc full reserved sched K = Inr (res, K') \<and>
    kv_ok ext K' \<and> same_settings K K' \<and> others_keep (request_id r) K K' \<and>
    (\<forall>out. res = Some out \<longrightarrow> covers (request_id r) nslot nenc K' \<and> private_blocks (request_id r) out K')"
proof -
  let ?rid = "request_id r"
  let ?nl = "num_computed_tokens r + nnewcomp"
  let ?news = "blocks_list K newb"
  have P: "0 \<le> ?nl" "0 \<le> nx" "?nl + nx \<le> max_model_len K" "0 \<le> watermark_blocks K"
    using pre by (simp_all add: slots_pre_def)
  let ?wm = "if sched \<and> status r \<in> {WAITING, PREEMPTED} then watermark_blocks K else 0"
  have wm: "0 \<le> ?wm" using P(4) by simp
  have lenn: "length (managers K) \<le> length ?news"
    and unt: "\<And>i. i < length (managers K) \<Longrightarrow> num_cached_block (managers K ! i) ?rid = None \<or> ?news ! i = []"
    using pre by (auto simp: slots_pre_def blocks_list_def first_request_def Let_def split: if_splits)
  have "\<exists>b. full_sequence_fits r ?news nenc (?nl + nx) ?nl ?wm K = Inr b"
    by (simp add: full_sequence_fits_def Let_def coord_num_blocks_sum[OF lenn unt])
  then obtain fits where fits: "(if full then full_sequence_fits r ?news nenc (?nl + nx) ?nl ?wm K else Inr True) = Inr fits"
    by (cases full) auto
  have nt: "min (?nl + nx) (max_model_len K) = ?nl + nx" using P(3) by simp
  let ?rest = "\<lambda>K. bind_res (coord_num_blocks_to_allocate ?rid nslot ?news nenc (?nl + nx) ?nl False
               (managers K) (pool K)) (\<lambda>n.
             if n + ?wm > num_free K - reserved then Inr (None, K)
             else
               bind_res (if newb \<noteq> EmptyBlocks \<or> 0 < nx
                         then allocate_new_computed_blocks ?rid ?news ?nl nx K else Inr K) (\<lambda>K.
               bind_res (coord_allocate_new_blocks ?rid nslot nenc K) (\<lambda>(bs, K).
                 Inr (Some bs, K))))"
  have ng: "(nnew = 0 \<and> nx = 0 \<and> nnewcomp = 0) = False" using n(1) by simp
  have unfolded: "reserve_slots r nnew nnewcomp newb nlook nx nenc full reserved sched K =
      (if \<not> fits then Inr (None, K)
       else bind_res (coord_remove_skipped_blocks ?rid (max 0 (?nl + nx - num_in_flight_tokens r))
               (Some (num_prompt_tokens r)) K) ?rest)"
    by (simp only: reserve_slots_def Let_def ng if_False nt fits nslot_def bind_res_Inr)
  show ?thesis
  proof (cases fits)
    case False
    then have "reserve_slots r nnew nnewcomp newb nlook nx nenc full reserved sched K = Inr (None, K)"
      by (simp add: unfolded)
    then show ?thesis using ok by auto
  next
    case True
    obtain K1 where K1: "coord_remove_skipped_blocks ?rid (max 0 (?nl + nx - num_in_flight_tokens r))
        (Some (num_prompt_tokens r)) K = Inr K1" "kv_ok ext K1" "same_settings K K1" "others_keep ?rid K K1"
      "\<And>i. i < length (managers K) \<Longrightarrow> keeps_tail ?rid
         (window_block (max 0 (?nl + nx - num_in_flight_tokens r)) (Some (num_prompt_tokens r)) (managers K ! i))
         (managers K ! i) (pool K) (managers K1 ! i)"
      using recycle_stage[OF ok] by blast
    have l1: "length (managers K1) = length (managers K)" using same_settingsD(3)[OF K1(3)] .
    let ?need = "\<Sum>i < length (managers K1). needed ?rid nslot nenc (?nl + nx) ?nl False (?news ! i) (managers K1 ! i) (pool K1)"
    have unt1: "num_cached_block (managers K1 ! i) ?rid = None \<or> ?news ! i = []" if "i < length (managers K1)" for i
      using unt[of i] K1(5)[of i] that l1 by (simp add: keeps_tail_def)
    have cn: "coord_num_blocks_to_allocate ?rid nslot ?news nenc (?nl + nx) ?nl False (managers K1) (pool K1) = Inr ?need"
      using coord_num_blocks_sum[OF _ unt1] lenn l1 by simp
    have unf: "reserve_slots r nnew nnewcomp newb nlook nx nenc full reserved sched K =
       (if ?need + ?wm > num_free K1 - reserved then Inr (None, K1)
        else bind_res (if newb \<noteq> EmptyBlocks \<or> 0 < nx
               then allocate_new_computed_blocks ?rid ?news ?nl nx K1 else Inr K1) (\<lambda>K.
             bind_res (coord_allocate_new_blocks ?rid nslot nenc K) (\<lambda>(bs, K). Inr (Some bs, K))))"
      by (simp only: unfolded True K1(1) bind_res_Inr cn not_True_eq_False if_False)
    show ?thesis
    proof (cases "?need + ?wm > num_free K1 - reserved")
      case True
      then show ?thesis using unf K1(2-4) by auto
    next
      case False
      then have fit: "?need \<le> num_free K1" using wm n(4) by linarith
      have "?nl + nx \<le> nslot" using P(3) n(2,3) by (simp add: nslot_def)
      have "\<exists>K3 out K'. (if newb \<noteq> EmptyBlocks \<or> 0 < nx
               then allocate_new_computed_blocks ?rid ?news ?nl nx K1 else Inr K1) = Inr K3 \<and>
          coord_allocate_new_blocks ?rid nslot nenc K3 = Inr (out, K') \<and> kv_ok ext K' \<and>
          same_settings K1 K' \<and> others_keep ?rid K1 K' \<and> covers ?rid nslot nenc K' \<and> private_blocks ?rid out K'"
      proof (cases "newb \<noteq> EmptyBlocks \<or> 0 < nx")
        case True
        then have "first_request ?rid ?nl ?news K1"
          using pre first_keeps[OF _ K1(3,5)] by (auto simp: slots_pre_def)
        from first_allocates[OF K1(2) this P(1,2) \<open>?nl + nx \<le> nslot\<close> fit] True show ?thesis by simp
      next
        case False
        then have e: "newb = EmptyBlocks" "nx = 0" using P(2) by auto
        then have "known_request ?rid ?nl K1"
          using pre known_keeps[OF _ K1(3,5)] by (auto simp: slots_pre_def)
        moreover have "(\<Sum>i < length (managers K1). needed ?rid nslot nenc ?nl ?nl False [] (managers K1 ! i) (pool K1))
            \<le> num_free K1"
          using fit e l1 by (simp add: blocks_list_def)
        ultimately show ?thesis using known_allocates[OF K1(2) _ P(1)] False by simp
      qed
      then show ?thesis using unf False same_settings_trans[OF K1(3)] others_keep_trans[OF K1(4)] by auto
    qed
  qed
qed

end
