(* ===== verification/KvDefer.thy ===== *)
theory KvDefer imports KvAdmit
begin

text \<open>
  When the scheduler gives blocks back (\<^verbatim>\<open>vllm/v1/core/sched/scheduler.py\<close>). With asynchronous
  execution a step may still write the blocks of a request that has just finished, so their return
  is deferred: \<open>sched_step_seq\<close> counts the non-empty steps scheduled, \<open>processed_step_seq\<close> those
  whose output was processed, and \<open>deferred_frees\<close> is a FIFO of blocks with the step that fences
  them. \<open>block_step\<close> is the life of the blocks: requests come and go, slots are reserved, blocks
  outside the attention window are recycled, copies are handed to a step, steps are scheduled and
  processed, the prefix cache is reset or evicted from.

  The block state of the scheduler is the record \<open>block_sched\<close>; the rest of the scheduler may change
  any other field of a request at any time (rule \<open>Update\<close>).
\<close>

section \<open>State and operations\<close>

record block_sched =
  kv :: kv_cache
  live_requests :: "string \<Rightarrow> request option"
  deferred_frees :: "(int \<times> nat list) list"
  sched_step_seq :: int
  processed_step_seq :: int
  defer_block_free :: bool

definition return_blocks :: "nat list \<Rightarrow> block_sched \<Rightarrow> block_sched res" where
  "return_blocks bs S =
     bind_res (free_own_blocks bs (pool (kv S))) (\<lambda>p. Inr (S\<lparr>kv := (kv S)\<lparr>pool := p\<rparr>\<rparr>))"

definition request_blocks_can_be_freed :: "request \<Rightarrow> block_sched \<Rightarrow> bool" where
  "request_blocks_can_be_freed r S \<longleftrightarrow> \<not> defer_block_free S \<or> last_sched_seq r \<le> processed_step_seq S"

definition free_request_blocks :: "request \<Rightarrow> block_sched \<Rightarrow> block_sched res" where
  "free_request_blocks r S =
     (if request_blocks_can_be_freed r S
      then bind_res (kv_free r (kv S)) (\<lambda>K. Inr (S\<lparr>kv := K\<rparr>))
      else case coord_pop_blocks_for_free (request_id r) (kv S) of (bs, K) \<Rightarrow>
        let S = S\<lparr>kv := K\<rparr> in
        Inr (if bs \<noteq> [] then S\<lparr>deferred_frees := deferred_frees S @ [(sched_step_seq S, bs)]\<rparr> else S))"

definition free_cow_retained_blocks :: "nat list \<Rightarrow> int \<Rightarrow> block_sched \<Rightarrow> block_sched res" where
  "free_cow_retained_blocks bs fence S =
     (if \<not> defer_block_free S \<or> fence \<le> processed_step_seq S then return_blocks bs S
      else Inr (S\<lparr>deferred_frees := deferred_frees S @ [(fence, rev bs)]\<rparr>))"

definition hand_out_copies :: "block_sched \<Rightarrow> ((nat \<times> nat) list \<times> block_sched) res" where
  "hand_out_copies S =
     (case take_kv_cache_block_copies (kv S) of (copies, retained, K) \<Rightarrow>
        let S = S\<lparr>kv := K\<rparr> in
        if copies \<noteq> []
        then bind_res (free_cow_retained_blocks retained (sched_step_seq S + 1) S) (\<lambda>S. Inr (copies, S))
        else Inr (copies, S))"

fun drain_loop :: "(int \<times> nat list) list \<Rightarrow> block_sched \<Rightarrow> block_sched res" where
  "drain_loop [] S = Inr (S\<lparr>deferred_frees := []\<rparr>)"
| "drain_loop ((fence, bs) # ds) S =
     (if fence > processed_step_seq S then Inr (S\<lparr>deferred_frees := (fence, bs) # ds\<rparr>)
      else bind_res (return_blocks (rev bs) S) (drain_loop ds))"

definition drain_deferred_frees :: "block_sched \<Rightarrow> block_sched res" where
  "drain_deferred_frees S = drain_loop (deferred_frees S) S"

text \<open>The end of \<open>schedule\<close>, with \<open>_update_after_schedule\<close>, for the tokens scheduled per request.\<close>

fun after_schedule_loop :: "(string \<times> int) list \<Rightarrow> block_sched \<Rightarrow> block_sched res" where
  "after_schedule_loop [] S = Inr S"
| "after_schedule_loop ((rid, n) # ns) S =
     (case live_requests S rid of
        None \<Rightarrow> Inl KeyError
      | Some r \<Rightarrow>
          let r = r\<lparr>num_computed_tokens := num_computed_tokens r + n,
                    num_in_flight_tokens := num_in_flight_tokens r + n\<rparr>;
              r = (if defer_block_free S then r\<lparr>last_sched_seq := sched_step_seq S\<rparr> else r);
              r = r\<lparr>is_prefill_chunk := num_computed_tokens r < num_tokens r + num_output_placeholders r\<rparr>
          in after_schedule_loop ns (S\<lparr>live_requests := (live_requests S)(rid \<mapsto> r)\<rparr>))"

definition end_schedule :: "(string \<times> int) list \<Rightarrow> block_sched \<Rightarrow> block_sched res" where
  "end_schedule scheduled S =
     (let S = (if defer_block_free S \<and> 0 < (\<Sum>(_, n) \<leftarrow> scheduled. n)
               then S\<lparr>sched_step_seq := sched_step_seq S + 1\<rparr> else S)
      in after_schedule_loop scheduled S)"

text \<open>The start of \<open>update_from_output\<close>, for a step with \<open>ntok\<close> scheduled tokens.\<close>

definition begin_update :: "int \<Rightarrow> block_sched \<Rightarrow> block_sched res" where
  "begin_update ntok S =
     (if defer_block_free S \<and> 0 < ntok
      then drain_deferred_frees (S\<lparr>processed_step_seq := processed_step_seq S + 1\<rparr>)
      else Inr S)"

section \<open>The life of the blocks\<close>

text \<open>\<open>None\<close> of \<open>reserve_slots\<close> changes the state too: it recycles blocks before it finds no room.\<close>

inductive block_step :: "block_sched \<Rightarrow> block_sched \<Rightarrow> bool" where
  Arrive: "live_requests S (request_id r) = None \<Longrightarrow> last_sched_seq r = 0 \<Longrightarrow>
    block_step S (S\<lparr>live_requests := (live_requests S)(request_id r \<mapsto> r)\<rparr>)"
| Update: "live_requests S rid = Some r \<Longrightarrow> request_id r' = rid \<Longrightarrow> last_sched_seq r' = last_sched_seq r \<Longrightarrow>
    block_step S (S\<lparr>live_requests := (live_requests S)(rid \<mapsto> r')\<rparr>)"
| Reserve: "live_requests S rid = Some r \<Longrightarrow> slots_pre r nnewcomp newb nx (kv S) \<Longrightarrow>
    0 \<le> nnew \<Longrightarrow> 0 \<le> nlook \<Longrightarrow> 0 \<le> reserved \<Longrightarrow>
    reserve_slots r nnew nnewcomp newb nlook nx nenc full reserved sched (kv S) = Inr (res, K) \<Longrightarrow>
    block_step S (S\<lparr>kv := K\<rparr>)"
| Recycle: "live_requests S rid = Some r \<Longrightarrow>
    coord_remove_skipped_blocks rid n nprompt (kv S) = Inr K \<Longrightarrow> block_step S (S\<lparr>kv := K\<rparr>)"
| Preempt: "live_requests S rid = Some r \<Longrightarrow> free_request_blocks r S = Inr S' \<Longrightarrow> block_step S S'"
| Finish: "live_requests S rid = Some r \<Longrightarrow> free_request_blocks r S = Inr S' \<Longrightarrow>
    block_step S (S'\<lparr>live_requests := (live_requests S')(rid := None)\<rparr>)"
| Copies: "hand_out_copies S = Inr (copies, S') \<Longrightarrow> block_step S S'"
| Schedule: "end_schedule scheduled S = Inr S' \<Longrightarrow> block_step S S'"
| Process: "processed_step_seq S < sched_step_seq S \<Longrightarrow> begin_update ntok S = Inr S' \<Longrightarrow> block_step S S'"
| Evict: "kv_evict_blocks ids (kv S) = Inr K \<Longrightarrow> block_step S (S\<lparr>kv := K\<rparr>)"
| Reset: "kv_reset_prefix_cache (kv S) = (ok, K) \<Longrightarrow> block_step S (S\<lparr>kv := K\<rparr>)"
| NewIds: "take_new_block_ids (kv S) = (ids, K) \<Longrightarrow> block_step S (S\<lparr>kv := K\<rparr>)"

abbreviation block_steps :: "block_sched \<Rightarrow> block_sched \<Rightarrow> bool" where
  "block_steps \<equiv> block_step\<^sup>*\<^sup>*"

definition block_init :: "block_sched \<Rightarrow> bool" where
  "block_init S \<longleftrightarrow> kv_ok (\<lambda>_. 0) (kv S) \<and> live_requests S = (\<lambda>_. None) \<and> deferred_frees S = [] \<and>
     sched_step_seq S = 0 \<and> processed_step_seq S = 0"

definition block_reachable :: "block_sched \<Rightarrow> bool" where
  "block_reachable S \<longleftrightarrow> (\<exists>S0. block_init S0 \<and> block_steps S0 S)"

section \<open>The invariant\<close>

definition fenced_refs :: "(int \<times> nat list) list \<Rightarrow> nat \<Rightarrow> int" where
  "fenced_refs ds b = (\<Sum>(f, bs) \<leftarrow> ds. int (count_list bs b))"

definition fences_ok :: "(int \<times> nat list) list \<Rightarrow> int \<Rightarrow> block_pool \<Rightarrow> bool" where
  "fences_ok ds seq p \<longleftrightarrow> (\<forall>(f, bs) \<in> set ds. f \<le> seq + 1 \<and> (\<forall>b \<in> set bs. b < num_gpu_blocks p))"

definition sched_inv :: "block_sched \<Rightarrow> bool" where
  "sched_inv S \<longleftrightarrow> kv_ok (fenced_refs (deferred_frees S)) (kv S) \<and>
     fences_ok (deferred_frees S) (sched_step_seq S) (pool (kv S)) \<and>
     0 \<le> processed_step_seq S \<and> processed_step_seq S \<le> sched_step_seq S \<and>
     (\<forall>rid r. live_requests S rid = Some r \<longrightarrow> request_id r = rid \<and> last_sched_seq r \<le> sched_step_seq S)"

lemma fenced_refs_Nil [simp]: "fenced_refs [] = (\<lambda>_. 0)"
  by (simp add: fenced_refs_def fun_eq_iff)

lemma fenced_refs_Cons [simp]: "fenced_refs ((f, bs) # ds) b = int (count_list bs b) + fenced_refs ds b"
  by (simp add: fenced_refs_def)

lemma fenced_refs_append [simp]: "fenced_refs (ds @ es) b = fenced_refs ds b + fenced_refs es b"
  by (simp add: fenced_refs_def)

lemma fenced_refs_nonneg: "0 \<le> fenced_refs ds b"
  unfolding fenced_refs_def by (rule sum_list_nonneg) auto

lemma fenced_refs_pos: "(f, bs) \<in> set ds \<Longrightarrow> b \<in> set bs \<Longrightarrow> 0 < fenced_refs ds b"
proof (induction ds)
  case (Cons d ds)
  obtain g cs where d: "d = (g, cs)" by fastforce
  show ?case
  proof (cases "d = (f, bs)")
    case True
    then show ?thesis using count_list_pos[OF Cons.prems(2)] fenced_refs_nonneg[of ds b] by simp
  next
    case False
    then have "0 < fenced_refs ds b" using Cons by auto
    then show ?thesis using d by simp
  qed
qed simp

lemma fences_ok_config: "same_config p p' \<Longrightarrow> fences_ok ds seq p' = fences_ok ds seq p"
  by (simp add: fences_ok_def same_config_def)

lemma fences_ok_mono: "fences_ok ds seq p \<Longrightarrow> seq \<le> seq' \<Longrightarrow> fences_ok ds seq' p"
  by (fastforce simp: fences_ok_def)

subsection \<open>Moving references out of the managers and back\<close>

lemma kv_ok_cong:
  "kv_ok e K \<Longrightarrow> (\<And>b. b < num_gpu_blocks (pool K) \<Longrightarrow> \<not> is_null (blk (pool K) b) \<Longrightarrow> e b = e' b) \<Longrightarrow> kv_ok e' K"
  by (auto simp: kv_ok_def accounted_def)

lemma kv_ok_return:
  assumes ok: "kv_ok e K" and lt: "\<And>b. b \<in> set bs \<Longrightarrow> b < num_gpu_blocks (pool K)"
    and le: "\<And>b. int (count_list bs b) \<le> e b"
  shows "\<exists>p. free_own_blocks bs (pool K) = Inr p \<and> kv_ok (\<lambda>b. e b - int (count_list bs b)) (K\<lparr>pool := p\<rparr>) \<and>
    same_config (pool K) p"
proof -
  obtain xs where inv: "pool_inv (pool K) xs" and oks: "\<forall>m \<in> set (managers K). mgr_ok m (pool K)"
    and acc: "accounted e (managers K) (pool K)" using ok by (auto simp: kv_ok_def)
  have "int (count_list bs b) \<le> ref_cnt (blk (pool K) b)" if "b \<in> set bs" "\<not> is_null (blk (pool K) b)" for b
    using acc lt[OF that(1)] that(2) le[of b] sum_cnt_nonneg[of b "managers K"] by (auto simp: accounted_def)
  from free_own_blocks_ok[OF inv lt this] obtain p ys where p: "free_own_blocks bs (pool K) = Inr p"
    "pool_inv p ys" "refs_changed (pool K) p (\<lambda>i. - int (count_list bs i))" by blast
  have tr: "transfers (pool K) p (\<lambda>i. - int (count_list bs i))" using refs_changed_transfers[OF p(3)] .
  have "accounted (\<lambda>b. e b - int (count_list bs b)) (managers K) p"
    using acc tr le by (auto simp: accounted_def transfers_def same_config_def)
  then show ?thesis using p oks mgr_ok_config[OF transfers_config[OF tr]] transfers_config[OF tr]
    by (intro exI[of _ p]) (auto simp: kv_ok_def)
qed

text \<open>Every manager drops references, which the caller now holds.\<close>

lemma kv_ok_managers:
  assumes ok: "kv_ok e K" and mgr: "\<And>m. m \<in> set (managers K) \<Longrightarrow> mgr_ok (g m) (pool K)"
    and cnt: "\<And>m b. m \<in> set (managers K) \<Longrightarrow> cnt (g m) b = cnt m b - int (count_list (out m) b)"
  shows "kv_ok (\<lambda>b. e b + int (count_list (concat (map out (managers K))) b)) (K\<lparr>managers := map g (managers K)\<rparr>)"
proof -
  have "(\<Sum>m \<leftarrow> ms. cnt m b) = int (count_list (concat (map out ms)) b) + (\<Sum>m \<leftarrow> map g ms. cnt m b)"
    if "set ms \<subseteq> set (managers K)" for ms b
    using that cnt by (induction ms) (auto simp: count_list_append)
  then have "accounted (\<lambda>b. e b + int (count_list (concat (map out (managers K))) b)) (map g (managers K)) (pool K)"
    using ok by (auto simp: kv_ok_def accounted_def)
  then show ?thesis using ok mgr by (auto simp: kv_ok_def)
qed

lemma coord_free_ok:
  assumes ok: "kv_ok e K"
  shows "\<exists>K'. coord_free rid K = Inr K' \<and> kv_ok e K' \<and> same_settings K K' \<and>
    (\<forall>i < length (managers K). forgets rid (managers K ! i) (managers K' ! i))"
proof -
  have "0 \<le> num_free K" using ok num_free_length by (auto simp: kv_ok_def)
  then have "(\<Sum>i < length (managers K). (0::int)) \<le> num_free K" by simp
  from release.on_managers_runs[OF ok order.refl TrueI this, of rid] obtain os K' where
    r: "on_managers (no_result (\<lambda>_. mgr_free rid)) (managers K) K = Inr (os, K')" "kv_ok e K'"
    "same_settings K K'" "\<forall>i < length (managers K). forgets rid (managers K ! i) (managers K' ! i)" by blast
  then show ?thesis by (intro exI[of _ K']) (simp add: coord_free_def)
qed

lemma kv_ok_mgr: "kv_ok e K \<Longrightarrow> m \<in> set (managers K) \<Longrightarrow> mgr_ok m (pool K)"
  by (simp add: kv_ok_def)

lemma managers_pool_settings [simp]: "same_settings K (K\<lparr>managers := map g (managers K)\<rparr>)"
  by (simp add: same_settings_def)

lemma coord_pop_ok:
  assumes ok: "kv_ok e K" and pop: "coord_pop_blocks_for_free rid K = (bs, K')"
  shows "kv_ok (\<lambda>b. e b + int (count_list bs b)) K' \<and> same_settings K K' \<and> pool K' = pool K \<and>
    (\<forall>b \<in> set bs. b < num_gpu_blocks (pool K)) \<and> bs = concat (map (\<lambda>m. blocks_of m rid) (managers K)) \<and>
    (\<forall>i < length (managers K). forgets rid (managers K ! i) (managers K' ! i))"
proof -
  let ?g = "\<lambda>m. snd (mgr_pop_blocks_for_free rid m)"
  let ?out = "\<lambda>m. fst (mgr_pop_blocks_for_free rid m)"
  have d: "bs = concat (map ?out (managers K))" "K' = K\<lparr>managers := map ?g (managers K)\<rparr>"
    using pop by (simp_all add: coord_pop_blocks_for_free_def)
  note F = pop_forgets[OF kv_ok_mgr[OF ok], of _ rid]
  have "kv_ok (\<lambda>b. e b + int (count_list (concat (map ?out (managers K))) b)) (K\<lparr>managers := map ?g (managers K)\<rparr>)"
    by (rule kv_ok_managers[OF ok])
      (use F in \<open>auto simp: forgets_def mgr_pop_blocks_for_free_def\<close>)
  moreover have "b < num_gpu_blocks (pool K)" if "b \<in> set bs" for b
    using that d(1) mgr_okD(3)[OF kv_ok_mgr[OF ok]] by (auto simp: mgr_pop_blocks_for_free_def)
  ultimately show ?thesis using d F by (auto simp: mgr_pop_blocks_for_free_def)
qed

lemma in_concat_map: "b \<in> set (concat (map f xs)) \<longleftrightarrow> (\<exists>x \<in> set xs. b \<in> set (f x))"
  by auto

lemma copies_ok:
  assumes ok: "kv_ok e K" and t: "take_kv_cache_block_copies K = (copies, bs, K')"
  shows "kv_ok (\<lambda>b. e b + int (count_list bs b)) K' \<and> same_settings K K' \<and> pool K' = pool K \<and>
    (\<forall>b \<in> set bs. b < num_gpu_blocks (pool K)) \<and> (copies = [] \<longrightarrow> bs = [])"
proof -
  let ?g = "\<lambda>m. snd (mgr_take_pending_cow_copies m)"
  let ?out = "\<lambda>m. concat (map (\<lambda>(s, d). [s, d]) (pending_cow_copies m))"
  have t': "copies = concat (map pending_cow_copies (managers K))" "bs = concat (map (\<lambda>(s, d). [s, d]) copies)"
    "K' = K\<lparr>managers := map ?g (managers K)\<rparr>"
    using t by (auto simp: take_kv_cache_block_copies_def Let_def mgr_take_pending_cow_copies_def)
  have "concat (map (\<lambda>(s, d). [s, d]) (concat (map pending_cow_copies ms))) = concat (map ?out ms)"
    for ms :: "kv_manager list"
    by (induction ms) auto
  then have d: "bs = concat (map ?out (managers K))" "K' = K\<lparr>managers := map ?g (managers K)\<rparr>" "copies = [] \<longrightarrow> bs = []"
    using t' by simp_all
  have "kv_ok (\<lambda>b. e b + int (count_list (concat (map ?out (managers K))) b)) (K\<lparr>managers := map ?g (managers K)\<rparr>)"
  proof (rule kv_ok_managers[OF ok])
    fix m assume "m \<in> set (managers K)"
    then have "mgr_ok m (pool K)" by (rule kv_ok_mgr[OF ok])
    then show "mgr_ok (?g m) (pool K)"
      by (auto simp: mgr_ok_def held_def mgr_take_pending_cow_copies_def)
    show "cnt (?g m) b = cnt m b - int (count_list (?out m) b)" for b
      by (simp add: cnt_def held_def mgr_take_pending_cow_copies_def count_list_append)
  qed
  moreover have "b < num_gpu_blocks (pool K)" if b: "b \<in> set bs" for b
  proof -
    obtain m where "m \<in> set (managers K)" "b \<in> set (?out m)"
      using iffD1[OF in_concat_map b[unfolded d(1)]] by blast
    then show ?thesis using kv_ok_mgr[OF ok, of m] by (auto simp: mgr_ok_def held_def)
  qed
  ultimately show ?thesis using d by auto
qed

subsection \<open>Every operation keeps it\<close>

text \<open>An operation that leaves everything but the cache and the deferred blocks.\<close>

definition only_blocks :: "block_sched \<Rightarrow> block_sched \<Rightarrow> bool" where
  "only_blocks S S' \<longleftrightarrow> live_requests S' = live_requests S \<and> sched_step_seq S' = sched_step_seq S \<and>
     processed_step_seq S' = processed_step_seq S \<and> defer_block_free S' = defer_block_free S \<and>
     same_settings (kv S) (kv S')"

lemma only_blocks_refl [simp]: "only_blocks S S"
  by (simp add: only_blocks_def)

lemma sched_inv_only_blocks:
  "sched_inv S \<Longrightarrow> only_blocks S S' \<Longrightarrow> kv_ok (fenced_refs (deferred_frees S')) (kv S') \<Longrightarrow>
    fences_ok (deferred_frees S') (sched_step_seq S) (pool (kv S)) \<Longrightarrow> sched_inv S'"
  by (auto simp: sched_inv_def only_blocks_def fences_ok_config[OF same_settingsD(4)])

lemma sched_inv_kv:
  "sched_inv S \<Longrightarrow> kv_ok (fenced_refs (deferred_frees S)) K \<Longrightarrow> same_settings (kv S) K \<Longrightarrow> sched_inv (S\<lparr>kv := K\<rparr>)"
  by (rule sched_inv_only_blocks[of S]) (simp_all add: only_blocks_def sched_inv_def)

lemma return_blocks_ok:
  assumes ok: "kv_ok (\<lambda>b. e b + int (count_list bs b)) (kv S)" and e: "\<And>b. 0 \<le> e b"
    and lt: "\<And>b. b \<in> set bs \<Longrightarrow> b < num_gpu_blocks (pool (kv S))"
  shows "\<exists>S'. return_blocks bs S = Inr S' \<and> kv_ok e (kv S') \<and> only_blocks S S' \<and>
    deferred_frees S' = deferred_frees S \<and> managers (kv S') = managers (kv S)"
proof -
  have "int (count_list bs b) \<le> e b + int (count_list bs b)" for b using e[of b] by simp
  from kv_ok_return[OF ok lt this] obtain p where
    p: "free_own_blocks bs (pool (kv S)) = Inr p" "kv_ok e ((kv S)\<lparr>pool := p\<rparr>)" "same_config (pool (kv S)) p"
    by auto
  have "same_settings (kv S) ((kv S)\<lparr>pool := p\<rparr>)" using p(3) by (simp add: same_settings_def)
  then show ?thesis using p(1,2)
    by (intro exI[of _ "S\<lparr>kv := (kv S)\<lparr>pool := p\<rparr>\<rparr>"]) (simp add: return_blocks_def only_blocks_def)
qed

lemma free_request_blocks_ok:
  assumes inv: "sched_inv S" and r: "live_requests S (request_id r) = Some r"
  shows "\<exists>S'. free_request_blocks r S = Inr S' \<and> sched_inv S' \<and> only_blocks S S' \<and>
    (\<forall>i < length (managers (kv S)). forgets (request_id r) (managers (kv S) ! i) (managers (kv S') ! i)) \<and>
    (if request_blocks_can_be_freed r S then deferred_frees S' = deferred_frees S
     else deferred_frees S' = deferred_frees S @
       (let bs = concat (map (\<lambda>m. blocks_of m (request_id r)) (managers (kv S)))
        in if bs = [] then [] else [(sched_step_seq S, bs)]))"
proof (cases "request_blocks_can_be_freed r S")
  case True
  have ok: "kv_ok (fenced_refs (deferred_frees S)) (kv S)" using inv by (simp add: sched_inv_def)
  from coord_free_ok[OF ok, of "request_id r"] obtain K where
    K: "coord_free (request_id r) (kv S) = Inr K" "kv_ok (fenced_refs (deferred_frees S)) K" "same_settings (kv S) K"
    "\<forall>i < length (managers (kv S)). forgets (request_id r) (managers (kv S) ! i) (managers K ! i)" by blast
  have "sched_inv (S\<lparr>kv := K\<rparr>)" using sched_inv_kv[OF inv K(2,3)] .
  then show ?thesis using True K
    by (intro exI[of _ "S\<lparr>kv := K\<rparr>"]) (simp add: free_request_blocks_def kv_free_def only_blocks_def)
next
  case False
  have ok: "kv_ok (fenced_refs (deferred_frees S)) (kv S)" using inv by (simp add: sched_inv_def)
  obtain bs K where pop: "coord_pop_blocks_for_free (request_id r) (kv S) = (bs, K)" by fastforce
  note P = coord_pop_ok[OF ok pop]
  let ?ds = "if bs = [] then [] else [(sched_step_seq S, bs)]"
  let ?S = "S\<lparr>kv := K, deferred_frees := deferred_frees S @ ?ds\<rparr>"
  have run: "free_request_blocks r S = Inr ?S" using False pop by (simp add: free_request_blocks_def Let_def)
  have "kv_ok (fenced_refs (deferred_frees ?S)) (kv ?S)"
    using P by (auto elim!: kv_ok_cong)
  moreover have "fences_ok (deferred_frees ?S) (sched_step_seq S) (pool (kv S))"
    using P inv by (auto simp: fences_ok_def sched_inv_def)
  moreover have "only_blocks S ?S" using P by (simp add: only_blocks_def)
  ultimately show ?thesis using run False P sched_inv_only_blocks[OF inv, of ?S]
    by (intro exI[of _ ?S]) (simp add: Let_def)
qed

lemma hand_out_copies_ok:
  assumes inv: "sched_inv S"
  shows "\<exists>copies S'. hand_out_copies S = Inr (copies, S') \<and> sched_inv S' \<and> only_blocks S S' \<and>
    (\<exists>es. deferred_frees S' = deferred_frees S @ es)"
proof -
  have ok: "kv_ok (fenced_refs (deferred_frees S)) (kv S)" and fo: "fences_ok (deferred_frees S) (sched_step_seq S) (pool (kv S))"
    using inv by (simp_all add: sched_inv_def)
  obtain copies bs K where t: "take_kv_cache_block_copies (kv S) = (copies, bs, K)" by (metis prod_cases3)
  note C = copies_ok[OF ok t]
  let ?S = "S\<lparr>kv := K\<rparr>"
  show ?thesis
  proof (cases "copies = []")
    case True
    then have "kv_ok (fenced_refs (deferred_frees S)) K" using C by auto
    then have "sched_inv ?S" using sched_inv_kv[OF inv] C by blast
    then show ?thesis using True C t
      by (intro exI[of _ copies] exI[of _ ?S]) (simp add: hand_out_copies_def only_blocks_def)
  next
    case False
    show ?thesis
    proof (cases "\<not> defer_block_free S \<or> sched_step_seq S + 1 \<le> processed_step_seq S")
      case True
      have "kv_ok (\<lambda>b. fenced_refs (deferred_frees S) b + int (count_list bs b)) (kv ?S)" using C by simp
      from return_blocks_ok[OF this fenced_refs_nonneg] C obtain S' where
        S': "return_blocks bs ?S = Inr S'" "kv_ok (fenced_refs (deferred_frees S)) (kv S')" "only_blocks ?S S'"
        "deferred_frees S' = deferred_frees ?S" by force
      have o: "only_blocks S S'" using S'(3) C same_settings_trans by (auto simp: only_blocks_def)
      have "sched_inv S'" by (rule sched_inv_only_blocks[OF inv o]) (use S' fo in simp_all)
      moreover have "hand_out_copies S = Inr (copies, S')"
        using True \<open>copies \<noteq> []\<close> t S'(1) by (simp add: hand_out_copies_def free_cow_retained_blocks_def)
      ultimately show ?thesis using S'(4) o by (intro exI[of _ copies] exI[of _ S']) simp
    next
      case later: False
      let ?S' = "?S\<lparr>deferred_frees := deferred_frees S @ [(sched_step_seq S + 1, rev bs)]\<rparr>"
      have o: "only_blocks S ?S'" using C by (simp add: only_blocks_def)
      have "sched_inv ?S'"
      proof (rule sched_inv_only_blocks[OF inv o])
        show "kv_ok (fenced_refs (deferred_frees ?S')) (kv ?S')" using C by (auto elim!: kv_ok_cong)
        show "fences_ok (deferred_frees ?S') (sched_step_seq S) (pool (kv S))"
          using fo C by (auto simp: fences_ok_def)
      qed
      moreover have "hand_out_copies S = Inr (copies, ?S')"
        using later False t by (simp add: hand_out_copies_def free_cow_retained_blocks_def)
      ultimately show ?thesis using o by (intro exI[of _ copies] exI[of _ ?S']) simp
    qed
  qed
qed

lemma drain_loop_ok:
  assumes "kv_ok (fenced_refs ds) (kv S)" "\<forall>(f, bs) \<in> set ds. \<forall>b \<in> set bs. b < num_gpu_blocks (pool (kv S))"
  shows "\<exists>S'. drain_loop ds S = Inr S' \<and> only_blocks S S' \<and> managers (kv S') = managers (kv S) \<and>
    deferred_frees S' = dropWhile (\<lambda>(f, bs). f \<le> processed_step_seq S) ds \<and>
    kv_ok (fenced_refs (deferred_frees S')) (kv S')"
  using assms
proof (induction ds arbitrary: S)
  case Nil
  then show ?case by (intro exI[of _ "S\<lparr>deferred_frees := []\<rparr>"]) (simp add: only_blocks_def)
next
  case (Cons d ds)
  obtain f bs where d: "d = (f, bs)" by fastforce
  show ?case
  proof (cases "f > processed_step_seq S")
    case True
    then show ?thesis using Cons.prems d
      by (intro exI[of _ "S\<lparr>deferred_frees := d # ds\<rparr>"]) (simp add: only_blocks_def)
  next
    case False
    have "kv_ok (\<lambda>b. fenced_refs ds b + int (count_list (rev bs) b)) (kv S)"
      using Cons.prems(1) d by (auto elim!: kv_ok_cong)
    from return_blocks_ok[OF this fenced_refs_nonneg] Cons.prems(2) d obtain S1 where
      S1: "return_blocks (rev bs) S = Inr S1" "kv_ok (fenced_refs ds) (kv S1)" "only_blocks S S1"
      "managers (kv S1) = managers (kv S)" by auto
    have "num_gpu_blocks (pool (kv S1)) = num_gpu_blocks (pool (kv S))"
      using S1(3) same_settingsD(4) by (fastforce simp: only_blocks_def same_config_def)
    then have "\<forall>(f, bs) \<in> set ds. \<forall>b \<in> set bs. b < num_gpu_blocks (pool (kv S1))"
      using Cons.prems(2) by auto
    from Cons.IH[OF S1(2) this] obtain S' where
      S': "drain_loop ds S1 = Inr S'" "only_blocks S1 S'" "managers (kv S') = managers (kv S1)"
      "deferred_frees S' = dropWhile (\<lambda>(f, bs). f \<le> processed_step_seq S1) ds"
      "kv_ok (fenced_refs (deferred_frees S')) (kv S')" by blast
    then show ?thesis using False S1 d same_settings_trans
      by (intro exI[of _ S']) (auto simp: only_blocks_def)
  qed
qed

subsection \<open>Reachable states\<close>

lemma kv_ok_pool:
  assumes "kv_ok e K" "pool_inv p ys" "transfers (pool K) p (\<lambda>_. 0)"
  shows "kv_ok e (K\<lparr>pool := p\<rparr>) \<and> same_settings K (K\<lparr>pool := p\<rparr>)"
  using assms mgr_ok_config[OF transfers_config[OF assms(3)]]
  by (auto simp: kv_ok_def accounted_def transfers_def same_settings_def same_config_def)

lemma evict_blocks_known:
  "evict_blocks ids p = Inr p' \<Longrightarrow> cache_inv p \<Longrightarrow> b \<in> set ids \<Longrightarrow> b < num_gpu_blocks p"
proof (induction ids arbitrary: p)
  case (Cons c ids)
  obtain q where q: "maybe_evict_cached_block c p = (block_hash (blk p c) \<noteq> None, q)" "cache_inv q" "same_alloc p q"
    using maybe_evict_ok[OF Cons.prems(2), of c] by metis
  have "evict_blocks ids q = Inr p'" "c < num_gpu_blocks p"
    using Cons.prems(1) q(1) by (auto simp: evict_blocks_def bind_res_eq_Inr assert_res_def split: if_splits)
  then show ?case using Cons.IH[OF _ q(2)] Cons.prems(3) q(3) by (auto simp: same_alloc_def)
qed simp

lemma evict_keeps:
  assumes ok: "kv_ok e K" and run: "kv_evict_blocks ids K = Inr K'"
  shows "kv_ok e K' \<and> same_settings K K' \<and> managers K' = managers K"
proof -
  obtain xs where inv: "pool_inv (pool K) xs" using ok by (auto simp: kv_ok_def)
  obtain p where p: "evict_blocks ids (pool K) = Inr p" "K' = K\<lparr>pool := p\<rparr>"
    using run by (auto simp: kv_evict_blocks_def bind_res_eq_Inr)
  have lt: "\<And>b. b \<in> set ids \<Longrightarrow> b < num_gpu_blocks (pool K)"
    using evict_blocks_known[OF p(1)] inv by (simp add: pool_inv_def)
  have "\<exists>p'. evict_blocks ids (pool K) = Inr p' \<and> pool_inv p' xs \<and> same_alloc (pool K) p' \<and>
      (\<forall>c. keys_of p' c = (if c \<in> set ids then {} else keys_of (pool K) c))"
    by (rule evict_blocks_ok[OF inv lt])
  then have q: "pool_inv p xs" "same_alloc (pool K) p" using p(1) by auto
  have "transfers (pool K) p (\<lambda>_. 0)"
    by (rule refs_changed_transfers) (use same_alloc_split[OF q(2)] in simp)
  then show ?thesis using kv_ok_pool[OF ok q(1)] p(2) by simp
qed

lemma reset_keeps:
  assumes ok: "kv_ok e K" and run: "kv_reset_prefix_cache K = (b, K')"
  shows "kv_ok e K' \<and> same_settings K K' \<and> managers K' = managers K"
proof (cases "managers K = []")
  case True
  then show ?thesis using ok run by (simp add: kv_reset_prefix_cache_def same_settings_def)
next
  case False
  obtain xs where inv: "pool_inv (pool K) xs" using ok by (auto simp: kv_ok_def)
  obtain p where p: "reset_prefix_cache (pool K) = (b, p)" "K' = K\<lparr>pool := p\<rparr>"
    using run False by (auto simp: kv_reset_prefix_cache_def split: prod.splits)
  have q: "pool_inv p xs" "refs_changed (pool K) p (\<lambda>_. 0)"
    using reset_prefix_cache_ok[OF inv] p(1) by (simp_all split: prod.splits)
  show ?thesis using kv_ok_pool[OF ok q(1) refs_changed_transfers[OF q(2)]] p(2) by simp
qed

lemma new_ids_keeps:
  assumes ok: "kv_ok e K" and run: "take_new_block_ids K = (ids, K')"
  shows "kv_ok e K' \<and> same_settings K K'"
proof -
  have K': "K' = K\<lparr>managers := map (\<lambda>m. m\<lparr>new_block_ids := []\<rparr>) (managers K)\<rparr>"
    using run by (auto simp: take_new_block_ids_def mgr_take_new_block_ids_def)
  have "kv_ok (\<lambda>b. e b + int (count_list (concat (map (\<lambda>_. []) (managers K))) b)) K'"
    unfolding K'
  proof (rule kv_ok_managers[OF ok])
    fix m assume "m \<in> set (managers K)"
    then have "mgr_ok m (pool K)" by (rule kv_ok_mgr[OF ok])
    then show "mgr_ok (m\<lparr>new_block_ids := []\<rparr>) (pool K)" by (simp add: mgr_ok_def)
  qed simp
  moreover have "concat (map (\<lambda>_. []) (managers K)) = ([] :: nat list)" by (induction "managers K") auto
  ultimately show ?thesis using K' by simp
qed

text \<open>The loops over requests touch the requests only.\<close>

lemma after_schedule_ok:
  "after_schedule_loop ns S = Inr S' \<Longrightarrow> sched_inv S \<Longrightarrow> sched_inv S' \<and> kv S' = kv S \<and>
    deferred_frees S' = deferred_frees S \<and> processed_step_seq S' = processed_step_seq S \<and>
    sched_step_seq S' = sched_step_seq S \<and> defer_block_free S' = defer_block_free S"
proof (induction ns S rule: after_schedule_loop.induct)
  case (2 rid n ns S)
  then obtain r where r: "live_requests S rid = Some r" by (cases "live_requests S rid") auto
  let ?r1 = "r\<lparr>num_computed_tokens := num_computed_tokens r + n, num_in_flight_tokens := num_in_flight_tokens r + n\<rparr>"
  let ?r2 = "if defer_block_free S then ?r1\<lparr>last_sched_seq := sched_step_seq S\<rparr> else ?r1"
  let ?r = "?r2\<lparr>is_prefill_chunk := num_computed_tokens ?r2 < num_tokens ?r2 + num_output_placeholders ?r2\<rparr>"
  let ?S = "S\<lparr>live_requests := (live_requests S)(rid \<mapsto> ?r)\<rparr>"
  have run: "after_schedule_loop ns ?S = Inr S'" using "2.prems"(1) r by (simp add: Let_def)
  have "request_id ?r = rid \<and> last_sched_seq ?r \<le> sched_step_seq S"
    using "2.prems"(2) r by (auto simp: sched_inv_def)
  then have "sched_inv ?S" using "2.prems"(2) by (auto simp: sched_inv_def split: if_splits)
  then show ?case using "2.IH"[OF r refl refl refl] run by simp
qed simp

lemma end_schedule_ok:
  assumes run: "end_schedule scheduled S = Inr S'" and inv: "sched_inv S"
  shows "sched_inv S' \<and> kv S' = kv S \<and> deferred_frees S' = deferred_frees S \<and>
    processed_step_seq S' = processed_step_seq S \<and> sched_step_seq S \<le> sched_step_seq S'"
proof -
  let ?S = "if defer_block_free S \<and> 0 < (\<Sum>(_, n) \<leftarrow> scheduled. n)
     then S\<lparr>sched_step_seq := sched_step_seq S + 1\<rparr> else S"
  have "sched_inv ?S" using inv fences_ok_mono[of "deferred_frees S" "sched_step_seq S"] by (fastforce simp: sched_inv_def)
  moreover have "after_schedule_loop scheduled ?S = Inr S'" using run by (simp add: end_schedule_def Let_def)
  ultimately have "sched_inv S' \<and> kv S' = kv ?S \<and> deferred_frees S' = deferred_frees ?S \<and>
    processed_step_seq S' = processed_step_seq ?S \<and> sched_step_seq S' = sched_step_seq ?S"
    using after_schedule_ok by blast
  then show ?thesis by auto
qed

lemma drain_ok:
  assumes inv: "sched_inv S"
  shows "\<exists>S'. drain_deferred_frees S = Inr S' \<and> sched_inv S' \<and> only_blocks S S' \<and>
    managers (kv S') = managers (kv S) \<and>
    deferred_frees S' = dropWhile (\<lambda>(f, bs). f \<le> processed_step_seq S) (deferred_frees S)"
proof -
  have ok: "kv_ok (fenced_refs (deferred_frees S)) (kv S)"
    and fo: "fences_ok (deferred_frees S) (sched_step_seq S) (pool (kv S))" using inv by (simp_all add: sched_inv_def)
  have "\<forall>(f, bs) \<in> set (deferred_frees S). \<forall>b \<in> set bs. b < num_gpu_blocks (pool (kv S))"
    using fo by (auto simp: fences_ok_def)
  from drain_loop_ok[OF ok this] obtain S' where
    S': "drain_loop (deferred_frees S) S = Inr S'" "only_blocks S S'" "managers (kv S') = managers (kv S)"
    "deferred_frees S' = dropWhile (\<lambda>(f, bs). f \<le> processed_step_seq S) (deferred_frees S)"
    "kv_ok (fenced_refs (deferred_frees S')) (kv S')" by blast
  have "fences_ok (deferred_frees S') (sched_step_seq S) (pool (kv S))"
    using fo set_dropWhileD unfolding S'(4) fences_ok_def by fastforce
  then have "sched_inv S'" using sched_inv_only_blocks[OF inv S'(2,5)] by blast
  then show ?thesis using S' by (auto simp: drain_deferred_frees_def)
qed

lemma begin_update_ok:
  assumes inv: "sched_inv S" and lt: "processed_step_seq S < sched_step_seq S"
  shows "\<exists>S'. begin_update n S = Inr S' \<and> sched_inv S' \<and> managers (kv S') = managers (kv S) \<and>
    processed_step_seq S \<le> processed_step_seq S' \<and>
    deferred_frees S' = (if defer_block_free S \<and> 0 < n
      then dropWhile (\<lambda>(f, bs). f \<le> processed_step_seq S') (deferred_frees S) else deferred_frees S)"
proof (cases "defer_block_free S \<and> 0 < n")
  case True
  let ?S = "S\<lparr>processed_step_seq := processed_step_seq S + 1\<rparr>"
  have "sched_inv ?S" using inv lt by (auto simp: sched_inv_def)
  from drain_ok[OF this] obtain S' where
    "drain_deferred_frees ?S = Inr S'" "sched_inv S'" "only_blocks ?S S'" "managers (kv S') = managers (kv S)"
    "deferred_frees S' = dropWhile (\<lambda>(f, bs). f \<le> processed_step_seq ?S) (deferred_frees S)" by auto
  then show ?thesis using True
    by (intro exI[of _ S']) (simp add: begin_update_def only_blocks_def)
next
  case False
  then have "begin_update n S = Inr S" by (auto simp: begin_update_def)
  then show ?thesis using inv unfolding if_not_P[OF False] by (intro exI[of _ S]) simp
qed

inductive_cases block_stepE: "block_step S S'"

lemma reserve_step:
  assumes inv: "sched_inv S" and pre: "slots_pre r nnewcomp newb nx (kv S)" and n: "0 \<le> nnew" "0 \<le> nlook" "0 \<le> reserved"
    and run: "reserve_slots r nnew nnewcomp newb nlook nx nenc full reserved sched (kv S) = Inr (out, K)"
  shows "sched_inv (S\<lparr>kv := K\<rparr>)"
proof -
  have ok: "kv_ok (fenced_refs (deferred_frees S)) (kv S)" using inv by (simp add: sched_inv_def)
  have "nnew \<noteq> 0 \<or> nx \<noteq> 0 \<or> nnewcomp \<noteq> 0" using run by (auto simp: reserve_slots_def)
  from reserve_slots_ok[OF ok pre this n, where nenc = nenc and full = full and sched = sched] run show ?thesis using sched_inv_kv[OF inv] by auto
qed

lemma recycle_step:
  assumes inv: "sched_inv S" and run: "coord_remove_skipped_blocks rid n nprompt (kv S) = Inr K"
  shows "sched_inv (S\<lparr>kv := K\<rparr>)"
proof -
  have ok: "kv_ok (fenced_refs (deferred_frees S)) (kv S)" using inv by (simp add: sched_inv_def)
  from recycle_stage[OF ok, of rid n nprompt] run show ?thesis using sched_inv_kv[OF inv] by auto
qed

lemma requests_step:
  assumes inv: "sched_inv S" and "\<And>q r. f q = Some r \<Longrightarrow> request_id r = q \<and> last_sched_seq r \<le> sched_step_seq S"
  shows "sched_inv (S\<lparr>live_requests := f\<rparr>)"
  using assms by (simp add: sched_inv_def)

lemma live_request: "sched_inv S \<Longrightarrow> live_requests S rid = Some r \<Longrightarrow> request_id r = rid \<and> last_sched_seq r \<le> sched_step_seq S"
  by (simp add: sched_inv_def)

lemma seqs_nonneg: "sched_inv S \<Longrightarrow> 0 \<le> sched_step_seq S"
  by (auto simp: sched_inv_def)

lemma block_step_inv:
  assumes "block_step S S'" "sched_inv S"
  shows "sched_inv S'"
  using assms
proof (induction rule: block_step.induct)
  case (Arrive S r)
  then show ?case using live_request seqs_nonneg by (intro requests_step) (auto split: if_splits)
next
  case (Update S rid r r')
  then show ?case using live_request by (intro requests_step) (fastforce split: if_splits)+
next
  case (Reserve S rid r nnewcomp newb nx nnew nlook reserved nenc full sched out K)
  then show ?case using reserve_step by blast
next
  case (Recycle S rid r n nprompt K)
  then show ?case using recycle_step by blast
next
  case (Preempt S rid r S')
  then have "live_requests S (request_id r) = Some r" using live_request by blast
  then show ?case using free_request_blocks_ok[OF Preempt.prems] Preempt.hyps by fastforce
next
  case (Finish S rid r S')
  then have "live_requests S (request_id r) = Some r" using live_request by blast
  then have "sched_inv S'" using free_request_blocks_ok[OF Finish.prems] Finish.hyps by fastforce
  then show ?case using live_request by (intro requests_step) (auto split: if_splits)
next
  case (Copies S copies S')
  then show ?case using hand_out_copies_ok[OF Copies.prems] by auto
next
  case (Schedule scheduled S S')
  then show ?case using end_schedule_ok by blast
next
  case (Process S n S')
  then show ?case using begin_update_ok[OF Process.prems Process.hyps(1), of n] by auto
next
  case (Evict ids S K)
  have "kv_ok (fenced_refs (deferred_frees S)) (kv S)" using Evict.prems by (simp add: sched_inv_def)
  then show ?case using evict_keeps[OF _ Evict.hyps] sched_inv_kv[OF Evict.prems] by blast
next
  case (Reset S ok K)
  have "kv_ok (fenced_refs (deferred_frees S)) (kv S)" using Reset.prems by (simp add: sched_inv_def)
  then show ?case using reset_keeps[OF _ Reset.hyps] sched_inv_kv[OF Reset.prems] by blast
next
  case (NewIds S ids K)
  have "kv_ok (fenced_refs (deferred_frees S)) (kv S)" using NewIds.prems by (simp add: sched_inv_def)
  then show ?case using new_ids_keeps[OF _ NewIds.hyps] sched_inv_kv[OF NewIds.prems] by blast
qed

lemma block_steps_inv: "block_steps S S' \<Longrightarrow> sched_inv S \<Longrightarrow> sched_inv S'"
  by (induction rule: rtranclp_induct) (auto intro: block_step_inv)

lemma init_inv: "block_init S \<Longrightarrow> sched_inv S"
  by (simp add: block_init_def sched_inv_def fences_ok_def)

lemma reachable_sched_inv: "block_reachable S \<Longrightarrow> sched_inv S"
  using init_inv block_steps_inv by (auto simp: block_reachable_def)

subsection \<open>Fences\<close>

text \<open>A fenced block has a reference, so it is not in the free queue.\<close>

lemma fenced_not_free:
  assumes inv: "sched_inv S" and d: "(f, bs) \<in> set (deferred_frees S)" "b \<in> set bs" "\<not> is_null (blk (pool (kv S)) b)"
  shows "0 < ref_cnt (blk (pool (kv S)) b)"
proof -
  let ?p = "pool (kv S)"
  have "accounted (fenced_refs (deferred_frees S)) (managers (kv S)) ?p" "b < num_gpu_blocks ?p"
    using inv d(1,2) by (auto simp: sched_inv_def kv_ok_def fences_ok_def)
  then have "ref_cnt (blk ?p b) = fenced_refs (deferred_frees S) b + (\<Sum>m \<leftarrow> managers (kv S). cnt m b)"
    using d(3) by (auto simp: accounted_def)
  then show ?thesis using fenced_refs_pos[OF d(1,2)] sum_cnt_nonneg[of b "managers (kv S)"] by linarith
qed

text \<open>Only the processing of its step takes a fence out of the queue.\<close>

lemma fence_stays:
  assumes "block_step S S'" "sched_inv S" "(f, bs) \<in> set (deferred_frees S)" "processed_step_seq S' < f"
  shows "(f, bs) \<in> set (deferred_frees S')"
  using assms
proof (induction rule: block_step.induct)
  case (Preempt S rid r S')
  then have "live_requests S (request_id r) = Some r" using live_request by blast
  then show ?case using free_request_blocks_ok[OF Preempt.prems(1)] Preempt by (fastforce split: if_splits)
next
  case (Finish S rid r S')
  then have "live_requests S (request_id r) = Some r" using live_request by blast
  then show ?case using free_request_blocks_ok[OF Finish.prems(1)] Finish by (fastforce split: if_splits)
next
  case (Copies S copies S')
  then show ?case using hand_out_copies_ok[OF Copies.prems(1)] by auto
next
  case (Schedule scheduled S S')
  then show ?case using end_schedule_ok by metis
next
  case (Process S n S')
  have "x \<in> set (dropWhile P xs)" if "x \<in> set xs" "\<not> P x" for P and x :: "int \<times> nat list" and xs
    using that by (induction xs) auto
  then show ?case using begin_update_ok[OF Process.prems(1) Process.hyps(1), of n] Process by auto
qed auto

lemma processed_mono: "block_step S S' \<Longrightarrow> sched_inv S \<Longrightarrow> processed_step_seq S \<le> processed_step_seq S'"
proof (induction rule: block_step.induct)
  case (Preempt S rid r S')
  then have "live_requests S (request_id r) = Some r" using live_request by blast
  then show ?case using free_request_blocks_ok[OF Preempt.prems] Preempt by (fastforce simp: only_blocks_def)
next
  case (Finish S rid r S')
  then have "live_requests S (request_id r) = Some r" using live_request by blast
  then show ?case using free_request_blocks_ok[OF Finish.prems] Finish by (fastforce simp: only_blocks_def)
next
  case (Copies S copies S')
  then show ?case using hand_out_copies_ok[OF Copies.prems] by (auto simp: only_blocks_def)
next
  case (Schedule scheduled S S')
  then show ?case using end_schedule_ok by (metis order.refl)
next
  case (Process S n S')
  then show ?case using begin_update_ok[OF Process.prems Process.hyps(1), of n] by auto
qed auto

lemma fence_stays_steps:
  "block_steps S S' \<Longrightarrow> sched_inv S \<Longrightarrow> (f, bs) \<in> set (deferred_frees S) \<Longrightarrow> processed_step_seq S' < f \<Longrightarrow>
    (f, bs) \<in> set (deferred_frees S')"
proof (induction rule: rtranclp_induct)
  case (step T U)
  have inv: "sched_inv T" using block_steps_inv[OF step.hyps(1) step.prems(1)] .
  then have "processed_step_seq T < f" using processed_mono[OF step.hyps(2) inv] step.prems(3) by linarith
  then show ?case using fence_stays[OF step.hyps(2) inv] step by blast
qed simp

end
