(* ===== verification/KvLookup.thy ===== *)
theory KvLookup imports KvCoord
begin

text \<open>
  The prefix-cache lookup of the managers and coordinators: \<open>find_longest_cache_hit\<close> of each kind of
  attention (\<^verbatim>\<open>vllm/v1/core/single_type_kv_cache_manager.py\<close>), of the unitary and the no-cache
  coordinator and, as the fixed-point loop over groups of equal spec, of the hybrid one
  (\<^verbatim>\<open>vllm/v1/core/kv_cache_coordinator.py\<close>), and \<open>get_computed_blocks\<close>
  (\<^verbatim>\<open>vllm/v1/core/kv_cache_manager.py\<close>).

  A lookup is on the raw block hashes of a request, at the pool's hash block size; \<open>bs\<close> is the
  effective block size of the group and \<open>al\<close> the alignment in tokens, both positive. The blocks found
  are one list per group of \<open>gids\<close>, which share a spec. A falsy result of \<open>get_cached_block\<close> is \<open>None\<close>
  or the empty list.
\<close>

section \<open>Lists per group\<close>

definition append_each :: "nat list list \<Rightarrow> nat list \<Rightarrow> nat list list" where
  "append_each computed cached = map (\<lambda>(g, c). g @ [c]) (zip computed cached) @ drop (length cached) computed"

definition put_each :: "nat \<Rightarrow> nat list list \<Rightarrow> nat list \<Rightarrow> nat list list" where
  "put_each i computed cached = map (\<lambda>(g, c). g[i := c]) (zip computed cached) @ drop (length cached) computed"

definition probe :: "block_pool \<Rightarrow> int list \<Rightarrow> hash_list \<Rightarrow> int \<Rightarrow> nat list option res" where
  "probe p gids hl i = bind_res (hash_list_get hl i) (\<lambda>h. bind_res (get_cached_block p h gids) (\<lambda>ob.
     Inr (if ob = Some [] then None else ob)))"

definition num_first :: "nat list list \<Rightarrow> int res" where
  "num_first computed = bind_res (py_get computed 0) (\<lambda>g. Inr (int (length g)))"

section \<open>Full attention\<close>

text \<open>Phase 1, over the full blocks.\<close>

fun full_run :: "block_pool \<Rightarrow> int list \<Rightarrow> hash_list \<Rightarrow> nat list \<Rightarrow> nat list list \<Rightarrow> nat list list res" where
  "full_run p gids hl [] computed = Inr computed"
| "full_run p gids hl (i # is) computed =
     bind_res (probe p gids hl (int i)) (\<lambda>ob. case ob of
       None \<Rightarrow> Inr computed
     | Some cached \<Rightarrow> full_run p gids hl is (append_each computed cached))"

text \<open>Phase 2, over the interior hash boundaries from high to low.\<close>

fun fine_run ::
    "block_pool \<Rightarrow> int list \<Rightarrow> bytes list \<Rightarrow> int \<Rightarrow> int list \<Rightarrow> nat list list \<Rightarrow> int \<Rightarrow> (nat list list \<times> int) res" where
  "fine_run p gids hs al [] computed hit = Inr (computed, hit)"
| "fine_run p gids hs al (i # is) computed hit =
     bind_res (probe p gids (RawHashes hs) i) (\<lambda>ob. case ob of
       None \<Rightarrow> fine_run p gids hs al is computed hit
     | Some cached \<Rightarrow> Inr (append_each computed cached, (i + 1) * al))"

definition full_lookup ::
    "block_pool \<Rightarrow> bytes list \<Rightarrow> int \<Rightarrow> int list \<Rightarrow> int \<Rightarrow> bool \<Rightarrow> int \<Rightarrow> (nat list list \<times> int) res" where
  "full_lookup p hs max_len gids bs eagle al =
     (let fine = al < bs \<and> bs mod al = 0 in
      bind_res (resolve_block_hashes (RawHashes hs) (hash_block_size p) bs True (Some al)) (\<lambda>hl.
      bind_res (if fine then scaled_hashes hs al bs else Inr hl) (\<lambda>full.
      bind_res (assert_res (0 \<le> max_len div bs) ValueError) (\<lambda>_.
      bind_res (full_run p gids full [0..<nat (min (max_len div bs) (hash_list_len full))]
        (replicate (length gids) [])) (\<lambda>computed.
      bind_res (num_first computed) (\<lambda>n.
      bind_res
        (if fine
         then let scale = bs div al; first = n * scale;
                  top = min (min (first + scale - 1) (max_len div al)) (int (length hs))
              in fine_run p gids hs al (rev [first..top - 1]) computed (n * bs)
         else Inr (computed, n * bs)) (\<lambda>(computed, hit).
      let hit = (if eagle \<and> 0 < hit then hit - min al bs else hit);
          hit = hit - hit mod al
      in Inr (map (take (nat (cdiv hit bs))) computed, hit))))))))"

section \<open>Sliding windows\<close>

text \<open>The right-to-left search: the blocks, the length of the last run and whether it is long enough.\<close>

fun swa_scan ::
    "block_pool \<Rightarrow> int list \<Rightarrow> hash_list \<Rightarrow> int \<Rightarrow> bool \<Rightarrow> int \<Rightarrow> int \<Rightarrow> nat \<Rightarrow> nat list list \<Rightarrow> nat
      \<Rightarrow> (nat list list \<times> nat \<times> bool) res" where
  "swa_scan p gids hl bs eagle al need 0 computed run = Inr (computed, run, False)"
| "swa_scan p gids hl bs eagle al need (Suc i) computed run =
     bind_res (probe p gids hl (int i)) (\<lambda>ob. case ob of
       None \<Rightarrow> swa_scan p gids hl bs eagle al need i computed 0
     | Some cached \<Rightarrow>
         if run = 0 \<and> bs \<noteq> al \<and> (int (if eagle then i else i + 1) * bs) mod al \<noteq> 0
         then swa_scan p gids hl bs eagle al need i computed run
         else
           let computed = put_each i computed cached; run = run + 1 in
           if need \<le> int run then Inr (map (take (i + run)) computed, run, True)
           else swa_scan p gids hl bs eagle al need i computed run)"

text \<open>Popping blocks until the length is aligned; \<open>n\<close> is the length.\<close>

fun pop_unaligned :: "int \<Rightarrow> int \<Rightarrow> nat \<Rightarrow> nat list list \<Rightarrow> nat list list" where
  "pop_unaligned bs al 0 computed = computed"
| "pop_unaligned bs al (Suc n) computed =
     (if bs \<noteq> al \<and> (int (Suc n) * bs) mod al \<noteq> 0 then pop_unaligned bs al n (map butlast computed)
      else computed)"

definition swa_lookup ::
    "block_pool \<Rightarrow> bytes list \<Rightarrow> int \<Rightarrow> int list \<Rightarrow> int \<Rightarrow> int \<Rightarrow> bool \<Rightarrow> int \<Rightarrow> (nat list list \<times> int) res" where
  "swa_lookup p hs max_len gids window bs eagle al =
     bind_res (resolve_block_hashes (RawHashes hs) (hash_block_size p) bs False (Some al)) (\<lambda>hl.
     let need = contiguous_blocks_for_hit window bs eagle;
         n = nat (max_len div bs);
         computed = replicate (length gids) (replicate n (null_block p))
     in bind_res (swa_scan p gids hl bs eagle al need n computed 0) (\<lambda>(computed, run, matched).
     bind_res
       (if matched then Inr computed
        else let computed = map (take run) computed in
             bind_res (num_first computed) (\<lambda>k. Inr (pop_unaligned bs al (nat k) computed))) (\<lambda>computed.
     bind_res (num_first computed) (\<lambda>k.
     bind_res
       (if eagle \<and> k \<noteq> 0
        then Inr (pop_unaligned bs al (nat k - 1) (map butlast computed))
        else Inr computed) (\<lambda>computed.
     bind_res (num_first computed) (\<lambda>k. Inr (computed, k * bs)))))))"

section \<open>Chunked local attention\<close>

definition chunked_lookup ::
    "block_pool \<Rightarrow> bytes list \<Rightarrow> int \<Rightarrow> int list \<Rightarrow> int \<Rightarrow> int \<Rightarrow> bool \<Rightarrow> int \<Rightarrow> (nat list list \<times> int) res" where
  "chunked_lookup p hs max_len gids chunk bs eagle al =
     bind_res (assert_res (\<not> eagle) AssertionError) (\<lambda>_.
     bind_res (assert_res (bs = al) AssertionError) (\<lambda>_.
     bind_res (resolve_block_hashes (RawHashes hs) (hash_block_size p) bs False (Some al)) (\<lambda>hl.
     let n = nat (max_len div bs);
         start = (if 0 < max_len then max_len div chunk * chunk else 0);
         first = nat (start div bs)
     in bind_res (full_run p gids hl [first..<n] (replicate (length gids) (replicate first (null_block p)))) (\<lambda>computed.
        bind_res (num_first computed) (\<lambda>k. Inr (computed, k * bs))))))"

section \<open>Coordinators\<close>

definition group_lookup ::
    "mgr_kind \<Rightarrow> block_pool \<Rightarrow> bytes list \<Rightarrow> int \<Rightarrow> int list \<Rightarrow> int \<Rightarrow> bool \<Rightarrow> int \<Rightarrow> (nat list list \<times> int) res" where
  "group_lookup k p hs max_len gids bs eagle al =
     (case k of
        SlidingWindow w _ \<Rightarrow> swa_lookup p hs max_len gids w bs eagle al
      | ChunkedLocal c \<Rightarrow> chunked_lookup p hs max_len gids c bs eagle al
      | CircularBuffer \<Rightarrow> Inr (map (\<lambda>_. []) gids, 0)
      | CrossAttention \<Rightarrow> Inl RuntimeError
      | _ \<Rightarrow> full_lookup p hs max_len gids bs eagle al)"

text \<open>The groups of the hybrid coordinator that share a spec.\<close>

record spec_group =
  sg_kind :: mgr_kind
  sg_block_size :: int
  sg_group_ids :: "nat list"
  sg_use_eagle :: bool

definition is_full :: "mgr_kind \<Rightarrow> bool" where
  "is_full k \<longleftrightarrow> k = FullAttention \<or> (\<exists>w. k = RSWA w)"

record hit_state =
  hs_blocks :: "nat \<Rightarrow> nat list option"
  hs_length :: "nat \<Rightarrow> int"
  hs_eagle_verified :: "nat set"
  hs_longest :: int

definition store_hit :: "nat list \<Rightarrow> nat list list \<Rightarrow> int \<Rightarrow> hit_state \<Rightarrow> hit_state" where
  "store_hit gids hits n st = fold (\<lambda>(g, bs) st. st\<lparr>hs_blocks := (hs_blocks st)(g \<mapsto> bs),
     hs_length := (hs_length st)(g := n)\<rparr>) (zip gids hits) st"

text \<open>One pass over the groups; \<open>cur\<close> is the current hit length.\<close>

fun hybrid_pass ::
    "block_pool \<Rightarrow> bytes list \<Rightarrow> int \<Rightarrow> int \<Rightarrow> bool \<Rightarrow> nat \<Rightarrow> spec_group list \<Rightarrow> int \<Rightarrow> hit_state
      \<Rightarrow> (int \<times> hit_state) res" where
  "hybrid_pass p hs max_hit al fine idx [] cur st = Inr (cur, st)"
| "hybrid_pass p hs max_hit al fine idx (g # gs) cur st =
     bind_res (py_get (sg_group_ids g) 0) (\<lambda>g0.
       if is_full (sg_kind g) \<and> hs_blocks st g0 \<noteq> None
       then hybrid_pass p hs max_hit al fine (idx + 1) gs (min cur (hs_length st g0)) st
       else
         let eagle = (sg_use_eagle g \<and> idx \<notin> hs_eagle_verified st);
             margin = (if fine \<and> is_full (sg_kind g) \<and> hash_block_size p < sg_block_size g
                       then hash_block_size p else sg_block_size g);
             max_len = (if eagle then min (cur + margin) max_hit else cur)
         in bind_res (group_lookup (sg_kind g) p hs max_len (map int (sg_group_ids g)) (sg_block_size g) eagle al)
              (\<lambda>(hits, n).
            let st = (if eagle then st\<lparr>hs_eagle_verified := insert idx (hs_eagle_verified st)\<rparr>
                      else if n < cur then st\<lparr>hs_eagle_verified := {}\<rparr> else st);
                st = store_hit (sg_group_ids g) hits n st
            in hybrid_pass p hs max_hit al fine (idx + 1) gs n (st\<lparr>hs_longest := max (hs_longest st) n\<rparr>)))"

partial_function (option) hybrid_loop ::
    "block_pool \<Rightarrow> bytes list \<Rightarrow> int \<Rightarrow> int \<Rightarrow> bool \<Rightarrow> spec_group list \<Rightarrow> int \<Rightarrow> hit_state
      \<Rightarrow> (int \<times> hit_state) res option" where
  "hybrid_loop p hs max_hit al fine gs hit st =
     (case hybrid_pass p hs max_hit al fine 0 gs hit st of
        Inl e \<Rightarrow> Some (Inl e)
      | Inr (cur, st) \<Rightarrow>
          if hit \<le> cur then Some (Inr (hit, st))
          else if length gs = 2 \<and> is_full (sg_kind (gs ! 0)) then Some (Inr (cur, st))
          else hybrid_loop p hs max_hit al fine gs cur st)"

definition trim_full :: "spec_group list \<Rightarrow> int \<Rightarrow> hit_state \<Rightarrow> hit_state" where
  "trim_full gs hit st = fold (\<lambda>g st.
     if is_full (sg_kind g)
     then fold (\<lambda>i st. case hs_blocks st i of
            None \<Rightarrow> st
          | Some bs \<Rightarrow> st\<lparr>hs_blocks := (hs_blocks st)(i \<mapsto> take (nat (cdiv hit (sg_block_size g))) bs),
              hs_length := (hs_length st)(i := hit)\<rparr>) (sg_group_ids g) st
     else st) gs st"

definition hybrid_lookup ::
    "block_pool \<Rightarrow> bytes list \<Rightarrow> int \<Rightarrow> int \<Rightarrow> bool \<Rightarrow> spec_group list \<Rightarrow> nat
      \<Rightarrow> (nat list list \<times> int \<times> int) res option" where
  "hybrid_lookup p hs max_hit al fine gs num_groups =
     map_option (\<lambda>r. bind_res r (\<lambda>(hit, st).
       let st = trim_full gs hit st in
       Inr (map (\<lambda>i. case hs_blocks st i of None \<Rightarrow> [] | Some bs \<Rightarrow> bs) [0..<num_groups],
            hit, hs_longest st - hit)))
       (hybrid_loop p hs max_hit al fine gs max_hit
          \<lparr>hs_blocks = (\<lambda>_. None), hs_length = (\<lambda>_. 0), hs_eagle_verified = {}, hs_longest = 0\<rparr>)"

text \<open>
  The coordinators. The groups of equal spec that the hybrid one forms when it is built are the
  argument \<open>gs\<close>: a spec has fields (head sizes, data types) the managers do not keep.
\<close>

definition coord_find_longest_cache_hit ::
    "spec_group list \<Rightarrow> bytes list \<Rightarrow> int \<Rightarrow> kv_cache \<Rightarrow> (nat list list \<times> int \<times> int) res option" where
  "coord_find_longest_cache_hit gs hs max_hit K =
     (case coord_kind K of
        NoPrefixCache \<Rightarrow> Some (Inr (map (\<lambda>_. []) (managers K), 0, 0))
      | Unitary \<Rightarrow> Some (bind_res (py_get (managers K) 0) (\<lambda>m.
          bind_res (group_lookup (mgr_kind m) (pool K) hs max_hit [0] (mgr_block_size m)
              (0 \<in> set (eagle_group_ids K)) (mgr_block_size m)) (\<lambda>(hits, n). Inr (hits, n, 0))))
      | Hybrid partial_hits \<Rightarrow>
          hybrid_lookup (pool K) hs max_hit
            (if partial_hits then hash_block_size (pool K) else scheduler_block_size K) partial_hits gs
            (length (managers K)))"

text \<open>\<open>spec_bs\<close> are the block sizes of the specs, before they are scaled by context parallelism.\<close>

fun coord_emit_loop ::
    "(bytes \<Rightarrow> bytes) \<Rightarrow> request \<Rightarrow> int list \<Rightarrow> nat \<Rightarrow> nat list list \<Rightarrow> block_pool \<Rightarrow> block_pool res" where
  "coord_emit_loop sha r spec_bs i [] p = Inr p"
| "coord_emit_loop sha r spec_bs i (bs # rest) p =
     bind_res
       (if bs = [] then Inr p
        else bind_res (py_get spec_bs (int i)) (\<lambda>b. emit_cached_block_events sha r (length bs) b (int i) p))
       (coord_emit_loop sha r spec_bs (i + 1) rest)"

definition coord_emit_cached_block_events ::
    "(bytes \<Rightarrow> bytes) \<Rightarrow> request \<Rightarrow> int list \<Rightarrow> nat list list \<Rightarrow> kv_cache \<Rightarrow> kv_cache res" where
  "coord_emit_cached_block_events sha r spec_bs computed K =
     bind_res (coord_emit_loop sha r spec_bs 0 computed (pool K)) (\<lambda>p. Inr (K\<lparr>pool := p\<rparr>))"

section \<open>\<open>get_computed_blocks\<close>\<close>

definition prefix_cache_lookup_enabled :: "request \<Rightarrow> kv_cache \<Rightarrow> bool" where
  "prefix_cache_lookup_enabled r K \<longleftrightarrow> kv_enable_caching K \<and> \<not> skip_reading_prefix_cache r"

definition get_computed_blocks ::
    "(bytes \<Rightarrow> bytes) \<Rightarrow> request \<Rightarrow> spec_group list \<Rightarrow> int list \<Rightarrow> kv_cache
      \<Rightarrow> ((kv_blocks \<times> int \<times> int) \<times> kv_cache) res option" where
  "get_computed_blocks sha r gs spec_bs K =
     (if \<not> prefix_cache_lookup_enabled r K then Some (Inr ((EmptyBlocks, 0, 0), K))
      else map_option (\<lambda>res. bind_res res (\<lambda>(computed, n, uncached).
        bind_res
          (if 0 < n \<and> enable_kv_cache_events (pool K) \<and> kv_cache_report_mode r = Some ''full''
           then coord_emit_cached_block_events sha r spec_bs computed K else Inr K) (\<lambda>K.
        Inr ((create_kv_cache_blocks computed, n, if uncached \<noteq> 0 then n + uncached else 0), K))))
        (coord_find_longest_cache_hit gs (block_hashes r) (num_tokens r - 1) K))"

end
