(* ===== verification/KvHits.thy ===== *)
theory KvHits imports KvLookup
begin

text \<open>
  What the lookups find. \<open>hit_of p gids h\<close> is the tuple of blocks cached for the hash \<open>h\<close> in every
  group, if there is one. Full attention finds the longest prefix of hits; a sliding window the last
  aligned end whose window is all hits; chunked local attention the longest run from the start of
  the last chunk. The reference definitions are over the hashes at the block size of the group.
\<close>

section \<open>One probe\<close>

definition hit_of :: "block_pool \<Rightarrow> int list \<Rightarrow> bytes \<Rightarrow> nat list option" where
  "hit_of p gids h = (case get_cached_block p h gids of Inr (Some bs) \<Rightarrow> Some bs | _ \<Rightarrow> None)"

definition gids_ok :: "int list \<Rightarrow> bool" where
  "gids_ok gids \<longleftrightarrow> gids \<noteq> [] \<and> (\<forall>g \<in> set gids. 0 \<le> g \<and> g < 2 ^ 32)"

lemma hit_of_spec:
  assumes inv: "cache_inv p" and g: "gids_ok gids"
  shows "get_cached_block p h gids = Inr (hit_of p gids h)"
    and "hit_of p gids h = Some bs \<Longrightarrow> length bs = length gids \<and>
      (\<forall>j < length gids. group_key h (gids ! j) \<in> keys_of p (bs ! j))"
proof -
  obtain ob where ob: "get_cached_block p h gids = Inr ob"
    "case ob of None \<Rightarrow> (\<exists>g \<in> set gids. \<forall>b. group_key h g \<notin> keys_of p b)
     | Some bs \<Rightarrow> list_all2 (\<lambda>g b. group_key h g \<in> keys_of p b) gids bs"
    using get_cached_block_spec[OF inv, of gids h] g by (auto simp: gids_ok_def)
  then show "get_cached_block p h gids = Inr (hit_of p gids h)"
    by (simp add: hit_of_def split: option.splits)
  show "hit_of p gids h = Some bs \<Longrightarrow> length bs = length gids \<and>
      (\<forall>j < length gids. group_key h (gids ! j) \<in> keys_of p (bs ! j))"
    using ob by (auto simp: hit_of_def list_all2_conv_all_nth split: option.splits)
qed

lemma probe_hit:
  assumes "cache_inv p" "gids_ok gids" "hash_list_get hl i = Inr h"
  shows "probe p gids hl i = Inr (hit_of p gids h)"
proof -
  have "hit_of p gids h \<noteq> Some []"
    using hit_of_spec(2)[OF assms(1,2), of h "[]"] assms(2) by (auto simp: gids_ok_def)
  then show ?thesis using hit_of_spec(1)[OF assms(1,2), of h] assms(3) by (simp add: probe_def)
qed

text \<open>The column of group \<open>j\<close> for a list of hashes.\<close>

definition column :: "block_pool \<Rightarrow> int list \<Rightarrow> bytes list \<Rightarrow> nat \<Rightarrow> nat list" where
  "column p gids hs j = map (\<lambda>h. the (hit_of p gids h) ! j) hs"

definition columns :: "block_pool \<Rightarrow> int list \<Rightarrow> nat list \<Rightarrow> bytes list \<Rightarrow> nat list list" where
  "columns p gids pre hs = map (\<lambda>j. pre @ column p gids hs j) [0..<length gids]"

lemma append_columns:
  assumes "hit_of p gids h = Some cached" "length cached = length gids"
  shows "append_each (columns p gids pre hs) cached = columns p gids pre (hs @ [h])"
  using assms by (intro nth_equalityI) (simp_all add: append_each_def columns_def column_def)

section \<open>Runs\<close>

definition hit_prefix :: "block_pool \<Rightarrow> int list \<Rightarrow> bytes list \<Rightarrow> bytes list" where
  "hit_prefix p gids hs = takeWhile (\<lambda>h. hit_of p gids h \<noteq> None) hs"

lemma full_run_columns:
  assumes inv: "cache_inv p" and g: "gids_ok gids"
    and get: "\<And>i. i < length V \<Longrightarrow> hash_list_get hl (int i) = Inr (V ! i)" and k: "a \<le> k" "k \<le> length V"
  shows "full_run p gids hl [a..<k] (columns p gids pre hs) =
    Inr (columns p gids pre (hs @ hit_prefix p gids (drop a (take k V))))"
  using k(1)
proof (induction "k - a" arbitrary: a hs)
  case 0
  then show ?case by (simp add: hit_prefix_def)
next
  case (Suc n)
  then have lt: "a < k" by simp
  have pr: "probe p gids hl (int a) = Inr (hit_of p gids (V ! a))"
    using probe_hit[OF inv g get] lt k(2) by simp
  have d: "drop a (take k V) = V ! a # drop (Suc a) (take k V)"
    using lt k(2) by (simp add: Cons_nth_drop_Suc[symmetric])
  show ?case
  proof (cases "hit_of p gids (V ! a)")
    case None
    then show ?thesis using pr lt d by (simp add: upt_conv_Cons hit_prefix_def)
  next
    case (Some cached)
    have "append_each (columns p gids pre hs) cached = columns p gids pre (hs @ [V ! a])"
      using append_columns[OF Some] hit_of_spec(2)[OF inv g Some] by blast
    then have "full_run p gids hl [a..<k] (columns p gids pre hs) =
        full_run p gids hl [Suc a..<k] (columns p gids pre (hs @ [V ! a]))"
      using pr Some lt by (simp add: upt_conv_Cons)
    also have "\<dots> = Inr (columns p gids pre ((hs @ [V ! a]) @ hit_prefix p gids (drop (Suc a) (take k V))))"
      using Suc.hyps lt by (intro Suc.hyps) auto
    finally show ?thesis using Some d by (simp add: hit_prefix_def)
  qed
qed

lemma num_first_columns:
  "gids_ok gids \<Longrightarrow> num_first (columns p gids pre hs) = Inr (int (length pre + length hs))"
  by (cases gids) (simp_all add: num_first_def columns_def column_def py_get_def py_index_def gids_ok_def upt_conv_Cons del: upt_Suc)

lemma take_columns: "map (take n) (columns p gids [] hs) = columns p gids [] (take n hs)"
  by (simp add: columns_def column_def take_map)

lemma empty_columns: "replicate (length gids) pre = columns p gids pre []"
  by (simp add: columns_def column_def map_replicate_const)

section \<open>Full attention\<close>

lemma hash_list_len_view:
  assumes "0 < B" "bs mod B = 0" "0 < bs"
    and "resolve_block_hashes (RawHashes hs) B bs fg al = Inr hl"
    and "\<not> (\<exists>x. fg \<and> al = Some x \<and> x < bs \<and> bs mod x = 0)"
  shows "hash_list_len hl = int (length (view_of hs (bs div B)))"
    and "i < length (view_of hs (bs div B)) \<Longrightarrow> hash_list_get hl (int i) = Inr (view_of hs (bs div B) ! i)"
proof -
  have r: "resolve_block_hashes (RawHashes hs) B bs False None = Inr hl"
    using assms(4,5) by (auto simp: resolve_block_hashes_def split: option.splits if_splits)
  obtain hl' where hl': "resolve_block_hashes (RawHashes hs) B bs False None = Inr hl'"
    "\<And>a. hash_list_from hl' (int a) = Inr (drop a (view_of hs (bs div B)))"
    "\<And>i. i < length (view_of hs (bs div B)) \<Longrightarrow> hash_list_get hl' (int i) = Inr (view_of hs (bs div B) ! i)"
    using view_spec[OF assms(1) assms(3) assms(2), of hs] by metis
  then show "i < length (view_of hs (bs div B)) \<Longrightarrow> hash_list_get hl (int i) = Inr (view_of hs (bs div B) ! i)"
    using r by simp
  have "0 \<le> int (length hs) div (bs div B)"
    using assms by (simp add: pos_imp_zdiv_nonneg_iff pos_imp_zdiv_pos_iff div_int_pos_iff)
  then show "hash_list_len hl = int (length (view_of hs (bs div B)))"
    using r assms(1) by (auto simp: resolve_block_hashes_def scaled_hashes_def view_of_def bind_res_eq_Inr split: if_splits)
qed

text \<open>The hit of full attention at block granularity, from the longest run of \<open>n\<close> cached blocks.\<close>

definition full_hit_tokens :: "nat \<Rightarrow> int \<Rightarrow> bool \<Rightarrow> int \<Rightarrow> int" where
  "full_hit_tokens n bs eagle al =
     (let t = int n * bs - (if eagle \<and> 0 < n then min al bs else 0) in t - t mod al)"

lemma full_hit_bounds:
  assumes "0 < bs" "0 < al"
  shows "0 \<le> full_hit_tokens n bs eagle al" "full_hit_tokens n bs eagle al \<le> int n * bs"
    "nat (cdiv (full_hit_tokens n bs eagle al) bs) \<le> n"
proof -
  let ?t = "int n * bs - (if eagle \<and> 0 < n then min al bs else 0)"
  have t: "0 \<le> ?t"
  proof (cases n)
    case (Suc k)
    have "0 \<le> int k * bs" using assms by simp
    moreover have "min al bs \<le> bs" by simp
    ultimately have "min al bs \<le> bs + int k * bs" by linarith
    then show ?thesis using Suc assms by (simp add: distrib_right)
  qed simp
  have h: "full_hit_tokens n bs eagle al = ?t div al * al"
    by (simp add: full_hit_tokens_def Let_def minus_mod_eq_div_mult)
  then show lo: "0 \<le> full_hit_tokens n bs eagle al" using t assms by (simp add: pos_imp_zdiv_nonneg_iff)
  have "?t div al * al \<le> ?t" using assms by (metis div_mult_mod_eq le_add_same_cancel1 pos_mod_sign)
  then show hi: "full_hit_tokens n bs eagle al \<le> int n * bs" using h assms by (auto split: if_splits)
  have "cdiv (full_hit_tokens n bs eagle al) bs \<le> int n" using hi cdiv_le_iff[OF assms(1)] by simp
  then show "nat (cdiv (full_hit_tokens n bs eagle al) bs) \<le> n" by simp
qed

lemma full_lookup_hit:
  fixes hs :: "bytes list" and eagle :: bool
  assumes inv: "cache_inv p" and g: "gids_ok gids" and B: "0 < hash_block_size p" "bs mod hash_block_size p = 0" "0 < bs"
    and al: "0 < al" "\<not> (al < bs \<and> bs mod al = 0)" and n: "0 \<le> max_len"
  defines "found \<equiv> hit_prefix p gids (take (nat (max_len div bs)) (view_of hs (bs div hash_block_size p)))"
  defines "hit \<equiv> full_hit_tokens (length found) bs eagle al"
  shows "full_lookup p hs max_len gids bs eagle al =
    Inr (columns p gids [] (take (nat (cdiv hit bs)) found), hit)"
proof -
  let ?V = "view_of hs (bs div hash_block_size p)"
  obtain hl where hl: "resolve_block_hashes (RawHashes hs) (hash_block_size p) bs True (Some al) = Inr hl"
    using view_spec[OF B(1) B(3) B(2), of hs] al by (fastforce simp: resolve_block_hashes_def split: if_splits)
  note V = hash_list_len_view[OF B(1,2,3) hl] 
  have len: "hash_list_len hl = int (length ?V)" and get: "\<And>i. i < length ?V \<Longrightarrow> hash_list_get hl (int i) = Inr (?V ! i)"
    using V al(2) by auto
  let ?k = "min (nat (max_len div bs)) (length ?V)"
  have d: "0 \<le> max_len div bs" using n B(3) by (simp add: pos_imp_zdiv_nonneg_iff)
  then have k: "nat (min (max_len div bs) (hash_list_len hl)) = ?k" by (simp add: len min_def nat_le_iff)
  have "take ?k ?V = take (nat (max_len div bs)) ?V" by (simp add: min_def)
  then have run: "full_run p gids hl [0..<?k] (replicate (length gids) []) = Inr (columns p gids [] found)"
    using full_run_columns[OF inv g get, of 0 ?k "[]" "[]"] by (simp add: empty_columns[of gids "[]" p] found_def)
  let ?n = "int (length found) * bs"
  let ?h = "if eagle \<and> 0 < ?n then ?n - min al bs else ?n"
  have hit: "?h - ?h mod al = hit"
    using B(3) by (simp add: hit_def full_hit_tokens_def Let_def zero_less_mult_iff)
  have fine: "(al < bs \<and> bs mod al = 0) = False" using al(2) by simp
  have a: "assert_res (0 \<le> max_len div bs) ValueError = Inr ()" using d by simp
  have nf: "num_first (columns p gids [] found) = Inr (int (length found))"
    using num_first_columns[OF g, of p "[]" found] by simp
  show ?thesis
    by (simp only: full_lookup_def Let_def fine if_False hl bind_res_Inr a k run nf case_prod_conv hit take_columns)
qed

section \<open>Sliding windows\<close>

text \<open>An end of a hit: aligned, with the window before it (or everything before it) cached.\<close>

definition swa_end :: "block_pool \<Rightarrow> int list \<Rightarrow> bytes list \<Rightarrow> int \<Rightarrow> bool \<Rightarrow> int \<Rightarrow> nat \<Rightarrow> nat \<Rightarrow> bool" where
  "swa_end p gids V bs eagle al need e \<longleftrightarrow> 0 < e \<and> e \<le> length V \<and>
     (bs = al \<or> (int (if eagle then e - 1 else e) * bs) mod al = 0) \<and>
     (\<forall>i \<in> set [e - need..<e]. hit_of p gids (V ! i) \<noteq> None)"

text \<open>The last such end, or 0.\<close>

definition last_swa_end :: "block_pool \<Rightarrow> int list \<Rightarrow> bytes list \<Rightarrow> int \<Rightarrow> bool \<Rightarrow> int \<Rightarrow> nat \<Rightarrow> nat" where
  "last_swa_end p gids V bs eagle al need =
     (case filter (swa_end p gids V bs eagle al need) (rev [0..<Suc (length V)]) of [] \<Rightarrow> 0 | e # _ \<Rightarrow> e)"

definition swa_column :: "block_pool \<Rightarrow> int list \<Rightarrow> bytes list \<Rightarrow> nat \<Rightarrow> nat \<Rightarrow> nat \<Rightarrow> nat list" where
  "swa_column p gids V need e j =
     map (\<lambda>i. if e - need \<le> i then the (hit_of p gids (V ! i)) ! j else null_block p) [0..<e]"

lemma swa_column_nth:
  "x < e \<Longrightarrow> swa_column p gids V need e j ! x =
    (if e - need \<le> x then the (hit_of p gids (V ! x)) ! j else null_block p)"
  by (simp add: swa_column_def del: upt_Suc)

lemma swa_column_length [simp]: "length (swa_column p gids V need e j) = e"
  by (simp add: swa_column_def)

lemma last_swa_end_eq:
  assumes "\<And>e'. swa_end p gids V bs eagle al need e' \<Longrightarrow> e' \<le> e" "e = 0 \<or> swa_end p gids V bs eagle al need e"
  shows "last_swa_end p gids V bs eagle al need = e"
proof -
  let ?P = "swa_end p gids V bs eagle al need"
  have hd: "case filter ?P (rev [0..<n]) of [] \<Rightarrow> (\<forall>x < n. \<not> ?P x) | x # _ \<Rightarrow> ?P x \<and> x < n \<and> (\<forall>y < n. ?P y \<longrightarrow> y \<le> x)" for n
    by (induction n) (auto split: list.splits simp: less_Suc_eq)
  show ?thesis
  proof (cases "filter ?P (rev [0..<Suc (length V)])")
    case Nil
    then have "\<forall>x < Suc (length V). \<not> ?P x" using hd[of "Suc (length V)"] by simp
    moreover have "?P e \<Longrightarrow> e < Suc (length V)" by (simp add: swa_end_def)
    ultimately have "e = 0" using assms(2) by blast
    then show ?thesis using Nil by (simp add: last_swa_end_def)
  next
    case (Cons x xs)
    then have x: "?P x" "\<forall>y < Suc (length V). ?P y \<longrightarrow> y \<le> x" using hd[of "Suc (length V)"] by auto
    then have "x \<le> e" using assms(1) by blast
    moreover have "?P e \<Longrightarrow> e < Suc (length V)" by (simp add: swa_end_def)
    then have "e \<le> x" using assms(2) x(2) by auto
    ultimately show ?thesis using Cons by (simp add: last_swa_end_def)
  qed
qed

text \<open>What the search knows when it is about to look at block \<open>i - 1\<close> with a run of \<open>run\<close> blocks.\<close>

definition scan_inv ::
    "block_pool \<Rightarrow> int list \<Rightarrow> bytes list \<Rightarrow> int \<Rightarrow> bool \<Rightarrow> int \<Rightarrow> nat \<Rightarrow> nat \<Rightarrow> nat list list \<Rightarrow> nat \<Rightarrow> bool" where
  "scan_inv p gids V bs eagle al need i computed run \<longleftrightarrow>
     run < need \<and> i + run \<le> length V \<and> length computed = length gids \<and>
     (\<forall>g \<in> set computed. length g = length V) \<and>
     (\<forall>j < length gids. \<forall>x < i. computed ! j ! x = null_block p) \<and>
     (\<forall>x. i \<le> x \<and> x < i + run \<longrightarrow> hit_of p gids (V ! x) \<noteq> None \<and>
        (\<forall>j < length gids. computed ! j ! x = the (hit_of p gids (V ! x)) ! j)) \<and>
     (0 < run \<longrightarrow> bs = al \<or> (int (if eagle then i + run - 1 else i + run) * bs) mod al = 0) \<and>
     (\<forall>e. swa_end p gids V bs eagle al need e \<longrightarrow> e \<le> i + run)"

lemma put_each_nth:
  assumes "length cached = length computed" "j < length computed"
  shows "put_each i computed cached ! j = (computed ! j)[i := cached ! j]"
  using assms by (simp add: put_each_def)

lemma put_each_length:
  "length cached = length computed \<Longrightarrow> length (put_each i computed cached) = length computed"
  by (simp add: put_each_def)

lemma scan_miss:
  assumes inv: "scan_inv p gids V bs eagle al need (Suc i) computed run" and miss: "hit_of p gids (V ! i) = None"
  shows "scan_inv p gids V bs eagle al need i computed 0"
proof -
  have "e \<le> i" if e: "swa_end p gids V bs eagle al need e" for e
  proof (rule ccontr)
    assume "\<not> e \<le> i"
    moreover have "e \<le> Suc i + run" "run < need" using inv e by (simp_all add: scan_inv_def)
    ultimately have "i \<in> set [e - need..<e]" by auto
    then show False using e miss unfolding swa_end_def by blast
  qed
  then show ?thesis using inv by (simp add: scan_inv_def)
qed

lemma scan_unaligned:
  assumes inv: "scan_inv p gids V bs eagle al need (Suc i) computed 0"
    and un: "bs \<noteq> al" "(int (if eagle then i else i + 1) * bs) mod al \<noteq> 0"
  shows "scan_inv p gids V bs eagle al need i computed 0"
proof -
  have "e \<le> i" if e: "swa_end p gids V bs eagle al need e" for e
  proof (rule ccontr)
    assume "\<not> e \<le> i"
    moreover have "e \<le> Suc i" using inv e by (simp add: scan_inv_def)
    ultimately have "e = Suc i" by simp
    then show False using e un by (auto simp: swa_end_def split: if_splits)
  qed
  then show ?thesis using inv by (simp add: scan_inv_def)
qed

lemma scan_hit:
  assumes inv: "scan_inv p gids V bs eagle al need (Suc i) computed run"
    and hit: "hit_of p gids (V ! i) = Some cached" "length cached = length gids"
    and al: "\<not> (run = 0 \<and> bs \<noteq> al \<and> (int (if eagle then i else i + 1) * bs) mod al \<noteq> 0)"
  shows "run + 1 < need \<Longrightarrow> scan_inv p gids V bs eagle al need i (put_each i computed cached) (run + 1)"
    and "need = run + 1 \<Longrightarrow> map (take (i + (run + 1))) (put_each i computed cached) =
      map (swa_column p gids V need (i + (run + 1))) [0..<length gids] \<and>
      swa_end p gids V bs eagle al need (i + (run + 1))"
proof -
  note I = inv[unfolded scan_inv_def]
  let ?c = "put_each i computed cached"
  have len: "length computed = length gids" "length ?c = length gids"
    using I hit(2) by (simp_all add: put_each_length)
  have row: "?c ! j = (computed ! j)[i := cached ! j]" if "j < length gids" for j
    using put_each_nth[of cached computed j i] hit(2) len(1) that by simp
  have rl: "length (computed ! j) = length V" if "j < length gids" for j
    using I that len(1) nth_mem[of j computed] by auto
  have i: "i < length V" using I by simp
  have low: "?c ! j ! x = null_block p" if "j < length gids" "x < i" for j x
    using I that row[OF that(1)] by simp
  have run: "hit_of p gids (V ! x) \<noteq> None \<and> (\<forall>j < length gids. ?c ! j ! x = the (hit_of p gids (V ! x)) ! j)"
    if "i \<le> x" "x < i + (run + 1)" for x
  proof (cases "x = i")
    case True
    then show ?thesis using hit row rl i by simp
  next
    case False
    then show ?thesis using I that row by simp
  qed
  have aligned: "bs = al \<or> (int (if eagle then i + (run + 1) - 1 else i + (run + 1)) * bs) mod al = 0"
    using I al by (cases "run = 0") auto
  have last: "e \<le> i + (run + 1)" if "swa_end p gids V bs eagle al need e" for e
    using I that by auto
  have all: "length g = length V" if "g \<in> set ?c" for g
    using that row rl len(2) by (metis in_set_conv_nth length_list_update)
  show "scan_inv p gids V bs eagle al need i ?c (run + 1)" if "run + 1 < need"
    unfolding scan_inv_def
  proof (intro conjI)
    show "i + (run + 1) \<le> length V" using I by simp
    show "0 < run + 1 \<longrightarrow> bs = al \<or> (int (if eagle then i + (run + 1) - 1 else i + (run + 1)) * bs) mod al = 0"
      using aligned by blast
  qed (use that len all low run last in blast)+
  assume n: "need = run + 1"
  have w: "i + (run + 1) - need = i" using n by simp
  have "take (i + (run + 1)) (?c ! j) = swa_column p gids V need (i + (run + 1)) j" if j: "j < length gids" for j
  proof (rule nth_equalityI)
    have "i + (run + 1) \<le> length V" using I by simp
    then show "length (take (i + (run + 1)) (?c ! j)) = length (swa_column p gids V need (i + (run + 1)) j)"
      using row[OF j] rl[OF j] by simp
    fix x assume "x < length (take (i + (run + 1)) (?c ! j))"
    then show "take (i + (run + 1)) (?c ! j) ! x = swa_column p gids V need (i + (run + 1)) j ! x"
      using low[OF j, of x] run[of x] j w by (auto simp: swa_column_nth not_less)
  qed
  then have "map (take (i + (run + 1))) ?c = map (swa_column p gids V need (i + (run + 1))) [0..<length gids]"
    using len(2) by (intro nth_equalityI) simp_all
  moreover have "swa_end p gids V bs eagle al need (i + (run + 1))"
    using I aligned run w by (auto simp: swa_end_def)
  ultimately show "map (take (i + (run + 1))) ?c = map (swa_column p gids V need (i + (run + 1))) [0..<length gids] \<and>
      swa_end p gids V bs eagle al need (i + (run + 1))" by blast
qed

lemma swa_scan_finds:
  assumes inv: "cache_inv p" and g: "gids_ok gids"
    and get: "\<And>i. i < length V \<Longrightarrow> hash_list_get hl (int i) = Inr (V ! i)"
    and need: "int need = max 1 needed"
    and scan: "scan_inv p gids V bs eagle al need i computed run"
  defines "e \<equiv> last_swa_end p gids V bs eagle al need"
  shows "\<exists>computed' run'. swa_scan p gids hl bs eagle al needed i computed run = Inr (computed', run', need \<le> e) \<and>
    (need \<le> e \<longrightarrow> computed' = map (swa_column p gids V need e) [0..<length gids]) \<and>
    (\<not> need \<le> e \<longrightarrow> run' = e \<and> map (take e) computed' = map (swa_column p gids V need e) [0..<length gids])"
  using scan
proof (induction i arbitrary: computed run)
  case 0
  note I = "0.prems"[unfolded scan_inv_def]
  have "e = run" unfolding e_def
  proof (rule last_swa_end_eq)
    show "e' \<le> run" if "swa_end p gids V bs eagle al need e'" for e' using I that by simp
    show "run = 0 \<or> swa_end p gids V bs eagle al need run" using I by (auto simp: swa_end_def)
  qed
  moreover have "run < need" using I by simp
  moreover have "map (take run) computed = map (swa_column p gids V need run) [0..<length gids]"
  proof (rule nth_equalityI)
    fix j assume "j < length (map (take run) computed)"
    then have j: "j < length gids" using I by simp
    then have l: "length (computed ! j) = length V" using I nth_mem[of j computed] by auto
    have "take run (computed ! j) = swa_column p gids V need run j"
      by (rule nth_equalityI) (use I j l in \<open>auto simp: swa_column_nth\<close>)
    then show "map (take run) computed ! j = map (swa_column p gids V need run) [0..<length gids] ! j"
      using j I by simp
  qed (use I in simp)
  ultimately show ?case by (intro exI[of _ computed] exI[of _ run]) simp
next
  case (Suc i)
  note S = Suc.prems
  have i: "i < length V" using S by (simp add: scan_inv_def)
  have pr: "probe p gids hl (int i) = Inr (hit_of p gids (V ! i))" using probe_hit[OF inv g get[OF i]] .
  show ?case
  proof (cases "hit_of p gids (V ! i)")
    case None
    then have "swa_scan p gids hl bs eagle al needed (Suc i) computed run = swa_scan p gids hl bs eagle al needed i computed 0"
      using pr by simp
    then show ?thesis using Suc.IH[OF scan_miss[OF S None]] by simp
  next
    case (Some cached)
    have lc: "length cached = length gids" using hit_of_spec(2)[OF inv g Some] by blast
    show ?thesis
    proof (cases "run = 0 \<and> bs \<noteq> al \<and> (int (if eagle then i else i + 1) * bs) mod al \<noteq> 0")
      case True
      then have "swa_scan p gids hl bs eagle al needed (Suc i) computed run = swa_scan p gids hl bs eagle al needed i computed 0"
        using pr Some by simp
      moreover have "scan_inv p gids V bs eagle al need i computed 0" using scan_unaligned[of p gids V bs eagle al need i computed] S True by simp
      ultimately show ?thesis using Suc.IH[of computed 0] by simp
    next
      case False
      note H = scan_hit[OF S Some lc False]
      let ?c = "put_each i computed cached"
      have "run < need" using S by (simp add: scan_inv_def)
      then consider "run + 1 < need" | "need = run + 1" by linarith
      then show ?thesis
      proof cases
        case 1
        then have "(needed \<le> int (run + 1)) = False" using need by auto
        then have "swa_scan p gids hl bs eagle al needed (Suc i) computed run = swa_scan p gids hl bs eagle al needed i ?c (run + 1)"
          by (simp only: swa_scan.simps(2) pr Some bind_res_Inr option.case False if_False Let_def)
        then show ?thesis using Suc.IH[OF H(1)[OF 1]] by simp
      next
        case 2
        note M = H(2)[OF 2]
        have "e = i + (run + 1)" unfolding e_def
          by (rule last_swa_end_eq) (use M S in \<open>auto simp: scan_inv_def\<close>)
        moreover have "(needed \<le> int (run + 1)) = True" using need 2 by auto
        then have "swa_scan p gids hl bs eagle al needed (Suc i) computed run = Inr (map (take (i + (run + 1))) ?c, run + 1, True)"
          by (simp only: swa_scan.simps(2) pr Some bind_res_Inr option.case False if_False if_True Let_def)
        ultimately show ?thesis using M 2 by simp
      qed
    qed
  qed
qed

lemma pop_unaligned_aligned:
  "bs = al \<or> (int n * bs) mod al = 0 \<Longrightarrow> pop_unaligned bs al n computed = computed"
  by (cases n) auto

lemma num_first_map:
  "gids_ok gids \<Longrightarrow> length (f 0) = k \<Longrightarrow> num_first (map f [0..<length gids]) = Inr (int k)"
  by (cases gids) (simp_all add: num_first_def py_get_def py_index_def gids_ok_def upt_conv_Cons del: upt_Suc)

lemma last_swa_end_is_end:
  "last_swa_end p gids V bs eagle al need = 0 \<or>
    swa_end p gids V bs eagle al need (last_swa_end p gids V bs eagle al need)"
proof (cases "filter (swa_end p gids V bs eagle al need) (rev [0..<Suc (length V)])")
  case (Cons x xs)
  then have "x \<in> set (filter (swa_end p gids V bs eagle al need) (rev [0..<Suc (length V)]))"
    by (simp only: list.set_intros)
  then have "swa_end p gids V bs eagle al need x" by (simp only: set_filter mem_Collect_eq)
  then show ?thesis using Cons by (simp add: last_swa_end_def del: upt_Suc)
qed (simp add: last_swa_end_def del: upt_Suc)

text \<open>An eagle group whose alignment is coarser than its blocks must find a whole window: from the
  start of the sequence it may drop more than it has to.\<close>

lemma swa_lookup_hit:
  fixes eagle :: bool and window al :: int
  assumes inv: "cache_inv p" and g: "gids_ok gids" and B: "0 < hash_block_size p" "bs mod hash_block_size p = 0" "0 < bs"
    and n: "nat (max_len div bs) \<le> length (view_of hs (bs div hash_block_size p))"
  defines "V \<equiv> take (nat (max_len div bs)) (view_of hs (bs div hash_block_size p))"
  defines "need \<equiv> nat (max 1 (contiguous_blocks_for_hit window bs eagle))"
  defines "e \<equiv> last_swa_end p gids V bs eagle al need"
  defines "keep \<equiv> (if eagle then e - 1 else e)"
  assumes al: "eagle \<Longrightarrow> bs = al \<or> need \<le> e"
  shows "swa_lookup p hs max_len gids window bs eagle al =
    Inr (map (\<lambda>j. take keep (swa_column p gids V need e j)) [0..<length gids], int keep * bs)"
proof -
  let ?W = "view_of hs (bs div hash_block_size p)"
  let ?n = "nat (max_len div bs)"
  let ?needed = "contiguous_blocks_for_hit window bs eagle"
  obtain hl where hl: "resolve_block_hashes (RawHashes hs) (hash_block_size p) bs False (Some al) = Inr hl"
    using view_spec[OF B(1) B(3) B(2), of hs] by (fastforce simp: resolve_block_hashes_def split: if_splits)
  have lV: "length V = ?n" using n by (simp add: V_def)
  have get: "hash_list_get hl (int i) = Inr (V ! i)" if "i < length V" for i
    using hash_list_len_view(2)[OF B hl, of i] that n by (simp add: V_def)
  have need: "int need = max 1 ?needed" by (simp add: need_def)
  let ?c0 = "replicate (length gids) (replicate ?n (null_block p))"
  have "scan_inv p gids V bs eagle al need ?n ?c0 0"
    using lV by (auto simp: scan_inv_def need_def swa_end_def)
  from swa_scan_finds[OF inv g get need this] obtain c run where
    sc: "swa_scan p gids hl bs eagle al ?needed ?n ?c0 0 = Inr (c, run, need \<le> e)"
    "need \<le> e \<Longrightarrow> c = map (swa_column p gids V need e) [0..<length gids]"
    "\<not> need \<le> e \<Longrightarrow> run = e \<and> map (take e) c = map (swa_column p gids V need e) [0..<length gids]"
    unfolding e_def by blast
  let ?C = "map (swa_column p gids V need e) [0..<length gids]"
  have nf: "num_first ?C = Inr (int e)" using num_first_map[OF g] by simp
  have e: "e = 0 \<or> bs = al \<or> (int keep * bs) mod al = 0"
    using last_swa_end_is_end[of p gids V bs eagle al need] unfolding e_def[symmetric] keep_def swa_end_def by auto
  have st1: "(if need \<le> e then Inr c
      else bind_res (num_first (map (take run) c)) (\<lambda>k. Inr (pop_unaligned bs al (nat k) (map (take run) c)))) = Inr ?C"
  proof (cases "need \<le> e")
    case False
    have "pop_unaligned bs al e ?C = ?C"
      using pop_unaligned_aligned[of bs al e ?C] e False al by (cases eagle; cases e) (auto simp: keep_def)
    then show ?thesis using False sc(3) nf by simp
  qed (use sc(2) in simp)
  have bl: "map butlast ?C = map (\<lambda>j. take (e - 1) (swa_column p gids V need e j)) [0..<length gids]"
    by (simp add: butlast_conv_take)
  let ?R = "map (\<lambda>j. take keep (swa_column p gids V need e j)) [0..<length gids]"
  have st2: "(if eagle \<and> int e \<noteq> 0 then Inr (pop_unaligned bs al (nat (int e) - 1) (map butlast ?C)) else Inr ?C)
      = (Inr ?R :: nat list list res)"
  proof (cases "eagle \<and> e \<noteq> 0")
    case True
    then have "pop_unaligned bs al (e - 1) (map butlast ?C) = map butlast ?C"
      using e by (intro pop_unaligned_aligned) (simp add: keep_def)
    then show ?thesis using True bl by (simp add: keep_def)
  qed (auto simp: keep_def)
  have nr: "num_first ?R = Inr (int keep)" using num_first_map[OF g] by (simp add: keep_def)
  show ?thesis
    by (simp only: swa_lookup_def hl bind_res_Inr Let_def sc(1) case_prod_conv st1 nf st2 nr)
qed

section \<open>Chunked local attention\<close>

lemma chunked_lookup_hit:
  assumes inv: "cache_inv p" and g: "gids_ok gids" and B: "0 < hash_block_size p" "bs mod hash_block_size p = 0" "0 < bs"
    and n: "nat (max_len div bs) \<le> length (view_of hs (bs div hash_block_size p))" and m: "0 \<le> max_len" and c: "0 < chunk"
  defines "first \<equiv> nat (max_len div chunk * chunk div bs)"
  defines "found \<equiv> hit_prefix p gids (drop first (take (nat (max_len div bs)) (view_of hs (bs div hash_block_size p))))"
  shows "chunked_lookup p hs max_len gids chunk bs False bs =
    Inr (columns p gids (replicate first (null_block p)) found, int (first + length found) * bs)"
proof -
  let ?W = "view_of hs (bs div hash_block_size p)"
  let ?n = "nat (max_len div bs)"
  obtain hl where hl: "resolve_block_hashes (RawHashes hs) (hash_block_size p) bs False (Some bs) = Inr hl"
    using view_spec[OF B(1) B(3) B(2), of hs] by (fastforce simp: resolve_block_hashes_def split: if_splits)
  have get: "\<And>i. i < length ?W \<Longrightarrow> hash_list_get hl (int i) = Inr (?W ! i)"
    using hash_list_len_view(2)[OF B hl] by simp
  have "max_len div chunk * chunk \<le> max_len" using c by (metis div_mult_mod_eq le_add_same_cancel1 pos_mod_sign)
  then have f: "first \<le> ?n" unfolding first_def using B(3) by (intro nat_mono zdiv_mono1)
  have start: "(if 0 < max_len then max_len div chunk * chunk else 0) = max_len div chunk * chunk"
    using m by (cases "max_len = 0") auto
  have run: "full_run p gids hl [first..<?n] (replicate (length gids) (replicate first (null_block p))) =
      Inr (columns p gids (replicate first (null_block p)) found)"
    using full_run_columns[OF inv g get f n, of "replicate first (null_block p)" "[]"]
    by (simp add: empty_columns[of gids "replicate first (null_block p)" p] found_def)
  have nf: "num_first (columns p gids (replicate first (null_block p)) found) = Inr (int (first + length found))"
    using num_first_columns[OF g, of p "replicate first (null_block p)" found] by simp
  show ?thesis
    by (simp only: chunked_lookup_def not_False_eq_True simp_thms assert_res_True bind_res_Inr hl Let_def start
        first_def[symmetric] run nf)
qed

section \<open>Lengths\<close>

text \<open>No lookup returns a negative length, whatever it is given.\<close>

lemma num_first_nonneg: "num_first c = Inr k \<Longrightarrow> 0 \<le> k"
  by (auto simp: num_first_def bind_res_eq_Inr)

lemma fine_run_bound:
  "fine_run p gids hs al is computed hit = Inr (c, h) \<Longrightarrow> 0 < al \<Longrightarrow> (\<And>i. i \<in> set is \<Longrightarrow> 0 \<le> i) \<Longrightarrow>
    h = hit \<or> al \<le> h"
proof (induction p gids hs al "is" computed hit rule: fine_run.induct)
  case (2 p gids hs al i "is" computed hit)
  obtain ob where ob: "probe p gids (RawHashes hs) i = Inr ob"
    using "2.prems"(1) by (cases "probe p gids (RawHashes hs) i") auto
  show ?case
  proof (cases ob)
    case None
    then show ?thesis using "2.IH"[OF ob None] "2.prems" ob by simp
  next
    case (Some cached)
    then have "h = (i + 1) * al" using "2.prems"(1) ob by simp
    moreover have "0 \<le> i" using "2.prems"(3) by simp
    ultimately show ?thesis using "2.prems"(2) by (simp add: distrib_right)
  qed
qed simp

lemma full_lookup_nonneg:
  assumes run: "full_lookup p hs max_len gids bs eagle al = Inr (hits, n)" and pos: "0 < bs" "0 < al"
  shows "0 \<le> n"
proof -
  let ?fine = "al < bs \<and> bs mod al = 0"
  obtain computed k y where y: "num_first computed = Inr k"
    "(if ?fine
         then fine_run p gids hs al (rev [k * (bs div al)..min (min (k * (bs div al) + bs div al - 1) (max_len div al)) (int (length hs)) - 1]) computed (k * bs)
         else Inr (computed, k * bs)) = Inr y"
    "n = (if eagle \<and> 0 < snd y then snd y - min al bs else snd y) - (if eagle \<and> 0 < snd y then snd y - min al bs else snd y) mod al"
    using run unfolding full_lookup_def Let_def split_def bind_res_eq_Inr
    by - (elim exE conjE, rule that, assumption, assumption, simp)
  obtain c hit where ch: "y = (c, hit)" by fastforce
  note c = y[unfolded ch snd_conv]
  have k: "0 \<le> k" using num_first_nonneg[OF c(1)] .
  have "hit = 0 \<or> min al bs \<le> hit"
  proof -
    have "k * bs = 0 \<or> bs \<le> k * bs" using k pos by (cases "k = 0") (auto simp: mult_le_cancel_right1)
    moreover have "hit = k * bs \<or> al \<le> hit"
    proof (cases ?fine)
      case True
      have "0 \<le> k * (bs div al)" using k pos True by (simp add: pos_imp_zdiv_nonneg_iff)
      then show ?thesis using c(2) True pos by (intro fine_run_bound) auto
    qed (use c(2) in auto)
    ultimately show ?thesis by auto
  qed
  then have "0 \<le> (if eagle \<and> 0 < hit then hit - min al bs else hit)" using pos by auto
  then show ?thesis using c(3) pos by (simp add: minus_mod_eq_div_mult pos_imp_zdiv_nonneg_iff)
qed

lemma group_lookup_nonneg:
  assumes "group_lookup k p hs max_len gids bs eagle al = Inr (hits, n)" "0 < bs" "0 < al"
  shows "0 \<le> n"
proof -
  have "0 \<le> x * bs" if "num_first c = Inr x" for c x using num_first_nonneg[OF that] assms(2) by simp
  then show ?thesis
    using assms full_lookup_nonneg[of p hs max_len gids bs eagle al hits n]
    by (auto simp: group_lookup_def swa_lookup_def chunked_lookup_def bind_res_eq_Inr Let_def split: mgr_kind.splits)
qed

section \<open>The fixed-point loop\<close>

lemma store_hit_length:
  "0 \<le> n \<Longrightarrow> (\<And>i. 0 \<le> hs_length st i) \<Longrightarrow> 0 \<le> hs_length (store_hit gids hits n st) i"
proof -
  have "0 \<le> n \<Longrightarrow> (\<And>i. 0 \<le> hs_length st i) \<Longrightarrow> 0 \<le> hs_length (fold (\<lambda>(g, bs) st. st\<lparr>hs_blocks := (hs_blocks st)(g \<mapsto> bs),
     hs_length := (hs_length st)(g := n)\<rparr>) zs st) i" for zs :: "(nat \<times> nat list) list"
    by (induction zs arbitrary: st) auto
  then show "0 \<le> n \<Longrightarrow> (\<And>i. 0 \<le> hs_length st i) \<Longrightarrow> 0 \<le> hs_length (store_hit gids hits n st) i"
    by (simp add: store_hit_def)
qed

lemma hybrid_pass_nonneg:
  "hybrid_pass p hs max_hit al fine idx gs cur st = Inr (cur', st') \<Longrightarrow> 0 < al \<Longrightarrow>
    (\<And>g. g \<in> set gs \<Longrightarrow> 0 < sg_block_size g) \<Longrightarrow> 0 \<le> cur \<Longrightarrow> (\<And>i. 0 \<le> hs_length st i) \<Longrightarrow>
    0 \<le> cur' \<and> (\<forall>i. 0 \<le> hs_length st' i)"
proof (induction gs arbitrary: idx cur st)
  case (Cons g gs)
  obtain g0 where g0: "py_get (sg_group_ids g) 0 = Inr g0"
    using Cons.prems(1) by (cases "py_get (sg_group_ids g) 0") auto
  show ?case
  proof (cases "is_full (sg_kind g) \<and> hs_blocks st g0 \<noteq> None")
    case True
    then have "hybrid_pass p hs max_hit al fine (idx + 1) gs (min cur (hs_length st g0)) st = Inr (cur', st')"
      using Cons.prems(1) g0 by simp
    then show ?thesis using Cons.IH[OF _ Cons.prems(2)] Cons.prems(3-5) by simp
  next
    case False
    define eagle where "eagle = (sg_use_eagle g \<and> idx \<notin> hs_eagle_verified st)"
    define margin where "margin = (if fine \<and> is_full (sg_kind g) \<and> hash_block_size p < sg_block_size g
                       then hash_block_size p else sg_block_size g)"
    define max_len where "max_len = (if eagle then min (cur + margin) max_hit else cur)"
    define st1 where "st1 = (\<lambda>n. if eagle then st\<lparr>hs_eagle_verified := insert idx (hs_eagle_verified st)\<rparr>
                      else if n < cur then st\<lparr>hs_eagle_verified := {}\<rparr> else st)"
    define st2 where "st2 = (\<lambda>hits n. store_hit (sg_group_ids g) hits n (st1 n))"
    let ?look = "group_lookup (sg_kind g) p hs max_len (map int (sg_group_ids g)) (sg_block_size g) eagle al"
    have eq: "hybrid_pass p hs max_hit al fine idx (g # gs) cur st = bind_res ?look (\<lambda>(hits, n).
        hybrid_pass p hs max_hit al fine (idx + 1) gs n (st2 hits n\<lparr>hs_longest := max (hs_longest (st2 hits n)) n\<rparr>))"
      by (simp only: hybrid_pass.simps(2) g0 bind_res_Inr False if_False Let_def eagle_def margin_def max_len_def st1_def st2_def)
    obtain hits n where look: "?look = Inr (hits, n)" and
      rest: "hybrid_pass p hs max_hit al fine (idx + 1) gs n (st2 hits n\<lparr>hs_longest := max (hs_longest (st2 hits n)) n\<rparr>) = Inr (cur', st')"
      using Cons.prems(1) unfolding eq bind_res_eq_Inr by auto
    have n: "0 \<le> n" using group_lookup_nonneg[OF look] Cons.prems(2,3) by simp
    have "0 \<le> hs_length (st1 n) i" for i using Cons.prems(5) by (simp add: st1_def)
    then have "0 \<le> hs_length (st2 hits n\<lparr>hs_longest := max (hs_longest (st2 hits n)) n\<rparr>) i" for i
      using store_hit_length[OF n] by (simp add: st2_def)
    then show ?thesis using Cons.IH[OF rest Cons.prems(2)] Cons.prems(3) n by auto
  qed
qed simp

lemma hybrid_loop_returns:
  assumes "0 < al" "\<And>g. g \<in> set gs \<Longrightarrow> 0 < sg_block_size g" "0 \<le> hit" "\<And>i. 0 \<le> hs_length st i"
  shows "\<exists>r. hybrid_loop p hs max_hit al fine gs hit st = Some r \<and>
    (\<forall>h st'. r = Inr (h, st') \<longrightarrow> 0 \<le> h \<and> h \<le> hit)"
  using assms(3,4)
proof (induction "nat hit" arbitrary: hit st rule: less_induct)
  case less
  show ?case
  proof (cases "hybrid_pass p hs max_hit al fine 0 gs hit st")
    case (Inl e)
    then show ?thesis by (subst hybrid_loop.simps) simp
  next
    case (Inr r)
    obtain cur st' where r: "r = (cur, st')" by fastforce
    have pos: "0 \<le> cur" "\<And>i. 0 \<le> hs_length st' i"
      using hybrid_pass_nonneg[OF Inr[unfolded r] assms(1,2) less.prems] by auto
    show ?thesis
    proof (cases "hit \<le> cur")
      case True
      then show ?thesis using Inr r less.prems by (subst hybrid_loop.simps) simp
    next
      case False
      then have "nat cur < nat hit" using pos(1) by simp
      then obtain x where "hybrid_loop p hs max_hit al fine gs cur st' = Some x"
        "\<forall>h st''. x = Inr (h, st'') \<longrightarrow> 0 \<le> h \<and> h \<le> cur"
        using less.hyps pos by blast
      then show ?thesis using Inr r False pos(1) by (subst hybrid_loop.simps) fastforce
    qed
  qed
qed

end
