(* ===== verification/PoolProps.thy ===== *)
theory PoolProps imports PoolFree
begin

text \<open>
  The contract of the block pool as a state machine: \<open>pool_exec\<close> performs an operation,
  \<open>pool_pre\<close> is what the callers guarantee before it (they free references they hold, cache
  blocks they own, name blocks that exist), and \<open>reachable\<close> closes a fresh pool under both. The
  properties follow from the lemmas of \<^verbatim>\<open>PoolCache\<close> and \<^verbatim>\<open>PoolFree\<close>.
\<close>

section \<open>Operations of the pool\<close>

datatype pool_op =
    Alloc nat
  | Touch "nat list"
  | Free "nat list"
  | Unpin "nat list" nat
  | Evict "nat list"
  | Reset
  | CacheFull request "nat list" nat nat int int "bool list option"
  | CachePartial request nat int int int bool
  | MoveHashes nat nat
  | EmitCached request nat int int
  | TakeEvents

fun pool_exec :: "(bytes \<Rightarrow> bytes) \<Rightarrow> pool_op \<Rightarrow> block_pool \<Rightarrow> block_pool res" where
  "pool_exec sha (Alloc k) p = bind_res (get_new_blocks (int k) p) (\<lambda>(_, p'). Inr p')"
| "pool_exec sha (Touch bs) p = touch bs p"
| "pool_exec sha (Free bs) p = free_own_blocks bs p"
| "pool_exec sha (Unpin bs w) p = unpin_blocks bs w p"
| "pool_exec sha (Evict ids) p = evict_blocks ids p"
| "pool_exec sha Reset p = Inr (snd (reset_prefix_cache p))"
| "pool_exec sha (CacheFull r bs nc nf bsz gid m) p = cache_full_blocks sha r bs nc nf bsz gid m p"
| "pool_exec sha (CachePartial r b n gid bsz rep) p =
     bind_res (cache_partial_block sha r b n gid bsz rep p) (\<lambda>(_, p'). Inr p')"
| "pool_exec sha (MoveHashes src dst) p = move_block_hashes src dst p"
| "pool_exec sha (EmitCached r nc bsz gid) p = emit_cached_block_events sha r nc bsz gid p"
| "pool_exec sha TakeEvents p = Inr (snd (take_events p))"

definition holds_refs :: "nat list \<Rightarrow> block_pool \<Rightarrow> bool" where
  "holds_refs bs p \<longleftrightarrow> (\<forall>b \<in> set bs. b < num_gpu_blocks p \<and>
     (\<not> is_null (blk p b) \<longrightarrow> int (count_list bs b) \<le> ref_cnt (blk p b)))"

fun pool_pre :: "pool_op \<Rightarrow> block_pool \<Rightarrow> bool" where
  "pool_pre (Alloc k) p = (int k \<le> get_num_free_blocks p)"
| "pool_pre (Touch bs) p = (\<forall>b \<in> set bs. b < num_gpu_blocks p)"
| "pool_pre (Free bs) p = holds_refs bs p"
| "pool_pre (Unpin bs w) p = (holds_refs bs p \<and> (\<forall>b \<in> set bs. \<not> is_null (blk p b)))"
| "pool_pre (Evict ids) p = (\<forall>b \<in> set ids. b < num_gpu_blocks p)"
| "pool_pre Reset p = True"
| "pool_pre (CacheFull r bs nc nf bsz gid m) p = full_args_ok r bs nc nf bsz gid m p"
| "pool_pre (CachePartial r b n gid bsz rep) p =
     (is_null (blk p b) \<or> partial_args_ok r b n gid bsz rep p)"
| "pool_pre (MoveHashes src dst) p = (src \<noteq> dst \<and> dst < num_gpu_blocks p \<and>
     \<not> is_null (blk p dst) \<and> block_hash (blk p dst) = None)"
| "pool_pre (EmitCached r nc bsz gid) p = (0 < hash_block_size p \<and> 0 < bsz \<and>
     bsz mod hash_block_size p = 0 \<and>
     int nc \<le> int (length (block_hashes r)) div (bsz div hash_block_size p))"
| "pool_pre TakeEvents p = True"

lemma cached_events_loop_ok:
  assumes "\<And>i. i \<in> set is \<Longrightarrow> \<exists>h. hash_list_get hl (int i) = Inr h" "0 \<le> mm"
  shows "\<exists>hs' ks'. cached_events_loop sha p r hl bsz is mm hs ks = Inr (hs', ks')"
  using assms
proof (induction "is" arbitrary: mm hs ks)
  case (Cons i "is")
  obtain h where h: "hash_list_get hl (int i) = Inr h" using Cons.prems(1) by auto
  obtain k mm' where "generate_block_hash_extra_keys sha r (int i * bsz) (int i * bsz + bsz) mm = Inr (k, mm')"
    "0 \<le> mm'" using generate_extra_total[OF Cons.prems(2)] by blast
  then show ?case
    using Cons.IH[of mm' "hs @ [maybe_convert_block_hash (env_int p) h]" "ks @ [k]"] Cons.prems(1) h by simp
qed simp

lemma emit_cached_ok:
  assumes "pool_pre (EmitCached r nc bsz gid) p"
  shows "\<exists>p'. emit_cached_block_events sha r nc bsz gid p = Inr p' \<and> same_alloc p p' \<and> same_cache p p'"
proof (cases "\<not> enable_kv_cache_events p \<or> nc = 0")
  case True
  then show ?thesis by (intro exI[of _ p]) (auto simp: emit_cached_block_events_def)
next
  case False
  let ?hv = "view_of (block_hashes r) (bsz div hash_block_size p)"
  obtain hl where hl: "resolve_block_hashes (RawHashes (block_hashes r)) (hash_block_size p) bsz False None = Inr hl"
    "\<And>i. i < length ?hv \<Longrightarrow> hash_list_get hl (int i) = Inr (?hv ! i)"
    using view_spec[of "hash_block_size p" bsz "block_hashes r"] assms by (metis pool_pre.simps(10))
  have "nc \<le> length ?hv" using assms by (simp add: view_of_def le_nat_iff)
  then have "\<exists>h. hash_list_get hl (int i) = Inr h" if "i \<in> set [0..<nc]" for i
    using that hl(2)[of i] by auto
  from cached_events_loop_ok[OF this order_refl] obtain hs ks where
    "cached_events_loop sha p r hl bsz [0..<nc] 0 [] [] = Inr (hs, ks)" by blast
  then show ?thesis using False hl(1) same_push_event
    by (cases "hs = []") (auto simp: emit_cached_block_events_def)
qed

lemma pool_inv_frames:
  "same_alloc p p' \<Longrightarrow> same_cache p p' \<Longrightarrow> pool_inv p xs \<Longrightarrow> pool_inv p' xs"
  using pool_inv_same_alloc cache_inv_same by (auto simp: pool_inv_def)

lemma pool_step_ok:
  assumes inv: "pool_inv p xs" and pre: "pool_pre a p"
  shows "\<exists>p' ys. pool_exec sha a p = Inr p' \<and> pool_inv p' ys"
proof -
  have c: "cache_inv p" using inv by (simp add: pool_inv_def)
  show ?thesis
proof (cases a)
  case (Alloc k)
  then have "k \<le> length xs" using pre inv free_invD(5)[of p xs]
    by (simp add: get_num_free_blocks_def pool_inv_def)
  from get_new_blocks_ok[OF inv this] show ?thesis using Alloc by fastforce
next
  case (Touch bs)
  then show ?thesis using touch_ok[OF inv, of bs] pre by auto
next
  case (Free bs)
  then show ?thesis using free_own_blocks_ok[OF inv, of bs] pre by (auto simp: holds_refs_def)
next
  case (Unpin bs w)
  then show ?thesis using unpin_blocks_ok[OF inv, of bs w] pre by (auto simp: holds_refs_def)
next
  case (Evict ids)
  then show ?thesis using evict_blocks_ok[OF inv, of ids] pre by auto
next
  case Reset
  then show ?thesis using reset_prefix_cache_ok[OF inv] by (auto split: prod.splits)
next
  case (CacheFull r bs nc nf bsz gid m)
  then have "full_args_ok r bs nc nf bsz gid m p" using pre by simp
  from cache_full_blocks_ok[OF c this] obtain p' where
    "cache_full_blocks sha r bs nc nf bsz gid m p = Inr p'" "cache_inv p'" "same_alloc p p'" by blast
  then show ?thesis using CacheFull pool_inv_same_alloc[OF _ _ inv] by auto
next
  case (CachePartial r b n gid bsz rep)
  show ?thesis
  proof (cases "is_null (blk p b)")
    case True
    then show ?thesis using CachePartial inv by (auto simp: cache_partial_block_def)
  next
    case False
    then have "partial_args_ok r b n gid bsz rep p" using CachePartial pre by simp
    from cache_partial_block_ok[OF c this] obtain k p' where
      "cache_partial_block sha r b n gid bsz rep p = Inr (k, p')" "cache_inv p'" "same_alloc p p'" by blast
    then show ?thesis using CachePartial pool_inv_same_alloc[OF _ _ inv] by auto
  qed
next
  case (MoveHashes src dst)
  then obtain p' where "move_block_hashes src dst p = Inr p'" "cache_inv p'" "same_alloc p p'"
    using move_block_hashes_ok[OF c, of dst src] pre by auto
  then show ?thesis using MoveHashes pool_inv_same_alloc[OF _ _ inv] by auto
next
  case (EmitCached r nc bsz gid)
  then show ?thesis using emit_cached_ok[of r nc bsz gid p sha] pre pool_inv_frames[OF _ _ inv] by fastforce
next
  case TakeEvents
  have "same_alloc p (snd (take_events p))" "same_cache p (snd (take_events p))"
    by (simp_all add: take_events_def same_alloc_def same_cache_def same_links_def blk_def)
  then show ?thesis using TakeEvents pool_inv_frames[OF _ _ inv] by auto
qed
qed

section \<open>Reachable pools\<close>

inductive reachable :: "(bytes \<Rightarrow> bytes) \<Rightarrow> block_pool \<Rightarrow> bool" for sha where
  fresh: "new_block_pool n caching hbs events mets med so ei = Inr p \<Longrightarrow>
    (\<And>hs. distinct hs \<Longrightarrow> distinct (so hs) \<and> set (so hs) = set hs) \<Longrightarrow> reachable sha p"
| step: "reachable sha p \<Longrightarrow> pool_pre a p \<Longrightarrow> pool_exec sha a p = Inr p' \<Longrightarrow> reachable sha p'"

inductive_cases reachableE: "reachable sha p"

lemma new_block_pool_pos: "new_block_pool n caching hbs events mets med so ei = Inr p \<Longrightarrow> 0 < n"
  by (auto simp: new_block_pool_def bind_res_eq_Inr)

lemma reachable_inv: "reachable sha p \<Longrightarrow> \<exists>xs. pool_inv p xs"
proof (induction rule: reachable.induct)
  case (fresh n caching hbs events mets med so ei p)
  obtain p' where "new_block_pool n caching hbs events mets med so ei = Inr p'" "pool_inv p' [1..<nat n]"
    using new_block_pool_ok[OF new_block_pool_pos[OF fresh(1)] fresh(2)] by blast
  then show ?case using fresh(1) by auto
next
  case (step p a p')
  then show ?case using pool_step_ok[of p _ a sha] by fastforce
qed

text \<open>A concrete pool for the witnesses.\<close>

lemma example_pool:
  obtains p where "new_block_pool 5 True 2 True None ''GPU'' id False = Inr p" "pool_inv p [1, 2, 3, 4]"
    "null_block p = 0" "num_gpu_blocks p = 5" "hash_block_size p = 2" "enable_caching p"
    "enable_kv_cache_events p" "\<not> env_int p" "\<And>b. keys_of p b = {}" "\<And>b. ref_cnt (blk p b) = 0"
    "reachable sha p"
proof -
  have so: "distinct hs \<Longrightarrow> distinct (id hs) \<and> set (id hs) = set hs" for hs :: "bytes list" by simp
  have xs: "[1..<nat 5] = [1, 2, 3, 4::nat]" by (simp add: upt_rec)
  from new_block_pool_ok[where n = 5 and so = id and caching = True and hbs = 2 and events = True
      and mets = None and med = "''GPU''" and ei = False, OF _ so]
  obtain p where p: "new_block_pool 5 True 2 True None ''GPU'' id False = Inr p" "pool_inv p [1..<nat 5]"
    "null_block p = 0" "num_gpu_blocks p = nat 5" "hash_block_size p = 2" "enable_caching p = True"
    "enable_kv_cache_events p = True" "env_int p = False" "\<forall>b. keys_of p b = {}" "\<forall>b. ref_cnt (blk p b) = 0"
    by auto
  have "reachable sha p" by (rule reachable.fresh[OF p(1) so])
  then show ?thesis using that[of p] p(1,3,4-10) p(2)[unfolded xs] by simp
qed

section \<open>Properties\<close>

text \<open>
  Property C1. In every pool that a sequence of contract-abiding operations can reach from a
  fresh one, the free list is well formed and holds exactly the blocks, the null block apart, that
  nobody references; no block has a negative reference count; and the index of the prefix cache
  mirrors the hashes recorded on the blocks, so a block is found under a key exactly when the key
  is its hash or one of its further entries.
\<close>
theorem reachable_pool_consistent:
  assumes "reachable sha p"
  shows "\<exists>xs. get_all_free_blocks (queue p) = Inr (Some (map Blk xs)) \<and> distinct xs \<and>
    get_num_free_blocks p = int (length xs) \<and>
    (\<forall>i. i \<in> set xs \<longleftrightarrow> i < num_gpu_blocks p \<and> i \<noteq> null_block p \<and> ref_cnt (blk p i) = 0) \<and>
    (\<forall>i < num_gpu_blocks p. i \<noteq> null_block p \<longrightarrow> 0 \<le> ref_cnt (blk p i)) \<and>
    (\<forall>k b. map_contain (cached_map p) k b \<longleftrightarrow> block_hash (blk p b) = Some k \<or>
       (\<exists>hs. hashes_by_block p b = Some hs \<and> k \<in> set hs))"
proof -
  obtain xs where inv: "cache_inv p" "free_inv p xs"
    using reachable_inv[OF assms] by (auto simp: pool_inv_def)
  have "is_null (blk p i) \<longleftrightarrow> i = null_block p" if "i < num_gpu_blocks p" for i
    using inv(2) that by (simp add: free_inv_def)
  moreover have "k \<in> keys_of p b \<longleftrightarrow> block_hash (blk p b) = Some k \<or>
       (\<exists>hs. hashes_by_block p b = Some hs \<and> k \<in> set hs)" for k b
    by (auto simp: keys_of_def split: option.splits)
  ultimately show ?thesis
    using get_all_free_blocks_repr[OF free_invD(1)[OF inv(2)]] free_invD(2-5)[OF inv(2)] contain_iff[OF inv(1)]
    by (intro exI[of _ xs]) (auto simp: get_num_free_blocks_def)
qed

theorem reachable_pool_consistent_witness:
  "\<exists>p xs. new_block_pool 5 True 2 True None ''GPU'' id False = Inr p \<and>
    get_all_free_blocks (queue p) = Inr (Some (map Blk xs)) \<and> distinct xs"
proof -
  obtain p where p: "new_block_pool 5 True 2 True None ''GPU'' id False = Inr p" "reachable id p"
    using example_pool[of id] by metis
  show ?thesis using p(1) reachable_pool_consistent[OF p(2)] by blast
qed

text \<open>
  Property C23. No operation of the pool raises when its callers keep their contract: each one
  returns, whatever was done to the pool before, and leads to a reachable pool again. The
  assertions and the \<open>RuntimeError\<close>s of the free list are unreachable.
\<close>
theorem contract_abiding_operations_return:
  assumes "reachable sha p" "pool_pre a p"
  shows "\<exists>p'. pool_exec sha a p = Inr p' \<and> reachable sha p'"
proof -
  obtain xs where "pool_inv p xs" using reachable_inv[OF assms(1)] by blast
  then obtain p' where "pool_exec sha a p = Inr p'" using pool_step_ok[OF _ assms(2)] by blast
  then show ?thesis using reachable.step[OF assms] by blast
qed

theorem contract_abiding_operations_return_witness:
  "\<exists>p p'. new_block_pool 5 True 2 True None ''GPU'' id False = Inr p \<and>
    pool_exec id (Alloc 3) p = Inr p' \<and> reachable id p'"
proof -
  obtain p where p: "new_block_pool 5 True 2 True None ''GPU'' id False = Inr p" "reachable id p"
    "pool_inv p [1, 2, 3, 4]" using example_pool[of id] by metis
  have "pool_pre (Alloc 3) p" using p(3) free_invD(5)[of p "[1, 2, 3, 4]"]
    by (simp add: pool_inv_def get_num_free_blocks_def)
  then show ?thesis using contract_abiding_operations_return[OF p(2)] p(1) by blast
qed

text \<open>
  Property C24. \<open>get_new_blocks\<close> hands out the first blocks of the free list: as many as asked,
  all distinct, none of them referenced before, each with exactly one reference afterwards. With
  caching on, none of them is findable in the prefix cache any more and every other block keeps
  its entries. Asking for more than there are free blocks raises \<open>ValueError\<close>.
\<close>
theorem get_new_blocks_takes_free_blocks:
  assumes "pool_inv p xs"
  shows "if k \<le> length xs
    then \<exists>p'. get_new_blocks (int k) p = Inr (take k xs, p') \<and> pool_inv p' (drop k xs) \<and>
      distinct (take k xs) \<and>
      (\<forall>b \<in> set (take k xs). ref_cnt (blk p b) = 0 \<and> ref_cnt (blk p' b) = 1) \<and>
      (enable_caching p \<longrightarrow> (\<forall>b \<in> set (take k xs). \<forall>key. \<not> map_contain (cached_map p') key b)) \<and>
      (\<forall>b. b \<notin> set (take k xs) \<longrightarrow> ref_cnt (blk p' b) = ref_cnt (blk p b) \<and>
         (\<forall>key. map_contain (cached_map p') key b = map_contain (cached_map p) key b))
    else get_new_blocks (int k) p = Inl ValueError"
proof (cases "k \<le> length xs")
  case False
  then show ?thesis using get_new_blocks_too_many[OF assms, of "int k"] by simp
next
  case True
  obtain p' where p': "get_new_blocks (int k) p = Inr (take k xs, p')" "pool_inv p' (drop k xs)"
    "refs_changed p p' (\<lambda>i. if i \<in> set (take k xs) then 1 else 0)"
    "\<And>c. keys_of p' c = (if enable_caching p \<and> c \<in> set (take k xs) then {} else keys_of p c)"
    using get_new_blocks_ok[OF assms True] by blast
  have inv: "cache_inv p" "free_inv p xs" "cache_inv p'" using assms p'(2) by (simp_all add: pool_inv_def)
  have zero: "ref_cnt (blk p b) = 0" if "b \<in> set (take k xs)" for b
    using in_set_takeD[OF that] free_invD(2)[OF inv(2)] by blast
  show ?thesis
    using True p'(1,2,4) zero free_invD(4)[OF inv(2)] p'(3)
    by (auto simp: refs_changed_def contain_iff[OF inv(1)] contain_iff[OF inv(3)])
qed

theorem get_new_blocks_takes_free_blocks_witness:
  "\<exists>p p'. new_block_pool 5 True 2 True None ''GPU'' id False = Inr p \<and>
    get_new_blocks 2 p = Inr ([1, 2], p') \<and> get_new_blocks 5 p = Inl ValueError"
proof -
  obtain p where p: "new_block_pool 5 True 2 True None ''GPU'' id False = Inr p" "pool_inv p [1, 2, 3, 4]"
    using example_pool[of id] by metis
  show ?thesis using p(1) get_new_blocks_takes_free_blocks[OF p(2), of 2]
      get_new_blocks_takes_free_blocks[OF p(2), of 5] by auto
qed

text \<open>
  Property C25. Freeing blocks gives back one reference per occurrence, and exactly the blocks
  whose last reference this was join the free list: those without a hash in front, in the order
  of their last occurrence (reused next), the cached ones at the end, in the same order (evicted
  last, least recently freed first). No cache entry changes.
\<close>
theorem free_blocks_order:
  assumes "pool_inv p xs" "holds_refs bs p"
  shows "\<exists>p'. free_own_blocks bs p = Inr p' \<and>
    (let freed = filter (\<lambda>b. \<not> is_null (blk p b) \<and> ref_cnt (blk p b) = int (count_list bs b)) (remdups bs);
         uncached = (\<lambda>b. block_hash (blk p b) = None \<or> \<not> enable_caching p)
     in pool_inv p' (filter uncached freed @ xs @ filter (\<lambda>b. \<not> uncached b) freed)) \<and>
    (\<forall>b. ref_cnt (blk p' b) = ref_cnt (blk p b) - int (count_list bs b)) \<and>
    cached_map p' = cached_map p"
proof -
  have "filter (evict_first p) (filter (released p bs) ys) = filter (\<lambda>b. released p bs b \<and> evict_first p b) ys"
    "filter (\<lambda>b. \<not> evict_first p b) (filter (released p bs) ys)
      = filter (\<lambda>b. released p bs b \<and> \<not> evict_first p b) ys" for ys
    by (auto intro: filter_cong)
  then show ?thesis
    using free_own_blocks_ok[OF assms(1), of bs] assms(2)
    by (auto simp: holds_refs_def released_def evict_first_def refs_changed_def same_cache_def Let_def)
qed

theorem free_blocks_order_witness:
  "\<exists>p p1 p2. new_block_pool 5 True 2 True None ''GPU'' id False = Inr p \<and>
    get_new_blocks 3 p = Inr ([1, 2, 3], p1) \<and> free_own_blocks [3, 1] p1 = Inr p2 \<and>
    pool_inv p2 [3, 1, 4]"
proof -
  obtain p where p: "new_block_pool 5 True 2 True None ''GPU'' id False = Inr p" "pool_inv p [1, 2, 3, 4]"
    "enable_caching p" "\<And>b. keys_of p b = {}" "\<And>b. ref_cnt (blk p b) = 0" "num_gpu_blocks p = 5"
    "null_block p = 0"
    using example_pool[of id] by metis
  obtain p1 where p1: "get_new_blocks (int 3) p = Inr (take 3 [1, 2, 3, 4], p1)" "pool_inv p1 (drop 3 [1, 2, 3, 4])"
    "refs_changed p p1 (\<lambda>i. if i \<in> set (take 3 [1, 2, 3, 4]) then 1 else 0)"
    "\<forall>c. keys_of p1 c = (if enable_caching p \<and> c \<in> set (take 3 [1, 2, 3, 4]) then {} else keys_of p c)"
    using get_new_blocks_ok[OF p(2), of 3] by auto
  have c1: "cache_inv p1" "free_inv p1 [4]" using p1(2) by (simp_all add: pool_inv_def)
  have r: "ref_cnt (blk p1 1) = 1" "ref_cnt (blk p1 3) = 1" "num_gpu_blocks p1 = 5" "null_block p1 = 0"
    using p1(3) p(5-7) by (simp_all add: refs_changed_def)
  have n: "\<not> is_null (blk p1 1)" "\<not> is_null (blk p1 3)"
    using c1(2) r(3,4) by (simp_all add: free_inv_def)
  have "keys_of p1 b = {}" for b using p1(4) p(4) by auto
  then have h: "block_hash (blk p1 b) = None" for b using keys_empty[OF c1(1), of b] by simp
  have "holds_refs [3, 1] p1" using r by (simp add: holds_refs_def)
  from free_blocks_order[OF p1(2) this] show ?thesis using p(1) p1(1) r n h by (auto simp: Let_def)
qed

text \<open>
  Touching blocks adds one reference per occurrence and takes exactly the touched
  ones out of the free list, keeping the order of the rest, so a prefix-cache hit can no longer be
  handed out as a new block; touching the null block is harmless, and no cache entry changes.
\<close>
theorem touch_protects_blocks:
  assumes "pool_inv p xs" "\<And>b. b \<in> set bs \<Longrightarrow> b < num_gpu_blocks p"
  shows "\<exists>p'. touch bs p = Inr p' \<and> pool_inv p' (filter (\<lambda>x. x \<notin> set bs) xs) \<and>
    (\<forall>b. ref_cnt (blk p' b) = ref_cnt (blk p b) + int (count_list bs b)) \<and>
    cached_map p' = cached_map p"
  using touch_ok[OF assms(1), of bs] assms(2) by (auto simp: refs_changed_def same_cache_def)

theorem touch_protects_blocks_witness:
  "\<exists>p p'. new_block_pool 5 True 2 True None ''GPU'' id False = Inr p \<and>
    touch [2, 0, 4, 2] p = Inr p' \<and> pool_inv p' [1, 3]"
proof -
  obtain p where p: "new_block_pool 5 True 2 True None ''GPU'' id False = Inr p" "pool_inv p [1, 2, 3, 4]"
    "num_gpu_blocks p = 5" using example_pool[of id] by metis
  have "\<And>b. b \<in> set [2, 0, 4, 2] \<Longrightarrow> b < num_gpu_blocks p" using p(3) by auto
  then have "\<exists>p'. touch [2, 0, 4, 2] p = Inr p' \<and>
      pool_inv p' (filter (\<lambda>x. x \<notin> set [2, 0, 4, 2]) [1, 2, 3, 4])"
    using touch_protects_blocks[OF p(2), of "[2, 0, 4, 2]"] by blast
  then show ?thesis using p(1) by auto
qed

text \<open>
  \<open>get_cached_block\<close> answers exactly: it returns one block per group, each
  registered under the hash packed with that group, or \<open>None\<close> when some group has no block under
  it. It never returns a block of another hash or another group.
\<close>
theorem cached_lookup_is_exact:
  assumes "cache_inv p" "\<And>g. g \<in> set gids \<Longrightarrow> 0 \<le> g \<and> g < 2 ^ 32"
  shows "\<exists>ob. get_cached_block p h gids = Inr ob \<and>
    (case ob of
       None \<Rightarrow> \<exists>g \<in> set gids. \<forall>b. \<not> map_contain (cached_map p) (group_key h g) b
     | Some bs \<Rightarrow> list_all2 (\<lambda>g b. map_contain (cached_map p) (group_key h g) b) gids bs)"
  unfolding contain_iff[OF assms(1)] using assms by (rule get_cached_block_spec)

theorem cached_lookup_is_exact_witness:
  "\<exists>p. new_block_pool 5 True 2 True None ''GPU'' id False = Inr p \<and>
    (\<exists>ob. get_cached_block p [7] [0, 1] = Inr ob)"
proof -
  obtain p where p: "new_block_pool 5 True 2 True None ''GPU'' id False = Inr p" "pool_inv p [1, 2, 3, 4]"
    using example_pool[of id] by metis
  have "cache_inv p" using p(2) by (simp add: pool_inv_def)
  moreover have "0 \<le> g \<and> g < 2 ^ 32" if "g \<in> set [0, 1]" for g :: int using that by auto
  ultimately have "\<exists>ob. get_cached_block p [7] [0, 1] = Inr ob"
    using cached_lookup_is_exact[of p "[0, 1]" "[7]"] by blast
  then show ?thesis using p(1) by blast
qed


lemma example_request_hashes:
  "block_hashes ((example_request ''r'' ids)\<lparr>block_hashes := hs\<rparr>) = hs" by simp


text \<open>
  Moving the hashes of a block to an unhashed block of the pool hands over the whole
  set of its entries, with its primary hash and token count: afterwards the source is not findable,
  the destination is findable under exactly the keys of the source, and nobody else changes.
\<close>
theorem move_block_hashes_transfers:
  assumes "pool_inv p xs" "pool_pre (MoveHashes src dst) p"
  shows "\<exists>p'. move_block_hashes src dst p = Inr p' \<and> pool_inv p' xs \<and>
    block_hash (blk p' dst) = block_hash (blk p src) \<and>
    block_hash_num_tokens (blk p' dst) = block_hash_num_tokens (blk p src) \<and>
    (\<forall>key b. map_contain (cached_map p') key b \<longleftrightarrow>
       (if b = src then False else if b = dst then map_contain (cached_map p) key src
        else map_contain (cached_map p) key b))"
proof -
  have inv: "cache_inv p" using assms(1) by (simp add: pool_inv_def)
  obtain p' where p': "move_block_hashes src dst p = Inr p'" "cache_inv p'" "same_alloc p p'"
    "keys_of p' src = {}" "keys_of p' dst = keys_of p src"
    "\<And>c. c \<noteq> src \<Longrightarrow> c \<noteq> dst \<Longrightarrow> keys_of p' c = keys_of p c"
    "block_hash (blk p' dst) = block_hash (blk p src)"
    "block_hash_num_tokens (blk p' dst) = block_hash_num_tokens (blk p src)"
    using move_block_hashes_ok[OF inv, of dst src] assms(2) by auto
  then show ?thesis
    using pool_inv_same_alloc[OF p'(3,2) assms(1)]
    by (intro exI[of _ p']) (simp add: contain_iff[OF inv] contain_iff[OF p'(2)])
qed

theorem move_block_hashes_transfers_witness:
  "\<exists>p p'. new_block_pool 5 True 2 True None ''GPU'' id False = Inr p \<and>
    move_block_hashes 1 2 p = Inr p' \<and> pool_inv p' [1, 2, 3, 4]"
proof -
  obtain p where p: "new_block_pool 5 True 2 True None ''GPU'' id False = Inr p" "pool_inv p [1, 2, 3, 4]"
    "\<And>b. keys_of p b = {}" "num_gpu_blocks p = 5" "null_block p = 0"
    using example_pool[of id] by metis
  have c: "cache_inv p" "free_inv p [1, 2, 3, 4]" using p(2) by (simp_all add: pool_inv_def)
  have "pool_pre (MoveHashes 1 2) p"
    using keys_empty[OF c(1), of 2] free_invD(2)[OF c(2), of 2] p(3,4) by simp
  from move_block_hashes_transfers[OF p(2) this] show ?thesis using p(1) by blast
qed

text \<open>
  Registering a partial entry makes the block findable under the chain hash at the
  requested token boundary, and at most adds this key to those it had; when the contents were
  replaced, this key is the only one left. Other blocks keep their entries.
\<close>
theorem cache_partial_block_registers:
  assumes "pool_inv p xs" "partial_args_ok r b n gid bsz replace p"
  shows "\<exists>p' key. key = group_key (block_hashes r ! nat (n div hash_block_size p - 1)) gid \<and>
    cache_partial_block sha r b n gid bsz replace p = Inr (Some key, p') \<and> pool_inv p' xs \<and>
    map_contain (cached_map p') key b \<and>
    (\<forall>k. map_contain (cached_map p') k b \<longrightarrow> k = key \<or> \<not> replace \<and> map_contain (cached_map p) k b) \<and>
    (\<forall>k c. c \<noteq> b \<longrightarrow> map_contain (cached_map p') k c = map_contain (cached_map p) k c)"
proof -
  have inv: "cache_inv p" using assms(1) by (simp add: pool_inv_def)
  let ?key = "group_key (block_hashes r ! nat (n div hash_block_size p - 1)) gid"
  obtain p' where p': "cache_partial_block sha r b n gid bsz replace p = Inr (Some ?key, p')" "cache_inv p'"
    "same_alloc p p'" "?key \<in> keys_of p' b" "replace \<longrightarrow> keys_of p' b = {?key}"
    "keys_of p' b \<subseteq> insert ?key (keys_of p b)" "\<forall>c. c \<noteq> b \<longrightarrow> keys_of p' c = keys_of p c"
    using cache_partial_block_ok[OF inv assms(2), of sha] by blast
  have a: "\<forall>k. k \<in> keys_of p' b \<longrightarrow> k = ?key \<or> \<not> replace \<and> k \<in> keys_of p b" using p'(5,6) by blast
  have o: "\<forall>k c. c \<noteq> b \<longrightarrow> (k \<in> keys_of p' c) = (k \<in> keys_of p c)" using p'(7) by simp
  show ?thesis
    by (intro exI[of _ p'] exI[of _ ?key] conjI refl p'(1) pool_inv_same_alloc[OF p'(3,2) assms(1)]
        p'(4)[folded contain_iff[OF p'(2)]] a[folded contain_iff[OF inv] contain_iff[OF p'(2)]]
        o[folded contain_iff[OF inv] contain_iff[OF p'(2)]])
qed

lemma cache_partial_witness_args:
  "pool_inv p [1, 2, 3, 4] \<Longrightarrow> num_gpu_blocks p = 5 \<Longrightarrow> hash_block_size p = 2 \<Longrightarrow>
    partial_args_ok ((example_request ''r'' [1, 2])\<lparr>block_hashes := [[7]]\<rparr>) 3 2 0 4 False p"
  using free_invD(2)[of p "[1, 2, 3, 4]" 3] by (simp add: partial_args_ok_def pool_inv_def)

theorem cache_partial_block_registers_witness:
  "\<exists>p p' key. new_block_pool 5 True 2 True None ''GPU'' id False = Inr p \<and>
    cache_partial_block id ((example_request ''r'' [1, 2])\<lparr>block_hashes := [[7]]\<rparr>) 3 2 0 4 False p
      = Inr (Some key, p') \<and> map_contain (cached_map p') key 3"
proof -
  obtain p where p: "new_block_pool 5 True 2 True None ''GPU'' id False = Inr p" "pool_inv p [1, 2, 3, 4]"
    "num_gpu_blocks p = 5" "hash_block_size p = 2" using example_pool[of id] by metis
  show ?thesis
    using cache_partial_block_registers[OF p(2) cache_partial_witness_args[OF p(2-4)]] p(1) by blast
qed

text \<open>
  Property C31. Resetting the prefix cache succeeds exactly when every block but the null block is
  free; it then forgets every cached hash and keeps the free list and the reference counts, and
  otherwise changes nothing.
\<close>
theorem reset_prefix_cache_iff_idle:
  assumes "pool_inv p xs"
  shows "case reset_prefix_cache p of (ok, p') \<Rightarrow>
    (ok \<longleftrightarrow> (\<forall>i < num_gpu_blocks p. i \<noteq> null_block p \<longrightarrow> ref_cnt (blk p i) = 0)) \<and>
    pool_inv p' xs \<and> (\<forall>i. ref_cnt (blk p' i) = ref_cnt (blk p i)) \<and>
    (if ok then \<forall>key b. \<not> map_contain (cached_map p') key b else p' = p)"
proof -
  have f: "free_inv p xs" using assms by (simp add: pool_inv_def)
  have mem: "i \<in> set xs \<longleftrightarrow> i \<in> {..<num_gpu_blocks p} - {null_block p} \<and> ref_cnt (blk p i) = 0" for i
    using f by (auto simp: free_inv_def)
  then have sub: "set xs \<subseteq> {..<num_gpu_blocks p} - {null_block p}" by blast
  define S where "S = {..<num_gpu_blocks p} - {null_block p}"
  have fin: "finite S" by (simp add: S_def)
  have "card S = num_gpu_blocks p - 1" "0 < num_gpu_blocks p"
    using f by (simp_all add: free_inv_def S_def)
  moreover have "card (set xs) = length xs" using free_invD(4)[OF f] by (rule distinct_card)
  ultimately have "length xs + 1 = num_gpu_blocks p \<longleftrightarrow> card (set xs) = card S" by linarith
  also have "\<dots> \<longleftrightarrow> set xs = S" using card_subset_eq[OF fin sub[folded S_def]] by blast
  also have "\<dots> \<longleftrightarrow> (\<forall>i \<in> S. ref_cnt (blk p i) = 0)"
    using mem unfolding S_def by blast
  also have "\<dots> \<longleftrightarrow> (\<forall>i < num_gpu_blocks p. i \<noteq> null_block p \<longrightarrow> ref_cnt (blk p i) = 0)"
    by (auto simp: S_def)
  finally have iff: "length xs + 1 = num_gpu_blocks p \<longleftrightarrow>
    (\<forall>i < num_gpu_blocks p. i \<noteq> null_block p \<longrightarrow> ref_cnt (blk p i) = 0)" .
  obtain ok p' where r: "reset_prefix_cache p = (ok, p')" by fastforce
  with reset_prefix_cache_ok[OF assms] have *: "pool_inv p' xs" "refs_changed p p' (\<lambda>_. 0)"
    "ok \<longleftrightarrow> length xs + 1 = num_gpu_blocks p" "if ok then \<forall>b. keys_of p' b = {} else p' = p" by simp_all
  have "cache_inv p'" using *(1) by (simp add: pool_inv_def)
  then have gone: "if ok then \<forall>key b. \<not> map_contain (cached_map p') key b else p' = p"
    using *(4) contain_iff[of p'] by (cases ok) simp_all
  have "\<forall>i. ref_cnt (blk p' i) = ref_cnt (blk p i)" using *(2) by (simp add: refs_changed_def)
  then show ?thesis unfolding r prod.case using *(1,3) iff gone by blast
qed

theorem reset_prefix_cache_iff_idle_witness:
  "\<exists>p p'. new_block_pool 5 True 2 True None ''GPU'' id False = Inr p \<and>
    reset_prefix_cache p = (True, p') \<and> pool_inv p' [1, 2, 3, 4]"
proof -
  obtain p where p: "new_block_pool 5 True 2 True None ''GPU'' id False = Inr p" "pool_inv p [1, 2, 3, 4]"
    "\<And>b. ref_cnt (blk p b) = 0" using example_pool[of id] by metis
  show ?thesis using reset_prefix_cache_iff_idle[OF p(2)] p(1,3)
    by (cases "reset_prefix_cache p") auto
qed

lemma free_own_result:
  assumes "pool_inv p xs" "holds_refs bs p"
  shows "\<exists>p'. free_own_blocks bs p = Inr p' \<and> (\<exists>ys. pool_inv p' ys) \<and>
    (\<forall>b. ref_cnt (blk p' b) = ref_cnt (blk p b) - int (count_list bs b))"
  using free_own_blocks_ok[OF assms(1), of bs] assms(2)
  by (auto simp: holds_refs_def refs_changed_def)

text \<open>
  With several pools, freeing a mixed list frees every block in the pool it belongs
  to, whichever pool the call is made on: each pool's reference counts drop by the occurrences of
  its own blocks, each free list stays exact, and pools that own none of the blocks do not change.
\<close>
theorem free_blocks_across_pools:
  assumes inv: "\<And>g. pool_inv (pools g) (xs g)"
    and refs: "\<And>g. holds_refs (map snd (filter (\<lambda>x. fst x = g) ordered)) (pools g)"
  shows "\<exists>pools'. free_blocks self ordered pools = Inr pools' \<and>
    (\<forall>g. (\<exists>ys. pool_inv (pools' g) ys) \<and>
       (\<forall>b. ref_cnt (blk (pools' g) b) = ref_cnt (blk (pools g) b)
          - int (count_list (map snd (filter (\<lambda>x. fst x = g) ordered)) b)) \<and>
       (g \<noteq> self \<and> g \<notin> fst ` set ordered \<longrightarrow> pools' g = pools g))"
proof -
  let ?own = "\<lambda>g. map snd (filter (\<lambda>x. fst x = g) ordered)"
  define stp where "stp = (\<lambda>g ps. bind_res (free_own_blocks (?own g) (ps g)) (\<lambda>p'. Inr (ps(g := p'))))"
  define good where "good = (\<lambda>g p. (\<exists>ys. pool_inv p ys) \<and>
    (\<forall>b. ref_cnt (blk p b) = ref_cnt (blk (pools g) b) - int (count_list (?own g) b)))"
  have one: "\<exists>p'. free_own_blocks (?own g) (pools g) = Inr p' \<and> good g p'" for g
    using free_own_result[OF inv refs, of g] unfolding good_def by blast
  have loop: "\<exists>ps'. fold_res stp gs ps = Inr ps' \<and> (\<forall>g. if g \<in> set gs then good g (ps' g) else ps' g = ps g)"
    if "distinct gs" "\<And>g. g \<in> set gs \<Longrightarrow> ps g = pools g" for gs ps
    using that
  proof (induction gs arbitrary: ps)
    case (Cons g gs)
    obtain p' where p': "free_own_blocks (?own g) (pools g) = Inr p'" "good g p'" using one by blast
    have "(ps(g := p')) h = pools h" if "h \<in> set gs" for h using that Cons.prems by auto
    moreover have "distinct gs" using Cons.prems(1) by simp
    ultimately obtain ps' where ps': "fold_res stp gs (ps(g := p')) = Inr ps'"
      "\<forall>h. if h \<in> set gs then good h (ps' h) else ps' h = (ps(g := p')) h"
      using Cons.IH[of "ps(g := p')"] by blast
    have "stp g ps = Inr (ps(g := p'))" using p'(1) Cons.prems(2)[of g] by (simp add: stp_def)
    moreover have "if h \<in> set (g # gs) then good h (ps' h) else ps' h = ps h" for h
      using ps'(2)[rule_format, of h] p'(2) Cons.prems(1) by (auto split: if_splits)
    ultimately show ?case using ps'(1) by (intro exI[of _ ps']) simp
  qed simp
  define others where "others = rev (remdups (rev (filter (\<lambda>g. g \<noteq> self) (map fst ordered))))"
  have o: "distinct others" "set others = fst ` set ordered - {self}" by (auto simp: others_def)
  obtain p where p: "free_own_blocks (?own self) (pools self) = Inr p" "good self p" using one by blast
  have "(pools(self := p)) g = pools g" if "g \<in> set others" for g using that o(2) by auto
  from loop[OF o(1) this] obtain ps' where ps': "fold_res stp others (pools(self := p)) = Inr ps'"
    "\<forall>g. if g \<in> set others then good g (ps' g) else ps' g = (pools(self := p)) g" by blast
  have run: "free_blocks self ordered pools = Inr ps'"
    using p(1) ps'(1) by (simp add: free_blocks_def Let_def others_def stp_def)
  have untouched: "?own g = []" if "g \<noteq> self" "g \<notin> set others" for g
    using that o(2) by (force simp: filter_empty_conv)
  have "good g (ps' g)" for g
  proof (cases "g = self \<or> g \<in> set others")
    case True
    then show ?thesis using ps'(2) p(2) o(2) by (auto split: if_splits)
  next
    case False
    then have "ps' g = pools g" using ps'(2) by auto
    moreover have "?own g = []" using untouched False by blast
    ultimately show ?thesis using inv[of g] by (auto simp: good_def simp del: filter_empty_conv map_is_Nil_conv)
  qed
  moreover have "ps' g = pools g" if "g \<noteq> self \<and> g \<notin> fst ` set ordered" for g
    using that ps'(2) o(2) by auto
  ultimately show ?thesis using run unfolding good_def by blast
qed

theorem free_blocks_across_pools_witness:
  "\<exists>p pools'. new_block_pool 5 True 2 True None ''GPU'' id False = Inr p \<and>
    free_blocks 0 [(1, 0), (0, 0)] (\<lambda>_. p) = Inr pools' \<and> ref_cnt (blk (pools' 1) 0) = - 1"
proof -
  obtain p where p: "new_block_pool 5 True 2 True None ''GPU'' id False = Inr p" "pool_inv p [1, 2, 3, 4]"
    "num_gpu_blocks p = 5" "null_block p = 0" "\<And>b. ref_cnt (blk p b) = 0"
    using example_pool[of id] by metis
  have "free_inv p [1, 2, 3, 4]" using p(2) by (simp add: pool_inv_def)
  then have "is_null (blk p 0)" using p(3,4) by (simp add: free_inv_def)
  then have "holds_refs (map snd (filter (\<lambda>x. fst x = g) [(1, 0), (0, 0)])) p" for g :: nat
    using p(3) by (simp add: holds_refs_def)
  from free_blocks_across_pools[where pools = "\<lambda>_. p" and xs = "\<lambda>_. [1, 2, 3, 4]"
      and ordered = "[(1, 0), (0, 0)]" and self = 0, OF p(2) this]
  show ?thesis using p(1,5) by auto
qed

end
