(* ===== verification/KvProps.thy ===== *)
theory KvProps imports KvDefer KvHits PoolProps
begin

text \<open>
  The properties of the KV cache manager, with a concrete cache for their witnesses: admission,
  recycling and release of blocks, the accounting of references over every run of the scheduler's
  block operations, and the lookups that find a request's cached prefix.
\<close>

section \<open>Concrete caches for the witnesses\<close>

definition example_manager :: "mgr_kind \<Rightarrow> kv_manager" where
  "example_manager k = \<lparr>mgr_kind = k, mgr_block_size = 2, mgr_enable_caching = True, kv_group_id = 0,
     prefix_cacheable = True, mgr_use_eagle = False, max_admission_blocks_per_request = None,
     cache_hit_alignment_tokens = 2, record_new_block_ids = False, new_block_ids = [], req_to_blocks = [],
     num_cached_block = (\<lambda>_. None), partial_hit_reqs = (\<lambda>_. None), pending_cow_copies = []\<rparr>"

definition example_cache :: "mgr_kind \<Rightarrow> block_pool \<Rightarrow> kv_cache" where
  "example_cache k p = \<lparr>coord_kind = Unitary, managers = [example_manager k], pool = p, scheduler_block_size = 2,
     eagle_group_ids = [], num_reprefillable_tokens = 0, retention_interval = None, max_model_len = 16,
     watermark_blocks = 0, kv_enable_caching = True\<rparr>"

lemma example_fields [simp]:
  "blocks_of (example_manager k) rid = []" "cnt (example_manager k) b = 0"
  "mgr_kind (example_manager k) = k" "mgr_block_size (example_manager k) = 2"
  "num_cached_block (example_manager k) = (\<lambda>_. None)" "partial_hit_reqs (example_manager k) = (\<lambda>_. None)"
  "managers (example_cache k p) = [example_manager k]" "pool (example_cache k p) = p"
  "max_model_len (example_cache k p) = 16" "watermark_blocks (example_cache k p) = 0"
  "coord_kind (example_cache k p) = Unitary" "kv_enable_caching (example_cache k p)"
  "eagle_group_ids (example_cache k p) = []" "mgr_enable_caching (example_manager k)"
  by (simp_all add: example_manager_def example_cache_def blocks_of_def cnt_def held_def)

lemma example_mgr_ok [simp]: "mgr_ok (example_manager k) p \<longleftrightarrow> kind_ok k"
  by (simp add: example_manager_def mgr_ok_def held_def)

lemma example_ok:
  "pool_inv p xs \<Longrightarrow> kind_ok k \<Longrightarrow> kv_ok (\<lambda>b. ref_cnt (blk p b)) (example_cache k p)"
  using free_invD(3)[of p xs] by (auto simp: kv_ok_def accounted_def pool_inv_def)

text \<open>A pool of five blocks of two tokens in which the blocks 1 and 2 hold the hashes [7] and [8].\<close>

lemma example_cached_pool:
  obtains p where "pool_inv p [3, 4]" "hash_block_size p = 2" "num_gpu_blocks p = 5" "null_block p = 0"
    "hit_of p [0] [7] = Some [1]" "hit_of p [0] [8] = Some [2]" "hit_of p [0] [9] = None"
    "enable_kv_cache_events p" "ref_cnt (blk p 1) = 1" "ref_cnt (blk p 2) = 1"
proof -
  let ?r = "(example_request ''r'' [1, 2, 3, 4])\<lparr>block_hashes := [[7], [8]]\<rparr>"
  obtain p where p: "pool_inv p [1, 2, 3, 4]" "\<And>b. keys_of p b = {}" "num_gpu_blocks p = 5"
    "hash_block_size p = 2" "null_block p = 0" "enable_kv_cache_events p" "\<And>b. ref_cnt (blk p b) = 0"
    using example_pool[of id] by metis
  obtain p1 where p1: "get_new_blocks (int 2) p = Inr (take 2 [1, 2, 3, 4], p1)" "pool_inv p1 (drop 2 [1, 2, 3, 4])"
    "refs_changed p p1 (\<lambda>i. if i \<in> set (take 2 [1, 2, 3, 4]) then 1 else 0)"
    "\<forall>c. keys_of p1 c = (if enable_caching p \<and> c \<in> set (take 2 [1, 2, 3, 4]) then {} else keys_of p c)"
    using get_new_blocks_ok[OF p(1), of 2] by auto
  have c1: "cache_inv p1" "free_inv p1 [3, 4]" using p1(2) by (simp_all add: pool_inv_def)
  have n: "num_gpu_blocks p1 = 5" "null_block p1 = 0" "hash_block_size p1 = 2" "enable_kv_cache_events p1"
    using p1(3) p(3-6) by (simp_all add: refs_changed_def)
  have nn: "\<not> is_null (blk p1 1)" "\<not> is_null (blk p1 2)" using c1(2) n by (simp_all add: free_inv_def)
  have k1: "keys_of p1 b = {}" for b using p1(4) p(2) by auto
  then have h: "block_hash (blk p1 b) = None" for b using keys_empty[OF c1(1), of b] by simp
  have args: "full_args_ok ?r [1, 2] 0 2 2 0 None p1"
    using n nn h by (simp add: full_args_ok_def cacheable_def)
  from cache_full_blocks_ok[OF c1(1) args, of id] obtain p2 where
    p2: "cache_inv p2" "same_alloc p1 p2"
    "\<forall>(b, j) \<in> set (selected p1 None 0 (take (2 - 0) (drop 0 [1, 2]))). keys_of p2 b = {group_key (view_of (block_hashes ?r) (2 div hash_block_size p1) ! (0 + j)) 0}"
    "\<forall>c. c \<notin> fst ` set (selected p1 None 0 (take (2 - 0) (drop 0 [1, 2]))) \<longrightarrow> keys_of p2 c = keys_of p1 c"
    by blast
  have sel: "selected p1 None 0 (take (2 - 0) (drop 0 [1, 2])) = [(1, 0), (2, 1)]" using nn by simp
  have view: "view_of [[7], [8]] 1 = [[7], [8::8 word]]" by (simp add: view_of_def upt_rec)
  have keys: "keys_of p2 1 = {group_key [7] 0}" "keys_of p2 2 = {group_key [8] 0}" "\<And>b. b \<noteq> 1 \<Longrightarrow> b \<noteq> 2 \<Longrightarrow> keys_of p2 b = {}"
    using p2(3,4) n(3) k1 unfolding sel by (simp_all add: view)
  have gk: "group_key [7] 0 \<noteq> group_key [8] 0" "group_key [9] 0 \<noteq> group_key [7] 0" "group_key [9] 0 \<noteq> group_key [8] 0"
    by (simp_all add: group_key_def make_block_hash_with_group_id_def to_bytes_be4_def)
  have g: "gids_ok [0]" by (simp add: gids_ok_def)
  have found: "hit_of p2 [0] h = Some [b]" if "keys_of p2 b = {group_key h 0}" "\<And>c. c \<noteq> b \<Longrightarrow> group_key h 0 \<notin> keys_of p2 c" for h b
  proof -
    obtain ob where ob: "get_cached_block p2 h [0] = Inr ob"
      "case ob of None \<Rightarrow> (\<exists>g \<in> set [0]. \<forall>b. group_key h g \<notin> keys_of p2 b)
       | Some bs \<Rightarrow> list_all2 (\<lambda>g b. group_key h g \<in> keys_of p2 b) [0] bs"
      using get_cached_block_spec[OF p2(1), of "[0]" h] g by (auto simp: gids_ok_def)
    have "ob \<noteq> None"
    proof
      assume "ob = None"
      then have "group_key h 0 \<notin> keys_of p2 b" using ob(2) by simp
      then show False using that(1) by simp
    qed
    then obtain bs where bs: "hit_of p2 [0] h = Some bs" using ob(1) by (auto simp: hit_of_def)
    then have "length bs = 1" "group_key h 0 \<in> keys_of p2 (bs ! 0)" using hit_of_spec(2)[OF p2(1) g bs] by simp_all
    then have "bs ! 0 = b" "length bs = 1" using that(2) by blast+
    then have "bs = [b]" by (cases bs) auto
    then show ?thesis using bs by simp
  qed
  have "group_key [7] 0 \<notin> keys_of p2 c" if "c \<noteq> 1" for c using keys gk that by (cases "c = 2") auto
  then have "hit_of p2 [0] [7] = Some [1]" using found keys(1) by blast
  moreover have "group_key [8] 0 \<notin> keys_of p2 c" if "c \<noteq> 2" for c using keys gk that by (cases "c = 1") auto
  then have "hit_of p2 [0] [8] = Some [2]" using found keys(2) by blast
  moreover have "hit_of p2 [0] [9] = None"
  proof (rule ccontr)
    assume "hit_of p2 [0] [9] \<noteq> None"
    then obtain bs where bs: "hit_of p2 [0] [9] = Some bs" by auto
    then have "group_key [9] 0 \<in> keys_of p2 (bs ! 0)" using hit_of_spec(2)[OF p2(1) g bs] by simp
    then show False using keys gk by (cases "bs ! 0 = 1"; cases "bs ! 0 = 2") auto
  qed
  moreover have "pool_inv p2 [3, 4]" using pool_inv_same_alloc[OF p2(2,1)] p1(2) by simp
  moreover have "hash_block_size p2 = 2" "num_gpu_blocks p2 = 5" "null_block p2 = 0" "enable_kv_cache_events p2"
    using p2(2) n by (simp_all add: same_alloc_def)
  moreover have "ref_cnt (blk p2 1) = 1" "ref_cnt (blk p2 2) = 1"
    using p2(2) p1(3) p(7) by (simp_all add: same_alloc_def refs_changed_def)
  ultimately show ?thesis using that by blast
qed

text \<open>The same pool with the two blocks in the table of a request.\<close>

definition example_running :: "mgr_kind \<Rightarrow> block_pool \<Rightarrow> kv_cache" where
  "example_running k p = (example_cache k p)\<lparr>managers := [put_blocks ''r'' [1, 2] (example_manager k)]\<rparr>"

lemma example_running_managers [simp]:
  "managers (example_running k p) = [put_blocks ''r'' [1, 2] (example_manager k)]"
  by (simp add: example_running_def)

lemma example_running_ok:
  assumes "pool_inv p xs" "kind_ok k" "num_gpu_blocks p = 5" "ref_cnt (blk p 1) = 1" "ref_cnt (blk p 2) = 1"
  shows "kv_ok (\<lambda>b. ref_cnt (blk p b) - (if b = 1 \<or> b = 2 then 1 else 0)) (example_running k p)"
proof -
  have d: "distinct (map fst (req_to_blocks (example_manager k)))" by (simp add: example_manager_def)
  have c: "cnt (put_blocks ''r'' [1, 2] (example_manager k)) b = (if b = 1 \<or> b = 2 then 1 else 0)" for b
    using cnt_put[OF d, of "''r''" "[1, 2]" b] by simp
  have "mgr_ok (put_blocks ''r'' [1, 2] (example_manager k)) p" by (rule mgr_ok_put) (use assms in auto)
  then show ?thesis using assms c free_invD(3)[of p xs]
    by (auto simp: kv_ok_def example_running_def accounted_def pool_inv_def)
qed

section \<open>Lookup\<close>

lemma column_registered:
  assumes inv: "cache_inv p" and g: "gids_ok gids" and h: "\<And>h. h \<in> set hs \<Longrightarrow> hit_of p gids h \<noteq> None"
    and j: "j < length gids" and i: "i < length hs"
  shows "group_key (hs ! i) (gids ! j) \<in> keys_of p (columns p gids [] hs ! j ! i)"
proof -
  obtain bs where bs: "hit_of p gids (hs ! i) = Some bs" using h[of "hs ! i"] i by auto
  then show ?thesis using hit_of_spec(2)[OF inv g bs] i j by (simp add: columns_def column_def)
qed

lemma last_swa_end_max: "swa_end p gids V bs eagle al need e \<Longrightarrow> e \<le> last_swa_end p gids V bs eagle al need"
proof -
  let ?P = "swa_end p gids V bs eagle al need"
  have hd: "case filter ?P (rev [0..<n]) of [] \<Rightarrow> (\<forall>x < n. \<not> ?P x) | x # _ \<Rightarrow> (\<forall>y < n. ?P y \<longrightarrow> y \<le> x)" for n
    by (induction n) (auto split: list.splits simp: less_Suc_eq)
  assume e: "?P e"
  then have "e < Suc (length V)" by (simp add: swa_end_def)
  then show "e \<le> last_swa_end p gids V bs eagle al need"
    using hd[of "Suc (length V)"] e by (auto simp: last_swa_end_def simp del: upt_Suc split: list.splits)
qed

text \<open>
  Property C5. The full-attention lookup at block granularity finds the longest prefix of the
  request's blocks that is cached in every group, up to the permitted length: it stops only at the
  first block that some group lacks. The returned length is that prefix, less one unit for a draft
  model, rounded down to the alignment; every block returned is registered under the chain hash of
  its own position in its own group.
\<close>
theorem full_lookup_is_longest_prefix:
  fixes eagle :: bool and al :: int and hs :: "bytes list"
  assumes "cache_inv p" "gids_ok gids" "0 < hash_block_size p" "0 < bs" "bs mod hash_block_size p = 0"
    and "0 < al" "\<not> (al < bs \<and> bs mod al = 0)" "0 \<le> max_len"
  defines "V \<equiv> take (nat (max_len div bs)) (view_of hs (bs div hash_block_size p))"
    and "found \<equiv> hit_prefix p gids (take (nat (max_len div bs)) (view_of hs (bs div hash_block_size p)))"
  defines "hit \<equiv> full_hit_tokens (length found) bs eagle al"
  shows "\<exists>blocks. full_lookup p hs max_len gids bs eagle al = Inr (blocks, hit) \<and>
    0 \<le> hit \<and> hit \<le> max_len \<and> al dvd hit \<and> length blocks = length gids \<and>
    (\<exists>rest. V = found @ rest \<and> (rest \<noteq> [] \<longrightarrow> hit_of p gids (hd rest) = None)) \<and>
    (\<forall>j < length gids. length (blocks ! j) = nat (cdiv hit bs) \<and>
       (\<forall>i < length (blocks ! j). group_key (V ! i) (gids ! j) \<in> keys_of p (blocks ! j ! i)))"
proof -
  let ?k = "nat (cdiv hit bs)"
  let ?B = "columns p gids [] (take ?k found)"
  have run: "full_lookup p hs max_len gids bs eagle al = Inr (?B, hit)"
    unfolding hit_def found_def
    by (rule full_lookup_hit[OF assms(1-3) assms(5) assms(4) assms(6-8)])
  note b = full_hit_bounds[OF assms(4,6), of "length found" eagle, folded hit_def]
  have pre: "V = found @ dropWhile (\<lambda>h. hit_of p gids h \<noteq> None) V"
    by (simp add: V_def found_def hit_prefix_def)
  have hd: "dropWhile (\<lambda>h. hit_of p gids h \<noteq> None) V \<noteq> [] \<Longrightarrow>
      hit_of p gids (hd (dropWhile (\<lambda>h. hit_of p gids h \<noteq> None) V)) = None"
    using hd_dropWhile by blast
  have all: "hit_of p gids h \<noteq> None" if "h \<in> set found" for h
    using that set_takeWhileD by (fastforce simp: found_def hit_prefix_def)
  have "length found \<le> nat (max_len div bs)"
    using length_takeWhile_le[of _ "take (nat (max_len div bs)) _"] by (fastforce simp: found_def hit_prefix_def intro: order_trans)
  then have "int (length found) \<le> max_len div bs" using assms(4,8) by (simp add: le_nat_iff pos_imp_zdiv_nonneg_iff)
  then have "int (length found) * bs \<le> max_len" using assms(4) by (simp add: le_div_iff_mult)
  then have le: "hit \<le> max_len" using b(2) by linarith
  have "hit = (let t = int (length found) * bs - (if eagle \<and> 0 < length found then min al bs else 0) in t div al * al)"
    by (simp add: hit_def full_hit_tokens_def Let_def minus_mod_eq_div_mult)
  then have dvd: "al dvd hit" by (simp add: Let_def)
  have len: "length (?B ! j) = ?k" if "j < length gids" for j
    using b(3) that by (simp add: columns_def column_def)
  have reg: "group_key (V ! i) (gids ! j) \<in> keys_of p (?B ! j ! i)" if "j < length gids" "i < length (?B ! j)" for i j
  proof -
    have i: "i < length (take ?k found)" using that len[OF that(1)] b(3) by simp
    then have "take ?k found ! i = V ! i" using pre by (metis length_take min_less_iff_conj nth_append nth_take)
    then show ?thesis using column_registered[OF assms(1,2) _ that(1) i] all in_set_takeD by metis
  qed
  have "length ?B = length gids" by (simp add: columns_def)
  then show ?thesis using run b(1) le dvd pre hd len reg by blast
qed

theorem full_lookup_is_longest_prefix_witness:
  "\<exists>p. full_lookup p [[7], [8], [9]] 6 [0] 2 False 2 = Inr ([[1, 2]], 4) \<and>
    full_lookup p [[7], [8], [9]] 6 [0] 2 True 2 = Inr ([[1]], 2)"
proof -
  obtain p where p: "pool_inv p [3, 4]" "hash_block_size p = 2" "hit_of p [0] [7] = Some [1]"
    "hit_of p [0] [8] = Some [2]" "hit_of p [0] [9] = None" by (rule example_cached_pool)
  have v: "view_of [[7], [8], [9]] 1 = [[7], [8], [9::8 word]]" by (simp add: view_of_def upt_rec)
  have f: "hit_prefix p [0] [[7], [8], [9]] = [[7], [8]]" using p by (simp add: hit_prefix_def)
  have "cache_inv p" "gids_ok [0]" using p(1) by (simp_all add: pool_inv_def gids_ok_def)
  note L = full_lookup_is_longest_prefix[OF this, of 2 2 6 "[[7], [8], [9]]"]
  show ?thesis
    using L[of False] L[of True] p full_lookup_hit[OF \<open>cache_inv p\<close> \<open>gids_ok [0]\<close>, of 2 2 6 "[[7], [8], [9]]" False]
      full_lookup_hit[OF \<open>cache_inv p\<close> \<open>gids_ok [0]\<close>, of 2 2 6 "[[7], [8], [9]]" True]
    by (intro exI[of _ p]) (simp add: v f full_hit_tokens_def columns_def column_def cdiv_def)
qed

text \<open>
  Property C8. The sliding-window lookup returns the last aligned end whose attention window lies in
  cached blocks (or, near the start, all of the prefix does): it searches from the right and no later
  end would do. The blocks before the window are the null block, those of the window are registered
  under the chain hash of their own position; with a draft model the last matched block is dropped.
  A draft model whose alignment is coarser than its blocks gets this only for a full window.
\<close>
theorem swa_lookup_is_last_window:
  fixes eagle :: bool and window al :: int and hs :: "bytes list"
  assumes "cache_inv p" "gids_ok gids" "0 < hash_block_size p" "0 < bs" "bs mod hash_block_size p = 0"
    and "nat (max_len div bs) \<le> length (view_of hs (bs div hash_block_size p))"
  defines "V \<equiv> take (nat (max_len div bs)) (view_of hs (bs div hash_block_size p))"
    and "need \<equiv> nat (max 1 (contiguous_blocks_for_hit window bs eagle))"
  defines "e \<equiv> last_swa_end p gids V bs eagle al need"
  assumes "eagle \<Longrightarrow> bs = al \<or> need \<le> e"
  defines "keep \<equiv> (if eagle then e - 1 else e)"
  shows "(\<forall>e'. swa_end p gids V bs eagle al need e' \<longrightarrow> e' \<le> e) \<and> (e = 0 \<or> swa_end p gids V bs eagle al need e) \<and>
    (\<exists>blocks. swa_lookup p hs max_len gids window bs eagle al = Inr (blocks, int keep * bs) \<and>
      length blocks = length gids \<and>
      (\<forall>j < length gids. length (blocks ! j) = keep \<and> (\<forall>i < keep.
         if i < e - need then blocks ! j ! i = null_block p
         else group_key (V ! i) (gids ! j) \<in> keys_of p (blocks ! j ! i))))"
proof -
  let ?B = "map (\<lambda>j. take keep (swa_column p gids V need e j)) [0..<length gids]"
  have al: "eagle \<Longrightarrow> bs = al \<or> nat (max 1 (contiguous_blocks_for_hit window bs eagle)) \<le>
      last_swa_end p gids (take (nat (max_len div bs)) (view_of hs (bs div hash_block_size p))) bs eagle al
        (nat (max 1 (contiguous_blocks_for_hit window bs eagle)))"
    using assms(10) unfolding e_def V_def need_def .
  have run: "swa_lookup p hs max_len gids window bs eagle al = Inr (?B, int keep * bs)"
    unfolding keep_def e_def V_def need_def
    by (rule swa_lookup_hit[OF assms(1-3) assms(5) assms(4) assms(6) al])
  have e: "e = 0 \<or> swa_end p gids V bs eagle al need e" unfolding e_def by (rule last_swa_end_is_end)
  have mx: "swa_end p gids V bs eagle al need e' \<longrightarrow> e' \<le> e" for e'
    unfolding e_def using last_swa_end_max by blast
  have keep: "keep \<le> e" by (simp add: keep_def)
  have B: "?B ! j = take keep (swa_column p gids V need e j)" if "j < length gids" for j using that by simp
  have row: "if i < e - need then ?B ! j ! i = null_block p
      else group_key (V ! i) (gids ! j) \<in> keys_of p (?B ! j ! i)" if j: "j < length gids" and i: "i < keep" for i j
  proof (cases "i < e - need")
    case True
    then show ?thesis using B[OF j] i keep by (simp add: swa_column_nth)
  next
    case False
    then have "i \<in> set [e - need..<e]" "e \<noteq> 0" using i keep by auto
    then have "hit_of p gids (V ! i) \<noteq> None" using e by (auto simp: swa_end_def)
    then obtain bs' where bs': "hit_of p gids (V ! i) = Some bs'" by blast
    then show ?thesis using B[OF j] i keep False hit_of_spec(2)[OF assms(1,2) bs'] j by (simp add: swa_column_nth)
  qed
  have "length (?B ! j) = keep" if "j < length gids" for j using B[OF that] keep by simp
  moreover have "length ?B = length gids" by simp
  ultimately show ?thesis using run e mx row by blast
qed

theorem swa_lookup_is_last_window_witness:
  "\<exists>p blocks. swa_lookup p [[7], [8], [9]] 6 [0] 3 2 False 2 = Inr (blocks, 4) \<and> length (blocks ! 0) = 2 \<and>
    blocks ! 0 ! 0 = null_block p \<and> group_key [8] 0 \<in> keys_of p (blocks ! 0 ! 1)"
proof -
  obtain p where p: "pool_inv p [3, 4]" "hash_block_size p = 2" "hit_of p [0] [7] = Some [1]"
    "hit_of p [0] [8] = Some [2]" "hit_of p [0] [9] = None" by (rule example_cached_pool)
  have v: "view_of [[7], [8], [9]] 1 = [[7], [8], [9::8 word]]" by (simp add: view_of_def upt_rec)
  have need: "contiguous_blocks_for_hit 3 2 False = 1" by (simp add: contiguous_blocks_for_hit_def cdiv_def)
  have e: "last_swa_end p [0] [[7], [8], [9]] 2 False 2 (Suc 0) = 2"
    using p by (simp add: last_swa_end_def swa_end_def upt_rec)
  have "cache_inv p" "gids_ok [0]" using p(1) by (simp_all add: pool_inv_def gids_ok_def)
  from swa_lookup_is_last_window[OF this, of 2 6 "[[7], [8], [9]]" False 2 3]
  obtain blocks where b: "swa_lookup p [[7], [8], [9]] 6 [0] 3 2 False 2 = Inr (blocks, 4)" "length (blocks ! 0) = 2"
    "\<forall>i < 2. if i < 1 then blocks ! 0 ! i = null_block p
       else group_key ([[7], [8], [9]] ! i) 0 \<in> keys_of p (blocks ! 0 ! i)"
    using p(2) by (auto simp: v need e cong: if_cong)
  then have "blocks ! 0 ! 0 = null_block p" "group_key [8] 0 \<in> keys_of p (blocks ! 0 ! 1)"
    using b(3)[rule_format, of 0] b(3)[rule_format, of 1] by simp_all
  then show ?thesis using b by blast
qed

text \<open>
  Property C6. The lookup of the hybrid coordinator always returns: each round of its fixed-point
  loop either ends it or lowers the candidate length, which no lookup makes negative. The length it
  settles on is between 0 and the permitted one, so at least one token is left to compute.
\<close>
theorem hybrid_lookup_terminates:
  assumes "0 < al" "\<And>g. g \<in> set gs \<Longrightarrow> 0 < sg_block_size g" "0 \<le> max_hit"
  shows "\<exists>res. hybrid_lookup p hs max_hit al fine gs num_groups = Some res \<and>
    (\<forall>blocks hit uncached. res = Inr (blocks, hit, uncached) \<longrightarrow>
       length blocks = num_groups \<and> 0 \<le> hit \<and> hit \<le> max_hit)"
proof -
  let ?st = "\<lparr>hs_blocks = (\<lambda>_. None), hs_length = (\<lambda>_. 0), hs_eagle_verified = {}, hs_longest = 0\<rparr>"
  have "\<exists>r. hybrid_loop p hs max_hit al fine gs max_hit ?st = Some r \<and>
      (\<forall>h st'. r = Inr (h, st') \<longrightarrow> 0 \<le> h \<and> h \<le> max_hit)"
    by (rule hybrid_loop_returns[OF assms]) simp_all
  then obtain r where "hybrid_loop p hs max_hit al fine gs max_hit ?st = Some r"
    "\<forall>h st'. r = Inr (h, st') \<longrightarrow> 0 \<le> h \<and> h \<le> max_hit" by blast
  then show ?thesis by (cases r) (auto simp: hybrid_lookup_def Let_def)
qed

theorem hybrid_lookup_terminates_witness:
  "\<exists>p res. pool_inv p [3, 4] \<and>
    hybrid_lookup p [[7], [8], [9]] 6 2 False
      [\<lparr>sg_kind = FullAttention, sg_block_size = 2, sg_group_ids = [0], sg_use_eagle = False\<rparr>,
       \<lparr>sg_kind = SlidingWindow 3 0, sg_block_size = 2, sg_group_ids = [1], sg_use_eagle = True\<rparr>] 2 = Some res"
proof -
  obtain p where "pool_inv p [3, 4]" by (rule example_cached_pool)
  then show ?thesis
    using hybrid_lookup_terminates[of 2 "[\<lparr>sg_kind = FullAttention, sg_block_size = 2, sg_group_ids = [0], sg_use_eagle = False\<rparr>,
       \<lparr>sg_kind = SlidingWindow 3 0, sg_block_size = 2, sg_group_ids = [1], sg_use_eagle = True\<rparr>]" 6] by fastforce
qed

section \<open>Lookup followed by admission\<close>

lemma registered_block: "cache_inv p \<Longrightarrow> k \<in> keys_of p b \<Longrightarrow> b < num_gpu_blocks p"
  using cache_invD(3)[of p b] keys_empty[of p b] by (auto simp: block_ok_def split: option.splits)

lemma hit_block:
  "cache_inv p \<Longrightarrow> hit_of p [0] h \<noteq> None \<Longrightarrow> the (hit_of p [0] h) ! 0 < num_gpu_blocks p"
  using hit_of_spec(2)[of p "[0]" h "the (hit_of p [0] h)"] registered_block by (auto simp: gids_ok_def)

lemma hit_prefix_length: "length (hit_prefix p gids hs) \<le> length hs"
  by (simp add: hit_prefix_def length_takeWhile_le)

lemma hit_prefix_hits: "h \<in> set (hit_prefix p gids hs) \<Longrightarrow> hit_of p gids h \<noteq> None"
  using set_takeWhileD by (fastforce simp: hit_prefix_def)

lemma view_of_1: "view_of hs 1 = hs"
  by (intro nth_equalityI) (simp_all add: view_of_def nat_add_distrib)

lemma columns_one: "columns p [0] pre hs = [pre @ map (\<lambda>h. the (hit_of p [0] h) ! 0) hs]"
  by (simp add: columns_def column_def)

lemma cdiv_mult: "0 < b \<Longrightarrow> cdiv (k * b) b = k"
  using cdiv_le_iff[of b "k * b" k] cdiv_ge[of b "k * b"] by (simp add: antisym)

lemma full_hit_uniform: "full_hit_tokens n B eagle B = int (if eagle \<and> 0 < n then n - 1 else n) * B"
  by (cases n) (auto simp: full_hit_tokens_def Let_def algebra_simps)

text \<open>One group whose blocks have the size of a hash.\<close>

lemma unitary_lookup:
  assumes inv: "cache_inv p" and B: "0 < hash_block_size p" and n: "0 \<le> max_len" "nat (max_len div hash_block_size p) \<le> length hs"
    and null: "null_block p < num_gpu_blocks p"
    and k: "k \<noteq> CircularBuffer" "k \<noteq> CrossAttention" "kind_ok k" "\<And>c. k = ChunkedLocal c \<Longrightarrow> \<not> eagle"
  shows "\<exists>bs. group_lookup k p hs max_len [0] (hash_block_size p) eagle (hash_block_size p) =
      Inr ([bs], int (length bs) * hash_block_size p) \<and> (\<forall>b \<in> set bs. b < num_gpu_blocks p) \<and>
      int (length bs) * hash_block_size p \<le> max_len"
proof -
  let ?B = "hash_block_size p"
  let ?n = "nat (max_len div ?B)"
  have g: "gids_ok [0]" by (simp add: gids_ok_def)
  have v: "view_of hs (?B div ?B) = hs" using B by (simp add: view_of_1)
  have le: "int m * ?B \<le> max_len" if "m \<le> ?n" for m
  proof -
    have "int m \<le> max_len div ?B" using that n(1) B by (simp add: le_nat_iff pos_imp_zdiv_nonneg_iff)
    then show ?thesis using B by (simp add: le_div_iff_mult)
  qed
  have full: "\<exists>bs. full_lookup p hs max_len [0] ?B eagle ?B = Inr ([bs], int (length bs) * ?B) \<and>
      (\<forall>b \<in> set bs. b < num_gpu_blocks p) \<and> int (length bs) * ?B \<le> max_len"
  proof -
    define F where "F = hit_prefix p [0] (take ?n hs)"
    define k' where "k' = (if eagle \<and> 0 < length F then length F - 1 else length F)"
    have h: "full_hit_tokens (length F) ?B eagle ?B = int k' * ?B"
      unfolding k'_def by (rule full_hit_uniform)
    have c: "nat (cdiv (int k' * ?B) ?B) = k'" using cdiv_mult[OF B] by simp
    have L: "full_lookup p hs max_len [0] ?B eagle ?B = Inr (columns p [0] [] (take k' F), int k' * ?B)"
      using full_lookup_hit[OF inv g B _ B B _ n(1), of hs eagle] unfolding v F_def[symmetric] h c by simp
    have F: "length F \<le> ?n" "\<And>h. h \<in> set F \<Longrightarrow> hit_of p [0] h \<noteq> None"
      using hit_prefix_length[of p "[0]" "take ?n hs"] hit_prefix_hits by (simp_all add: F_def)
    let ?bs = "map (\<lambda>h. the (hit_of p [0] h) ! 0) (take k' F)"
    have "the (hit_of p [0] h) ! 0 < num_gpu_blocks p" if "h \<in> set (take k' F)" for h
      using hit_block[OF inv F(2)[OF in_set_takeD[OF that]]] .
    then have "\<forall>b \<in> set ?bs. b < num_gpu_blocks p" by simp
    moreover have kn: "k' \<le> length F" by (simp add: k'_def)
    then have "length ?bs = k'" by simp
    moreover have "int k' * ?B \<le> max_len" using le[of k'] kn F(1) by linarith
    ultimately show ?thesis using L unfolding columns_one append_Nil by metis
  qed
  have swa: "\<exists>bs. swa_lookup p hs max_len [0] w ?B eagle ?B = Inr ([bs], int (length bs) * ?B) \<and>
      (\<forall>b \<in> set bs. b < num_gpu_blocks p) \<and> int (length bs) * ?B \<le> max_len" for w
  proof -
    let ?V = "take ?n hs"
    let ?need = "nat (max 1 (contiguous_blocks_for_hit w ?B eagle))"
    define e where "e = last_swa_end p [0] ?V ?B eagle ?B ?need"
    let ?k = "if eagle then e - 1 else e"
    have L: "swa_lookup p hs max_len [0] w ?B eagle ?B = Inr ([take ?k (swa_column p [0] ?V ?need e 0)], int ?k * ?B)"
      using swa_lookup_hit[OF inv g B _ B, of max_len hs eagle ?B w] n(2) unfolding v by (simp add: e_def)
    have e: "e = 0 \<or> swa_end p [0] ?V ?B eagle ?B ?need e" unfolding e_def by (rule last_swa_end_is_end)
    have "b < num_gpu_blocks p" if b: "b \<in> set (swa_column p [0] ?V ?need e 0)" for b
    proof -
      obtain i where i: "i < e" "b = swa_column p [0] ?V ?need e 0 ! i"
        using b by (metis in_set_conv_nth swa_column_length)
      show ?thesis
      proof (cases "e - ?need \<le> i")
        case True
        then have "i \<in> set [e - ?need..<e]" using i by simp
        then have "hit_of p [0] (?V ! i) \<noteq> None" using e i(1) unfolding swa_end_def by blast
        then show ?thesis using hit_block[OF inv] i True by (simp add: swa_column_nth)
      qed (use i null in \<open>simp add: swa_column_nth\<close>)
    qed
    moreover have "e \<le> ?n" using e by (auto simp: swa_end_def)
    then have "?k \<le> ?n" by (cases eagle) auto
    then have "int ?k * ?B \<le> max_len" by (rule le)
    moreover have "length (take ?k (swa_column p [0] ?V ?need e 0)) = ?k" by simp
    ultimately have "\<forall>b \<in> set (take ?k (swa_column p [0] ?V ?need e 0)). b < num_gpu_blocks p"
      "int (length (take ?k (swa_column p [0] ?V ?need e 0))) * ?B \<le> max_len"
      "swa_lookup p hs max_len [0] w ?B eagle ?B = Inr ([take ?k (swa_column p [0] ?V ?need e 0)],
         int (length (take ?k (swa_column p [0] ?V ?need e 0))) * ?B)"
      using L by (auto dest: in_set_takeD simp del: length_take)
    then show ?thesis by blast
  qed
  have chunked: "\<exists>bs. chunked_lookup p hs max_len [0] c ?B False ?B = Inr ([bs], int (length bs) * ?B) \<and>
      (\<forall>b \<in> set bs. b < num_gpu_blocks p) \<and> int (length bs) * ?B \<le> max_len" if c: "0 < c" for c
  proof -
    let ?f = "nat (max_len div c * c div ?B)"
    let ?F = "hit_prefix p [0] (drop ?f (take ?n hs))"
    have L: "chunked_lookup p hs max_len [0] c ?B False ?B =
        Inr (columns p [0] (replicate ?f (null_block p)) ?F, int (?f + length ?F) * ?B)"
      using chunked_lookup_hit[OF inv g B _ B _ n(1) c, of hs] n(2) unfolding v by simp
    have F: "length ?F \<le> ?n - ?f"
      using hit_prefix_length[of p "[0]" "drop ?f (take ?n hs)"] n(2)
      by (simp only: length_drop length_take min.absorb2)
    have F2: "\<And>h. h \<in> set ?F \<Longrightarrow> hit_of p [0] h \<noteq> None" by (rule hit_prefix_hits)
    have "max_len div c * c \<le> max_len" using c by (metis div_mult_mod_eq le_add_same_cancel1 pos_mod_sign)
    then have "?f \<le> ?n" using B by (intro nat_mono zdiv_mono1)
    then have "?f + length ?F \<le> ?n" using F by linarith
    then show ?thesis using L le[of "?f + length ?F"] hit_block[OF inv F2] null
      by (intro exI[of _ "replicate ?f (null_block p) @ map (\<lambda>h. the (hit_of p [0] h) ! 0) ?F"]) (auto simp: columns_one)
  qed
  show ?thesis using full swa chunked k by (cases k) (auto simp: group_lookup_def kind_ok_def)
qed

text \<open>
  Property C2. When \<open>allocate_slots\<close> decides there is room there is: with the caller's contract it
  never raises, whatever the mix of attention types, hits and externally computed tokens, and every
  reference is still accounted for. If it grants the slots, every table covers the requested tokens,
  the new blocks are in no other table, and no other request's state has changed.
\<close>
theorem admitted_request_gets_its_blocks:
  assumes "kv_ok ext K" "slots_pre r nnewcomp newb nx K"
    and "nnew \<noteq> 0 \<or> nx \<noteq> 0 \<or> nnewcomp \<noteq> 0" "0 \<le> nnew" "0 \<le> nlook" "0 \<le> reserved"
  defines "nslot \<equiv> min (num_computed_tokens r + nnewcomp + nx + nnew + nlook) (max_model_len K)"
  shows "\<exists>res K'. reserve_slots r nnew nnewcomp newb nlook nx nenc full reserved sched K = Inr (res, K') \<and>
    kv_ok ext K' \<and> others_keep (request_id r) K K' \<and>
    (\<forall>out. res = Some out \<longrightarrow>
       (\<forall>m \<in> set (managers K'). if mgr_kind m = CircularBuffer then blocks_of m (request_id r) \<noteq> []
          else (if mgr_kind m = CrossAttention then nenc else nslot)
            \<le> int (length (blocks_of m (request_id r))) * mgr_block_size m) \<and>
       private_blocks (request_id r) out K')"
proof -
  from reserve_slots_ok[OF assms(1-6), where nenc = nenc and full = full and sched = sched, folded nslot_def]
  obtain res K' where "reserve_slots r nnew nnewcomp newb nlook nx nenc full reserved sched K = Inr (res, K')"
    "kv_ok ext K'" "others_keep (request_id r) K K'"
    "\<And>out. res = Some out \<Longrightarrow> covers (request_id r) nslot nenc K' \<and> private_blocks (request_id r) out K'"
    by blast
  then show ?thesis unfolding covers_def alloc_tokens_def by blast
qed

lemma example_first_request:
  "0 \<le> n \<Longrightarrow> hit_ok n bs (example_manager FullAttention) p \<Longrightarrow>
    first_request rid n [bs] (example_cache FullAttention p)"
  by (simp add: first_request_def add_pre_def special_def)

theorem admitted_request_gets_its_blocks_witness:
  "\<exists>p res K'. pool_inv p [3, 4] \<and>
    reserve_slots (example_request ''q'' [1, 2, 3, 4, 5]) 1 4 (Blocks [[1, 2]]) 0 0 0 True 0 True
      (example_cache FullAttention p) = Inr (res, K') \<and> kv_ok (\<lambda>b. ref_cnt (blk p b)) K'"
proof -
  let ?r = "example_request ''q'' [1, 2, 3, 4, 5]"
  obtain p where p: "pool_inv p [3, 4]" "num_gpu_blocks p = 5" by (rule example_cached_pool)
  have "hit_ok 4 [1, 2] (example_manager FullAttention) p"
    using p(2) by (simp add: hit_ok_def has_partial_local_hit_def)
  then have "slots_pre ?r 4 (Blocks [[1, 2]]) 0 (example_cache FullAttention p)"
    using example_first_request[of 4 "[1, 2]" p] by (simp add: slots_pre_def blocks_list_def example_request_def)
  from admitted_request_gets_its_blocks[OF example_ok[OF p(1)] this, of 1 0 0 0 True True]
  show ?thesis using p(1) by (auto simp: kind_ok_def)
qed

text \<open>
  Property C9. Lookup and admission fit together: with one cache group, whatever
  \<open>get_computed_blocks\<close> finds for a waiting request leaves at least one token to compute and satisfies
  what \<open>allocate_slots\<close> relies on, so the allocation that follows returns, covers the request's
  tokens if it is granted, and keeps the accounts.
\<close>
theorem lookup_then_reserve:
  assumes "kv_ok ext K" "coord_kind K = Unitary" "managers K = [m]" "mgr_block_size m = hash_block_size (pool K)"
    and "mgr_kind m \<noteq> CircularBuffer" "mgr_kind m \<noteq> CrossAttention" "mgr_enable_caching m"
    and "\<And>c. mgr_kind m = ChunkedLocal c \<Longrightarrow> 0 \<notin> set (eagle_group_ids K)"
    and "prefix_cache_lookup_enabled r K" "kv_cache_report_mode r \<noteq> Some ''full''"
    and "blocks_of m (request_id r) = []" "num_cached_block m (request_id r) = None" "partial_hit_reqs m (request_id r) = None"
    and "num_computed_tokens r = 0" "1 \<le> num_tokens r" "num_tokens r \<le> max_model_len K" "0 \<le> watermark_blocks K"
    and "nat ((num_tokens r - 1) div hash_block_size (pool K)) \<le> length (block_hashes r)"
    and "0 < nnew" "0 \<le> nlook" "0 \<le> reserved"
  shows "\<exists>newb n. get_computed_blocks sha r gs spec_bs K = Some (Inr ((newb, n, 0), K)) \<and> 0 \<le> n \<and> n < num_tokens r \<and>
    (\<exists>res K'. reserve_slots r nnew n newb nlook 0 nenc full reserved sched K = Inr (res, K') \<and> kv_ok ext K' \<and>
      (res \<noteq> None \<longrightarrow> covers (request_id r) (min (n + nnew + nlook) (max_model_len K)) nenc K'))"
proof -
  let ?p = "pool K" let ?B = "hash_block_size ?p"
  obtain xs where inv: "pool_inv ?p xs" using assms(1) by (auto simp: kv_ok_def)
  have c: "cache_inv ?p" "null_block ?p < num_gpu_blocks ?p" using inv by (simp_all add: pool_inv_def free_inv_def)
  have mok: "mgr_ok m ?p" using assms(1,3) by (simp add: kv_ok_def)
  have B: "0 < ?B" using mok assms(4) by (simp add: mgr_ok_def)
  have n0: "0 \<le> num_tokens r - 1" using assms(15) by simp
  have ko: "kind_ok (mgr_kind m)" using mok by (simp add: mgr_ok_def)
  obtain bs where bs: "group_lookup (mgr_kind m) ?p (block_hashes r) (num_tokens r - 1) [0] ?B (0 \<in> set (eagle_group_ids K)) ?B =
      Inr ([bs], int (length bs) * ?B)" "\<forall>b \<in> set bs. b < num_gpu_blocks ?p" "int (length bs) * ?B \<le> num_tokens r - 1"
    using unitary_lookup[OF c(1) B n0 assms(18) c(2) assms(5,6) ko, of "0 \<in> set (eagle_group_ids K)"] assms(8) by blast
  let ?n = "int (length bs) * ?B" let ?newb = "create_kv_cache_blocks [bs]"
  have n: "0 \<le> ?n" using B by simp
  have look: "coord_find_longest_cache_hit gs (block_hashes r) (num_tokens r - 1) K = Some (Inr ([bs], ?n, 0))"
    using bs(1) assms(2-4) by (simp add: coord_find_longest_cache_hit_def py_get_def py_index_def)
  have get: "get_computed_blocks sha r gs spec_bs K = Some (Inr ((?newb, ?n, 0), K))"
    using assms(9,10) look by (simp add: get_computed_blocks_def)
  have pre: "slots_pre r ?n ?newb 0 K"
  proof (cases "bs = []")
    case True
    then show ?thesis using assms(3,11,13-17)
      by (simp add: slots_pre_def create_kv_cache_blocks_def known_request_def)
  next
    case False
    have "hit_ok ?n bs m ?p" using bs(2) assms(4) by (simp add: hit_ok_def has_partial_local_hit_def)
    then have "first_request (request_id r) ?n [bs] K"
      using assms(3,5-7,11-13) n by (simp add: first_request_def add_pre_def special_def)
    then show ?thesis using False n bs(3) assms(14,16,17)
      by (simp add: slots_pre_def create_kv_cache_blocks_def blocks_list_def)
  qed
  have nz: "nnew \<noteq> 0 \<or> (0::int) \<noteq> 0 \<or> ?n \<noteq> 0" "0 \<le> nnew" using assms(19) by simp_all
  from reserve_slots_ok[OF assms(1) pre nz assms(20,21), where nenc = nenc and full = full and sched = sched]
  obtain res K' where "reserve_slots r nnew ?n ?newb nlook 0 nenc full reserved sched K = Inr (res, K')" "kv_ok ext K'"
    "\<forall>out. res = Some out \<longrightarrow> covers (request_id r) (min (?n + nnew + nlook) (max_model_len K)) nenc K'"
    using assms(14) by auto
  then show ?thesis using get n bs(3) by (intro exI[of _ ?newb] exI[of _ ?n]) auto
qed

theorem lookup_then_reserve_witness:
  "\<exists>p newb n res K'. pool_inv p [3, 4] \<and>
    get_computed_blocks id ((example_request ''q'' [1, 2, 3, 4, 5])\<lparr>block_hashes := [[7], [8]]\<rparr>) [] [2]
      (example_cache FullAttention p) = Some (Inr ((newb, n, 0), example_cache FullAttention p)) \<and>
    reserve_slots ((example_request ''q'' [1, 2, 3, 4, 5])\<lparr>block_hashes := [[7], [8]]\<rparr>) 1 n newb 0 0 0 True 0 True
      (example_cache FullAttention p) = Inr (res, K')"
proof -
  let ?r = "(example_request ''q'' [1, 2, 3, 4, 5])\<lparr>block_hashes := [[7], [8]]\<rparr>"
  obtain p where p: "pool_inv p [3, 4]" "num_gpu_blocks p = 5" "hash_block_size p = 2" by (rule example_cached_pool)
  have k: "kv_ok (\<lambda>b. ref_cnt (blk p b)) (example_cache FullAttention p)"
    using example_ok[OF p(1)] by (simp add: kind_ok_def)
  have r: "prefix_cache_lookup_enabled ?r (example_cache FullAttention p)" "kv_cache_report_mode ?r \<noteq> Some ''full''"
    "num_computed_tokens ?r = 0" "num_tokens ?r = 5" "block_hashes ?r = [[7], [8]]"
    by (simp_all add: prefix_cache_lookup_enabled_def example_request_def num_tokens_def)
  from lookup_then_reserve[OF k, of "example_manager FullAttention" ?r 1 0 0 id "[]" "[2]" 0 True True]
  have "\<exists>newb n. get_computed_blocks id ?r [] [2] (example_cache FullAttention p) =
      Some (Inr ((newb, n, 0), example_cache FullAttention p)) \<and> 0 \<le> n \<and> n < num_tokens ?r \<and>
    (\<exists>res K'. reserve_slots ?r 1 n newb 0 0 0 True 0 True (example_cache FullAttention p) = Inr (res, K') \<and>
      kv_ok (\<lambda>b. ref_cnt (blk p b)) K' \<and> (res \<noteq> None \<longrightarrow> covers (request_id ?r)
        (min (n + 1 + 0) (max_model_len (example_cache FullAttention p))) 0 K'))"
    using r p(3) by simp
  then show ?thesis using p(1) by blast
qed

end
