(* ===== verification/KvLife.thy ===== *)
theory KvLife imports KvProps
begin

text \<open>
  Properties over the life of the blocks: what recycling keeps, the accounts of every reachable
  state of the scheduler's block operations, the fences of deferred frees, the absence of leaks, and
  the events for reused blocks.
\<close>

section \<open>Recycling\<close>

text \<open>
  The positions the token at position \<open>n\<close> attends to: all, the last \<open>w\<close>, those of its own chunk, or
  the prompt and the last \<open>w\<close>.
\<close>

definition attended :: "mgr_kind \<Rightarrow> int \<Rightarrow> int option \<Rightarrow> int \<Rightarrow> bool" where
  "attended k n nprompt t \<longleftrightarrow>
     (case (k, nprompt) of
        (SlidingWindow w _, _) \<Rightarrow> n - w < t
      | (ChunkedLocal c, _) \<Rightarrow> n div c * c \<le> t
      | (RSWA w, Some l) \<Rightarrow> t < l \<or> n - w \<le> t
      | _ \<Rightarrow> True)"

lemma each_manager_calls:
  "each_manager f as ms p = Inr (os, ms', p') \<Longrightarrow> i < length ms \<Longrightarrow>
    \<exists>q q'. f (as ! i) (ms ! i) q = Inr (os ! i, ms' ! i, q')"
proof (induction f as ms p arbitrary: os ms' p' i rule: each_manager.induct)
  case (2 f as m ms p)
  obtain a where a: "py_get as 0 = Inr a" using "2.prems"(1) by (cases "py_get as 0") auto
  then have as: "as = a # drop 1 as" by (cases as) (auto simp: py_get_def py_index_def)
  obtain x m1 p1 where f: "f a m p = Inr (x, m1, p1)" using "2.prems"(1) a by (cases "f a m p") auto
  obtain xs ms1 p2 where r: "each_manager f (drop 1 as) ms p1 = Inr (xs, ms1, p2)" "os = x # xs" "ms' = m1 # ms1"
    using "2.prems"(1) a f by (auto simp: bind_res_eq_Inr)
  show ?case
  proof (cases i)
    case 0
    then show ?thesis using f r as by (metis nth_Cons_0)
  next
    case (Suc j)
    then have "\<exists>q q'. f (drop 1 as ! j) (ms ! j) q = Inr (xs ! j, ms1 ! j, q')"
      using "2.IH"[OF a f refl refl r(1), of j] "2.prems"(2) by simp
    then show ?thesis using Suc r as by (metis nth_Cons_Suc)
  qed
qed simp

lemma remove_range_low:
  assumes run: "remove_blocks_in_range rid first lst m p = Inr (m', p')" and j: "j < nat first"
  shows "blocks_of m' rid ! j = blocks_of m rid ! j"
proof (cases "map_of (req_to_blocks m) rid = None \<or> lst \<le> first")
  case True
  then show ?thesis using run by (auto simp: remove_blocks_in_range_def)
next
  case False
  let ?bs = "blocks_of m rid" let ?is = "rev [nat first..<nat (min lst (int (length ?bs)))]"
  obtain freed bs where no: "null_out (null_block p) ?is ?bs [] = (freed, bs)" by fastforce
  have "i < length ?bs" if "i \<in> set ?is" for i using that by auto
  then have "bs ! j = ?bs ! j" using null_out_spec[OF no] j by auto
  moreover have "m' = put_blocks rid bs m"
    using run False no by (auto simp: remove_blocks_in_range_def Let_def bind_res_eq_Inr split: if_splits)
  ultimately show ?thesis by simp
qed

lemma recycle_keeps_attended:
  assumes ok: "mgr_ok m p" and keep: "keeps_tail rid (window_block n nprompt m) m p m'"
    and run: "mgr_remove_skipped_blocks rid n nprompt m q = Inr (m', q')"
    and t: "0 \<le> t" "attended (mgr_kind m) n nprompt t" "nat (t div mgr_block_size m) < length (blocks_of m rid)"
  shows "blocks_of m' rid ! nat (t div mgr_block_size m) = blocks_of m rid ! nat (t div mgr_block_size m)"
proof -
  let ?bs = "mgr_block_size m" let ?j = "nat (t div ?bs)"
  have b: "0 < ?bs" using mgr_okD(1)[OF ok] .
  have high: ?thesis if "window_block n nprompt m \<le> ?j"
    using keep t(3) that by (auto simp: keeps_tail_def)
  have base: "nat (num_skipped_blocks m n) \<le> ?j" if "get_num_skipped_tokens m n \<le> t"
    using that b by (auto simp: num_skipped_blocks_def intro!: nat_mono zdiv_mono1)
  have ko: "kind_ok (mgr_kind m)" using ok by (simp add: mgr_ok_def)
  show ?thesis
  proof (cases "mgr_kind m")
    case (RSWA w)
    show ?thesis
    proof (cases nprompt)
      case None
      then show ?thesis using RSWA t(1) by (intro high) (simp add: window_block_def base get_num_skipped_tokens_def)
    next
      case (Some l)
      show ?thesis
      proof (cases "t < l")
        case True
        then have "t < cdiv l ?bs * ?bs" using cdiv_ge[OF b, of l] by linarith
        then have "t div ?bs < cdiv l ?bs" using le_div_iff_mult[OF b, of "cdiv l ?bs" t] by linarith
        moreover have "0 \<le> t div ?bs" using t(1) b by (simp add: pos_imp_zdiv_nonneg_iff)
        ultimately have "?j < nat (cdiv l ?bs)" by linarith
        then show ?thesis using run RSWA Some remove_range_low
          by (simp add: mgr_remove_skipped_blocks_def Let_def)
      next
        case False
        then have "max l (n - w) \<le> t" using t(2) RSWA Some by (simp add: attended_def)
        then show ?thesis using RSWA Some b
          by (intro high) (auto simp: window_block_def intro!: nat_mono zdiv_mono1)
      qed
    qed
  next
    case (SlidingWindow w x)
    then have "get_num_skipped_tokens m n \<le> t"
      using t(1,2) ko by (simp add: get_num_skipped_tokens_def attended_def kind_ok_def)
    then show ?thesis using SlidingWindow by (intro high) (simp add: window_block_def base)
  next
    case (ChunkedLocal c)
    then have "get_num_skipped_tokens m n \<le> t" using t(2) by (simp add: get_num_skipped_tokens_def attended_def)
    then show ?thesis using ChunkedLocal by (intro high) (simp add: window_block_def base)
  qed (use t(1) in \<open>intro high, simp add: window_block_def base get_num_skipped_tokens_def\<close>)+
qed

text \<open>
  Property C7. Recycling blocks never takes away what attention still reads: \<open>remove_skipped_blocks\<close>
  returns, only adds free blocks, touches no other request, and every block holding a position that
  the token at \<open>processed\<close> attends to stays in the table, for every kind of attention.
\<close>
theorem recycling_keeps_attended_blocks:
  assumes "kv_ok ext K"
  shows "\<exists>K'. coord_remove_skipped_blocks rid n nprompt K = Inr K' \<and> kv_ok ext K' \<and> num_free K \<le> num_free K' \<and>
    others_keep rid K K' \<and>
    (\<forall>i < length (managers K). let m = managers K ! i; m' = managers K' ! i in
       length (blocks_of m' rid) = length (blocks_of m rid) \<and>
       (\<forall>t. 0 \<le> t \<and> attended (mgr_kind m) n nprompt t \<and> nat (t div mgr_block_size m) < length (blocks_of m rid) \<longrightarrow>
          blocks_of m' rid ! nat (t div mgr_block_size m) = blocks_of m rid ! nat (t div mgr_block_size m)))"
proof -
  obtain K' where K': "coord_remove_skipped_blocks rid n nprompt K = Inr K'" "kv_ok ext K'"
    "num_free K \<le> num_free K'" "others_keep rid K K'"
    "\<And>i. i < length (managers K) \<Longrightarrow> keeps_tail rid (window_block n nprompt (managers K ! i))
       (managers K ! i) (pool K) (managers K' ! i)"
    using recycle_stage[OF assms, of rid n nprompt] by blast
  obtain os ms p where e: "each_manager (no_result (\<lambda>_. mgr_remove_skipped_blocks rid n nprompt)) (managers K)
      (managers K) (pool K) = Inr (os, ms, p)" "managers K' = ms"
    using K'(1) by (auto simp: coord_remove_skipped_blocks_def on_managers_def bind_res_eq_Inr)
  have "blocks_of (managers K' ! i) rid ! nat (t div mgr_block_size (managers K ! i)) =
      blocks_of (managers K ! i) rid ! nat (t div mgr_block_size (managers K ! i))"
    if i: "i < length (managers K)" and t: "0 \<le> t" "attended (mgr_kind (managers K ! i)) n nprompt t"
      "nat (t div mgr_block_size (managers K ! i)) < length (blocks_of (managers K ! i) rid)" for i t
  proof -
    obtain q q' where "mgr_remove_skipped_blocks rid n nprompt (managers K ! i) q = Inr (managers K' ! i, q')"
      using each_manager_calls[OF e(1) i] e(2) by (auto simp: no_result_def bind_res_eq_Inr)
    moreover have "mgr_ok (managers K ! i) (pool K)" using assms i by (simp add: kv_ok_def)
    ultimately show ?thesis using recycle_keeps_attended[OF _ K'(5)[OF i] _ t] by blast
  qed
  then show ?thesis using K' by (intro exI[of _ K']) (simp add: Let_def keeps_tail_def)
qed

theorem recycling_keeps_attended_blocks_witness:
  "\<exists>p K'. pool_inv p [3, 4] \<and>
    coord_remove_skipped_blocks ''r'' 5 None (example_running (SlidingWindow 3 0) p) = Inr K' \<and>
    blocks_of (managers K' ! 0) ''r'' ! 1 = 2"
proof -
  obtain p where p: "pool_inv p [3, 4]" "num_gpu_blocks p = 5" "ref_cnt (blk p 1) = 1" "ref_cnt (blk p 2) = 1"
    by (rule example_cached_pool)
  have "kind_ok (SlidingWindow 3 0)" by (simp add: kind_ok_def)
  from recycling_keeps_attended_blocks[OF example_running_ok[OF p(1) this p(2-4)], of "''r''" 5 None]
  obtain K' where K': "coord_remove_skipped_blocks ''r'' 5 None (example_running (SlidingWindow 3 0) p) = Inr K'"
    "\<forall>t. 0 \<le> t \<and> 2 < t \<and> nat (t div 2) < Suc (Suc 0) \<longrightarrow>
      blocks_of (managers K' ! 0) ''r'' ! nat (t div 2) = [1, 2] ! nat (t div 2)"
    by (auto simp: attended_def Let_def)
  have "blocks_of (managers K' ! 0) ''r'' ! 1 = 2" using K'(2)[rule_format, of 3] by simp
  then show ?thesis using p(1) K'(1) by blast
qed

section \<open>Accounts\<close>

lemma unnamed_iff:
  "fenced_refs ds b + (\<Sum>m \<leftarrow> ms. cnt m b) = 0 \<longleftrightarrow>
    (\<forall>(f, bs) \<in> set ds. b \<notin> set bs) \<and> (\<forall>m \<in> set ms. b \<notin> set (held m))"
proof -
  have 1: "fenced_refs ds b = 0 \<longleftrightarrow> (\<forall>(f, bs) \<in> set ds. b \<notin> set bs)"
  proof (induction ds)
    case (Cons d ds)
    then show ?case using fenced_refs_nonneg[of ds b]
      by (cases d) (auto simp: count_list_0_iff add_nonneg_eq_0_iff)
  qed simp
  have 2: "(\<Sum>m \<leftarrow> ms. cnt m b) = 0 \<longleftrightarrow> (\<forall>m \<in> set ms. b \<notin> set (held m))"
  proof (induction ms)
    case (Cons m ms)
    have "0 \<le> cnt m b" "cnt m b = 0 \<longleftrightarrow> b \<notin> set (held m)" by (simp_all add: cnt_def count_list_0_iff)
    then show ?case using Cons sum_cnt_nonneg[of b ms] by (auto simp: add_nonneg_eq_0_iff)
  qed simp
  show ?thesis using 1 2 fenced_refs_nonneg[of ds b] sum_cnt_nonneg[of b ms]
    by (auto simp: add_nonneg_eq_0_iff)
qed


text \<open>A running request of an example cache, with a step in flight.\<close>

definition example_sched :: "block_pool \<Rightarrow> block_sched" where
  "example_sched p = \<lparr>kv = example_running FullAttention p, live_requests = (\<lambda>_. None), deferred_frees = [],
     sched_step_seq = 0, processed_step_seq = 0, defer_block_free = True\<rparr>"

abbreviation example_live :: request where
  "example_live \<equiv> (example_request ''r'' [1, 2, 3, 4])\<lparr>num_computed_tokens := 4, num_in_flight_tokens := 4,
     last_sched_seq := 1, is_prefill_chunk := False\<rparr>"

definition example_in_flight :: "block_pool \<Rightarrow> block_sched" where
  "example_in_flight p = (example_sched p)\<lparr>live_requests := [''r'' \<mapsto> example_live], sched_step_seq := 1\<rparr>"

lemma example_init:
  assumes p: "pool_inv p [3, 4]" "num_gpu_blocks p = 5" "null_block p = 0" "ref_cnt (blk p 1) = 1" "ref_cnt (blk p 2) = 1"
  shows "block_init (example_sched p)"
proof -
  have f: "free_inv p [3, 4]" using p(1) by (simp add: pool_inv_def)
  have "kv_ok (\<lambda>_. 0) (example_running FullAttention p)"
  proof (rule kv_ok_cong[OF example_running_ok[OF p(1) _ p(2,4,5), of FullAttention]])
    fix b assume b: "b < num_gpu_blocks (pool (example_running FullAttention p))"
      "\<not> is_null (blk (pool (example_running FullAttention p)) b)"
    then have "b < 5" "\<not> is_null (blk p b)" using p(2) by (simp_all add: example_running_def)
    moreover have "is_null (blk p 0)" using f p(3) by (simp add: free_inv_def)
    ultimately have "b = 1 \<or> b = 2 \<or> b = 3 \<or> b = 4" by (cases "b = 0") auto
    then show "ref_cnt (blk p b) - (if b = 1 \<or> b = 2 then 1 else 0) = 0"
      using p(4,5) free_invD(2)[OF f, of b] by auto
  qed (simp add: kind_ok_def)
  then show ?thesis by (simp add: block_init_def example_sched_def)
qed

lemma example_reachable:
  assumes "pool_inv p [3, 4]" "num_gpu_blocks p = 5" "null_block p = 0" "ref_cnt (blk p 1) = 1" "ref_cnt (blk p 2) = 1"
  shows "block_reachable (example_in_flight p)"
proof -
  let ?r = "example_request ''r'' [1, 2, 3, 4]"
  let ?S = "(example_sched p)\<lparr>live_requests := [''r'' \<mapsto> ?r]\<rparr>"
  have 1: "block_step (example_sched p) ?S"
    using block_step.Arrive[of "example_sched p" ?r] by (simp add: example_sched_def example_request_def)
  have "end_schedule [(''r'', 4)] ?S = Inr (example_in_flight p)"
    by (simp add: end_schedule_def example_in_flight_def example_sched_def example_request_def num_tokens_def Let_def)
  then have 2: "block_step ?S (example_in_flight p)" by (rule block_step.Schedule)
  show ?thesis using example_init[OF assms] 1 2 unfolding block_reachable_def
    by (meson rtranclp.rtrancl_into_rtrancl rtranclp.rtrancl_refl)
qed


section \<open>Fences\<close>

lemma block_step_config:
  "block_step S S' \<Longrightarrow> sched_inv S \<Longrightarrow> same_config (pool (kv S)) (pool (kv S'))"
proof (induction rule: block_step.induct)
  case (Reserve S rid r nnewcomp newb nx nnew nlook reserved nenc full sched out K)
  have ok: "kv_ok (fenced_refs (deferred_frees S)) (kv S)" using Reserve.prems by (simp add: sched_inv_def)
  have "nnew \<noteq> 0 \<or> nx \<noteq> 0 \<or> nnewcomp \<noteq> 0" using Reserve.hyps by (auto simp: reserve_slots_def)
  from reserve_slots_ok[OF ok Reserve.hyps(2) this Reserve.hyps(3-5), where nenc = nenc and full = full and sched = sched]
  show ?case using Reserve.hyps(6) same_settingsD(4) by fastforce
next
  case (Recycle S rid r n nprompt K)
  have ok: "kv_ok (fenced_refs (deferred_frees S)) (kv S)" using Recycle.prems by (simp add: sched_inv_def)
  from recycle_stage[OF ok, of rid n nprompt] show ?case using Recycle.hyps same_settingsD(4) by fastforce
next
  case (Preempt S rid r S')
  then have "live_requests S (request_id r) = Some r" using live_request by blast
  then show ?case using free_request_blocks_ok[OF Preempt.prems] Preempt.hyps same_settingsD(4)
    by (fastforce simp: only_blocks_def)
next
  case (Finish S rid r S')
  then have "live_requests S (request_id r) = Some r" using live_request by blast
  then show ?case using free_request_blocks_ok[OF Finish.prems] Finish.hyps same_settingsD(4)
    by (fastforce simp: only_blocks_def)
next
  case (Copies S copies S')
  then show ?case using hand_out_copies_ok[OF Copies.prems] same_settingsD(4) by (fastforce simp: only_blocks_def)
next
  case (Schedule scheduled S S')
  then show ?case using end_schedule_ok by (metis same_config_refl)
next
  case (Process S n S')
  show ?case
  proof (cases "defer_block_free S \<and> 0 < n")
    case True
    let ?S = "S\<lparr>processed_step_seq := processed_step_seq S + 1\<rparr>"
    have "sched_inv ?S" using Process by (auto simp: sched_inv_def)
    from drain_ok[OF this] show ?thesis using Process.hyps(2) True same_settingsD(4)
      by (fastforce simp: begin_update_def only_blocks_def)
  next
    case False
    then have "S' = S" using Process.hyps(2) by (auto simp: begin_update_def)
    then show ?thesis by simp
  qed
next
  case (Evict ids S K)
  have "kv_ok (fenced_refs (deferred_frees S)) (kv S)" using Evict.prems by (simp add: sched_inv_def)
  then show ?case using evict_keeps[OF _ Evict.hyps] same_settingsD(4) by fastforce
next
  case (Reset S ok K)
  have "kv_ok (fenced_refs (deferred_frees S)) (kv S)" using Reset.prems by (simp add: sched_inv_def)
  then show ?case using reset_keeps[OF _ Reset.hyps] same_settingsD(4) by fastforce
next
  case (NewIds S ids K)
  have "kv_ok (fenced_refs (deferred_frees S)) (kv S)" using NewIds.prems by (simp add: sched_inv_def)
  then show ?case using new_ids_keeps[OF _ NewIds.hyps] same_settingsD(4) by fastforce
qed simp_all

lemma block_steps_config:
  "block_steps S S' \<Longrightarrow> sched_inv S \<Longrightarrow> same_config (pool (kv S)) (pool (kv S'))"
proof (induction rule: rtranclp_induct)
  case (step T U)
  then show ?case using block_step_config[OF step.hyps(2)] block_steps_inv[OF step.hyps(1)] same_config_trans by blast
qed simp



section \<open>No leaks\<close>



section \<open>Events for reused blocks\<close>



end
