(* ===== verification/KvViews.thy ===== *)
theory KvViews imports KvCoord "HOL-Library.Sublist"
begin

text \<open>
  The remaining operations of \<open>KVCacheManager\<close> (\<^verbatim>\<open>vllm/v1/core/kv_cache_manager.py\<close>) that touch
  the block tables: collecting and recording the blocks a worker has to zero, and the cut views of
  block lists handed to the connectors. Offsets into the tables are not negative.
\<close>

section \<open>Operations\<close>

subsection \<open>Blocks to zero\<close>

text \<open>\<open>req_to_blocks\<close> is read by subscript here, so a manager may gain an empty entry.\<close>

fun zeroing_ids :: "string \<Rightarrow> int \<Rightarrow> int \<Rightarrow> kv_manager list \<Rightarrow> nat list \<times> kv_manager list" where
  "zeroing_ids rid start stop [] = ([], [])"
| "zeroing_ids rid start stop (m # ms) =
     (let m' = (if record_new_block_ids m then access rid m else m);
          ids = (if record_new_block_ids m
                 then py_slice (blocks_of m rid) (start div mgr_block_size m) (cdiv stop (mgr_block_size m))
                 else [])
      in case zeroing_ids rid start stop ms of (rest, ms) \<Rightarrow> (ids @ rest, m' # ms))"

definition get_zeroing_block_ids_in_range ::
    "string \<Rightarrow> int \<Rightarrow> int \<Rightarrow> kv_cache \<Rightarrow> nat list \<times> kv_cache" where
  "get_zeroing_block_ids_in_range rid start stop K =
     (case zeroing_ids rid start stop (managers K) of (ids, ms) \<Rightarrow> (ids, K\<lparr>managers := ms\<rparr>))"

definition mgr_record_for_zeroing ::
    "string \<Rightarrow> int \<Rightarrow> kv_manager \<Rightarrow> block_pool \<Rightarrow> (kv_manager \<times> block_pool) res" where
  "mgr_record_for_zeroing rid start m p =
     (if \<not> record_new_block_ids m then Inr (m, p)
      else bind_res (assert_res (start mod mgr_block_size m = 0) AssertionError) (\<lambda>_.
        let m = access rid m; bs = blocks_of m rid
        in Inr (m\<lparr>new_block_ids := new_block_ids m @
             py_slice bs (start div mgr_block_size m) (int (length bs))\<rparr>, p)))"

definition record_blocks_for_zeroing :: "string \<Rightarrow> int \<Rightarrow> kv_cache \<Rightarrow> kv_cache res" where
  "record_blocks_for_zeroing rid start K =
     bind_res (on_managers (no_result (\<lambda>_. mgr_record_for_zeroing rid start)) (managers K) K) (\<lambda>(_, K). Inr K)"

subsection \<open>Views of the block lists\<close>

text \<open>\<open>zip (strict)\<close> over groups and managers raises \<open>ValueError\<close> when the lengths differ.\<close>

fun truncate_loop :: "int \<Rightarrow> nat list list \<Rightarrow> kv_manager list \<Rightarrow> nat list list res" where
  "truncate_loop n [] [] = Inr []"
| "truncate_loop n (bs # bss) (m # ms) =
     bind_res
       (if \<not> prefix_cacheable m then bind_res (assert_res (bs = []) AssertionError) (\<lambda>_. Inr [])
        else bind_res (assert_res (n mod mgr_block_size m = 0) AssertionError) (\<lambda>_.
             bind_res (assert_res (n div mgr_block_size m \<le> int (length bs)) AssertionError) (\<lambda>_.
               Inr (py_slice bs 0 (n div mgr_block_size m))))) (\<lambda>g.
     bind_res (truncate_loop n bss ms) (\<lambda>gs. Inr (g # gs)))"
| "truncate_loop n bss ms = Inl ValueError"

definition truncate_computed_blocks :: "kv_blocks \<Rightarrow> int \<Rightarrow> kv_cache \<Rightarrow> kv_blocks res" where
  "truncate_computed_blocks blocks n K =
     bind_res (truncate_loop n (blocks_list K blocks) (managers K)) (\<lambda>bss. Inr (create_kv_cache_blocks bss))"

text \<open>\<open>spec_bs\<close> are the block sizes of the specs, before they are scaled by context parallelism.\<close>

definition get_block_ids_for_computed_tokens :: "string \<Rightarrow> int list \<Rightarrow> int \<Rightarrow> kv_cache \<Rightarrow> nat list list" where
  "get_block_ids_for_computed_tokens rid spec_bs n K =
     map (\<lambda>(m, b, ids). if mgr_kind m = CrossAttention then ids else py_slice ids 0 (cdiv n b))
       (zip (managers K) (zip spec_bs (coord_get_blocks rid K)))"

definition get_unhashed_block_ids_all_groups :: "kv_blocks \<Rightarrow> kv_cache \<Rightarrow> nat list list" where
  "get_unhashed_block_ids_all_groups blocks K =
     map (filter (\<lambda>b. block_hash (blk (pool K) b) = None \<and> \<not> is_null (blk (pool K) b))) (blocks_list K blocks)"

section \<open>What they return\<close>

text \<open>A cut view is a prefix of the lookup result that covers the endpoint exactly.\<close>

lemma truncate_loop_prefix:
  assumes "truncate_loop n bss ms = Inr gs" "0 \<le> n" "\<And>m. m \<in> set ms \<Longrightarrow> 0 < mgr_block_size m"
  shows "length gs = length ms \<and> length bss = length ms \<and> (\<forall>i < length ms. prefix (gs ! i) (bss ! i) \<and>
    (prefix_cacheable (ms ! i) \<longrightarrow> int (length (gs ! i)) * mgr_block_size (ms ! i) = n))"
  using assms
proof (induction n bss ms arbitrary: gs rule: truncate_loop.induct)
  case (2 n bs bss m ms)
  from 2(2) obtain g gs' where g: "gs = g # gs'" "truncate_loop n bss ms = Inr gs'"
    "if prefix_cacheable m then n mod mgr_block_size m = 0 \<and> n div mgr_block_size m \<le> int (length bs) \<and>
       g = py_slice bs 0 (n div mgr_block_size m) else g = []"
    by (auto simp: bind_res_eq_Inr assert_res_def split: if_splits)
  have k: "0 < mgr_block_size m" using 2(4)[of m] by simp
  then have nn: "0 \<le> n div mgr_block_size m" using 2(3) by (simp add: pos_imp_zdiv_nonneg_iff)
  have first: "prefix g bs \<and> (prefix_cacheable m \<longrightarrow> int (length g) * mgr_block_size m = n)"
  proof (cases "prefix_cacheable m")
    case True
    then have d: "n mod mgr_block_size m = 0" "n div mgr_block_size m \<le> int (length bs)"
      "g = take (nat (n div mgr_block_size m)) bs" using g(3) nn by (simp_all add: py_slice_nonneg)
    then have "int (length g) = n div mgr_block_size m" using nn by simp
    then show ?thesis using d by (auto simp: take_is_prefix minus_mod_eq_div_mult[symmetric])
  qed (use g(3) in simp)
  from g(3) 2(2) g(1,2) obtain a where "(if \<not> prefix_cacheable m then bind_res (assert_res (bs = []) AssertionError) (\<lambda>_. Inr [])
     else bind_res (assert_res (n mod mgr_block_size m = 0) AssertionError) (\<lambda>_.
          bind_res (assert_res (n div mgr_block_size m \<le> int (length bs)) AssertionError) (\<lambda>_.
            Inr (py_slice bs 0 (n div mgr_block_size m))))) = Inr a"
    by (auto simp: bind_res_eq_Inr)
  from 2(1)[OF this g(2) 2(3)] show ?case using 2(4) g(1) first by (auto simp: nth_Cons split: nat.splits)
qed simp_all

text \<open>Recording blocks for zeroing touches neither the pool nor any request's blocks.\<close>

lemma mgr_record_keeps_blocks:
  "mgr_record_for_zeroing rid start m p = Inr (m', p') \<Longrightarrow> p' = p \<and> blocks_of m' q = blocks_of m q"
  by (auto simp: mgr_record_for_zeroing_def bind_res_eq_Inr assert_res_def Let_def access_def put_blocks_def
      blocks_of_def update_conv' split: if_splits)

lemma no_result_iff: "no_result f a m p = Inr (u, m', p') \<longleftrightarrow> f a m p = Inr (m', p')"
  by (auto simp: no_result_def bind_res_eq_Inr)

lemma each_record_keeps_blocks:
  "each_manager (no_result (\<lambda>_. mgr_record_for_zeroing rid start)) as ms p = Inr (xs, ms', p') \<Longrightarrow>
    p' = p \<and> map (\<lambda>m. blocks_of m q) ms' = map (\<lambda>m. blocks_of m q) ms"
proof (induction ms arbitrary: as p xs ms' p')
  case (Cons m ms)
  then obtain m1 p1 ms1 xs1 where s: "mgr_record_for_zeroing rid start m p = Inr (m1, p1)" "ms' = m1 # ms1"
    "each_manager (no_result (\<lambda>_. mgr_record_for_zeroing rid start)) (drop 1 as) ms p1 = Inr (xs1, ms1, p')"
    by (auto simp: no_result_iff bind_res_eq_Inr)
  then show ?case using Cons.IH[OF s(3)] mgr_record_keeps_blocks[OF s(1), of q] by simp
qed simp

lemma record_keeps_blocks:
  "record_blocks_for_zeroing rid start K = Inr K' \<Longrightarrow>
    pool K' = pool K \<and> map (\<lambda>m. blocks_of m q) (managers K') = map (\<lambda>m. blocks_of m q) (managers K)"
  by (auto simp: record_blocks_for_zeroing_def on_managers_def bind_res_eq_Inr dest: each_record_keeps_blocks[of _ _ _ _ _ _ _ _ q])

end
