(* ===== verification/EncoderCache.thy ===== *)
theory EncoderCache imports RequestModel
begin

text \<open>
  The encoder cache of \<^verbatim>\<open>vllm/v1/core/encoder_cache_manager.py\<close>: \<open>EncoderCacheManager\<close>, which
  shares encoder outputs between requests by content hash and evicts unreferenced entries,
  oldest first, when room is needed; \<open>EncoderDecoderCacheManager\<close>, which only counts; and the
  budget computation.

  An input is the pair of a request and an index into its multimodal features. A Python set
  that is iterated over comes with the listing \<open>order\<close> the iteration happens to use.
\<close>

section \<open>\<open>EncoderCacheManager\<close>\<close>

record enc_cache =
  ec_cache_size :: int
  num_free_slots :: int
  num_freeable_slots :: int
  cached :: "string \<rightharpoonup> string set"
  num_embeds_by_hash :: "string \<rightharpoonup> int"
  request_cached_ids :: "string \<rightharpoonup> nat set"
  freeable :: "(string \<times> int) list"
  freed :: "string list"

definition new_enc_cache :: "int \<Rightarrow> enc_cache" where
  "new_enc_cache n = \<lparr>ec_cache_size = n, num_free_slots = n, num_freeable_slots = n,
     cached = (\<lambda>_. None), num_embeds_by_hash = (\<lambda>_. None), request_cached_ids = (\<lambda>_. None),
     freeable = [], freed = []\<rparr>"

definition reset_enc_cache :: "enc_cache \<Rightarrow> enc_cache" where
  "reset_enc_cache s = s\<lparr>cached := (\<lambda>_. None), num_embeds_by_hash := (\<lambda>_. None),
     request_cached_ids := (\<lambda>_. None), freeable := [], freed := [],
     num_free_slots := ec_cache_size s, num_freeable_slots := ec_cache_size s\<rparr>"

definition feature_hash :: "request \<Rightarrow> nat \<Rightarrow> string res" where
  "feature_hash r i =
     (if i < length (mm_features r) then Inr (mm_identifier (mm_features r ! i)) else Inl IndexError)"

definition cached_ids :: "enc_cache \<Rightarrow> string \<Rightarrow> nat set" where
  "cached_ids s rid = (case request_cached_ids s rid of None \<Rightarrow> {} | Some ids \<Rightarrow> ids)"

definition add_reference :: "request \<Rightarrow> nat \<Rightarrow> string \<Rightarrow> string set \<Rightarrow> enc_cache \<Rightarrow> enc_cache" where
  "add_reference r i h refs s =
     s\<lparr>cached := (cached s)(h \<mapsto> insert (request_id r) refs),
       request_cached_ids := (request_cached_ids s)(request_id r \<mapsto> insert i (cached_ids s (request_id r)))\<rparr>"

definition check_and_update_cache :: "request \<Rightarrow> nat \<Rightarrow> enc_cache \<Rightarrow> (bool \<times> enc_cache) res" where
  "check_and_update_cache r i s =
     bind_res (feature_hash r i) (\<lambda>h.
       case cached s h of
         None \<Rightarrow> Inr (False, s)
       | Some refs \<Rightarrow>
           bind_res (if refs = {}
                     then case map_of (freeable s) h of
                            None \<Rightarrow> Inl KeyError
                          | Some n \<Rightarrow> Inr (s\<lparr>freeable := filter (\<lambda>p. fst p \<noteq> h) (freeable s),
                                           num_freeable_slots := num_freeable_slots s - n\<rparr>)
                     else Inr s) (\<lambda>s.
             Inr (True, add_reference r i h refs s)))"

definition get_cached_num_encoder_embeds :: "request \<Rightarrow> nat \<Rightarrow> enc_cache \<Rightarrow> int option res" where
  "get_cached_num_encoder_embeds r i s =
     bind_res (feature_hash r i) (\<lambda>h. Inr (num_embeds_by_hash s h))"

text \<open>The eviction loop: \<^verbatim>\<open>popitem\<close> and \<^verbatim>\<open>del\<close> raise on what is not there.\<close>

definition evict_oldest :: "enc_cache \<Rightarrow> enc_cache res" where
  "evict_oldest s =
     (case freeable s of
        [] \<Rightarrow> Inl KeyError
      | (h, n) # rest \<Rightarrow>
          if cached s h = None \<or> num_embeds_by_hash s h = None then Inl KeyError
          else Inr (s\<lparr>freeable := rest, cached := (cached s)(h := None),
                     num_embeds_by_hash := (num_embeds_by_hash s)(h := None),
                     freed := freed s @ [h], num_free_slots := num_free_slots s + n\<rparr>))"

lemma evict_oldest_shrinks: "evict_oldest s = Inr s' \<Longrightarrow> length (freeable s') < length (freeable s)"
  by (auto simp: evict_oldest_def split: list.splits if_splits)

function evict_until :: "int \<Rightarrow> enc_cache \<Rightarrow> enc_cache res" where
  "evict_until need s =
     (if need > num_free_slots s then bind_res (evict_oldest s) (evict_until need) else Inr s)"
  by pat_completeness auto
termination
  by (relation "measure (\<lambda>(need, s). length (freeable s))") (auto dest: evict_oldest_shrinks)

declare evict_until.simps [simp del]

definition can_allocate :: "request \<Rightarrow> nat \<Rightarrow> int \<Rightarrow> int \<Rightarrow> enc_cache \<Rightarrow> (bool \<times> enc_cache) res" where
  "can_allocate r i budget already s =
     bind_res (get_num_encoder_embeds r i) (\<lambda>n.
       if n > budget then Inr (False, s)
       else let n = n + already
            in if n \<le> num_free_slots s then Inr (True, s)
               else if n > num_freeable_slots s then Inr (False, s)
               else bind_res (evict_until n s) (\<lambda>s. Inr (True, s)))"

definition allocate :: "request \<Rightarrow> nat \<Rightarrow> enc_cache \<Rightarrow> enc_cache res" where
  "allocate r i s =
     bind_res (feature_hash r i) (\<lambda>h.
       let refs = (case cached s h of None \<Rightarrow> {} | Some refs \<Rightarrow> refs);
           s = s\<lparr>cached := (cached s)(h \<mapsto> refs)\<rparr>
       in bind_res (get_num_encoder_embeds r i) (\<lambda>n.
            let m = (case num_embeds_by_hash s h of None \<Rightarrow> n | Some m \<Rightarrow> m);
                s = s\<lparr>num_embeds_by_hash := (num_embeds_by_hash s)(h \<mapsto> m)\<rparr>
            in if m \<noteq> n \<or> num_free_slots s < n \<or> num_freeable_slots s < n then Inl AssertionError
               else Inr ((add_reference r i h refs s)\<lparr>num_free_slots := num_free_slots s - n,
                           num_freeable_slots := num_freeable_slots s - n\<rparr>)))"

definition get_cached_input_ids :: "request \<Rightarrow> enc_cache \<Rightarrow> nat set" where
  "get_cached_input_ids r s = cached_ids s (request_id r)"

definition od_set :: "string \<Rightarrow> int \<Rightarrow> (string \<times> int) list \<Rightarrow> (string \<times> int) list" where
  "od_set h n xs =
     (if h \<in> fst ` set xs then map (\<lambda>p. if fst p = h then (h, n) else p) xs else xs @ [(h, n)])"

definition drop_cached_id :: "request \<Rightarrow> nat \<Rightarrow> enc_cache \<Rightarrow> enc_cache" where
  "drop_cached_id r i s =
     (case request_cached_ids s (request_id r) of
        None \<Rightarrow> s
      | Some ids \<Rightarrow> s\<lparr>request_cached_ids := (request_cached_ids s)(request_id r :=
                        (if ids - {i} = {} then None else Some (ids - {i})))\<rparr>)"

definition free_encoder_input :: "request \<Rightarrow> nat \<Rightarrow> enc_cache \<Rightarrow> enc_cache res" where
  "free_encoder_input r i s =
     bind_res (feature_hash r i) (\<lambda>h.
       let s = drop_cached_id r i s
       in case cached s h of
            None \<Rightarrow> Inr s
          | Some refs \<Rightarrow>
              if refs = {} \<or> (\<exists>j \<in> cached_ids s (request_id r). feature_hash r j = Inr h) then Inr s
              else (let refs = refs - {request_id r}; s = s\<lparr>cached := (cached s)(h \<mapsto> refs)\<rparr>
                    in if refs \<noteq> {} then Inr s
                       else case num_embeds_by_hash s h of
                              None \<Rightarrow> Inl KeyError
                            | Some n \<Rightarrow> Inr (s\<lparr>freeable := od_set h n (freeable s),
                                             num_freeable_slots := num_freeable_slots s + n\<rparr>)))"

definition free_request :: "request \<Rightarrow> nat list \<Rightarrow> enc_cache \<Rightarrow> enc_cache res" where
  "free_request r order s = fold_res (free_encoder_input r) order s"

definition get_freed_mm_hashes :: "enc_cache \<Rightarrow> string list \<times> enc_cache" where
  "get_freed_mm_hashes s = (filter (\<lambda>h. cached s h = None) (freed s), s\<lparr>freed := []\<rparr>)"

section \<open>The budget\<close>

definition compute_mm_encoder_budget ::
    "bool \<Rightarrow> int \<Rightarrow> int \<Rightarrow> int \<Rightarrow> (string \<times> int) list \<Rightarrow> (int \<times> int) res" where
  "compute_mm_encoder_budget disable_chunked max_batched max_encoder_input cache_size max_toks =
     (if max_toks = [] then Inr (0, 0)
      else let m = Max (set (map snd max_toks))
           in if disable_chunked \<and> m > max_batched then Inl ValueError
              else Inr (max max_encoder_input m, max cache_size m))"

section \<open>\<open>EncoderDecoderCacheManager\<close>\<close>

record encdec_cache =
  ed_cache_size :: int
  ed_num_free_slots :: int
  ed_allocated :: "string list"
  ed_to_free :: "string list"

definition new_encdec_cache :: "int \<Rightarrow> encdec_cache" where
  "new_encdec_cache n = \<lparr>ed_cache_size = n, ed_num_free_slots = n, ed_allocated = [], ed_to_free = []\<rparr>"

definition ed_reset :: "encdec_cache \<Rightarrow> encdec_cache" where
  "ed_reset s = s\<lparr>ed_num_free_slots := ed_cache_size s, ed_allocated := [], ed_to_free := []\<rparr>"

definition ed_check_and_update_cache :: "request \<Rightarrow> nat \<Rightarrow> encdec_cache \<Rightarrow> (bool \<times> encdec_cache) res" where
  "ed_check_and_update_cache r i s = Inr (False, s)"

definition ed_can_allocate :: "request \<Rightarrow> nat \<Rightarrow> int \<Rightarrow> int \<Rightarrow> encdec_cache \<Rightarrow> (bool \<times> encdec_cache) res" where
  "ed_can_allocate r i budget already s =
     bind_res (get_num_encoder_embeds r i) (\<lambda>n.
       if n > budget then Inr (False, s) else Inr (n + already \<le> ed_num_free_slots s, s))"

definition ed_allocate :: "request \<Rightarrow> nat \<Rightarrow> encdec_cache \<Rightarrow> encdec_cache res" where
  "ed_allocate r i s =
     bind_res (get_num_encoder_embeds r i) (\<lambda>n.
       let s = s\<lparr>ed_num_free_slots := ed_num_free_slots s - n\<rparr>
       in bind_res (feature_hash r i) (\<lambda>h. Inr (s\<lparr>ed_allocated := ed_allocated s @ [h]\<rparr>)))"

definition ed_free_encoder_input :: "request \<Rightarrow> nat \<Rightarrow> encdec_cache \<Rightarrow> encdec_cache res" where
  "ed_free_encoder_input r i s =
     bind_res (get_num_encoder_embeds r i) (\<lambda>n.
       Inr (s\<lparr>ed_num_free_slots := ed_num_free_slots s + n\<rparr>))"

definition ed_free_request :: "request \<Rightarrow> encdec_cache \<Rightarrow> encdec_cache res" where
  "ed_free_request r s = fold_res (ed_free_encoder_input r) [0..<length (mm_features r)] s"

definition ed_get_cached_input_ids :: "request \<Rightarrow> encdec_cache \<Rightarrow> nat set" where
  "ed_get_cached_input_ids r s = {0..<length (mm_features r)}"

definition ed_get_freed_mm_hashes :: "encdec_cache \<Rightarrow> string list \<times> encdec_cache" where
  "ed_get_freed_mm_hashes s = (ed_to_free s, s\<lparr>ed_to_free := ed_allocated s, ed_allocated := []\<rparr>)"

end
