(* ===== verification/EncoderInv.thy ===== *)
theory EncoderInv imports EncoderCache
begin

text \<open>
  The accounting of the encoder cache: the slots in use are those of the entries held, the
  reclaimable ones those of the entries no request refers to, and the references are exactly
  the inputs the requests hold. \<open>F\<close> gives the features of each request by its id.
\<close>

section \<open>The invariant\<close>

type_synonym features = "string \<Rightarrow> mm_feature list"

definition hash_at :: "features \<Rightarrow> string \<Rightarrow> nat \<Rightarrow> string" where
  "hash_at F rid i = mm_identifier (F rid ! i)"

definition features_of :: "features \<Rightarrow> request \<Rightarrow> bool" where
  "features_of F r \<longleftrightarrow> mm_features r = F (request_id r) \<and> (\<forall>f \<in> set (mm_features r). 0 \<le> get_num_embeds f)"

definition entry_size :: "enc_cache \<Rightarrow> string \<Rightarrow> int" where
  "entry_size s h = (case num_embeds_by_hash s h of None \<Rightarrow> 0 | Some n \<Rightarrow> n)"

definition slots_ok :: "enc_cache \<Rightarrow> bool" where
  "slots_ok s \<longleftrightarrow> finite (dom (cached s)) \<and> dom (num_embeds_by_hash s) = dom (cached s)
     \<and> (\<forall>h n. num_embeds_by_hash s h = Some n \<longrightarrow> 0 \<le> n)
     \<and> num_free_slots s = ec_cache_size s - (\<Sum>h \<in> dom (cached s). entry_size s h)
     \<and> num_freeable_slots s = num_free_slots s + sum_list (map snd (freeable s))
     \<and> 0 \<le> num_free_slots s"

definition freeable_ok :: "enc_cache \<Rightarrow> bool" where
  "freeable_ok s \<longleftrightarrow> distinct (map fst (freeable s))
     \<and> (\<forall>h. h \<in> fst ` set (freeable s) \<longleftrightarrow> cached s h = Some {})
     \<and> (\<forall>(h, n) \<in> set (freeable s). num_embeds_by_hash s h = Some n)"

definition references_ok :: "features \<Rightarrow> enc_cache \<Rightarrow> bool" where
  "references_ok F s \<longleftrightarrow>
     (\<forall>h refs. cached s h = Some refs \<longrightarrow>
        (\<forall>rid. rid \<in> refs \<longleftrightarrow> (\<exists>i \<in> cached_ids s rid. hash_at F rid i = h)))
     \<and> (\<forall>rid. request_cached_ids s rid \<noteq> Some {}
          \<and> (\<forall>i \<in> cached_ids s rid. i < length (F rid) \<and> hash_at F rid i \<in> dom (cached s)))"

definition enc_inv :: "features \<Rightarrow> enc_cache \<Rightarrow> bool" where
  "enc_inv F s \<longleftrightarrow> slots_ok s \<and> freeable_ok s \<and> references_ok F s"

lemma enc_invD:
  assumes "enc_inv F s"
  shows "slots_ok s" "freeable_ok s" "references_ok F s"
  using assms by (simp_all add: enc_inv_def)

lemma new_enc_cache_inv: "0 \<le> n \<Longrightarrow> enc_inv F (new_enc_cache n)"
  by (simp add: enc_inv_def slots_ok_def freeable_ok_def references_ok_def new_enc_cache_def cached_ids_def)

lemma reset_enc_cache_inv: "0 \<le> ec_cache_size s \<Longrightarrow> enc_inv F (reset_enc_cache s)"
  by (simp add: enc_inv_def slots_ok_def freeable_ok_def references_ok_def reset_enc_cache_def cached_ids_def)

lemma feature_lookup:
  assumes "features_of F r" "i < length (mm_features r)"
  shows "feature_hash r i = Inr (hash_at F (request_id r) i)"
    "get_num_encoder_embeds r i = Inr (get_num_embeds (mm_features r ! i))"
    "0 \<le> get_num_embeds (mm_features r ! i)"
  using assms by (simp_all add: feature_hash_def hash_at_def features_of_def get_num_encoder_embeds_def)

lemma freeable_bounds:
  assumes "slots_ok s" "freeable_ok s"
  shows "\<forall>n \<in> set (map snd (freeable s)). 0 \<le> n" "num_free_slots s \<le> num_freeable_slots s"
proof -
  show n: "\<forall>n \<in> set (map snd (freeable s)). 0 \<le> n"
    using assms by (fastforce simp: slots_ok_def freeable_ok_def)
  then have "0 \<le> sum_list (map snd (freeable s))" by (intro sum_list_nonneg) blast
  then show "num_free_slots s \<le> num_freeable_slots s" using assms(1) by (simp add: slots_ok_def)
qed

section \<open>Adding a reference\<close>

lemma cached_ids_add:
  "cached_ids (add_reference r i h refs s) rid
     = (if rid = request_id r then insert i (cached_ids s rid) else cached_ids s rid)"
  by (simp add: cached_ids_def add_reference_def)

lemma add_reference_sel:
  "cached (add_reference r i h refs s) = (cached s)(h \<mapsto> insert (request_id r) refs)"
  "num_embeds_by_hash (add_reference r i h refs s) = num_embeds_by_hash s"
  "num_free_slots (add_reference r i h refs s) = num_free_slots s"
  "num_freeable_slots (add_reference r i h refs s) = num_freeable_slots s"
  "freeable (add_reference r i h refs s) = freeable s" "freed (add_reference r i h refs s) = freed s"
  "ec_cache_size (add_reference r i h refs s) = ec_cache_size s"
  by (simp_all add: add_reference_def)

lemma references_add:
  assumes "references_ok F s" "cached s h = Some refs \<or> (cached s h = None \<and> refs = {})"
    and "i < length (F (request_id r))" "h = hash_at F (request_id r) i"
  shows "references_ok F (add_reference r i h refs s)"
proof -
  have none: "hash_at F rid j \<noteq> h" if "cached s h = None" "j \<in> cached_ids s rid" for rid j
    using assms(1) that by (auto simp: references_ok_def)
  have "rid \<in> refs \<longleftrightarrow> (\<exists>j \<in> cached_ids s rid. hash_at F rid j = h)" for rid
    using assms(1,2) none by (auto simp: references_ok_def)
  moreover have "request_cached_ids (add_reference r i h refs s) rid \<noteq> Some {}" for rid
    using assms(1) by (simp add: add_reference_def references_ok_def)
  ultimately show ?thesis
    using assms(1,3,4) by (auto simp: references_ok_def add_reference_sel cached_ids_add split: if_splits)
qed

section \<open>A cache hit\<close>

lemma filter_key:
  assumes "distinct (map fst xs)" "map_of xs h = Some (n :: int)"
  shows "sum_list (map snd (filter (\<lambda>p. fst p \<noteq> h) xs)) = sum_list (map snd xs) - n"
    "distinct (map fst (filter (\<lambda>p. fst p \<noteq> h) xs))"
    "fst ` set (filter (\<lambda>p. fst p \<noteq> h) xs) = fst ` set xs - {h}"
proof -
  show "distinct (map fst (filter (\<lambda>p. fst p \<noteq> h) xs))"
    using assms(1) by (induction xs) auto
  show "fst ` set (filter (\<lambda>p. fst p \<noteq> h) xs) = fst ` set xs - {h}" by auto
  show "sum_list (map snd (filter (\<lambda>p. fst p \<noteq> h) xs)) = sum_list (map snd xs) - n"
    using assms
  proof (induction xs)
    case (Cons x xs)
    have "filter (\<lambda>p. fst p \<noteq> fst x) xs = xs" using Cons.prems(1) by (intro filter_True) (auto simp: image_iff)
    then show ?case using Cons by (auto split: if_splits)
  qed simp
qed

lemma slots_reference:
  assumes "slots_ok s" "h \<in> dom (cached s)"
  shows "slots_ok (add_reference r i h refs s)"
  using assms by (simp add: slots_ok_def add_reference_sel insert_absorb entry_size_def)

lemma check_hit:
  assumes I: "enc_inv F s" and r: "features_of F r" "i < length (mm_features r)"
    and hit: "hash_at F (request_id r) i \<in> dom (cached s)"
  shows "\<exists>s'. check_and_update_cache r i s = Inr (True, s') \<and> enc_inv F s'
    \<and> num_free_slots s' = num_free_slots s \<and> dom (cached s') = dom (cached s) \<and> freed s' = freed s
    \<and> (\<forall>rid. cached_ids s' rid = (if rid = request_id r then insert i (cached_ids s rid) else cached_ids s rid))"
proof -
  let ?h = "hash_at F (request_id r) i"
  note inv = enc_invD[OF I] and h = feature_lookup(1)[OF r]
  obtain refs where refs: "cached s ?h = Some refs" using hit by blast
  define s1 where "s1 = (if refs = {} then
      s\<lparr>freeable := filter (\<lambda>p. fst p \<noteq> ?h) (freeable s),
        num_freeable_slots := num_freeable_slots s - the (map_of (freeable s) ?h)\<rparr> else s)"
  have same: "cached s1 = cached s" "num_embeds_by_hash s1 = num_embeds_by_hash s"
      "request_cached_ids s1 = request_cached_ids s" "num_free_slots s1 = num_free_slots s"
      "ec_cache_size s1 = ec_cache_size s" "freed s1 = freed s"
    by (simp_all add: s1_def)
  have found: "map_of (freeable s) ?h \<noteq> None" if "refs = {}"
    using inv(2) refs that by (auto simp: freeable_ok_def map_of_eq_None_iff)
  have free1: "slots_ok s1 \<and> distinct (map fst (freeable s1))
      \<and> fst ` set (freeable s1) = fst ` set (freeable s) - {?h} \<and> set (freeable s1) \<subseteq> set (freeable s)"
  proof (cases "refs = {}")
    case True
    then obtain n where n: "map_of (freeable s) ?h = Some n" using found by auto
    have d: "distinct (map fst (freeable s))" using inv(2) by (simp add: freeable_ok_def)
    show ?thesis using True inv(1) filter_key[OF d n] n
      by (auto simp: s1_def slots_ok_def entry_size_def)
  next
    case False
    then have "?h \<notin> fst ` set (freeable s)" using inv(2) refs by (simp add: freeable_ok_def)
    then show ?thesis using False inv by (auto simp: s1_def freeable_ok_def)
  qed
  have refs1: "references_ok F s1" using inv(3) by (simp add: references_ok_def same cached_ids_def)
  let ?s' = "add_reference r i ?h refs s1"
  have "check_and_update_cache r i s = Inr (True, ?s')"
    using refs found h by (auto simp: check_and_update_cache_def s1_def)
  moreover have "references_ok F ?s'"
    using r refs by (intro references_add[OF refs1]) (simp_all add: same features_of_def)
  moreover have "slots_ok ?s'"
    using free1 refs by (intro slots_reference) (auto simp: same)
  moreover have "freeable_ok ?s'"
    using inv(2) free1 by (auto simp: freeable_ok_def add_reference_sel same)
  moreover have "dom (cached ?s') = dom (cached s)" using hit by (auto simp: add_reference_sel same)
  moreover have "cached_ids s1 = cached_ids s" by (intro ext) (simp add: cached_ids_def same)
  then have "\<forall>rid. cached_ids ?s' rid = (if rid = request_id r then insert i (cached_ids s rid) else cached_ids s rid)"
    by (simp add: cached_ids_add)
  ultimately show ?thesis by (auto simp: enc_inv_def add_reference_sel same)
qed

lemma check_miss:
  assumes "features_of F r" "i < length (mm_features r)" "hash_at F (request_id r) i \<notin> dom (cached s)"
  shows "check_and_update_cache r i s = Inr (False, s)"
  using assms feature_lookup(1)[OF assms(1,2)] by (auto simp: check_and_update_cache_def domIff)

section \<open>Eviction\<close>

definition without_oldest :: "string \<Rightarrow> int \<Rightarrow> enc_cache \<Rightarrow> enc_cache" where
  "without_oldest h n s = s\<lparr>freeable := tl (freeable s), cached := (cached s)(h := None),
      num_embeds_by_hash := (num_embeds_by_hash s)(h := None),
      freed := freed s @ [h], num_free_slots := num_free_slots s + n\<rparr>"

lemma evict_oldest_ok:
  assumes I: "enc_inv F s" and f: "freeable s = (h, n) # rest"
  shows "evict_oldest s = Inr (without_oldest h n s)" and "enc_inv F (without_oldest h n s)" and "0 \<le> n"
proof -
  let ?s' = "without_oldest h n s"
  note inv = enc_invD[OF I]
  have h: "cached s h = Some {}" "num_embeds_by_hash s h = Some n"
    using inv(2) f by (auto simp: freeable_ok_def)
  then show "evict_oldest s = Inr ?s'" by (simp add: evict_oldest_def f without_oldest_def)
  show n: "0 \<le> n" using inv(1) h by (auto simp: slots_ok_def)
  have fin: "finite (dom (cached s))" "h \<in> dom (cached s)" using inv(1) h by (auto simp: slots_ok_def)
  have unref: "hash_at F rid i \<noteq> h" if "i \<in> cached_ids s rid" for rid i
    using inv(3) h(1) that unfolding references_ok_def by blast
  have "references_ok F ?s'"
    using inv(3) unref unfolding references_ok_def cached_ids_def without_oldest_def
    by (simp split: option.splits if_splits)
  moreover have "freeable_ok ?s'"
    using inv(2) f by (force simp: freeable_ok_def without_oldest_def)
  moreover have "(\<Sum>k \<in> dom (cached s). entry_size s k) = n + (\<Sum>k \<in> dom (cached s) - {h}. entry_size s k)"
    using sum.remove[OF fin, of "entry_size s"] h(2) by (simp add: entry_size_def)
  moreover have "(\<Sum>k \<in> dom (cached s) - {h}. entry_size ?s' k) = (\<Sum>k \<in> dom (cached s) - {h}. entry_size s k)"
    by (intro sum.cong) (simp_all add: entry_size_def without_oldest_def)
  ultimately show "enc_inv F ?s'"
    using inv(1) n f by (auto simp: enc_inv_def slots_ok_def without_oldest_def)
qed

text \<open>Eviction stops as soon as there is room: it takes a shortest sufficient prefix of the oldest entries.\<close>

lemma evict_until_ok:
  assumes "enc_inv F s" "need \<le> num_freeable_slots s"
  shows "\<exists>s' k. evict_until need s = Inr s' \<and> enc_inv F s' \<and> need \<le> num_free_slots s'
    \<and> num_free_slots s \<le> num_free_slots s' \<and> num_freeable_slots s' = num_freeable_slots s
    \<and> k \<le> length (freeable s) \<and> freeable s' = drop k (freeable s)
    \<and> freed s' = freed s @ map fst (take k (freeable s))
    \<and> cached s' = cached s |` (- fst ` set (take k (freeable s)))
    \<and> request_cached_ids s' = request_cached_ids s
    \<and> (\<forall>j < k. num_free_slots s + sum_list (map snd (take j (freeable s))) < need)"
  using assms
proof (induction need s rule: evict_until.induct)
  case (1 need s)
  show ?case
  proof (cases "need > num_free_slots s")
    case False
    then show ?thesis using 1 by (intro exI[of _ s] exI[of _ 0]) (simp add: evict_until.simps)
  next
    case True
    note inv = enc_invD[OF 1(2)]
    have "sum_list (map snd (freeable s)) \<noteq> 0"
      using True 1(3) inv(1) by (simp add: slots_ok_def)
    then obtain h n rest where f: "freeable s = (h, n) # rest" by (cases "freeable s") auto
    note ev = evict_oldest_ok[OF 1(2) f]
    let ?s1 = "without_oldest h n s"
    have "need \<le> num_freeable_slots ?s1" using 1(3) by (simp add: without_oldest_def)
    from 1(1)[OF True ev(1,2) this] obtain s' k where
      s': "evict_until need ?s1 = Inr s'" "enc_inv F s'" "need \<le> num_free_slots s'"
        "num_free_slots ?s1 \<le> num_free_slots s'" "num_freeable_slots s' = num_freeable_slots ?s1"
        "k \<le> length (freeable ?s1)" "freeable s' = drop k (freeable ?s1)"
        "freed s' = freed ?s1 @ map fst (take k (freeable ?s1))"
        "cached s' = cached ?s1 |` (- fst ` set (take k (freeable ?s1)))"
        "request_cached_ids s' = request_cached_ids ?s1"
        "\<forall>j < k. num_free_slots ?s1 + sum_list (map snd (take j (freeable ?s1))) < need" by blast
    have "num_free_slots s + sum_list (map snd (take j (freeable s))) < need" if "j < Suc k" for j
      using that True s'(11) f by (cases j) (auto simp: without_oldest_def algebra_simps)
    moreover have "cached s' = cached s |` (- fst ` set (take (Suc k) (freeable s)))"
      using s'(9) f by (auto simp: without_oldest_def restrict_map_def)
    ultimately show ?thesis
      using s' ev f True by (intro exI[of _ s'] exI[of _ "Suc k"])
        (auto simp: evict_until.simps[of need s] without_oldest_def)
  qed
qed

lemma can_allocate_ok:
  assumes I: "enc_inv F s" and r: "features_of F r" "i < length (mm_features r)"
  shows "\<exists>b s'. can_allocate r i budget already s = Inr (b, s') \<and> enc_inv F s'
    \<and> (b \<longleftrightarrow> get_num_embeds (mm_features r ! i) \<le> budget
           \<and> get_num_embeds (mm_features r ! i) + already \<le> num_freeable_slots s)
    \<and> (b \<longrightarrow> get_num_embeds (mm_features r ! i) + already \<le> num_free_slots s')
    \<and> num_free_slots s \<le> num_free_slots s' \<and> num_freeable_slots s' = num_freeable_slots s
    \<and> request_cached_ids s' = request_cached_ids s
    \<and> (\<exists>k \<le> length (freeable s). freeable s' = drop k (freeable s)
         \<and> freed s' = freed s @ map fst (take k (freeable s))
         \<and> cached s' = cached s |` (- fst ` set (take k (freeable s)))
         \<and> (\<forall>j < k. num_free_slots s + sum_list (map snd (take j (freeable s)))
                < get_num_embeds (mm_features r ! i) + already))"
proof -
  note n = feature_lookup(2)[OF r]
  let ?n = "get_num_embeds (mm_features r ! i)"
  have le: "num_free_slots s \<le> num_freeable_slots s" using freeable_bounds(2) enc_invD[OF I] by blast
  have stay: ?thesis if "can_allocate r i budget already s = Inr (b, s)"
      "b \<longleftrightarrow> ?n \<le> budget \<and> ?n + already \<le> num_freeable_slots s" "b \<longrightarrow> ?n + already \<le> num_free_slots s" for b
    using that I by (intro exI[of _ b] exI[of _ s] conjI exI[of _ "0 :: nat"])
      (simp_all add: restrict_map_def)
  consider "budget < ?n" | "?n \<le> budget" "?n + already \<le> num_free_slots s"
    | "?n \<le> budget" "num_free_slots s < ?n + already" "num_freeable_slots s < ?n + already"
    | "?n \<le> budget" "num_free_slots s < ?n + already" "?n + already \<le> num_freeable_slots s"
    by linarith
  then show ?thesis
  proof cases
    case 1
    then show ?thesis using n by (intro stay[of False]) (simp_all add: can_allocate_def)
  next
    case 2
    then show ?thesis using n le by (intro stay[of True]) (simp_all add: can_allocate_def)
  next
    case 3
    then show ?thesis using n by (intro stay[of False]) (simp_all add: can_allocate_def)
  next
    case 4
    from evict_until_ok[OF I 4(3)] obtain s' k where
      s': "evict_until (?n + already) s = Inr s'" "enc_inv F s'" "?n + already \<le> num_free_slots s'"
      "num_free_slots s \<le> num_free_slots s'" "num_freeable_slots s' = num_freeable_slots s"
      "k \<le> length (freeable s)" "freeable s' = drop k (freeable s)"
      "freed s' = freed s @ map fst (take k (freeable s))"
      "cached s' = cached s |` (- fst ` set (take k (freeable s)))"
      "request_cached_ids s' = request_cached_ids s"
      "\<forall>j < k. num_free_slots s + sum_list (map snd (take j (freeable s))) < ?n + already" by blast
    have "can_allocate r i budget already s = Inr (True, s')"
      using 4 n s'(1) by (simp add: can_allocate_def)
    then show ?thesis using 4(1,3) s'(2-)
      by (intro exI[of _ True] exI[of _ s'] conjI exI[of _ k]) simp_all
  qed
qed

section \<open>Allocation\<close>

lemma allocate_ok:
  assumes I: "enc_inv F s" and r: "features_of F r" "i < length (mm_features r)"
    and fresh: "hash_at F (request_id r) i \<notin> dom (cached s)"
    and room: "get_num_embeds (mm_features r ! i) \<le> num_free_slots s"
  shows "\<exists>s'. allocate r i s = Inr s' \<and> enc_inv F s'
    \<and> num_free_slots s' = num_free_slots s - get_num_embeds (mm_features r ! i)
    \<and> cached s' = (cached s)(hash_at F (request_id r) i \<mapsto> {request_id r}) \<and> freed s' = freed s
    \<and> (\<forall>rid. cached_ids s' rid = (if rid = request_id r then insert i (cached_ids s rid) else cached_ids s rid))"
proof -
  let ?h = "hash_at F (request_id r) i" let ?n = "get_num_embeds (mm_features r ! i)"
  note inv = enc_invD[OF I] and l = feature_lookup[OF r]
  have none: "cached s ?h = None" "num_embeds_by_hash s ?h = None"
    using fresh inv(1) by (auto simp: slots_ok_def)
  define s' where "s' = (add_reference r i ?h {} s)\<lparr>num_embeds_by_hash := (num_embeds_by_hash s)(?h \<mapsto> ?n),
      num_free_slots := num_free_slots s - ?n, num_freeable_slots := num_freeable_slots s - ?n\<rparr>"
  have sel: "cached s' = (cached s)(?h \<mapsto> {request_id r})" "freeable s' = freeable s"
      "num_embeds_by_hash s' = (num_embeds_by_hash s)(?h \<mapsto> ?n)"
      "num_free_slots s' = num_free_slots s - ?n" "num_freeable_slots s' = num_freeable_slots s - ?n"
      "ec_cache_size s' = ec_cache_size s" "freed s' = freed s"
    by (simp_all add: s'_def add_reference_sel)
  have "num_free_slots s \<le> num_freeable_slots s" using freeable_bounds(2) inv by blast
  then have "allocate r i s = Inr s'"
    using l none room by (simp add: allocate_def Let_def s'_def add_reference_def cached_ids_def)
  moreover have "slots_ok s'"
  proof -
    have fin: "finite (dom (cached s))" using inv(1) by (simp add: slots_ok_def)
    have "(\<Sum>k \<in> dom (cached s). entry_size s' k) = (\<Sum>k \<in> dom (cached s). entry_size s k)"
      using fresh by (intro sum.cong) (auto simp: entry_size_def sel)
    then have "(\<Sum>k \<in> dom (cached s'). entry_size s' k) = ?n + (\<Sum>k \<in> dom (cached s). entry_size s k)"
      using fin fresh by (simp add: sel entry_size_def)
    then show ?thesis using inv(1) l(3) room unfolding slots_ok_def sel by auto
  qed
  moreover have "freeable_ok s'"
  proof -
    have "?h \<notin> fst ` set (freeable s)" using inv(2) none by (auto simp: freeable_ok_def)
    then show ?thesis using inv(2) unfolding freeable_ok_def sel by (force split: if_splits)
  qed
  moreover have "references_ok F s'"
  proof -
    have "references_ok F (add_reference r i ?h {} s)"
      using r none by (intro references_add[OF inv(3)]) (simp_all add: features_of_def)
    then show ?thesis by (simp add: references_ok_def s'_def cached_ids_def)
  qed
  moreover have "\<forall>rid. cached_ids s' rid = (if rid = request_id r then insert i (cached_ids s rid) else cached_ids s rid)"
    using cached_ids_add[of r i ?h "{}" s] by (simp add: s'_def cached_ids_def)
  ultimately show ?thesis using sel by (auto simp: enc_inv_def)
qed

section \<open>Freeing\<close>

lemma cached_ids_drop:
  "cached_ids (drop_cached_id r i s) rid
     = (if rid = request_id r then cached_ids s rid - {i} else cached_ids s rid)"
  by (auto simp: cached_ids_def drop_cached_id_def split: option.splits)

lemma drop_cached_id_sel:
  "cached (drop_cached_id r i s) = cached s" "freeable (drop_cached_id r i s) = freeable s"
  "num_embeds_by_hash (drop_cached_id r i s) = num_embeds_by_hash s"
  "num_free_slots (drop_cached_id r i s) = num_free_slots s"
  "num_freeable_slots (drop_cached_id r i s) = num_freeable_slots s"
  "ec_cache_size (drop_cached_id r i s) = ec_cache_size s" "freed (drop_cached_id r i s) = freed s"
  by (simp_all add: drop_cached_id_def split: option.splits)

lemma drop_cached_id_nonempty:
  "request_cached_ids s rid \<noteq> Some {} \<Longrightarrow> request_cached_ids (drop_cached_id r i s) rid \<noteq> Some {}"
  by (simp add: drop_cached_id_def split: option.splits)

lemma references_drop:
  assumes R: "references_ok F s" and h: "h = hash_at F (request_id r) i"
    and c: "\<And>k. k \<noteq> h \<Longrightarrow> cached s' k = cached s k" "dom (cached s') = dom (cached s)"
    and ids: "request_cached_ids s' = request_cached_ids (drop_cached_id r i s)"
    and own: "\<And>refs refs'. cached s h = Some refs \<Longrightarrow> cached s' h = Some refs' \<Longrightarrow>
      refs' = (if \<exists>j \<in> cached_ids s (request_id r) - {i}. hash_at F (request_id r) j = h then refs
               else refs - {request_id r})"
  shows "references_ok F s'"
proof -
  have cid: "cached_ids s' rid = (if rid = request_id r then cached_ids s rid - {i} else cached_ids s rid)" for rid
    using cached_ids_drop[of r i s rid] by (simp add: cached_ids_def ids)
  have "rid \<in> refs' \<longleftrightarrow> (\<exists>j \<in> cached_ids s' rid. hash_at F rid j = k)" if k: "cached s' k = Some refs'" for k refs' rid
  proof (cases "k = h")
    case False
    then have "rid \<in> refs' \<longleftrightarrow> (\<exists>j \<in> cached_ids s rid. hash_at F rid j = k)"
      using R k c(1) by (simp add: references_ok_def)
    then show ?thesis using False h by (auto simp: cid)
  next
    case True
    then obtain refs where refs: "cached s h = Some refs" using k c(2) by blast
    have iff: "x \<in> refs \<longleftrightarrow> (\<exists>j \<in> cached_ids s x. hash_at F x j = h)" for x
      using R refs by (simp add: references_ok_def)
    show ?thesis using own[OF refs] k iff[of rid] iff[of "request_id r"] True by (auto simp: cid)
  qed
  moreover have "request_cached_ids s' rid \<noteq> Some {}" for rid
    using drop_cached_id_nonempty[of s rid r i] R by (simp add: ids references_ok_def)
  ultimately show ?thesis using R c(2) by (auto simp: references_ok_def cid)
qed

lemma free_encoder_input_ok:
  assumes I: "enc_inv F s" and r: "features_of F r" "i < length (mm_features r)"
  shows "\<exists>s'. free_encoder_input r i s = Inr s' \<and> enc_inv F s' \<and> num_free_slots s' = num_free_slots s
    \<and> dom (cached s') = dom (cached s) \<and> freed s' = freed s
    \<and> (\<forall>rid. cached_ids s' rid = (if rid = request_id r then cached_ids s rid - {i} else cached_ids s rid))"
proof -
  let ?h = "hash_at F (request_id r) i" let ?s1 = "drop_cached_id r i s"
  let ?other = "\<exists>j \<in> cached_ids s (request_id r) - {i}. hash_at F (request_id r) j = ?h"
  note inv = enc_invD[OF I] and l = feature_lookup(1)[OF r]
  have len: "j < length (mm_features r)" if "j \<in> cached_ids s (request_id r)" for j
    using inv(3) r(1) that by (simp add: references_ok_def features_of_def)
  have other: "(\<exists>j \<in> cached_ids ?s1 (request_id r). feature_hash r j = Inr ?h) \<longleftrightarrow> ?other"
    using len feature_lookup(1)[OF r(1)] by (auto simp: cached_ids_drop)
  have s1: "slots_ok ?s1" "freeable_ok ?s1"
    using inv by (simp_all add: slots_ok_def freeable_ok_def drop_cached_id_sel entry_size_def)
  have keep: ?thesis if s': "free_encoder_input r i s = Inr ?s1"
    and own: "\<And>refs. cached s ?h = Some refs \<Longrightarrow>
       refs = (if ?other then refs else refs - {request_id r})"
  proof -
    have "references_ok F ?s1"
      using own by (intro references_drop[OF inv(3) refl]) (auto simp: drop_cached_id_sel)
    then show ?thesis using s' s1 by (simp add: enc_inv_def drop_cached_id_sel cached_ids_drop)
  qed
  show ?thesis
  proof (cases "cached s ?h")
    case None
    then show ?thesis by (intro keep) (simp_all add: free_encoder_input_def l drop_cached_id_sel)
  next
    case (Some refs)
    show ?thesis
    proof (cases "refs = {} \<or> ?other")
      case True
      then show ?thesis using Some other
        by (intro keep) (auto simp: free_encoder_input_def l drop_cached_id_sel)
    next
      case False
      let ?refs = "refs - {request_id r}"
      have "?h \<in> dom (num_embeds_by_hash s)" using inv(1) Some unfolding slots_ok_def by blast
      then obtain n where n: "num_embeds_by_hash s ?h = Some n" by blast
      have out: "?h \<notin> fst ` set (freeable s)" using inv(2) Some False by (auto simp: freeable_ok_def)
      define s' where "s' = (let s2 = ?s1\<lparr>cached := (cached s)(?h \<mapsto> ?refs)\<rparr>
        in if ?refs \<noteq> {} then s2
           else s2\<lparr>freeable := freeable s @ [(?h, n)], num_freeable_slots := num_freeable_slots s + n\<rparr>)"
      have "free_encoder_input r i s = Inr s'"
        using Some False n out other
        by (simp add: free_encoder_input_def l drop_cached_id_sel Let_def s'_def od_set_def)
      moreover have sel: "cached s' = (cached s)(?h \<mapsto> ?refs)" "num_embeds_by_hash s' = num_embeds_by_hash s"
          "request_cached_ids s' = request_cached_ids ?s1" "num_free_slots s' = num_free_slots s"
          "ec_cache_size s' = ec_cache_size s" "freed s' = freed s"
          "freeable s' = (if ?refs = {} then freeable s @ [(?h, n)] else freeable s)"
          "num_freeable_slots s' = (if ?refs = {} then num_freeable_slots s + n else num_freeable_slots s)"
        by (simp_all add: s'_def Let_def drop_cached_id_sel)
      moreover have dom: "dom (cached s') = dom (cached s)" using Some by (auto simp: sel)
      moreover have "slots_ok s'"
        using inv(1) unfolding slots_ok_def dom entry_size_def sel(2,4-8) by simp
      moreover have "freeable_ok s'"
        using inv(2) out n Some False unfolding freeable_ok_def sel by auto
      moreover have "references_ok F s'"
        using False Some by (intro references_drop[OF inv(3) refl _ dom sel(3)]) (auto simp: sel)
      moreover have "cached_ids s' = cached_ids ?s1" by (intro ext) (simp add: cached_ids_def sel(3))
      ultimately show ?thesis by (auto simp: enc_inv_def cached_ids_drop)
    qed
  qed
qed

lemma free_request_ok:
  assumes "enc_inv F s" "features_of F r" "\<forall>i \<in> set order. i < length (mm_features r)"
  shows "\<exists>s'. free_request r order s = Inr s' \<and> enc_inv F s' \<and> num_free_slots s' = num_free_slots s
    \<and> dom (cached s') = dom (cached s) \<and> freed s' = freed s
    \<and> (\<forall>rid. cached_ids s' rid = (if rid = request_id r then cached_ids s rid - set order else cached_ids s rid))"
  using assms unfolding free_request_def
proof (induction order arbitrary: s)
  case (Cons i iis)
  from free_encoder_input_ok[OF Cons.prems(1,2), of i] Cons.prems(3) obtain s1 where
    s1: "free_encoder_input r i s = Inr s1" "enc_inv F s1" "num_free_slots s1 = num_free_slots s"
      "dom (cached s1) = dom (cached s)" "freed s1 = freed s"
      "\<forall>rid. cached_ids s1 rid = (if rid = request_id r then cached_ids s rid - {i} else cached_ids s rid)"
    by auto
  from Cons.IH[OF s1(2) Cons.prems(2)] Cons.prems(3) s1 show ?case by fastforce
qed simp

end
