(* ===== verification/EncoderSched.thy ===== *)
theory EncoderSched imports EncoderInv HashKeys
begin

text \<open>
  How the scheduler uses an encoder cache: \<open>_try_schedule_encoder_inputs\<close> of
  \<^verbatim>\<open>vllm/v1/core/sched/scheduler.py\<close>, the allocation of what it selected, and the freeing of
  processed inputs. The manager is a record of operations with two providers, and what the
  scheduler relies on is the locale \<open>encoder_cache\<close>.
\<close>

section \<open>Embeddings in a range: \<open>PlaceholderRange\<close>\<close>

definition embeds_cumsum :: "mm_feature \<Rightarrow> int list option" where
  "embeds_cumsum f = map_option (\<lambda>m. map (\<lambda>k. int (length (filter id (take (Suc k) m)))) [0..<length m]) (is_embed f)"

definition get_embeds_indices_in_range :: "mm_feature \<Rightarrow> int \<Rightarrow> int \<Rightarrow> (int \<times> int) res" where
  "get_embeds_indices_in_range f a b =
     (case embeds_cumsum f of
        None \<Rightarrow> Inr (a, b)
      | Some cs \<Rightarrow>
          bind_res (if a > 0 then py_get cs (a - 1) else Inr 0) (\<lambda>x.
          bind_res (if b > 0 then py_get cs (b - 1) else Inr 0) (\<lambda>y. Inr (x, y))))"

section \<open>The manager's operations\<close>

record 's enc_ops =
  op_embeds :: "request \<Rightarrow> nat \<Rightarrow> 's \<Rightarrow> int option res"
  op_check :: "request \<Rightarrow> nat \<Rightarrow> 's \<Rightarrow> (bool \<times> 's) res"
  op_can_allocate :: "request \<Rightarrow> nat \<Rightarrow> int \<Rightarrow> int \<Rightarrow> 's \<Rightarrow> (bool \<times> 's) res"
  op_allocate :: "request \<Rightarrow> nat \<Rightarrow> 's \<Rightarrow> 's res"
  op_free_input :: "request \<Rightarrow> nat \<Rightarrow> 's \<Rightarrow> 's res"
  op_cached_ids :: "request \<Rightarrow> 's \<Rightarrow> nat set"

definition cache_ops :: "enc_cache enc_ops" where
  "cache_ops = \<lparr>op_embeds = get_cached_num_encoder_embeds, op_check = check_and_update_cache,
     op_can_allocate = can_allocate, op_allocate = allocate, op_free_input = free_encoder_input,
     op_cached_ids = get_cached_input_ids\<rparr>"

text \<open>The encoder-decoder manager never sets the table \<^verbatim>\<open>num_embeds_by_hash\<close> it inherits the lookup of.\<close>

definition encdec_ops :: "encdec_cache enc_ops" where
  "encdec_ops = \<lparr>op_embeds = (\<lambda>r i s. Inl AttributeError), op_check = ed_check_and_update_cache,
     op_can_allocate = ed_can_allocate, op_allocate = ed_allocate, op_free_input = ed_free_encoder_input,
     op_cached_ids = ed_get_cached_input_ids\<rparr>"

section \<open>\<open>_try_schedule_encoder_inputs\<close>\<close>

text \<open>
  What stays fixed during the call. \<open>ec_has_item\<close> is the lookup of the external cache, when
  there is a connector.
\<close>

record try_config =
  encoder_decoder :: bool
  disable_chunked_mm :: bool
  ec_has_item :: "(string \<Rightarrow> bool) option"
  num_computed :: int
  shift_computed :: int
  window_end :: int

record 's try_state =
  manager :: 's
  inputs :: "nat list"
  external :: "nat list"
  hashes_to_schedule :: "string \<rightharpoonup> int"
  embeds_to_schedule :: int
  new_tokens :: int
  compute_budget :: int
  mismatch_reqs :: "string set"

datatype ctrl = Go_on | Stop_here | Rejected

definition select_input :: "try_config \<Rightarrow> request \<Rightarrow> nat \<Rightarrow> 's try_state \<Rightarrow> 's try_state" where
  "select_input c r i st =
     (let f = mm_features r ! i; h = mm_identifier f; n = get_num_embeds f;
          st = st\<lparr>hashes_to_schedule := (hashes_to_schedule st)(h \<mapsto> n),
                  embeds_to_schedule := embeds_to_schedule st + n\<rparr>
      in if (case ec_has_item c of None \<Rightarrow> False | Some has \<Rightarrow> has h)
         then st\<lparr>external := external st @ [i]\<rparr>
         else st\<lparr>compute_budget := compute_budget st - n, inputs := inputs st @ [i]\<rparr>)"

text \<open>The part of the loop body past the cache lookup.\<close>

definition try_room :: "'s enc_ops \<Rightarrow> try_config \<Rightarrow> request \<Rightarrow> nat \<Rightarrow> 's try_state \<Rightarrow> (ctrl \<times> 's try_state) res" where
  "try_room M c r i st =
     (let f = mm_features r ! i; start = mm_offset f; len = mm_length f in
      if disable_chunked_mm c \<and> num_computed c < start \<and> num_computed c + new_tokens st < start + len
      then Inr (Stop_here, st\<lparr>new_tokens := max 0 (start - (num_computed c + shift_computed c))\<rparr>)
      else bind_res (op_can_allocate M r i (compute_budget st) (embeds_to_schedule st) (manager st)) (\<lambda>(ok, s).
        let st = st\<lparr>manager := s\<rparr> in
        if \<not> ok
        then Inr (Stop_here, st\<lparr>new_tokens :=
               (if num_computed c + shift_computed c < start
                then start - (num_computed c + shift_computed c) else 0)\<rparr>)
        else bind_res (get_embeds_indices_in_range f (max 0 (num_computed c - start)) (min len (window_end c - start)))
          (\<lambda>(a, b). Inr (Go_on, if b - a = 0 then st else select_input c r i st))))"

text \<open>The lookup in the hashes selected so far and in the cache.\<close>

definition try_lookup :: "'s enc_ops \<Rightarrow> try_config \<Rightarrow> request \<Rightarrow> nat \<Rightarrow> 's try_state \<Rightarrow> (ctrl \<times> 's try_state) res" where
  "try_lookup M c r i st =
     (let f = mm_features r ! i; h = mm_identifier f; n = get_num_embeds f;
          reject = (Rejected, st\<lparr>mismatch_reqs := insert (request_id r) (mismatch_reqs st)\<rparr>) in
      case hashes_to_schedule st h of
        Some m \<Rightarrow> Inr (if m \<noteq> n then reject else (Go_on, st))
      | None \<Rightarrow>
          bind_res (op_embeds M r i (manager st)) (\<lambda>m.
            if m \<noteq> None \<and> m \<noteq> Some n then Inr reject
            else bind_res (op_check M r i (manager st)) (\<lambda>(hit, s).
              let st = st\<lparr>manager := s\<rparr> in
              if hit then Inr (Go_on, st) else try_room M c r i st)))"

definition try_one :: "'s enc_ops \<Rightarrow> try_config \<Rightarrow> request \<Rightarrow> nat \<Rightarrow> 's try_state \<Rightarrow> (ctrl \<times> 's try_state) res" where
  "try_one M c r i st =
     (if encoder_decoder c
      then (if num_computed c > 0
            then (if mm_offset (mm_features r ! i) = 0 then Inr (Go_on, st) else Inl AssertionError)
            else try_room M c r i st)
      else try_lookup M c r i st)"

fun try_loop :: "'s enc_ops \<Rightarrow> try_config \<Rightarrow> request \<Rightarrow> nat list \<Rightarrow> 's try_state \<Rightarrow> (ctrl \<times> 's try_state) res" where
  "try_loop M c r [] st = Inr (Go_on, st)"
| "try_loop M c r (i # is') st =
     bind_res (try_one M c r i st) (\<lambda>(k, st).
       if k = Go_on then try_loop M c r is' st else Inr (k, st))"

text \<open>
  The result: the inputs to compute, the number of tokens, the budget left, the inputs to load
  from the external cache, then the new state of the manager and of the set of rejected requests.
\<close>

definition try_schedule_encoder_inputs ::
    "'s enc_ops \<Rightarrow> bool \<Rightarrow> bool \<Rightarrow> (string \<Rightarrow> bool) option \<Rightarrow> request \<Rightarrow> int \<Rightarrow> int \<Rightarrow> int \<Rightarrow> int \<Rightarrow> 's \<Rightarrow> string set
     \<Rightarrow> ((nat list \<times> int \<times> int \<times> nat list) \<times> 's \<times> string set) res" where
  "try_schedule_encoder_inputs M encdec chunk ec r computed new budget shift s mism =
     (if new = 0 \<or> \<not> has_encoder_inputs r then Inr (([], new, budget, []), s, mism)
      else
        (let end = computed + new + shift;
             (lo, hi) = get_mm_features_in_window (mm_features r) computed end;
             lo = (if encdec then 0 else lo);
             c = \<lparr>encoder_decoder = encdec, disable_chunked_mm = chunk, ec_has_item = ec,
                  num_computed = computed, shift_computed = shift, window_end = end\<rparr>;
             st = \<lparr>manager = s, inputs = [], external = [], hashes_to_schedule = (\<lambda>_. None),
                   embeds_to_schedule = 0, new_tokens = new, compute_budget = budget, mismatch_reqs = mism\<rparr>
         in bind_res (try_loop M c r [lo..<hi] st) (\<lambda>(k, st).
              Inr ((if k = Rejected then ([], 0, compute_budget st, [])
                    else (inputs st, new_tokens st, compute_budget st, external st)),
                   manager st, mismatch_reqs st))))"

text \<open>The allocation loops that follow in \<open>schedule\<close>.\<close>

definition allocate_selected :: "'s enc_ops \<Rightarrow> request \<Rightarrow> nat list \<Rightarrow> nat list \<Rightarrow> 's \<Rightarrow> 's res" where
  "allocate_selected M r ins ext s =
     bind_res (fold_res (op_allocate M r) ins s) (fold_res (op_allocate M r) ext)"

text \<open>\<open>_free_encoder_inputs\<close>, with the listing \<open>order\<close> of the cached inputs.\<close>

definition free_processed ::
    "'s enc_ops \<Rightarrow> bool \<Rightarrow> int \<Rightarrow> request \<Rightarrow> nat list \<Rightarrow> 's \<Rightarrow> 's res" where
  "free_processed M encdec lookahead r order s =
     fold_res (\<lambda>i s.
       if i < length (mm_features r) then
         (let f = mm_features r ! i in
          if encdec \<and> num_computed_tokens r > 0
             \<or> mm_offset f + mm_length f + lookahead \<le> num_computed_tokens r - num_output_placeholders r
          then op_free_input M r i s else Inr s)
       else Inl IndexError) order s"

end
