(* ===== verification/EncoderClient.thy ===== *)
theory EncoderClient imports EncoderSched
begin

text \<open>
  What scheduling relies on, as the locale \<open>encoder_cache\<close>, and what follows from it: the
  selected inputs can all be allocated, and no token is scheduled whose encoder output would be
  missing. Both managers of the code provide the interface.
\<close>

section \<open>The interface\<close>

abbreviation ident :: "request \<Rightarrow> nat \<Rightarrow> string" where
  "ident r i \<equiv> mm_identifier (mm_features r ! i)"

abbreviation embeds :: "request \<Rightarrow> nat \<Rightarrow> int" where
  "embeds r i \<equiv> get_num_embeds (mm_features r ! i)"

text \<open>The window that \<open>get_mm_features_in_window\<close> returns is exact for sorted features.\<close>

lemma bisect_left_above:
  assumes "sorted ks" "hi \<le> length ks" "lo \<le> hi" "\<And>i. hi \<le> i \<Longrightarrow> i < length ks \<Longrightarrow> x \<le> ks ! i"
    and "bisect_left ks x lo hi \<le> i" "i < length ks"
  shows "x \<le> ks ! i"
  using assms
proof (induction ks x lo hi rule: bisect_left.induct)
  case (1 ks x lo hi)
  show ?case
  proof (cases "lo < hi")
    case False
    then have "bisect_left ks x lo hi = lo" by (rule bisect_left_stop)
    then show ?thesis using "1.prems"(4)[of i] "1.prems"(3,5,6) False by simp
  next
    case True
    let ?m = "(lo + hi) div 2"
    have m: "lo \<le> ?m" "?m < hi" using True by auto
    show ?thesis
    proof (cases "ks ! ?m < x")
      case less: True
      then have "bisect_left ks x (?m + 1) hi \<le> i"
        using "1.prems"(5) bisect_left_step[OF True, of ks x] by simp
      then show ?thesis
        using "1.IH"(1)[OF True refl less "1.prems"(1,2)] m "1.prems"(4,6) by simp
    next
      case False
      have up: "x \<le> ks ! j" if "?m \<le> j" "j < length ks" for j
        using sorted_nth_mono[OF "1.prems"(1) that(1)] that False by simp
      have "bisect_left ks x lo ?m \<le> i"
        using "1.prems"(5) bisect_left_step[OF True, of ks x] False by simp
      then show ?thesis
        using "1.IH"(2)[OF True refl False "1.prems"(1)] m "1.prems"(2,6) up by simp
    qed
  qed
qed

lemma window_exact:
  assumes "mm_sorted fs" "get_mm_features_in_window fs a b = (lo, hi)" "i < length fs"
  shows "lo \<le> i \<longleftrightarrow> a < mm_offset (fs ! i) + mm_length (fs ! i)" "i < hi \<longleftrightarrow> mm_offset (fs ! i) < b"
    "hi \<le> length fs"
proof -
  let ?ends = "map (\<lambda>f. mm_offset f + mm_length f) fs" let ?starts = "map mm_offset fs"
  have len: "\<And>f. f \<in> set fs \<Longrightarrow> 0 \<le> mm_length f"
    and rel: "sorted_wrt (\<lambda>f g. mm_offset f + mm_length f \<le> mm_offset g) fs"
    using assms(1) by (auto simp: mm_sorted_def)
  then have "sorted_wrt (\<lambda>f g. mm_offset f + mm_length f \<le> mm_offset g + mm_length g) fs"
    "sorted_wrt (\<lambda>f g. mm_offset f \<le> mm_offset g) fs"
    by (auto elim!: sorted_wrt_mono_rel[rotated] dest!: len)
  then have sorted: "sorted ?ends" "sorted ?starts" by (simp_all add: sorted_wrt_map)
  have w: "lo = bisect_left ?ends (a + 1) 0 (length fs)" "hi = bisect_left ?starts b 0 (length fs)"
    using assms(2) by (simp_all add: get_mm_features_in_window_def)
  show "hi \<le> length fs" using bisect_left_bounds[of 0 "length fs" ?starts b] w by simp
  show "lo \<le> i \<longleftrightarrow> a < mm_offset (fs ! i) + mm_length (fs ! i)"
    using bisect_left_above[OF sorted(1), of "length fs" 0 "a + 1" i]
      bisect_left_below[OF sorted(1), of "length fs" 0 "a + 1" i] assms(3) w(1) by fastforce
  show "i < hi \<longleftrightarrow> mm_offset (fs ! i) < b"
    using bisect_left_above[OF sorted(2), of "length fs" 0 b i]
      bisect_left_below[OF sorted(2), of "length fs" 0 b i] assms(3) w(2) by fastforce
qed

text \<open>A feature with a well-formed mask, and the positions of it that take an embedding.\<close>

definition mask_ok :: "mm_feature \<Rightarrow> bool" where
  "mask_ok f \<longleftrightarrow> (\<forall>m. is_embed f = Some m \<longrightarrow> int (length m) = mm_length f)"

definition embed_at :: "mm_feature \<Rightarrow> int \<Rightarrow> bool" where
  "embed_at f p \<longleftrightarrow> 0 \<le> p \<and> p < mm_length f \<and> (case is_embed f of None \<Rightarrow> True | Some m \<Rightarrow> m ! nat p)"

text \<open>The input is needed to compute the tokens at the positions from \<open>lo\<close> to before \<open>hi\<close>.\<close>

definition needed :: "mm_feature \<Rightarrow> int \<Rightarrow> int \<Rightarrow> bool" where
  "needed f lo hi \<longleftrightarrow> (\<exists>p. lo \<le> mm_offset f + p \<and> mm_offset f + p < hi \<and> embed_at f p)"

lemma count_upto_eq:
  assumes "length (filter id (take a m)) = length (filter id (take b m))" "a \<le> p" "p < b" "b \<le> length m"
  shows "\<not> m ! p"
proof
  assume mp: "m ! p"
  have "take b m = take p m @ take (b - p) (drop p m)"
    using assms(3) take_add[of p "b - p" m] by simp
  moreover have "drop p m = m ! p # drop (Suc p) m" using Cons_nth_drop_Suc[of p m] assms(3,4) by simp
  moreover have "b - p = Suc (b - Suc p)" using assms(3) by simp
  ultimately have "take b m = take p m @ m ! p # take (b - Suc p) (drop (Suc p) m)" by simp
  then have "length (filter id (take p m)) < length (filter id (take b m))" using mp by simp
  moreover have "take p m = take a m @ take (p - a) (drop a m)"
    using assms(2) take_add[of a "p - a" m] by simp
  then have "length (filter id (take a m)) \<le> length (filter id (take p m))" by simp
  ultimately show False using assms(1) by simp
qed

lemma get_embeds_total:
  assumes "mask_ok f" "0 \<le> a" "a < b" "b \<le> mm_length f"
  shows "\<exists>x y. get_embeds_indices_in_range f a b = Inr (x, y)
    \<and> (y - x = 0 \<longrightarrow> (\<forall>p. a \<le> p \<longrightarrow> p < b \<longrightarrow> \<not> embed_at f p))"
proof (cases "is_embed f")
  case None
  then show ?thesis using assms by (simp add: get_embeds_indices_in_range_def embeds_cumsum_def)
next
  case (Some m)
  let ?cs = "map (\<lambda>k. int (length (filter id (take (Suc k) m)))) [0..<length m]"
  have m: "int (length m) = mm_length f" using assms(1) Some by (simp add: mask_ok_def)
  have pre: "(if k > 0 then py_get ?cs (k - 1) else Inr 0) = Inr (int (length (filter id (take (nat k) m))))"
    if "0 \<le> k" "k \<le> mm_length f" for k :: int
  proof (cases "k > 0")
    case True
    then have "nat (k - 1) < length m" "Suc (nat (k - 1)) = nat k" using that m by linarith+
    then show ?thesis using True m that by (simp add: py_get_def py_index_def Let_def)
  qed (use that in simp)
  have "get_embeds_indices_in_range f a b
      = Inr (int (length (filter id (take (nat a) m))), int (length (filter id (take (nat b) m))))"
    using pre[of a] pre[of b] assms by (simp add: get_embeds_indices_in_range_def embeds_cumsum_def Some)
  moreover have "\<not> embed_at f p" if "length (filter id (take (nat b) m)) = length (filter id (take (nat a) m))"
      "a \<le> p" "p < b" for p
    using count_upto_eq[of "nat a" m "nat b" "nat p"] that assms m by (auto simp: embed_at_def Some)
  ultimately show ?thesis by auto
qed

definition features_wf :: "request \<Rightarrow> bool" where
  "features_wf r \<longleftrightarrow> mm_sorted (mm_features r) \<and> (\<forall>f \<in> set (mm_features r). mask_ok f \<and> 0 < mm_length f)"

text \<open>
  \<open>room\<close> is what can be allocated at once; \<open>fresh\<close> says the input may be allocated, \<open>has\<close> that
  its entry is there and held for the request.
\<close>

locale encoder_cache =
  fixes M :: "'s enc_ops" and encdec :: bool and valid :: "request \<Rightarrow> bool" and inv :: "'s \<Rightarrow> bool"
    and room :: "'s \<Rightarrow> int" and fresh :: "request \<Rightarrow> nat \<Rightarrow> 's \<Rightarrow> bool" and has :: "request \<Rightarrow> nat \<Rightarrow> 's \<Rightarrow> bool"
  assumes valid_embeds: "valid r \<Longrightarrow> i < length (mm_features r) \<Longrightarrow> 0 \<le> embeds r i"
    and has_ident: "\<not> encdec \<Longrightarrow> ident r i = ident r j \<Longrightarrow> has r i s = has r j s"
    and lookup: "\<not> encdec \<Longrightarrow> inv s \<Longrightarrow> valid r \<Longrightarrow> i < length (mm_features r) \<Longrightarrow>
        \<exists>m. op_embeds M r i s = Inr m"
    and check: "\<not> encdec \<Longrightarrow> inv s \<Longrightarrow> valid r \<Longrightarrow> i < length (mm_features r) \<Longrightarrow>
        \<exists>b s'. op_check M r i s = Inr (b, s') \<and> inv s' \<and> room s' = room s
          \<and> (b \<longrightarrow> has r i s') \<and> (\<not> b \<longrightarrow> fresh r i s')
          \<and> (\<forall>j < length (mm_features r). (has r j s \<longrightarrow> has r j s') \<and> (fresh r j s \<longrightarrow> fresh r j s'))"
    and can_alloc: "inv s \<Longrightarrow> valid r \<Longrightarrow> i < length (mm_features r) \<Longrightarrow>
        \<exists>b s'. op_can_allocate M r i budget already s = Inr (b, s') \<and> inv s' \<and> room s \<le> room s'
          \<and> (b \<longrightarrow> embeds r i \<le> budget \<and> embeds r i + already \<le> room s')
          \<and> (\<forall>j < length (mm_features r). (has r j s \<longrightarrow> has r j s') \<and> (fresh r j s \<longrightarrow> fresh r j s'))"
    and alloc: "inv s \<Longrightarrow> valid r \<Longrightarrow> i < length (mm_features r) \<Longrightarrow> fresh r i s \<Longrightarrow> embeds r i \<le> room s \<Longrightarrow>
        \<exists>s'. op_allocate M r i s = Inr s' \<and> inv s' \<and> room s' = room s - embeds r i \<and> has r i s'
          \<and> (\<forall>j < length (mm_features r). (has r j s \<longrightarrow> has r j s')
               \<and> (fresh r j s \<longrightarrow> encdec \<or> ident r j \<noteq> ident r i \<longrightarrow> fresh r j s'))"
    and room_nonneg: "inv s \<Longrightarrow> 0 \<le> room s"
    and encdec_fresh: "encdec \<Longrightarrow> fresh r i s"
begin

text \<open>The selection so far: room for all of it, no two of one hash, every one still allocatable.\<close>

definition selected_ok :: "request \<Rightarrow> nat list \<Rightarrow> 's \<Rightarrow> bool" where
  "selected_ok r sel s \<longleftrightarrow> inv s \<and> valid r \<and> (\<forall>i \<in> set sel. i < length (mm_features r) \<and> fresh r i s)
     \<and> (encdec \<or> distinct (map (ident r) sel)) \<and> sum_list (map (embeds r) sel) \<le> room s"

lemma allocate_list:
  assumes "selected_ok r sel s"
  shows "\<exists>s'. fold_res (op_allocate M r) sel s = Inr s' \<and> inv s'
    \<and> (\<forall>i \<in> set sel. has r i s') \<and> (\<forall>j < length (mm_features r). has r j s \<longrightarrow> has r j s')
    \<and> room s' = room s - sum_list (map (embeds r) sel)
    \<and> (\<forall>j < length (mm_features r). fresh r j s \<longrightarrow> encdec \<or> ident r j \<notin> ident r ` set sel \<longrightarrow> fresh r j s')"
  using assms
proof (induction sel arbitrary: s)
  case (Cons i sel)
  have i: "inv s" "valid r" "i < length (mm_features r)" "fresh r i s"
    and nn: "\<forall>j \<in> set sel. 0 \<le> embeds r j"
    using Cons.prems valid_embeds by (auto simp: selected_ok_def)
  have "0 \<le> sum_list (map (embeds r) sel)" using nn by (intro sum_list_nonneg) auto
  then have "embeds r i \<le> room s" using Cons.prems by (simp add: selected_ok_def)
  from alloc[OF i this] obtain s1 where
    s1: "op_allocate M r i s = Inr s1" "inv s1" "room s1 = room s - embeds r i" "has r i s1"
      "\<forall>j < length (mm_features r). (has r j s \<longrightarrow> has r j s1)
         \<and> (fresh r j s \<longrightarrow> encdec \<or> ident r j \<noteq> ident r i \<longrightarrow> fresh r j s1)" by blast
  have "fresh r j s1" if j: "j \<in> set sel" for j
  proof -
    have "encdec \<or> ident r j \<noteq> ident r i" "j < length (mm_features r)" "fresh r j s"
      using Cons.prems j by (auto simp: selected_ok_def image_iff)
    then show ?thesis using s1(5) by blast
  qed
  then have "selected_ok r sel s1"
    using Cons.prems s1 by (auto simp: selected_ok_def)
  from Cons.IH[OF this] obtain s2 where s2: "fold_res (op_allocate M r) sel s1 = Inr s2" "inv s2"
      "\<forall>i \<in> set sel. has r i s2" "\<forall>j < length (mm_features r). has r j s1 \<longrightarrow> has r j s2"
      "room s2 = room s1 - sum_list (map (embeds r) sel)"
      "\<forall>j < length (mm_features r). fresh r j s1 \<longrightarrow> encdec \<or> ident r j \<notin> ident r ` set sel \<longrightarrow> fresh r j s2"
    by blast
  then show ?case using s1 i(3) by auto
qed (simp add: selected_ok_def)

lemma allocate_selected_ok:
  assumes "selected_ok r (ins @ ext) s"
  shows "\<exists>s'. allocate_selected M r ins ext s = Inr s' \<and> inv s'
    \<and> (\<forall>i \<in> set (ins @ ext). has r i s') \<and> (\<forall>j < length (mm_features r). has r j s \<longrightarrow> has r j s')"
  using allocate_list[OF assms] by (simp add: allocate_selected_def fold_res_append[symmetric]) blast

text \<open>The invariant of the loop; \<open>covered\<close> is what the loop has dealt with.\<close>

definition covered :: "request \<Rightarrow> nat \<Rightarrow> 's try_state \<Rightarrow> bool" where
  "covered r i st \<longleftrightarrow> has r i (manager st) \<or> i \<in> set (inputs st @ external st)
     \<or> (\<not> encdec \<and> ident r i \<in> ident r ` set (inputs st @ external st))"

definition loop_inv :: "try_config \<Rightarrow> request \<Rightarrow> int \<Rightarrow> 's try_state \<Rightarrow> bool" where
  "loop_inv c r budget st \<longleftrightarrow> selected_ok r (inputs st @ external st) (manager st)
     \<and> embeds_to_schedule st = sum_list (map (embeds r) (inputs st @ external st))
     \<and> (\<not> encdec \<longrightarrow> dom (hashes_to_schedule st) = ident r ` set (inputs st @ external st))
     \<and> compute_budget st = budget - sum_list (map (embeds r) (inputs st)) \<and> (0 \<le> budget \<longrightarrow> 0 \<le> compute_budget st)"

lemma covered_mismatch [simp]: "covered r j (st\<lparr>mismatch_reqs := x\<rparr>) = covered r j st"
  by (simp add: covered_def)

lemma manager_step:
  assumes L: "loop_inv c r budget st" and s: "inv s'" "room (manager st) \<le> room s'"
    "\<forall>j < length (mm_features r). (has r j (manager st) \<longrightarrow> has r j s') \<and> (fresh r j (manager st) \<longrightarrow> fresh r j s')"
  shows "loop_inv c r budget (st\<lparr>manager := s'\<rparr>)"
    "\<forall>j < length (mm_features r). covered r j st \<longrightarrow> covered r j (st\<lparr>manager := s'\<rparr>)"
  using assms by (auto simp: loop_inv_def selected_ok_def covered_def)

lemma select_input_ok:
  assumes L: "loop_inv c r budget st" and i: "i < length (mm_features r)" "fresh r i (manager st)"
    and new: "encdec \<or> ident r i \<notin> ident r ` set (inputs st @ external st)"
    and n: "embeds r i \<le> compute_budget st" "embeds r i + embeds_to_schedule st \<le> room (manager st)"
  shows "loop_inv c r budget (select_input c r i st)" "covered r i (select_input c r i st)"
    "\<forall>j < length (mm_features r). covered r j st \<longrightarrow> covered r j (select_input c r i st)"
    "new_tokens (select_input c r i st) = new_tokens st"
proof -
  have nn: "0 \<le> embeds r i" using L i(1) by (auto simp: loop_inv_def selected_ok_def intro: valid_embeds)
  show "loop_inv c r budget (select_input c r i st)"
    using L i new n nn unfolding loop_inv_def selected_ok_def select_input_def Let_def
    by (auto split: option.splits)
  show "covered r i (select_input c r i st)"
    by (auto simp: covered_def select_input_def Let_def split: option.splits)
  show "\<forall>j < length (mm_features r). covered r j st \<longrightarrow> covered r j (select_input c r i st)"
    by (auto simp: covered_def select_input_def Let_def split: option.splits)
  show "new_tokens (select_input c r i st) = new_tokens st"
    by (simp add: select_input_def Let_def split: option.splits)
qed

text \<open>How one turn of the loop ends: it went on past a covered input, or it cut the tokens off before it.\<close>

definition in_window :: "try_config \<Rightarrow> request \<Rightarrow> nat \<Rightarrow> bool" where
  "in_window c r i \<longleftrightarrow> i < length (mm_features r) \<and> mask_ok (mm_features r ! i)
     \<and> 0 \<le> mm_offset (mm_features r ! i)
     \<and> mm_offset (mm_features r ! i) < window_end c
     \<and> num_computed c < mm_offset (mm_features r ! i) + mm_length (mm_features r ! i)
     \<and> 0 < mm_length (mm_features r ! i) \<and> num_computed c < window_end c"

definition turn_ok :: "try_config \<Rightarrow> request \<Rightarrow> int \<Rightarrow> nat \<Rightarrow> 's try_state \<Rightarrow> ctrl \<Rightarrow> 's try_state \<Rightarrow> bool" where
  "turn_ok c r budget i st k st' \<longleftrightarrow> (k \<noteq> Rejected \<longrightarrow> loop_inv c r budget st')
     \<and> inv (manager st')
     \<and> (\<forall>j < length (mm_features r). covered r j st \<longrightarrow> covered r j st')
     \<and> (k = Go_on \<longrightarrow> new_tokens st' = new_tokens st
          \<and> (covered r i st' \<or> \<not> needed (mm_features r ! i) (num_computed c) (window_end c)))
     \<and> (k = Stop_here \<longrightarrow> new_tokens st' = 0 \<or> (0 < new_tokens st'
          \<and> num_computed c + shift_computed c + new_tokens st' = mm_offset (mm_features r ! i)))"

lemma range_of_window:
  assumes "in_window c r i"
  shows "\<exists>x y. get_embeds_indices_in_range (mm_features r ! i)
        (max 0 (num_computed c - mm_offset (mm_features r ! i)))
        (min (mm_length (mm_features r ! i)) (window_end c - mm_offset (mm_features r ! i))) = Inr (x, y)
     \<and> (y - x = 0 \<longrightarrow> \<not> needed (mm_features r ! i) (num_computed c) (window_end c))"
proof -
  let ?f = "mm_features r ! i"
  let ?a = "max 0 (num_computed c - mm_offset ?f)" let ?b = "min (mm_length ?f) (window_end c - mm_offset ?f)"
  have "0 \<le> ?a" "?a < ?b" "?b \<le> mm_length ?f" "mask_ok ?f"
    using assms by (auto simp: in_window_def)
  from get_embeds_total[OF this(4) this(1-3)] obtain x y where
    xy: "get_embeds_indices_in_range ?f ?a ?b = Inr (x, y)"
      "y - x = 0 \<longrightarrow> (\<forall>p. ?a \<le> p \<longrightarrow> p < ?b \<longrightarrow> \<not> embed_at ?f p)" by blast
  have "\<not> needed ?f (num_computed c) (window_end c)" if "y - x = 0"
    unfolding needed_def
  proof
    assume "\<exists>p. num_computed c \<le> mm_offset ?f + p \<and> mm_offset ?f + p < window_end c \<and> embed_at ?f p"
    then obtain p where p: "num_computed c \<le> mm_offset ?f + p" "mm_offset ?f + p < window_end c" "embed_at ?f p" by blast
    then have "?a \<le> p" "p < ?b" by (auto simp: embed_at_def)
    then show False using xy(2) that p(3) by blast
  qed
  then show ?thesis using xy(1) by blast
qed

lemma try_room_ok:
  assumes L: "loop_inv c r budget st" and w: "in_window c r i" and f: "fresh r i (manager st)"
    and new: "encdec \<or> ident r i \<notin> ident r ` set (inputs st @ external st)"
  shows "\<exists>k st'. try_room M c r i st = Inr (k, st') \<and> turn_ok c r budget i st k st' \<and> k \<noteq> Rejected"
proof -
  let ?f = "mm_features r ! i"
  have i: "i < length (mm_features r)" using w by (simp add: in_window_def)
  have I: "inv (manager st)" "valid r" using L by (simp_all add: loop_inv_def selected_ok_def)
  show ?thesis
  proof (cases "disable_chunked_mm c \<and> num_computed c < mm_offset ?f
      \<and> num_computed c + new_tokens st < mm_offset ?f + mm_length ?f")
    case True
    then show ?thesis using L I
      by (auto simp: try_room_def Let_def turn_ok_def loop_inv_def selected_ok_def covered_def max_def)
  next
    case chunk: False
    from can_alloc[OF I i, of "compute_budget st" "embeds_to_schedule st"] obtain b s' where
      s': "op_can_allocate M r i (compute_budget st) (embeds_to_schedule st) (manager st) = Inr (b, s')"
        "inv s'" "room (manager st) \<le> room s'"
        "b \<longrightarrow> embeds r i \<le> compute_budget st \<and> embeds r i + embeds_to_schedule st \<le> room s'"
        "\<forall>j < length (mm_features r). (has r j (manager st) \<longrightarrow> has r j s')
           \<and> (fresh r j (manager st) \<longrightarrow> fresh r j s')" by blast
    let ?st = "st\<lparr>manager := s'\<rparr>"
    note step = manager_step[OF L s'(2,3,5)]
    show ?thesis
    proof (cases b)
      case False
      then have eq: "try_room M c r i st = Inr (Stop_here, ?st\<lparr>new_tokens :=
          (if num_computed c + shift_computed c < mm_offset ?f
           then mm_offset ?f - (num_computed c + shift_computed c) else 0)\<rparr>)"
        using chunk s'(1) by (auto simp: try_room_def Let_def)
      show ?thesis unfolding eq using s'(1,2) step
        by (auto simp: turn_ok_def loop_inv_def selected_ok_def covered_def)
    next
      case True
      from range_of_window[OF w] obtain x y where
        xy: "get_embeds_indices_in_range ?f (max 0 (num_computed c - mm_offset ?f))
              (min (mm_length ?f) (window_end c - mm_offset ?f)) = Inr (x, y)"
          "y - x = 0 \<longrightarrow> \<not> needed ?f (num_computed c) (window_end c)" by blast
      have eq: "try_room M c r i st = Inr (Go_on, if y - x = 0 then ?st else select_input c r i ?st)"
        using chunk s'(1) True xy(1) by (simp add: try_room_def Let_def)
      have sel: "loop_inv c r budget (select_input c r i ?st)" "covered r i (select_input c r i ?st)"
        "\<forall>j < length (mm_features r). covered r j ?st \<longrightarrow> covered r j (select_input c r i ?st)"
        "new_tokens (select_input c r i ?st) = new_tokens st"
        using select_input_ok[OF step(1) i] f s'(4,5) i new True by auto
      show ?thesis
      proof (cases "y - x = 0")
        case True
        then show ?thesis using eq xy(2) step s'(2) by (simp add: turn_ok_def)
      next
        case False
        have "inv (manager (select_input c r i ?st))"
          using sel(1) by (simp add: loop_inv_def selected_ok_def)
        moreover have "\<forall>j < length (mm_features r). covered r j st \<longrightarrow> covered r j (select_input c r i ?st)"
          using sel(3) step(2) by blast
        ultimately show ?thesis using eq False sel(1,2,4) by (simp add: turn_ok_def)
      qed
    qed
  qed
qed

lemma try_lookup_ok:
  assumes L: "loop_inv c r budget st" and w: "in_window c r i" and e: "\<not> encdec"
  shows "\<exists>k st'. try_lookup M c r i st = Inr (k, st') \<and> turn_ok c r budget i st k st'"
proof -
  have i: "i < length (mm_features r)" using w by (simp add: in_window_def)
  have I: "inv (manager st)" "valid r" using L by (simp_all add: loop_inv_def selected_ok_def)
  have dom: "dom (hashes_to_schedule st) = ident r ` set (inputs st @ external st)"
    using L e unfolding loop_inv_def by blast
  show ?thesis
  proof (cases "hashes_to_schedule st (ident r i)")
    case (Some m)
    then have "ident r i \<in> dom (hashes_to_schedule st)" by blast
    then have "covered r i st" using e unfolding covered_def dom by blast
    then show ?thesis using Some L I(1)
      by (simp add: try_lookup_def Let_def turn_ok_def)
  next
    case None
    then have "ident r i \<notin> dom (hashes_to_schedule st)" by blast
    then have new: "ident r i \<notin> ident r ` set (inputs st @ external st)" using dom by simp
    obtain m where m: "op_embeds M r i (manager st) = Inr m" using lookup[OF e I i] by blast
    show ?thesis
    proof (cases "m \<noteq> None \<and> m \<noteq> Some (embeds r i)")
      case True
      then show ?thesis using None m I(1)
        by (simp add: try_lookup_def Let_def turn_ok_def)
    next
      case False
      from check[OF e I i] obtain b s' where
        s': "op_check M r i (manager st) = Inr (b, s')" "inv s'" "room s' = room (manager st)"
          "b \<longrightarrow> has r i s'" "\<not> b \<longrightarrow> fresh r i s'"
          "\<forall>j < length (mm_features r). (has r j (manager st) \<longrightarrow> has r j s')
             \<and> (fresh r j (manager st) \<longrightarrow> fresh r j s')" by blast
      note step = manager_step[OF L s'(2) _ s'(6), simplified s'(3), simplified]
      have eq: "try_lookup M c r i st
          = (if b then Inr (Go_on, st\<lparr>manager := s'\<rparr>) else try_room M c r i (st\<lparr>manager := s'\<rparr>))"
        using None m False s'(1) by (auto simp: try_lookup_def Let_def)
      show ?thesis
      proof (cases b)
        case True
        then show ?thesis using eq s'(2,4) step by (simp add: turn_ok_def covered_def)
      next
        case False
        from try_room_ok[OF step(1) w] s'(5) new False obtain k st' where
          "try_room M c r i (st\<lparr>manager := s'\<rparr>) = Inr (k, st')"
          "turn_ok c r budget i (st\<lparr>manager := s'\<rparr>) k st'" by auto
        then show ?thesis using eq False step(2) by (auto simp: turn_ok_def)
      qed
    qed
  qed
qed

text \<open>The whole loop: either it covered everything in the window, or it stopped before an input, or it rejected the request.\<close>

definition loop_result ::
    "try_config \<Rightarrow> request \<Rightarrow> int \<Rightarrow> nat list \<Rightarrow> 's try_state \<Rightarrow> ctrl \<Rightarrow> 's try_state \<Rightarrow> bool" where
  "loop_result c r budget is' st k st' \<longleftrightarrow> (k \<noteq> Rejected \<longrightarrow> loop_inv c r budget st') \<and> inv (manager st')
     \<and> (\<forall>j < length (mm_features r). covered r j st \<longrightarrow> covered r j st')
     \<and> (k = Go_on \<longrightarrow> new_tokens st' = new_tokens st \<and> (\<forall>i \<in> set is'. covered r i st'
           \<or> \<not> needed (mm_features r ! i) (num_computed c) (window_end c)))
     \<and> (k = Stop_here \<longrightarrow> new_tokens st' = 0 \<or> (\<exists>pre i post. is' = pre @ i # post \<and> 0 < new_tokens st'
           \<and> num_computed c + shift_computed c + new_tokens st' = mm_offset (mm_features r ! i)
           \<and> (\<forall>j \<in> set pre. covered r j st' \<or> \<not> needed (mm_features r ! j) (num_computed c) (window_end c))))"

lemma try_loop_ok:
  assumes "loop_inv c r budget st" "\<forall>i \<in> set is'. in_window c r i" "encoder_decoder c = encdec"
    and "encdec \<Longrightarrow> num_computed c \<le> 0" "encdec \<Longrightarrow> distinct is'"
  shows "\<exists>k st'. try_loop M c r is' st = Inr (k, st') \<and> loop_result c r budget is' st k st'"
  using assms
proof (induction is' arbitrary: st)
  case Nil
  then show ?case by (auto simp: loop_result_def loop_inv_def selected_ok_def)
next
  case (Cons i is')
  have w: "in_window c r i" using Cons.prems(2) by simp
  obtain k st1 where s1: "try_one M c r i st = Inr (k, st1)" "turn_ok c r budget i st k st1"
  proof (cases encdec)
    case True
    then have "try_one M c r i st = try_room M c r i st"
      using Cons.prems(3,4) by (auto simp: try_one_def)
    moreover have "fresh r i (manager st)" using encdec_fresh True by blast
    ultimately show thesis using that try_room_ok[OF Cons.prems(1) w] True by auto
  next
    case False
    then have "try_one M c r i st = try_lookup M c r i st"
      using Cons.prems(3) by (auto simp: try_one_def)
    then show thesis using that try_lookup_ok[OF Cons.prems(1) w False] by auto
  qed
  show ?case
  proof (cases "k = Go_on")
    case False
    then show ?thesis using s1 by (auto simp: loop_result_def turn_ok_def intro!: exI[of _ "[]"])
  next
    case True
    have L1: "loop_inv c r budget st1" using s1(2) True by (simp add: turn_ok_def)
    from Cons.IH[OF L1 _ Cons.prems(3,4)] Cons.prems(2,5) obtain k' st2 where
      s2: "try_loop M c r is' st1 = Inr (k', st2)" "loop_result c r budget is' st1 k' st2" by auto
    have i: "covered r i st2 \<or> \<not> needed (mm_features r ! i) (num_computed c) (window_end c)"
      "new_tokens st1 = new_tokens st" "\<forall>j < length (mm_features r). covered r j st \<longrightarrow> covered r j st2"
      using s1(2) s2(2) True w by (auto simp: loop_result_def turn_ok_def in_window_def)
    have "loop_result c r budget (i # is') st k' st2"
      unfolding loop_result_def
    proof (intro conjI)
      show "k' = Stop_here \<longrightarrow> new_tokens st2 = 0 \<or> (\<exists>pre j post. i # is' = pre @ j # post \<and> 0 < new_tokens st2
           \<and> num_computed c + shift_computed c + new_tokens st2 = mm_offset (mm_features r ! j)
           \<and> (\<forall>j \<in> set pre. covered r j st2 \<or> \<not> needed (mm_features r ! j) (num_computed c) (window_end c)))"
      proof (intro impI)
        assume "k' = Stop_here"
        with s2(2) consider "new_tokens st2 = 0" | pre j post where "is' = pre @ j # post" "0 < new_tokens st2"
            "num_computed c + shift_computed c + new_tokens st2 = mm_offset (mm_features r ! j)"
            "\<forall>j \<in> set pre. covered r j st2 \<or> \<not> needed (mm_features r ! j) (num_computed c) (window_end c)"
          by (auto simp: loop_result_def)
        then show "new_tokens st2 = 0 \<or> (\<exists>pre j post. i # is' = pre @ j # post \<and> 0 < new_tokens st2
           \<and> num_computed c + shift_computed c + new_tokens st2 = mm_offset (mm_features r ! j)
           \<and> (\<forall>j \<in> set pre. covered r j st2 \<or> \<not> needed (mm_features r ! j) (num_computed c) (window_end c)))"
        proof cases
          case 2
          then show ?thesis using i(1) by (intro disjI2 exI[of _ "i # pre"]) auto
        qed simp
      qed
    qed (use i s2(2) in \<open>auto simp: loop_result_def\<close>)
    then show ?thesis using s1(1) s2(1) True by simp
  qed
qed

text \<open>
  The contract of the scheduling step: the selected inputs can be allocated, the number of
  tokens never grows, and every input with an embedding among the scheduled tokens is then held.
\<close>

lemma stop_covers:
  assumes w: "features_wf r" and u: "[lo..<hi] = pre @ i' # post" "hi \<le> length (mm_features r)"
    and i: "lo \<le> i" "i < hi" "mm_offset (mm_features r ! i) < mm_offset (mm_features r ! i')"
  shows "i \<in> set pre"
proof -
  have i': "i' < hi" using u by (metis atLeastLessThan_iff in_set_conv_decomp set_upt)
  have sw: "sorted_wrt (\<lambda>f g. mm_offset f + mm_length f \<le> mm_offset g) (mm_features r)"
    and pos: "\<And>f. f \<in> set (mm_features r) \<Longrightarrow> 0 < mm_length f"
    using w by (auto simp: features_wf_def mm_sorted_def)
  have "mm_offset (mm_features r ! i') < mm_offset (mm_features r ! i)" if "i' < i"
  proof -
    have "mm_offset (mm_features r ! i') + mm_length (mm_features r ! i') \<le> mm_offset (mm_features r ! i)"
      "0 < mm_length (mm_features r ! i')"
      using sorted_wrt_nth_less[OF sw that] pos[of "mm_features r ! i'"] i(2) u(2) that by auto
    then show ?thesis by simp
  qed
  then have "i < i'" using i(3) by (metis linorder_neqE_nat order_less_asym order_less_irrefl)
  moreover have "sorted_wrt (<) (pre @ i' # post)" using u(1) by (metis sorted_wrt_upt)
  then have "\<forall>j \<in> set post. i' < j" by (simp add: sorted_wrt_append)
  moreover have "i \<in> set (pre @ i' # post)" using i u(1) by (metis atLeastLessThan_iff set_upt)
  ultimately show ?thesis by auto
qed

lemma try_schedule_ok:
  assumes I: "inv s" "valid r" and w: "features_wf r" and n: "0 \<le> computed" "0 < new" "0 \<le> shift"
    and e: "encdec \<Longrightarrow> computed = 0"
  shows "\<exists>ins new' budget' ext s' mism' s''.
     try_schedule_encoder_inputs M encdec chunk ec r computed new budget shift s mism
       = Inr ((ins, new', budget', ext), s', mism')
     \<and> 0 \<le> new' \<and> new' \<le> new
     \<and> allocate_selected M r ins ext s' = Inr s'' \<and> inv s''
     \<and> (0 < new' \<longrightarrow> budget' = budget - sum_list (map (embeds r) ins) \<and> (0 \<le> budget \<longrightarrow> 0 \<le> budget')
          \<and> (\<forall>i < length (mm_features r).
                needed (mm_features r ! i) computed (computed + new' + shift) \<longrightarrow> has r i s''))"
proof (cases "has_encoder_inputs r")
  case False
  then show ?thesis using I n
    by (simp add: try_schedule_encoder_inputs_def has_encoder_inputs_def allocate_selected_def)
next
  case True
  let ?stop = "computed + new + shift"
  obtain lo0 hi where win: "get_mm_features_in_window (mm_features r) computed ?stop = (lo0, hi)" by fastforce
  let ?lo = "if encdec then 0 else lo0"
  let ?c = "\<lparr>encoder_decoder = encdec, disable_chunked_mm = chunk, ec_has_item = ec,
                  num_computed = computed, shift_computed = shift, window_end = ?stop\<rparr>"
  let ?st = "\<lparr>manager = s, inputs = [], external = [], hashes_to_schedule = (\<lambda>_. None),
                   embeds_to_schedule = 0, new_tokens = new, compute_budget = budget, mismatch_reqs = mism\<rparr>"
  have sorted: "mm_sorted (mm_features r)" using w by (simp add: features_wf_def)
  have pos: "0 \<le> mm_offset f" "0 < mm_length f" "mask_ok f" if "f \<in> set (mm_features r)" for f
    using w that by (auto simp: features_wf_def mm_sorted_def)
  have hi: "hi \<le> length (mm_features r)"
    using window_exact(3)[OF sorted win, of 0] True by (simp add: has_encoder_inputs_def)
  have inw: "in_window ?c r i" if "i \<in> set [?lo..<hi]" for i
  proof -
    have i: "i < length (mm_features r)" "?lo \<le> i" "i < hi" using that hi by auto
    have "computed < mm_offset (mm_features r ! i) + mm_length (mm_features r ! i)"
      using window_exact(1)[OF sorted win i(1)] i(2) e pos(1,2)[of "mm_features r ! i"] i(1)
      by (cases encdec) (auto intro: add_nonneg_pos)
    then show ?thesis
      using window_exact(2)[OF sorted win i(1)] i pos[of "mm_features r ! i"] n by (simp add: in_window_def)
  qed
  have L: "loop_inv ?c r budget ?st"
    using I room_nonneg[OF I(1)] by (simp add: loop_inv_def selected_ok_def)
  from try_loop_ok[OF L, of "[?lo..<hi]"] inw e obtain k st where
    st: "try_loop M ?c r [?lo..<hi] ?st = Inr (k, st)" "loop_result ?c r budget [?lo..<hi] ?st k st" by auto
  have eq: "try_schedule_encoder_inputs M encdec chunk ec r computed new budget shift s mism
    = Inr ((if k = Rejected then ([], 0, compute_budget st, [])
            else (inputs st, new_tokens st, compute_budget st, external st)), manager st, mismatch_reqs st)"
    using n True win st(1) by (simp add: try_schedule_encoder_inputs_def Let_def)
  show ?thesis
  proof (cases "k = Rejected")
    case True
    then show ?thesis using eq st(2) n by (auto simp: allocate_selected_def loop_result_def)
  next
    case False
    have L': "loop_inv ?c r budget st" using st(2) False by (simp add: loop_result_def)
    then have "selected_ok r (inputs st @ external st) (manager st)" by (simp add: loop_inv_def)
    from allocate_selected_ok[OF this] obtain s'' where
      s'': "allocate_selected M r (inputs st) (external st) (manager st) = Inr s''" "inv s''"
        "\<forall>i \<in> set (inputs st @ external st). has r i s''"
        "\<forall>j < length (mm_features r). has r j (manager st) \<longrightarrow> has r j s''" by blast
    have held: "has r i s''" if c: "covered r i st" and i: "i < length (mm_features r)" for i
    proof -
      consider "has r i (manager st)" | "i \<in> set (inputs st @ external st)"
        | j where "\<not> encdec" "j \<in> set (inputs st @ external st)" "ident r i = ident r j"
        using c unfolding covered_def by blast
      then show ?thesis
      proof cases
        case 3
        then show ?thesis using has_ident[OF 3(1,3)] s''(3) by blast
      qed (use s''(3,4) i in blast)+
    qed
    have new': "0 \<le> new_tokens st \<and> new_tokens st \<le> new \<and> (\<forall>i < length (mm_features r). 0 < new_tokens st \<longrightarrow>
        needed (mm_features r ! i) computed (computed + new_tokens st + shift) \<longrightarrow> covered r i st)"
    proof -
      have inside: "i \<in> set [?lo..<hi]" "needed (mm_features r ! i) computed ?stop"
        if t: "i < length (mm_features r)" "needed (mm_features r ! i) computed (computed + t + shift)" "t \<le> new" for i t
      proof -
        obtain p where p: "computed \<le> mm_offset (mm_features r ! i) + p"
          "mm_offset (mm_features r ! i) + p < computed + t + shift" "embed_at (mm_features r ! i) p"
          using t(2) by (auto simp: needed_def)
        then have "computed < mm_offset (mm_features r ! i) + mm_length (mm_features r ! i)"
          "mm_offset (mm_features r ! i) < ?stop" using t(3) by (auto simp: embed_at_def)
        then show "i \<in> set [?lo..<hi]"
          using window_exact(1,2)[OF sorted win t(1)] by auto
        show "needed (mm_features r ! i) computed ?stop" using p t(3) unfolding needed_def by fastforce
      qed
      show ?thesis
      proof (cases "k = Go_on")
        case True
        then have t: "new_tokens st = new" and all: "\<forall>i \<in> set [?lo..<hi]. covered r i st
            \<or> \<not> needed (mm_features r ! i) computed ?stop"
          using st(2) by (simp_all add: loop_result_def)
        show ?thesis using inside[of _ new] all t n by auto
      next
        case stop: False
        then have "k = Stop_here" using False by (cases k) auto
        with st(2) consider "new_tokens st = 0" | pre i' post where "[?lo..<hi] = pre @ i' # post" "0 < new_tokens st"
            "computed + shift + new_tokens st = mm_offset (mm_features r ! i')"
            "\<forall>j \<in> set pre. covered r j st \<or> \<not> needed (mm_features r ! j) computed ?stop"
          by (auto simp: loop_result_def)
        then show ?thesis
        proof cases
          case 1
          then show ?thesis using n by simp
        next
          case 2
          have "i' \<in> set [?lo..<hi]" using 2(1) by simp
          then have "mm_offset (mm_features r ! i') < ?stop" using inw by (auto simp: in_window_def)
          then have t: "new_tokens st \<le> new" using 2(3) by simp
          have "covered r i st" if i: "i < length (mm_features r)"
            "needed (mm_features r ! i) computed (computed + new_tokens st + shift)" for i
          proof -
            have "mm_offset (mm_features r ! i) < mm_offset (mm_features r ! i')"
              using i(2) 2(3) by (auto simp: needed_def embed_at_def)
            then have "i \<in> set pre" using stop_covers[OF w 2(1) hi] inside(1)[OF i t] by simp
            then show ?thesis using 2(4) inside(2)[OF i t] by blast
          qed
          then show ?thesis using 2(2) t by simp
        qed
      qed
    qed
    have b: "compute_budget st = budget - sum_list (map (embeds r) (inputs st))"
      "0 \<le> budget \<longrightarrow> 0 \<le> compute_budget st"
      using L' unfolding loop_inv_def by blast+
    show ?thesis
      using eq False s''(1,2) new' held b by auto
  qed
qed

end

end
