(* ===== verification/EncoderProps.thy ===== *)
theory EncoderProps imports EncoderClient
begin

text \<open>
  The encoder cache as a state machine, the two managers as providers of the scheduler's
  interface, and the properties of the encoder side.
\<close>

section \<open>Runs of the manager\<close>

datatype enc_op = Op_check request nat | Op_can_allocate request nat int int | Op_allocate request nat
  | Op_free_input request nat | Op_free request "nat list"

definition enc_step :: "enc_op \<Rightarrow> enc_cache \<Rightarrow> enc_cache res" where
  "enc_step op s =
     (case op of
        Op_check r i \<Rightarrow> bind_res (check_and_update_cache r i s) (\<lambda>(_, s). Inr s)
      | Op_can_allocate r i budget already \<Rightarrow> bind_res (can_allocate r i budget already s) (\<lambda>(_, s). Inr s)
      | Op_allocate r i \<Rightarrow> allocate r i s
      | Op_free_input r i \<Rightarrow> free_encoder_input r i s
      | Op_free r order \<Rightarrow> free_request r order s)"

text \<open>
  What the callers keep: inputs that exist, an allocation only of an absent entry for which
  there is room, and a listing of the inputs the request holds.
\<close>

definition enc_guard :: "features \<Rightarrow> enc_op \<Rightarrow> enc_cache \<Rightarrow> bool" where
  "enc_guard F op s =
     (case op of
        Op_check r i \<Rightarrow> features_of F r \<and> i < length (mm_features r)
      | Op_can_allocate r i budget already \<Rightarrow> features_of F r \<and> i < length (mm_features r)
      | Op_allocate r i \<Rightarrow> features_of F r \<and> i < length (mm_features r)
          \<and> ident r i \<notin> dom (cached s) \<and> embeds r i \<le> num_free_slots s
      | Op_free_input r i \<Rightarrow> features_of F r \<and> i < length (mm_features r)
      | Op_free r order \<Rightarrow> features_of F r \<and> set order = get_cached_input_ids r s)"

lemma ident_hash: "features_of F r \<Longrightarrow> ident r i = hash_at F (request_id r) i"
  by (simp add: features_of_def hash_at_def)

lemma enc_step_ok:
  assumes I: "enc_inv F s" and g: "enc_guard F op s"
  shows "\<exists>s'. enc_step op s = Inr s' \<and> enc_inv F s'
    \<and> dom (cached s) \<subseteq> dom (cached s') \<union> set (freed s') \<and> set (freed s) \<subseteq> set (freed s')"
proof (cases op)
  case (Op_check r i)
  then have r: "features_of F r" "i < length (mm_features r)" using g by (simp_all add: enc_guard_def)
  show ?thesis
  proof (cases "hash_at F (request_id r) i \<in> dom (cached s)")
    case True
    from check_hit[OF I r True] show ?thesis by (auto simp: enc_step_def Op_check)
  next
    case False
    from check_miss[OF r False] I show ?thesis by (simp add: enc_step_def Op_check)
  qed
next
  case (Op_can_allocate r i budget already)
  then have r: "features_of F r" "i < length (mm_features r)" using g by (simp_all add: enc_guard_def)
  from can_allocate_ok[OF I r, of budget already] show ?thesis
    by (auto simp: enc_step_def Op_can_allocate restrict_map_def dom_def)
next
  case (Op_allocate r i)
  then have r: "features_of F r" "i < length (mm_features r)" "hash_at F (request_id r) i \<notin> dom (cached s)"
      "embeds r i \<le> num_free_slots s" using g ident_hash[of F r i] by (simp_all add: enc_guard_def)
  from allocate_ok[OF I r] show ?thesis by (auto simp: enc_step_def Op_allocate)
next
  case (Op_free_input r i)
  then have r: "features_of F r" "i < length (mm_features r)" using g by (simp_all add: enc_guard_def)
  from free_encoder_input_ok[OF I r] show ?thesis by (auto simp: enc_step_def Op_free_input)
next
  case (Op_free r order)
  then have r: "features_of F r" "set order = cached_ids s (request_id r)"
    using g by (simp_all add: enc_guard_def get_cached_input_ids_def)
  then have "\<forall>i \<in> set order. i < length (mm_features r)"
    using enc_invD(3)[OF I] by (simp add: references_ok_def features_of_def)
  from free_request_ok[OF I r(1) this] show ?thesis by (auto simp: enc_step_def Op_free)
qed

text \<open>The states of a manager of \<open>n\<close> slots; taking the report and resetting are steps as well.\<close>

inductive enc_reach :: "features \<Rightarrow> int \<Rightarrow> enc_cache \<Rightarrow> bool" for F n where
  enc_start: "0 \<le> n \<Longrightarrow> enc_reach F n (new_enc_cache n)"
| enc_run: "enc_reach F n s \<Longrightarrow> enc_guard F op s \<Longrightarrow> enc_step op s = Inr s' \<Longrightarrow> enc_reach F n s'"
| enc_report: "enc_reach F n s \<Longrightarrow> enc_reach F n (snd (get_freed_mm_hashes s))"
| enc_reset: "enc_reach F n s \<Longrightarrow> enc_reach F n (reset_enc_cache s)"

lemma report_inv: "enc_inv F s \<Longrightarrow> enc_inv F (snd (get_freed_mm_hashes s))"
  by (simp add: enc_inv_def slots_ok_def freeable_ok_def references_ok_def get_freed_mm_hashes_def
      cached_ids_def entry_size_def)

lemma evict_until_size: "evict_until need s = Inr s' \<Longrightarrow> ec_cache_size s' = ec_cache_size s"
proof (induction need s rule: evict_until.induct)
  case (1 need s)
  then show ?case
    by (cases "need > num_free_slots s")
      (auto simp: evict_until.simps[of need s] bind_res_eq_Inr evict_oldest_def split: list.splits if_splits)
qed

lemma free_input_size: "free_encoder_input r i s = Inr s' \<Longrightarrow> ec_cache_size s' = ec_cache_size s"
proof -
  assume f: "free_encoder_input r i s = Inr s'"
  then obtain h where h: "feature_hash r i = Inr h" by (auto simp: free_encoder_input_def bind_res_eq_Inr)
  show "ec_cache_size s' = ec_cache_size s"
  proof (cases "cached s h")
    case None
    then show ?thesis using f h by (auto simp: free_encoder_input_def Let_def drop_cached_id_sel)
  next
    case (Some refs)
    show ?thesis
    proof (cases "num_embeds_by_hash s h")
      case None
      then show ?thesis using f h Some
        by (simp add: free_encoder_input_def Let_def drop_cached_id_sel split: if_split_asm)
          (auto simp: drop_cached_id_sel)
    next
      case (Some n)
      then show ?thesis using f h \<open>cached s h = Some refs\<close>
        by (simp add: free_encoder_input_def Let_def drop_cached_id_sel split: if_split_asm)
          (auto simp: drop_cached_id_sel)
    qed
  qed
qed

lemma check_size: "check_and_update_cache r i s = Inr (b, s') \<Longrightarrow> ec_cache_size s' = ec_cache_size s"
proof -
  assume c: "check_and_update_cache r i s = Inr (b, s')"
  then obtain h where h: "feature_hash r i = Inr h" by (auto simp: check_and_update_cache_def bind_res_eq_Inr)
  show "ec_cache_size s' = ec_cache_size s"
  proof (cases "cached s h")
    case None
    then show ?thesis using c h by (simp add: check_and_update_cache_def)
  next
    case (Some refs)
    then show ?thesis using c h
      by (cases "refs = {}"; cases "map_of (freeable s) h")
        (auto simp: check_and_update_cache_def add_reference_sel)
  qed
qed

lemma allocate_size: "allocate r i s = Inr s' \<Longrightarrow> ec_cache_size s' = ec_cache_size s"
proof -
  assume a: "allocate r i s = Inr s'"
  then obtain h n where "feature_hash r i = Inr h" "get_num_encoder_embeds r i = Inr n"
    by (auto simp: allocate_def bind_res_eq_Inr Let_def)
  then show "ec_cache_size s' = ec_cache_size s"
    using a by (simp add: allocate_def Let_def split: if_split_asm) (auto simp: add_reference_sel)
qed

lemma can_allocate_size: "can_allocate r i budget already s = Inr (b, s') \<Longrightarrow> ec_cache_size s' = ec_cache_size s"
  by (auto simp: can_allocate_def bind_res_eq_Inr Let_def dest: evict_until_size split: if_splits)

lemma enc_step_size: "enc_step op s = Inr s' \<Longrightarrow> ec_cache_size s' = ec_cache_size s"
proof (cases op)
  case (Op_free r order)
  moreover have "fold_res (free_encoder_input r) order s = Inr s' \<Longrightarrow> ec_cache_size s' = ec_cache_size s"
    by (rule fold_res_inv[where P = "\<lambda>x. ec_cache_size x = ec_cache_size s"])
      (auto dest: free_input_size)
  ultimately show "enc_step op s = Inr s' \<Longrightarrow> ?thesis" by (simp add: enc_step_def free_request_def)
qed (auto simp: enc_step_def bind_res_eq_Inr dest: check_size can_allocate_size allocate_size free_input_size)

lemma enc_reach_inv: "enc_reach F n s \<Longrightarrow> enc_inv F s \<and> ec_cache_size s = n \<and> 0 \<le> n"
proof (induction rule: enc_reach.induct)
  case (enc_run s op s')
  then show ?case using enc_step_ok[of F s op] enc_step_size[of op s s'] by auto
next
  case enc_start
  then show ?case using new_enc_cache_inv[of n F] by (simp add: new_enc_cache_def)
next
  case (enc_report s)
  then show ?case using report_inv[of F s] by (simp add: get_freed_mm_hashes_def)
next
  case (enc_reset s)
  then show ?case using reset_enc_cache_inv[of s F] by (simp add: reset_enc_cache_def)
qed

section \<open>Slots\<close>

lemma freeable_sum:
  assumes "slots_ok s" "freeable_ok s"
  shows "sum_list (map snd (freeable s)) = (\<Sum>h | cached s h = Some {}. entry_size s h)"
proof -
  have d: "distinct (map fst (freeable s))" and k: "fst ` set (freeable s) = {h. cached s h = Some {}}"
    and e: "\<forall>p \<in> set (freeable s). snd p = entry_size s (fst p)"
    using assms(2) by (auto simp: freeable_ok_def entry_size_def)
  have ml: "map snd (freeable s) = map (entry_size s) (map fst (freeable s))" using e by simp
  have "sum_list (map snd (freeable s)) = (\<Sum>h \<in> set (map fst (freeable s)). entry_size s h)"
    unfolding ml by (rule sum_list_distinct_conv_sum_set[OF d])
  then show ?thesis using k by simp
qed

lemma freeable_slots_sum:
  assumes "slots_ok s" "freeable_ok s"
  shows "num_freeable_slots s = ec_cache_size s - (\<Sum>h | h \<in> dom (cached s) \<and> cached s h \<noteq> Some {}. entry_size s h)"
proof -
  let ?U = "{h. cached s h = Some {}}" let ?R = "{h. h \<in> dom (cached s) \<and> cached s h \<noteq> Some {}}"
  have fin: "finite (dom (cached s))" using assms(1) by (simp add: slots_ok_def)
  have split: "dom (cached s) = ?U \<union> ?R" "?U \<inter> ?R = {}" by auto
  have "finite ?U" "finite ?R" by (rule finite_subset[OF _ fin], blast)+
  from sum.union_disjoint[OF this split(2), of "entry_size s"]
  have "(\<Sum>h \<in> dom (cached s). entry_size s h) = (\<Sum>h \<in> ?U. entry_size s h) + (\<Sum>h \<in> ?R. entry_size s h)"
    by (rule trans[OF arg_cong[OF split(1), of "sum (entry_size s)"]])
  then show ?thesis using assms freeable_sum[OF assms] by (simp add: slots_ok_def)
qed

text \<open>
  Property C19. In every state an encoder cache can reach, the counters tell the truth: the free
  slots are what the entries leave over, the reclaimable ones what the referenced entries leave
  over, and both stay within the capacity; the entries in \<open>freeable\<close> are exactly those no
  request refers to; and every input a request holds has its entry in the cache, referring back.
\<close>

theorem encoder_cache_accounting:
  assumes "enc_reach F n s"
  shows "num_free_slots s = n - (\<Sum>h \<in> dom (cached s). entry_size s h)
    \<and> num_freeable_slots s = n - (\<Sum>h | h \<in> dom (cached s) \<and> cached s h \<noteq> Some {}. entry_size s h)
    \<and> 0 \<le> num_free_slots s \<and> num_free_slots s \<le> num_freeable_slots s \<and> num_freeable_slots s \<le> n
    \<and> fst ` set (freeable s) = {h. cached s h = Some {}}
    \<and> (\<forall>rid. \<forall>i \<in> cached_ids s rid. \<exists>refs. cached s (hash_at F rid i) = Some refs \<and> rid \<in> refs)"
proof -
  have I: "enc_inv F s" "ec_cache_size s = n" using enc_reach_inv[OF assms] by simp_all
  note inv = enc_invD[OF I(1)]
  have "0 \<le> (\<Sum>h | h \<in> dom (cached s) \<and> cached s h \<noteq> Some {}. entry_size s h)"
    using inv(1) by (intro sum_nonneg) (auto simp: entry_size_def slots_ok_def split: option.splits)
  moreover have "\<exists>refs. cached s (hash_at F rid i) = Some refs \<and> rid \<in> refs" if "i \<in> cached_ids s rid" for rid i
    using inv(3) that unfolding references_ok_def by blast
  ultimately show ?thesis
    using inv(1,2) freeable_slots_sum[OF inv(1,2)] freeable_bounds(2)[OF inv(1,2)] I(2)
    by (auto simp: slots_ok_def freeable_ok_def)
qed

text \<open>Two images of four tokens, ten tokens apart, the second with a mask.\<close>

definition image_request :: "string \<Rightarrow> request" where
  "image_request rid = (example_request rid [1, 2, 3])\<lparr>mm_features :=
     [\<lparr>mm_identifier = ''A'', mm_offset = 0, mm_length = 4, is_embed = None\<rparr>,
      \<lparr>mm_identifier = ''B'', mm_offset = 10, mm_length = 4, is_embed = Some [False, True, True, False]\<rparr>]\<rparr>"

definition image_features :: features where
  "image_features = (\<lambda>rid. mm_features (image_request rid))"

lemma image_request_sel [simp]:
  "request_id (image_request rid) = rid" "length (mm_features (image_request rid)) = 2"
  "get_num_embeds (mm_features (image_request rid) ! 0) = 4"
  "get_num_embeds (mm_features (image_request rid) ! Suc 0) = 2"
  "ident (image_request rid) 0 = ''A''" "ident (image_request rid) (Suc 0) = ''B''"
  by (simp_all add: image_request_def example_request_def get_num_embeds_def)

lemma image_features_of: "features_of image_features (image_request rid)"
  by (simp add: features_of_def image_features_def image_request_def example_request_def get_num_embeds_def)

lemma image_features_wf: "features_wf (image_request rid)"
  by (simp add: features_wf_def mm_sorted_def mask_ok_def image_request_def)

lemma image_allocated:
  assumes "4 \<le> n"
  shows "\<exists>s. enc_reach image_features n s \<and> num_free_slots s = n - 4
    \<and> cached s = [''A'' \<mapsto> {''r''}] \<and> cached_ids s ''r'' = {0}"
proof -
  let ?s = "new_enc_cache n"
  have h: "hash_at image_features ''r'' 0 = ''A''"
    using ident_hash[OF image_features_of, of "''r''" 0] by simp
  have I: "enc_inv image_features ?s" using assms by (intro new_enc_cache_inv) simp
  from allocate_ok[OF I image_features_of, of 0 "''r''"] assms obtain s where
    s: "allocate (image_request ''r'') 0 ?s = Inr s" "num_free_slots s = n - 4"
      "cached s = [''A'' \<mapsto> {''r''}]" "cached_ids s ''r'' = {0}"
    by (auto simp: h new_enc_cache_def cached_ids_def)
  have "enc_guard image_features (Op_allocate (image_request ''r'') 0) ?s"
    using assms image_features_of by (simp add: enc_guard_def new_enc_cache_def)
  moreover have "enc_step (Op_allocate (image_request ''r'') 0) ?s = Inr s" using s(1) by (simp add: enc_step_def)
  ultimately have "enc_reach image_features n s"
    using enc_run[OF enc_start[of n image_features]] assms by auto
  then show ?thesis using s by blast
qed

theorem encoder_cache_accounting_witness:
  "\<exists>s. cached s = [''A'' \<mapsto> {''r''}] \<and> num_freeable_slots s = 9 - (\<Sum>h | h \<in> dom (cached s)
      \<and> cached s h \<noteq> Some {}. entry_size s h) \<and> num_free_slots s = 5 \<and> freeable s = []"
proof -
  obtain s where s: "enc_reach image_features 9 s" "num_free_slots s = 5" "cached s = [''A'' \<mapsto> {''r''}]"
    using image_allocated[of 9] by auto
  from encoder_cache_accounting[OF s(1)] s(2,3) show ?thesis by (intro exI[of _ s]) (auto split: if_splits)
qed

section \<open>Eviction\<close>

text \<open>
  Property C36. \<open>can_allocate\<close> never raises in a reachable state and answers exactly: yes when the
  input fits the compute budget and, with what is already selected, in the capacity that
  referenced entries leave. When it says yes the room is free afterwards. It evicts a prefix of
  the unreferenced entries, oldest first, no longer than needed, and touches nothing else.
\<close>

theorem can_allocate_exact:
  assumes "enc_reach F n s" "features_of F r" "i < length (mm_features r)"
  shows "\<exists>b s' k. can_allocate r i budget already s = Inr (b, s')
    \<and> (b \<longleftrightarrow> embeds r i \<le> budget \<and> embeds r i + already
          \<le> n - (\<Sum>h | h \<in> dom (cached s) \<and> cached s h \<noteq> Some {}. entry_size s h))
    \<and> (b \<longrightarrow> embeds r i + already \<le> num_free_slots s')
    \<and> k \<le> length (freeable s) \<and> freeable s' = drop k (freeable s)
    \<and> freed s' = freed s @ map fst (take k (freeable s))
    \<and> (\<forall>h. cached s' h = (if h \<in> fst ` set (take k (freeable s)) then None else cached s h))
    \<and> (\<forall>j < k. num_free_slots s + sum_list (map snd (take j (freeable s))) < embeds r i + already)"
proof -
  have I: "enc_inv F s" "ec_cache_size s = n" using enc_reach_inv[OF assms(1)] by simp_all
  note sum = freeable_slots_sum[OF enc_invD(1,2)[OF I(1)], unfolded I(2)]
  from can_allocate_ok[OF I(1) assms(2,3), of budget already] obtain b s' k where
    "can_allocate r i budget already s = Inr (b, s')"
    "b \<longleftrightarrow> embeds r i \<le> budget \<and> embeds r i + already
          \<le> n - (\<Sum>h | h \<in> dom (cached s) \<and> cached s h \<noteq> Some {}. entry_size s h)"
    "b \<longrightarrow> embeds r i + already \<le> num_free_slots s'"
    "k \<le> length (freeable s)" "freeable s' = drop k (freeable s)"
    "freed s' = freed s @ map fst (take k (freeable s))"
    "cached s' = cached s |` (- fst ` set (take k (freeable s)))"
    "\<forall>j < k. num_free_slots s + sum_list (map snd (take j (freeable s))) < embeds r i + already"
    unfolding sum by blast
  then show ?thesis by (intro exI[of _ b] exI[of _ s'] exI[of _ k]) (simp add: restrict_map_def)
qed

theorem can_allocate_exact_witness:
  "\<exists>s s'. cached s = [''A'' \<mapsto> {''r''}] \<and> can_allocate (image_request ''q'') 1 2 0 s = Inr (True, s')
     \<and> can_allocate (image_request ''q'') 0 9 0 s = Inr (False, s)"
proof -
  obtain s where s: "enc_reach image_features 7 s" "num_free_slots s = 3" "cached s = [''A'' \<mapsto> {''r''}]"
    using image_allocated[of 7] by auto
  have I: "enc_inv image_features s" "ec_cache_size s = 7" using enc_reach_inv[OF s(1)] by simp_all
  have "{h. h \<in> dom (cached s) \<and> cached s h \<noteq> Some {}} = {''A''}" "dom (cached s) = {''A''}"
    using s(3) by (auto split: if_splits)
  then have sum: "(\<Sum>h | h \<in> dom (cached s) \<and> cached s h \<noteq> Some {}. entry_size s h) = 4"
    using enc_invD(1)[OF I(1)] I(2) s(2) by (simp add: slots_ok_def)
  have "fst ` set (freeable s) = {h. cached s h = Some {}}" using enc_invD(2)[OF I(1)] by (auto simp: freeable_ok_def)
  then have "fst ` set (freeable s) = {}" using s(3) by (auto split: if_splits)
  then have fr: "freeable s = []" by simp
  from can_allocate_exact[OF s(1) image_features_of, of 1 "''q''" 2 0] obtain b s1 where
    "can_allocate (image_request ''q'') 1 2 0 s = Inr (b, s1)"
    "b \<longleftrightarrow> embeds (image_request ''q'') 1 \<le> 2 \<and> embeds (image_request ''q'') 1 + 0 \<le> 7 - (4 :: int)"
    unfolding sum by auto
  then have "can_allocate (image_request ''q'') 1 2 0 s = Inr (True, s1)" by simp
  moreover have "can_allocate (image_request ''q'') 0 9 0 s = Inr (False, s)"
    using s(2) enc_invD(1)[OF I(1)] fr feature_lookup(2)[OF image_features_of, of 0 "''q''"]
    by (simp add: can_allocate_def slots_ok_def)
  ultimately show ?thesis using s(3) by blast
qed

section \<open>Reports to the workers\<close>

inductive enc_path :: "features \<Rightarrow> enc_cache \<Rightarrow> enc_cache \<Rightarrow> bool" for F s where
  path_refl: "enc_path F s s"
| path_step: "enc_path F s t \<Longrightarrow> enc_guard F op t \<Longrightarrow> enc_step op t = Inr t' \<Longrightarrow> enc_path F s t'"

lemma enc_path_ok:
  assumes "enc_path F s t" "enc_inv F s"
  shows "enc_inv F t \<and> dom (cached s) \<subseteq> dom (cached t) \<union> set (freed t)"
  using assms
proof (induction rule: enc_path.induct)
  case (path_step t op t')
  then have t: "enc_inv F t" "dom (cached s) \<subseteq> dom (cached t) \<union> set (freed t)" by simp_all
  from enc_step_ok[OF t(1) path_step.hyps(2)] path_step.hyps(3)
  have "enc_inv F t'" "dom (cached t) \<subseteq> dom (cached t') \<union> set (freed t')" "set (freed t) \<subseteq> set (freed t')"
    by auto
  then show ?case using t(2) by blast
qed simp



section \<open>Scheduling\<close>

definition held :: "request \<Rightarrow> nat \<Rightarrow> enc_cache \<Rightarrow> bool" where
  "held r i s \<longleftrightarrow> ident r i \<in> ident r ` cached_ids s (request_id r)"

lemma held_referenced:
  assumes "enc_inv F s" "features_of F r" "held r i s"
  shows "\<exists>refs. cached s (ident r i) = Some refs \<and> request_id r \<in> refs"
proof -
  obtain j where j: "j \<in> cached_ids s (request_id r)" "ident r i = ident r j" using assms(3) by (auto simp: held_def)
  note refs = enc_invD(3)[OF assms(1), unfolded references_ok_def] and h = ident_hash[OF assms(2), of j]
  have "hash_at F (request_id r) j \<in> dom (cached s)" using refs j(1) by blast
  then obtain rs where "cached s (ident r j) = Some rs" unfolding h by blast
  then show ?thesis using refs j h by auto
qed

interpretation ec: encoder_cache cache_ops False "features_of F" "enc_inv F" num_free_slots
  "\<lambda>r i s. ident r i \<notin> dom (cached s)" held
proof unfold_locales
  fix r i s and budget already :: int
  show "features_of F r \<Longrightarrow> i < length (mm_features r) \<Longrightarrow> 0 \<le> embeds r i" by (rule feature_lookup(3))
  show "ident r i = ident r j \<Longrightarrow> held r i s = held r j s" for j by (simp add: held_def)
  show "0 \<le> num_free_slots s" if "enc_inv F s" using enc_invD(1)[OF that] by (simp add: slots_ok_def)
  assume I: "enc_inv F s" and r: "features_of F r" "i < length (mm_features r)"
  note id = ident_hash[OF r(1)]
  show "\<exists>m. op_embeds cache_ops r i s = Inr m"
    by (simp add: cache_ops_def get_cached_num_encoder_embeds_def feature_lookup(1)[OF r])
  show "\<exists>b s'. op_check cache_ops r i s = Inr (b, s') \<and> enc_inv F s' \<and> num_free_slots s' = num_free_slots s
      \<and> (b \<longrightarrow> held r i s') \<and> (\<not> b \<longrightarrow> ident r i \<notin> dom (cached s'))
      \<and> (\<forall>j < length (mm_features r). (held r j s \<longrightarrow> held r j s')
           \<and> (ident r j \<notin> dom (cached s) \<longrightarrow> ident r j \<notin> dom (cached s')))"
  proof (cases "hash_at F (request_id r) i \<in> dom (cached s)")
    case True
    from check_hit[OF I r True] show ?thesis by (auto simp: cache_ops_def held_def)
  next
    case False
    from check_miss[OF r False] show ?thesis using I False id[of i]
      by (intro exI[of _ False] exI[of _ s]) (simp add: cache_ops_def)
  qed
  show "\<exists>b s'. op_can_allocate cache_ops r i budget already s = Inr (b, s') \<and> enc_inv F s'
      \<and> num_free_slots s \<le> num_free_slots s'
      \<and> (b \<longrightarrow> embeds r i \<le> budget \<and> embeds r i + already \<le> num_free_slots s')
      \<and> (\<forall>j < length (mm_features r). (held r j s \<longrightarrow> held r j s')
           \<and> (ident r j \<notin> dom (cached s) \<longrightarrow> ident r j \<notin> dom (cached s')))"
  proof -
    from can_allocate_ok[OF I r, of budget already] obtain b s' k where
      s': "can_allocate r i budget already s = Inr (b, s')" "enc_inv F s'"
        "b \<longrightarrow> embeds r i \<le> budget" "b \<longrightarrow> embeds r i + already \<le> num_free_slots s'"
        "num_free_slots s \<le> num_free_slots s'" "request_cached_ids s' = request_cached_ids s"
        "cached s' = cached s |` (- fst ` set (take k (freeable s)))" by blast
    then show ?thesis by (intro exI[of _ b] exI[of _ s']) (simp add: cache_ops_def held_def cached_ids_def)
  qed
  assume fresh: "ident r i \<notin> dom (cached s)" and room: "embeds r i \<le> num_free_slots s"
  from allocate_ok[OF I r _ room] fresh id[of i] obtain s' where
    s': "allocate r i s = Inr s'" "enc_inv F s'" "num_free_slots s' = num_free_slots s - embeds r i"
      "cached s' = (cached s)(ident r i \<mapsto> {request_id r})"
      "\<forall>rid. cached_ids s' rid = (if rid = request_id r then insert i (cached_ids s rid) else cached_ids s rid)"
    by auto
  then show "\<exists>s'. op_allocate cache_ops r i s = Inr s' \<and> enc_inv F s'
      \<and> num_free_slots s' = num_free_slots s - embeds r i \<and> held r i s'
      \<and> (\<forall>j < length (mm_features r). (held r j s \<longrightarrow> held r j s')
           \<and> (ident r j \<notin> dom (cached s) \<longrightarrow> False \<or> ident r j \<noteq> ident r i \<longrightarrow> ident r j \<notin> dom (cached s')))"
    by (intro exI[of _ s']) (auto simp: cache_ops_def held_def)
qed simp_all

interpretation ed: encoder_cache encdec_ops True "\<lambda>r. \<forall>f \<in> set (mm_features r). 0 \<le> get_num_embeds f"
  "\<lambda>s. 0 \<le> ed_num_free_slots s" ed_num_free_slots "\<lambda>r i s. True"
  "\<lambda>r i s. ident r i \<in> set (ed_allocated s)"
  by unfold_locales
    (auto simp: encdec_ops_def ed_can_allocate_def ed_allocate_def get_num_encoder_embeds_def feature_hash_def Let_def)

text \<open>
  Property C18. No token is scheduled whose encoder output will be missing. For a request with
  well-formed features on any state of the cache that satisfies its invariant, selecting the
  inputs and allocating them never raises, keeps the invariant and never adds tokens; if tokens
  are scheduled, the compute budget pays for the inputs to be computed and stays non-negative,
  and every input with an embedding among the tokens is in the cache and referenced by the
  request, so no eviction can take it before it is freed.
\<close>

theorem scheduled_tokens_have_encoder_outputs:
  assumes "enc_reach F n s" "features_of F r" "features_wf r" "0 \<le> computed" "0 < new" "0 \<le> shift"
  shows "\<exists>ins new' budget' ext s' mism' s''.
     try_schedule_encoder_inputs cache_ops False chunk ec r computed new budget shift s mism
       = Inr ((ins, new', budget', ext), s', mism')
     \<and> 0 \<le> new' \<and> new' \<le> new
     \<and> allocate_selected cache_ops r ins ext s' = Inr s'' \<and> enc_inv F s''
     \<and> (0 < new' \<longrightarrow> budget' = budget - sum_list (map (embeds r) ins) \<and> (0 \<le> budget \<longrightarrow> 0 \<le> budget')
          \<and> (\<forall>i < length (mm_features r). needed (mm_features r ! i) computed (computed + new' + shift)
                \<longrightarrow> (\<exists>refs. cached s'' (ident r i) = Some refs \<and> request_id r \<in> refs)))"
proof -
  have I: "enc_inv F s" using enc_reach_inv[OF assms(1)] by simp
  from ec.try_schedule_ok[OF I assms(2-6), of chunk ec budget mism] obtain ins new' budget' ext s' mism' s'' where
    t: "try_schedule_encoder_inputs cache_ops False chunk ec r computed new budget shift s mism
       = Inr ((ins, new', budget', ext), s', mism')" "0 \<le> new'" "new' \<le> new"
      "allocate_selected cache_ops r ins ext s' = Inr s''" "enc_inv F s''"
      "0 < new' \<longrightarrow> budget' = budget - sum_list (map (embeds r) ins) \<and> (0 \<le> budget \<longrightarrow> 0 \<le> budget')
          \<and> (\<forall>i < length (mm_features r).
                needed (mm_features r ! i) computed (computed + new' + shift) \<longrightarrow> held r i s'')" by auto
  then show ?thesis using held_referenced[OF t(5) assms(2)] by blast
qed

theorem scheduled_tokens_have_encoder_outputs_witness:
  "\<exists>s ins new' budget' ext s' mism' s''. cached s = [''A'' \<mapsto> {''r''}]
     \<and> try_schedule_encoder_inputs cache_ops False False None (image_request ''q'') 2 10 8 0 s {}
         = Inr ((ins, new', budget', ext), s', mism')
     \<and> new' \<le> 10 \<and> allocate_selected cache_ops (image_request ''q'') ins ext s' = Inr s''
     \<and> (0 < new' \<longrightarrow> (\<exists>refs. cached s'' ''A'' = Some refs \<and> ''q'' \<in> refs))"
proof -
  obtain s where s: "enc_reach image_features 7 s" "cached s = [''A'' \<mapsto> {''r''}]"
    using image_allocated[of 7] by auto
  have "(0 :: int) \<le> 2" "(0 :: int) < 10" "(0 :: int) \<le> 0" by simp_all
  from scheduled_tokens_have_encoder_outputs[OF s(1) image_features_of[of "''q''"] image_features_wf this,
      where chunk = False and ec = None and budget = 8 and mism = "{}"]
  obtain ins new' budget' ext s' mism' s'' where
    t: "try_schedule_encoder_inputs cache_ops False False None (image_request ''q'') 2 10 8 0 s {}
         = Inr ((ins, new', budget', ext), s', mism')" "new' \<le> 10"
      "allocate_selected cache_ops (image_request ''q'') ins ext s' = Inr s''"
      "0 < new' \<longrightarrow> (\<forall>i < length (mm_features (image_request ''q'')).
         needed (mm_features (image_request ''q'') ! i) 2 (2 + new' + 0)
           \<longrightarrow> (\<exists>refs. cached s'' (ident (image_request ''q'') i) = Some refs \<and> request_id (image_request ''q'') \<in> refs))"
    by auto
  have "needed (mm_features (image_request ''q'') ! 0) 2 (2 + new' + 0)" if "0 < new'"
    unfolding needed_def using that by (intro exI[of _ 2]) (simp add: embed_at_def image_request_def)
  then have "0 < new' \<longrightarrow> (\<exists>refs. cached s'' ''A'' = Some refs \<and> ''q'' \<in> refs)"
    using t(4) image_request_sel(1,2,5) by (metis zero_less_numeral)
  then show ?thesis using s(2) t(1-3) by blast
qed

section \<open>Freeing in the encoder-decoder manager\<close>

lemma ed_free_all:
  assumes "set order \<subseteq> {0..<length (mm_features r)}" "0 < num_computed_tokens r"
  shows "\<exists>s'. free_processed encdec_ops True la r order s = Inr s'
    \<and> ed_num_free_slots s' = ed_num_free_slots s + sum_list (map (embeds r) order)"
  using assms
proof (induction order arbitrary: s)
  case (Cons i order)
  let ?s1 = "s\<lparr>ed_num_free_slots := ed_num_free_slots s + embeds r i\<rparr>"
  have "free_processed encdec_ops True la r (i # order) s = free_processed encdec_ops True la r order ?s1"
    using Cons.prems
    by (simp add: free_processed_def encdec_ops_def ed_free_encoder_input_def get_num_encoder_embeds_def)
  moreover from Cons.IH[of ?s1] Cons.prems obtain s2 where
    "free_processed encdec_ops True la r order ?s1 = Inr s2"
    "ed_num_free_slots s2 = ed_num_free_slots ?s1 + sum_list (map (embeds r) order)" by auto
  ultimately show ?case by simp
qed (simp add: free_processed_def)

text \<open>
  The encoder-decoder manager frees the same inputs again at every step. Its
  \<open>get_cached_input_ids\<close> lists all inputs of the request whatever has been freed, so once a
  token is computed each call of \<open>_free_encoder_inputs\<close> adds the sizes of all of them to the
  free slots: after \<open>k\<close> steps the counter has grown by \<open>k\<close> times the request's size, past the
  capacity for every \<open>k\<close> above one.
\<close>

theorem encdec_slots_grow_per_step:
  assumes "0 < num_computed_tokens r" "\<forall>order \<in> set orders. distinct order \<and> set order = ed_get_cached_input_ids r s"
  shows "\<exists>s'. fold_res (\<lambda>order. free_processed encdec_ops True la r order) orders s = Inr s'
    \<and> ed_num_free_slots s' = ed_num_free_slots s
        + int (length orders) * (\<Sum>i < length (mm_features r). embeds r i)"
  using assms
proof (induction orders arbitrary: s)
  case (Cons order orders)
  have o: "distinct order" "set order = {0..<length (mm_features r)}"
    using Cons.prems(2) by (simp_all add: ed_get_cached_input_ids_def)
  then have "sum_list (map (embeds r) order) = (\<Sum>i < length (mm_features r). embeds r i)"
    by (simp add: sum_list_distinct_conv_sum_set atLeast0LessThan)
  moreover from ed_free_all[of order r la s] o(2) Cons.prems(1) obtain s1 where
    s1: "free_processed encdec_ops True la r order s = Inr s1"
      "ed_num_free_slots s1 = ed_num_free_slots s + sum_list (map (embeds r) order)" by auto
  moreover from Cons.IH[OF Cons.prems(1), of s1] Cons.prems(2) obtain s2 where
    "fold_res (\<lambda>order. free_processed encdec_ops True la r order) orders s1 = Inr s2"
    "ed_num_free_slots s2 = ed_num_free_slots s1
        + int (length orders) * (\<Sum>i < length (mm_features r). embeds r i)"
    by (auto simp: ed_get_cached_input_ids_def)
  ultimately show ?case by (simp add: algebra_simps)
qed simp

theorem encdec_slots_grow_per_step_witness:
  "\<exists>s s'. fold_res (ed_allocate (image_request ''r'')) [0, 1] (new_encdec_cache 8) = Inr s
     \<and> fold_res (\<lambda>order. free_processed encdec_ops True 0 ((image_request ''r'')\<lparr>num_computed_tokens := 1\<rparr>) order)
         [[0, 1], [1, 0], [0, 1]] s = Inr s'
     \<and> ed_cache_size s = 8 \<and> ed_num_free_slots s' = 20"
proof -
  let ?r = "image_request ''r''" let ?r1 = "?r\<lparr>num_computed_tokens := 1\<rparr>"
  have "\<exists>s. fold_res (ed_allocate ?r) [0, 1] (new_encdec_cache 8) = Inr s \<and> ed_num_free_slots s = 2
      \<and> ed_cache_size s = 8"
    by (simp add: ed_allocate_def get_num_encoder_embeds_def feature_hash_def new_encdec_cache_def Let_def)
  then obtain s where s: "fold_res (ed_allocate ?r) [0, 1] (new_encdec_cache 8) = Inr s"
    "ed_num_free_slots s = 2" "ed_cache_size s = 8" by blast
  have "\<forall>order \<in> set [[0, 1], [1, 0], [0, 1 :: nat]]. distinct order \<and> set order = ed_get_cached_input_ids ?r1 s"
    by (auto simp: ed_get_cached_input_ids_def)
  from encdec_slots_grow_per_step[OF _ this, of 0] s show ?thesis
    by (auto simp: numeral_2_eq_2 lessThan_Suc)
qed

end
