(* ===== verification/Heapq.thy ===== *)
theory Heapq imports Prelude "HOL-Library.Multiset"
begin

text \<open>
  Python's \<^verbatim>\<open>heapq\<close>, which the priority queue is built on: a binary heap in a list, with the
  sifting loops as the library writes them (the moved item is kept aside, the hole travels). The
  order is an argument, as the library only calls \<^verbatim>\<open>__lt__\<close>.
\<close>

section \<open>The operations\<close>

definition parent :: "nat \<Rightarrow> nat" where
  "parent i = (i - 1) div 2"

lemma parent_less [simp]: "0 < i \<Longrightarrow> parent i < i"
  by (simp add: parent_def)

lemma parent_neq [simp]: "0 < i \<Longrightarrow> parent i \<noteq> i" "0 < i \<Longrightarrow> i \<noteq> parent i"
  using parent_less[of i] by linarith+

lemma parent_less_length [intro]: "i < n \<Longrightarrow> parent i < n"
  by (simp add: parent_def)

lemma parent_eq_iff: "0 < i \<Longrightarrow> parent i = p \<longleftrightarrow> i = 2 * p + 1 \<or> i = 2 * p + 2"
  unfolding parent_def by presburger

function siftdown_loop :: "('a \<Rightarrow> 'a \<Rightarrow> bool) \<Rightarrow> 'a \<Rightarrow> nat \<Rightarrow> nat \<Rightarrow> 'a list \<Rightarrow> 'a list" where
  "siftdown_loop lt x start pos h =
     (if pos > start \<and> lt x (h ! parent pos)
      then siftdown_loop lt x start (parent pos) (h[pos := h ! parent pos])
      else h[pos := x])"
  by pat_completeness auto
termination by (relation "measure (\<lambda>(lt, x, start, pos, h). pos)") auto

definition siftdown :: "('a \<Rightarrow> 'a \<Rightarrow> bool) \<Rightarrow> 'a list \<Rightarrow> nat \<Rightarrow> nat \<Rightarrow> 'a list" where
  "siftdown lt h start pos = siftdown_loop lt (h ! pos) start pos h"

text \<open>The smaller child of a position.\<close>

definition child_of :: "('a \<Rightarrow> 'a \<Rightarrow> bool) \<Rightarrow> 'a list \<Rightarrow> nat \<Rightarrow> nat" where
  "child_of lt h pos =
     (let child = 2 * pos + 1; right = child + 1
      in if right < length h \<and> \<not> lt (h ! child) (h ! right) then right else child)"

function siftup_loop :: "('a \<Rightarrow> 'a \<Rightarrow> bool) \<Rightarrow> nat \<Rightarrow> 'a list \<Rightarrow> nat \<times> 'a list" where
  "siftup_loop lt pos h =
     (if 2 * pos + 1 < length h
      then siftup_loop lt (child_of lt h pos) (h[pos := h ! child_of lt h pos])
      else (pos, h))"
  by pat_completeness auto
termination
  by (relation "measure (\<lambda>(lt, pos, h). length h - pos)") (auto simp: child_of_def Let_def)

definition siftup :: "('a \<Rightarrow> 'a \<Rightarrow> bool) \<Rightarrow> 'a list \<Rightarrow> nat \<Rightarrow> 'a list" where
  "siftup lt h pos =
     (let x = h ! pos; (p, h) = siftup_loop lt pos h in siftdown lt (h[p := x]) pos p)"

definition heappush :: "('a \<Rightarrow> 'a \<Rightarrow> bool) \<Rightarrow> 'a list \<Rightarrow> 'a \<Rightarrow> 'a list" where
  "heappush lt h x = siftdown lt (h @ [x]) 0 (length h)"

definition heappop :: "('a \<Rightarrow> 'a \<Rightarrow> bool) \<Rightarrow> 'a list \<Rightarrow> ('a \<times> 'a list) res" where
  "heappop lt h =
     (if h = [] then Inl IndexError
      else let x = last h; h = butlast h
           in if h = [] then Inr (x, h) else Inr (h ! 0, siftup lt (h[0 := x]) 0))"

definition heapify :: "('a \<Rightarrow> 'a \<Rightarrow> bool) \<Rightarrow> 'a list \<Rightarrow> 'a list" where
  "heapify lt h = fold (\<lambda>i h. siftup lt h i) (rev [0..<length h div 2]) h"

declare siftdown_loop.simps [simp del] siftup_loop.simps [simp del]

lemma siftdown_loop_go:
  assumes "pos > start \<and> lt x (h ! parent pos)"
  shows "siftdown_loop lt x start pos h = siftdown_loop lt x start (parent pos) (h[pos := h ! parent pos])"
  using assms by (subst siftdown_loop.simps) (rule if_P)

lemma siftdown_loop_stop:
  assumes "\<not> (pos > start \<and> lt x (h ! parent pos))"
  shows "siftdown_loop lt x start pos h = h[pos := x]"
  using assms by (subst siftdown_loop.simps) (rule if_not_P)

lemma siftup_loop_go:
  assumes "2 * pos + 1 < length h"
  shows "siftup_loop lt pos h = siftup_loop lt (child_of lt h pos) (h[pos := h ! child_of lt h pos])"
  using assms by (subst siftup_loop.simps) (rule if_P)

lemma siftup_loop_stop:
  assumes "\<not> 2 * pos + 1 < length h"
  shows "siftup_loop lt pos h = (pos, h)"
  using assms by (subst siftup_loop.simps) (rule if_not_P)

section \<open>Contents\<close>

lemma mset_move_hole:
  assumes "p < length h" "q < length h" "p \<noteq> q"
  shows "mset ((h[p := h ! q])[q := x]) = mset (h[p := x])"
proof -
  let ?g = "h[p := x]"
  have "?g[p := ?g ! q, q := ?g ! p] = (h[p := h ! q])[q := x]" using assms by simp
  moreover have "mset (?g[p := ?g ! q, q := ?g ! p]) = mset ?g" using assms by (intro mset_swap) simp_all
  ultimately show ?thesis by simp
qed

lemma siftdown_loop_mset:
  "pos < length h \<Longrightarrow> mset (siftdown_loop lt x start pos h) = mset (h[pos := x])"
proof (induction lt x start pos h rule: siftdown_loop.induct)
  case (1 lt x start pos h)
  show ?case
  proof (cases "pos > start \<and> lt x (h ! parent pos)")
    case True
    then have "parent pos < pos" by simp
    then have p: "parent pos < length h" "pos \<noteq> parent pos" using 1(2) by auto
    have "mset (siftdown_loop lt x start (parent pos) (h[pos := h ! parent pos]))
      = mset ((h[pos := h ! parent pos])[parent pos := x])" using 1(1)[OF True] p by simp
    then show ?thesis unfolding siftdown_loop_go[of start pos lt x h, OF True] mset_move_hole[OF 1(2) p] .
  qed (simp add: siftdown_loop_stop)
qed

lemma siftdown_mset [simp]: "pos < length h \<Longrightarrow> mset (siftdown lt h start pos) = mset h"
  by (simp add: siftdown_def siftdown_loop_mset)

lemma child_of_bounds:
  assumes "2 * pos + 1 < length h"
  shows "child_of lt h pos < length h" "pos < child_of lt h pos" "parent (child_of lt h pos) = pos"
  using assms by (auto simp: child_of_def Let_def parent_def)

lemma siftup_loop_mset:
  "pos < length h \<Longrightarrow> siftup_loop lt pos h = (p, h') \<Longrightarrow>
    p < length h' \<and> length h' = length h \<and> mset (h'[p := x]) = mset (h[pos := x])"
proof (induction lt pos h rule: siftup_loop.induct)
  case (1 lt pos h)
  show ?case
  proof (cases "2 * pos + 1 < length h")
    case True
    note c = child_of_bounds[OF True, of lt]
    have "siftup_loop lt (child_of lt h pos) (h[pos := h ! child_of lt h pos]) = (p, h')"
      using 1(3) siftup_loop_go[OF True, of lt] by simp
    with 1(1)[OF True] c have "p < length h' \<and> length h' = length h
      \<and> mset (h'[p := x]) = mset ((h[pos := h ! child_of lt h pos])[child_of lt h pos := x])" by simp
    then show ?thesis using mset_move_hole[OF 1(2) c(1), of x] c(2) by simp
  qed (use 1 in \<open>simp add: siftup_loop_stop\<close>)
qed

lemma siftup_mset [simp]:
  assumes "pos < length h"
  shows "mset (siftup lt h pos) = mset h"
proof -
  obtain p h' where l: "siftup_loop lt pos h = (p, h')" by fastforce
  from siftup_loop_mset[OF assms l, of "h ! pos"] show ?thesis by (simp add: siftup_def l)
qed

lemma heappush_mset [simp]: "mset (heappush lt h x) = add_mset x (mset h)"
  by (simp add: heappush_def)

lemma fold_siftup_mset:
  "\<forall>i \<in> set is'. i < length h \<Longrightarrow> mset (fold (\<lambda>i h. siftup lt h i) is' h) = mset h"
proof (induction is' arbitrary: h)
  case (Cons i is')
  have "mset (siftup lt h i) = mset h" using Cons.prems by simp
  moreover from this have "length (siftup lt h i) = length h" by (metis size_mset)
  ultimately show ?case using Cons by simp
qed simp

lemma heapify_mset [simp]: "mset (heapify lt h) = mset h"
  unfolding heapify_def by (intro fold_siftup_mset) auto

lemma heappop_mset:
  assumes "h \<noteq> []"
  shows "\<exists>h'. heappop lt h = Inr (h ! 0, h') \<and> mset h = add_mset (h ! 0) (mset h')"
proof (cases "butlast h = []")
  case True
  then obtain y where "h = [y]" using assms by (cases h) (auto split: if_splits)
  then show ?thesis by (simp add: heappop_def)
next
  case False
  let ?b = "butlast h"
  have h: "?b @ [last h] = h" using assms by simp
  have 0: "?b ! 0 = h ! 0" using False by (cases h rule: rev_cases) (auto simp: nth_append)
  have "0 < length ?b" by (rule length_greater_0_conv[THEN iffD2, OF False])
  note upd = mset_update[OF this, of "last h"] and len = this
  have "add_mset (h ! 0) (mset (siftup lt (?b[0 := last h]) 0)) = add_mset (last h) (mset ?b)"
    using siftup_mset[of 0 "?b[0 := last h]" lt] len 0 nth_mem_mset[OF len] by (simp only: upd length_list_update) simp
  also have "\<dots> = mset (?b @ [last h])" by simp
  finally show ?thesis using False assms 0 unfolding h by (simp add: heappop_def Let_def)
qed

section \<open>The heap order\<close>

text \<open>\<open>lt\<close> is a strict order with a total \<open>\<not> lt b a\<close>, the only thing the library asks for.\<close>

locale heap_order =
  fixes lt :: "'a \<Rightarrow> 'a \<Rightarrow> bool"
  assumes lt_asym: "lt a b \<Longrightarrow> \<not> lt b a"
    and not_lt_trans: "\<not> lt b a \<Longrightarrow> \<not> lt c b \<Longrightarrow> \<not> lt c a"
begin

text \<open>No element from position \<open>start\<close> on is above one that is less.\<close>

definition heap_from :: "nat \<Rightarrow> 'a list \<Rightarrow> bool" where
  "heap_from start h \<longleftrightarrow> (\<forall>i < length h. 0 < i \<longrightarrow> start \<le> parent i \<longrightarrow> \<not> lt (h ! i) (h ! parent i))"

text \<open>
  The same with a hole: the edges at \<open>pos\<close> are left out, and the children of the hole do not
  precede its parent.
\<close>

definition hole_from :: "nat \<Rightarrow> nat \<Rightarrow> 'a list \<Rightarrow> bool" where
  "hole_from start pos h \<longleftrightarrow>
     (\<forall>i < length h. 0 < i \<longrightarrow> start \<le> parent i \<longrightarrow> i \<noteq> pos \<longrightarrow> parent i \<noteq> pos \<longrightarrow> \<not> lt (h ! i) (h ! parent i))
     \<and> (\<forall>i < length h. 0 < i \<longrightarrow> parent i = pos \<longrightarrow> start < pos \<longrightarrow> \<not> lt (h ! i) (h ! parent pos))"

text \<open>\<open>pos\<close> is a descendant of \<open>start\<close>.\<close>

inductive below :: "nat \<Rightarrow> nat \<Rightarrow> bool" for start where
  below_refl: "below start start"
| below_child: "below start (parent i) \<Longrightarrow> 0 < i \<Longrightarrow> start < i \<Longrightarrow> below start i"

lemma below_parent: "below start pos \<Longrightarrow> start < pos \<Longrightarrow> below start (parent pos)"
  by (erule below.cases) auto

lemma below_le: "below start pos \<Longrightarrow> start \<le> pos"
  by (induction rule: below.induct) auto

lemma below_zero: "below 0 pos"
proof (induction pos rule: less_induct)
  case (less pos)
  show ?case
  proof (cases "pos = 0")
    case True
    then show ?thesis using below_refl by simp
  next
    case False
    have "parent pos < pos" using False by simp
    from below_child[OF less[OF this]] False show ?thesis by simp
  qed
qed

lemma siftdown_loop_heap:
  assumes "hole_from start pos h" "pos < length h" "below start pos"
    "\<And>i. i < length h \<Longrightarrow> 0 < i \<Longrightarrow> parent i = pos \<Longrightarrow> \<not> lt (h ! i) x"
  shows "heap_from start (siftdown_loop lt x start pos h)"
  using assms
proof (induction pos arbitrary: h rule: less_induct)
  case (less pos)
  note hole = less.prems(1)[unfolded hole_from_def]
  show ?case
  proof (cases "pos > start \<and> lt x (h ! parent pos)")
    case False
    have "\<not> lt (h[pos := x] ! i) (h[pos := x] ! parent i)"
      if i: "i < length h" "0 < i" "start \<le> parent i" for i
    proof -
      have p: "parent i < i" using i(2) by simp
      consider "i = pos" | "parent i = pos" "i \<noteq> pos" | "i \<noteq> pos" "parent i \<noteq> pos" by blast
      then show ?thesis
      proof cases
        case 1
        then have "start < pos" using i p by simp
        then show ?thesis using False 1 p i by simp
      next
        case 2
        then show ?thesis using less.prems(4)[OF i(1,2)] less.prems(2) by simp
      next
        case 3
        then show ?thesis using hole i by simp
      qed
    qed
    then show ?thesis unfolding siftdown_loop_stop[of start pos lt x h, OF False] heap_from_def by simp
  next
    case True
    let ?p = "parent pos" let ?h = "h[pos := h ! ?p]"
    have p: "?p < pos" "below start ?p" "start \<le> ?p"
      using True below_parent[OF less.prems(3)] below_le by auto
    have ne: "0 < pos" using True by simp
    have up: "\<not> lt (h ! i) (h ! ?p)" if "i < length h" "0 < i" "parent i = ?p \<or> parent i = pos" "i \<noteq> pos" for i
      using that hole True p by auto
    have "hole_from start ?p ?h"
      unfolding hole_from_def
    proof (intro conjI allI impI)
      fix i assume i: "i < length ?h" "0 < i" "start \<le> parent i" "i \<noteq> ?p" "parent i \<noteq> ?p"
      have "i \<noteq> pos" using i(5) by blast
      then show "\<not> lt (?h ! i) (?h ! parent i)"
        using i up[of i] hole less.prems(2) by (cases "parent i = pos") auto
    next
      fix i assume i: "i < length ?h" "0 < i" "parent i = ?p" "start < ?p"
      then have "start \<le> parent ?p" using below_parent[OF p(2)] below_le by blast
      moreover have "?p < length h" "0 < ?p" "parent ?p \<noteq> pos" "parent ?p \<noteq> ?p" "?p \<noteq> pos"
        using i(4) p(1) less.prems(2) parent_less[of ?p] by linarith+
      ultimately have q: "\<not> lt (h ! ?p) (h ! parent ?p)" using hole by blast
      show "\<not> lt (?h ! i) (?h ! parent ?p)"
      proof (cases "i = pos")
        case True
        then show ?thesis using q less.prems(2) \<open>parent ?p \<noteq> pos\<close> by simp
      next
        case False
        then show ?thesis using not_lt_trans[OF q up[of i]] i \<open>parent ?p \<noteq> pos\<close> by simp
      qed
    qed
    moreover have "\<not> lt (?h ! i) x" if "i < length ?h" "0 < i" "parent i = ?p" for i
    proof (cases "i = pos")
      case False
      then show ?thesis using not_lt_trans[of "h ! ?p" x "h ! i"] lt_asym True up[of i] that by simp
    qed (use lt_asym True less.prems(2) in simp)
    ultimately have "heap_from start (siftdown_loop lt x start ?p ?h)"
      using less.IH[OF p(1), of ?h] p less.prems(2) by simp
    then show ?thesis unfolding siftdown_loop_go[of start pos lt x h, OF True] .
  qed
qed

lemma child_of_least:
  assumes "2 * pos + 1 < length h" "i < length h" "0 < i" "parent i = pos"
  shows "\<not> lt (h ! i) (h ! child_of lt h pos)"
proof -
  have "i = 2 * pos + 1 \<or> i = 2 * pos + 2" using parent_eq_iff[OF assms(3)] assms(4) by blast
  then show ?thesis using assms(2) lt_asym by (auto simp: child_of_def Let_def)
qed

lemma hole_moves_down:
  assumes H: "hole_from start pos h" and c: "2 * pos + 1 < length h" and b: "below start pos"
  defines "k \<equiv> child_of lt h pos"
  shows "hole_from start k (h[pos := h ! k])" "below start k"
proof -
  note hole = H[unfolded hole_from_def] and k = child_of_bounds[OF c, of lt, folded k_def]
  have s: "start \<le> pos" using below_le[OF b] .
  show "below start k" using below_child[of start k] b k s by simp
  show "hole_from start k (h[pos := h ! k])"
    unfolding hole_from_def
  proof (intro conjI allI impI)
    fix i assume i: "i < length (h[pos := h ! k])" "0 < i" "start \<le> parent i" "i \<noteq> k" "parent i \<noteq> k"
    have p: "parent i < i" using i(2) by simp
    consider "i = pos" | "parent i = pos" "i \<noteq> pos" | "parent i \<noteq> pos" "i \<noteq> pos" by blast
    then show "\<not> lt (h[pos := h ! k] ! i) (h[pos := h ! k] ! parent i)"
    proof cases
      case 1
      then have "start < pos" using i p by simp
      then have "\<not> lt (h ! k) (h ! parent pos)" using hole k by auto
      then show ?thesis using 1 p i(1) by simp
    next
      case 2
      then show ?thesis using child_of_least[OF c, of i] i k by (simp add: k_def)
    next
      case 3
      then show ?thesis using hole i by simp
    qed
  next
    fix i assume i: "i < length (h[pos := h ! k])" "0 < i" "parent i = k" "start < k"
    have "i \<noteq> pos" using parent_less[OF i(2)] i(3) k(2) by linarith
    moreover have "\<not> lt (h ! i) (h ! parent i)"
      using hole i(1-3) k s \<open>i \<noteq> pos\<close> by (intro conjunct1[OF hole, rule_format]) simp_all
    ultimately show "\<not> lt (h[pos := h ! k] ! i) (h[pos := h ! k] ! parent k)" using i(3) k by simp
  qed
qed

lemma siftup_loop_heap:
  assumes "hole_from start pos h" "pos < length h" "below start pos" "siftup_loop lt pos h = (p, h')"
  shows "hole_from start p h' \<and> below start p \<and> \<not> 2 * p + 1 < length h'"
  using assms
proof (induction "length h - pos" arbitrary: pos h rule: less_induct)
  case less
  show ?case
  proof (cases "2 * pos + 1 < length h")
    case True
    note k = child_of_bounds[OF True, of lt]
    let ?h = "h[pos := h ! child_of lt h pos]"
    have "siftup_loop lt (child_of lt h pos) ?h = (p, h')"
      using less.prems(4) siftup_loop_go[OF True, of lt] by simp
    then show ?thesis
      using less.hyps[of ?h "child_of lt h pos"] hole_moves_down[OF less.prems(1) True less.prems(3)] k by simp
  qed (use less.prems in \<open>simp add: siftup_loop_stop\<close>)
qed

lemma siftdown_heap:
  assumes "hole_from start pos h" "pos < length h" "below start pos"
    "\<And>i. i < length h \<Longrightarrow> 0 < i \<Longrightarrow> parent i = pos \<Longrightarrow> \<not> lt (h ! i) (h ! pos)"
  shows "heap_from start (siftdown lt h start pos)"
  unfolding siftdown_def by (rule siftdown_loop_heap[OF assms])

lemma hole_update:
  assumes "hole_from start pos h"
  shows "hole_from start pos (h[pos := x])"
  unfolding hole_from_def
proof (intro conjI allI impI)
  fix i assume i: "i < length (h[pos := x])" "0 < i" "parent i = pos" "start < pos"
  then have "\<not> lt (h ! i) (h ! parent pos)" using assms by (simp add: hole_from_def)
  then show "\<not> lt (h[pos := x] ! i) (h[pos := x] ! parent pos)" using i parent_neq[of pos] by auto
qed (use assms in \<open>simp add: hole_from_def\<close>)

lemma siftup_heap:
  assumes "heap_from (Suc start) h" "start < length h"
  shows "heap_from start (siftup lt h start)"
proof -
  obtain p h' where l: "siftup_loop lt start h = (p, h')" by fastforce
  have "hole_from start start h" using assms(1) unfolding heap_from_def hole_from_def by auto
  from siftup_loop_heap[OF this assms(2) below_refl l]
  have p: "hole_from start p h'" "below start p" "\<not> 2 * p + 1 < length h'" by simp_all
  have len: "p < length h'" using siftup_loop_mset[OF assms(2) l, of "h ! start"] by simp
  have "\<not> (i < length h' \<and> 0 < i \<and> parent i = p)" for i using p(3) parent_eq_iff[of i p] by auto
  then have "heap_from start (siftdown lt (h'[p := h ! start]) start p)"
    using hole_update[OF p(1)] p(2) len by (intro siftdown_heap) auto
  then show ?thesis by (simp add: siftup_def l)
qed

text \<open>The library's operations keep the heap order, and the root precedes every element.\<close>

abbreviation heap :: "'a list \<Rightarrow> bool" where
  "heap \<equiv> heap_from 0"

lemma heap_empty: "heap []"
  by (simp add: heap_from_def)

lemma heappush_heap: "heap h \<Longrightarrow> heap (heappush lt h x)"
  unfolding heappush_def
proof (rule siftdown_heap)
  assume h: "heap h"
  show "hole_from 0 (length h) (h @ [x])"
    unfolding hole_from_def
  proof (intro conjI allI impI)
    fix i assume i: "i < length (h @ [x])" "0 < i" "i \<noteq> length h"
    then show "\<not> lt ((h @ [x]) ! i) ((h @ [x]) ! parent i)"
      using h parent_less_length[of i "length h"] by (simp add: heap_from_def nth_append)
  next
    fix i assume "i < length (h @ [x])" "0 < i" "parent i = length h"
    then show "\<not> lt ((h @ [x]) ! i) ((h @ [x]) ! parent (length h))" using parent_less[of i] by simp
  qed
next
  fix i assume "i < length (h @ [x])" "0 < i" "parent i = length h"
  then show "\<not> lt ((h @ [x]) ! i) ((h @ [x]) ! length h)" using parent_less[of i] by simp
qed (simp_all add: below_zero)

lemma heap_butlast: "heap h \<Longrightarrow> heap (butlast h)"
  by (simp add: heap_from_def nth_butlast parent_less_length)

lemma heappop_heap:
  assumes "heap h" "heappop lt h = Inr (x, h')"
  shows "heap h'"
proof (cases "butlast h = []")
  case True
  then show ?thesis using assms(2) heap_empty by (auto simp: heappop_def Let_def split: if_splits)
next
  case False
  have "heap_from (Suc 0) ((butlast h)[0 := last h])"
    unfolding heap_from_def
  proof (intro allI impI)
    fix i assume i: "i < length ((butlast h)[0 := last h])" "0 < i" "Suc 0 \<le> parent i"
    then have "\<not> lt (butlast h ! i) (butlast h ! parent i)"
      using heap_butlast[OF assms(1)] by (simp add: heap_from_def)
    then show "\<not> lt ((butlast h)[0 := last h] ! i) ((butlast h)[0 := last h] ! parent i)"
      using i(2,3) by simp
  qed
  moreover have "0 < length ((butlast h)[0 := last h])"
    using length_greater_0_conv[THEN iffD2, OF False] by (simp only: length_list_update)
  ultimately have "heap (siftup lt ((butlast h)[0 := last h]) 0)" by (rule siftup_heap)
  moreover have "h \<noteq> []" using False by auto
  then have "heappop lt h = Inr (butlast h ! 0, siftup lt ((butlast h)[0 := last h]) 0)"
    using False unfolding heappop_def Let_def by (simp only: if_False)
  ultimately show ?thesis using assms(2) by simp
qed

lemma fold_siftup_heap:
  "heap_from n h \<Longrightarrow> n \<le> length h \<Longrightarrow> heap (fold (\<lambda>i h. siftup lt h i) (rev [0..<n]) h)"
proof (induction n arbitrary: h)
  case (Suc n)
  have "mset (siftup lt h n) = mset h" using Suc.prems(2) by simp
  then have "length (siftup lt h n) = length h" by (metis size_mset)
  then show ?case using Suc.IH[OF siftup_heap[OF Suc.prems(1)]] Suc.prems(2) by simp
qed simp

lemma heapify_heap: "heap (heapify lt h)"
proof -
  have "heap_from (length h div 2) h" unfolding heap_from_def parent_def by auto
  then show ?thesis unfolding heapify_def by (rule fold_siftup_heap) simp
qed

lemma heap_root:
  assumes "heap h" "i < length h"
  shows "\<not> lt (h ! i) (h ! 0)"
  using assms(2)
proof (induction i rule: less_induct)
  case (less i)
  show ?case
  proof (cases "i = 0")
    case True
    then show ?thesis using lt_asym by blast
  next
    case False
    have p: "parent i < i" using False by simp
    have "\<not> lt (h ! i) (h ! parent i)" using assms(1) less.prems False by (simp add: heap_from_def)
    moreover have "\<not> lt (h ! parent i) (h ! 0)" using less.IH[OF p] p less.prems by simp
    ultimately show ?thesis using not_lt_trans by blast
  qed
qed

lemma heap_root_set: "heap h \<Longrightarrow> x \<in> set h \<Longrightarrow> \<not> lt x (h ! 0)"
  using heap_root by (metis in_set_conv_nth)

end

end
