(* ===== verification/RequestQueue.thy ===== *)
theory RequestQueue imports RequestModel Heapq
begin

text \<open>
  The waiting queues of \<^verbatim>\<open>vllm/v1/core/sched/request_queue.py\<close> and the way the scheduler uses
  them: the first-come-first-served deque, the priority heap, the pass over the waiting requests
  with its set-aside deques, enqueueing and removal.

  A request is an object that several containers refer to, so the queues hold references: a
  number per object, its \<^verbatim>\<open>id()\<close>, with \<open>st\<close> giving the object's present contents.
\<close>

type_synonym store = "nat \<Rightarrow> request"

section \<open>\<open>FCFSRequestQueue\<close>\<close>

definition fcfs_add :: "nat \<Rightarrow> nat list \<Rightarrow> nat list" where
  "fcfs_add r q = q @ [r]"

definition fcfs_pop :: "nat list \<Rightarrow> (nat \<times> nat list) res" where
  "fcfs_pop q = (case q of [] \<Rightarrow> Inl IndexError | r # q \<Rightarrow> Inr (r, q))"

definition fcfs_peek :: "nat list \<Rightarrow> nat res" where
  "fcfs_peek q = (if q = [] then Inl IndexError else Inr (q ! 0))"

definition fcfs_prepend :: "nat \<Rightarrow> nat list \<Rightarrow> nat list" where
  "fcfs_prepend r q = r # q"

definition fcfs_prepend_requests :: "nat list \<Rightarrow> nat list \<Rightarrow> nat list" where
  "fcfs_prepend_requests rs q = fold (#) rs q"

definition fcfs_remove :: "nat \<Rightarrow> nat list \<Rightarrow> nat list res" where
  "fcfs_remove r q = (if r \<in> set q then Inr (remove1 r q) else Inl ValueError)"

definition fcfs_remove_requests :: "nat list \<Rightarrow> nat list \<Rightarrow> nat list" where
  "fcfs_remove_requests rs q = (let gone = set rs in filter (\<lambda>r. r \<notin> gone) q)"

section \<open>\<open>PriorityRequestQueue\<close>\<close>

definition ref_lt :: "store \<Rightarrow> nat \<Rightarrow> nat \<Rightarrow> bool" where
  "ref_lt st x y = request_lt x y (st x) (st y)"

definition prio_add :: "store \<Rightarrow> nat \<Rightarrow> nat list \<Rightarrow> nat list" where
  "prio_add st r h = heappush (ref_lt st) h r"

definition prio_pop :: "store \<Rightarrow> nat list \<Rightarrow> (nat \<times> nat list) res" where
  "prio_pop st h = (if h = [] then Inl IndexError else heappop (ref_lt st) h)"

definition prio_peek :: "nat list \<Rightarrow> nat res" where
  "prio_peek h = (if h = [] then Inl IndexError else Inr (h ! 0))"

definition prio_prepend :: "store \<Rightarrow> nat \<Rightarrow> nat list \<Rightarrow> nat list" where
  "prio_prepend st r h = prio_add st r h"

definition prio_prepend_requests :: "store \<Rightarrow> nat list \<Rightarrow> nat list \<Rightarrow> nat list" where
  "prio_prepend_requests st rs h = fold (prio_add st) rs h"

definition prio_remove :: "store \<Rightarrow> nat \<Rightarrow> nat list \<Rightarrow> nat list res" where
  "prio_remove st r h = (if r \<in> set h then Inr (heapify (ref_lt st) (remove1 r h)) else Inl ValueError)"

definition prio_remove_requests :: "store \<Rightarrow> nat list \<Rightarrow> nat list \<Rightarrow> nat list" where
  "prio_remove_requests st rs h = (let gone = set rs in heapify (ref_lt st) (filter (\<lambda>r. r \<notin> gone) h))"

text \<open>Iteration pops from a copy.\<close>

function prio_iter :: "store \<Rightarrow> nat list \<Rightarrow> nat list" where
  "prio_iter st h =
     (case heappop (ref_lt st) h of Inl _ \<Rightarrow> [] | Inr (r, h') \<Rightarrow> if h = [] then [] else r # prio_iter st h')"
  by pat_completeness auto
termination
proof (relation "measure (\<lambda>(st, h). length h)")
  fix st :: store and h h' :: "nat list" and p r
  assume "heappop (ref_lt st) h = Inr p" "(r, h') = p" "h \<noteq> []"
  then have "mset h = add_mset (h ! 0) (mset h')" using heappop_mset[of h "ref_lt st"] by auto
  then have "size (mset h) = Suc (size (mset h'))" by simp
  then show "((st, h'), (st, h)) \<in> measure (\<lambda>(st, h). length h)" by simp
qed simp

declare prio_iter.simps [simp del]

section \<open>One interface\<close>

record queue_ops =
  q_add :: "nat \<Rightarrow> nat list \<Rightarrow> nat list"
  q_pop :: "nat list \<Rightarrow> (nat \<times> nat list) res"
  q_peek :: "nat list \<Rightarrow> nat res"
  q_prepend :: "nat \<Rightarrow> nat list \<Rightarrow> nat list"
  q_prepend_requests :: "nat list \<Rightarrow> nat list \<Rightarrow> nat list"
  q_remove :: "nat \<Rightarrow> nat list \<Rightarrow> nat list res"
  q_remove_requests :: "nat list \<Rightarrow> nat list \<Rightarrow> nat list"
  q_iter :: "nat list \<Rightarrow> nat list"

definition fcfs_ops :: queue_ops where
  "fcfs_ops = \<lparr>q_add = fcfs_add, q_pop = fcfs_pop, q_peek = fcfs_peek, q_prepend = fcfs_prepend,
     q_prepend_requests = fcfs_prepend_requests, q_remove = fcfs_remove,
     q_remove_requests = fcfs_remove_requests, q_iter = id\<rparr>"

definition prio_ops :: "store \<Rightarrow> queue_ops" where
  "prio_ops st = \<lparr>q_add = prio_add st, q_pop = prio_pop st, q_peek = prio_peek, q_prepend = prio_prepend st,
     q_prepend_requests = prio_prepend_requests st, q_remove = prio_remove st,
     q_remove_requests = prio_remove_requests st, q_iter = prio_iter st\<rparr>"

datatype scheduling_policy = FCFS | PRIORITY

text \<open>The operations a queue of the policy has; a new one is empty.\<close>

definition create_request_queue :: "scheduling_policy \<Rightarrow> store \<Rightarrow> queue_ops \<times> nat list" where
  "create_request_queue p st = (if p = PRIORITY then prio_ops st else fcfs_ops, [])"

section \<open>The waiting requests of the scheduler\<close>

record wait_state =
  waiting :: "nat list"
  kv_holding_waiting :: "nat list"
  step_skipped_waiting :: "nat list"
  step_skipped_kv_holding :: "nat list"
  deferred_waiting :: "nat set"
  running :: "nat list"

definition holds_kv_blocks :: "request \<Rightarrow> bool" where
  "holds_kv_blocks r \<longleftrightarrow> num_computed_tokens r > 0 \<or> status r = WAITING_FOR_REMOTE_KVS"

definition is_blocked_waiting_status :: "request_status \<Rightarrow> bool" where
  "is_blocked_waiting_status s \<longleftrightarrow> s \<in> {WAITING_FOR_STRUCTURED_OUTPUT_GRAMMAR, WAITING_FOR_REMOTE_KVS,
     WAITING_FOR_STREAMING_REQ}"

definition enqueue_waiting_request :: "queue_ops \<Rightarrow> store \<Rightarrow> nat \<Rightarrow> wait_state \<Rightarrow> wait_state" where
  "enqueue_waiting_request Q st r s =
     (let s = (if is_blocked_waiting_status (status (st r))
               then s\<lparr>deferred_waiting := insert r (deferred_waiting s)\<rparr> else s)
      in if holds_kv_blocks (st r) then s\<lparr>kv_holding_waiting := q_add Q r (kv_holding_waiting s)\<rparr>
         else s\<lparr>waiting := q_add Q r (waiting s)\<rparr>)"

text \<open>
  One turn of the loop over the waiting requests. Why a request is set aside or scheduled is an
  argument, \<open>holds\<close> says whether it holds blocks at the time it is set aside.
\<close>

datatype verdict = Skip (holds: bool) | Schedule

definition pop_next :: "queue_ops \<Rightarrow> wait_state \<Rightarrow> (nat \<times> wait_state) res" where
  "pop_next Q s =
     (if kv_holding_waiting s \<noteq> []
      then bind_res (q_pop Q (kv_holding_waiting s)) (\<lambda>(r, q). Inr (r, s\<lparr>kv_holding_waiting := q\<rparr>))
      else bind_res (q_pop Q (waiting s)) (\<lambda>(r, q). Inr (r, s\<lparr>waiting := q\<rparr>)))"

definition skip_request :: "queue_ops \<Rightarrow> bool \<Rightarrow> wait_state \<Rightarrow> wait_state res" where
  "skip_request Q hold s =
     bind_res (pop_next Q s) (\<lambda>(r, s).
       let s = s\<lparr>deferred_waiting := insert r (deferred_waiting s)\<rparr>
       in Inr (if hold then s\<lparr>step_skipped_kv_holding := r # step_skipped_kv_holding s\<rparr>
               else s\<lparr>step_skipped_waiting := r # step_skipped_waiting s\<rparr>))"

definition take_request :: "queue_ops \<Rightarrow> wait_state \<Rightarrow> wait_state res" where
  "take_request Q s =
     bind_res (pop_next Q s) (\<lambda>(r, s).
       Inr (s\<lparr>deferred_waiting := deferred_waiting s - {r}, running := running s @ [r]\<rparr>))"

fun waiting_loop :: "queue_ops \<Rightarrow> verdict list \<Rightarrow> wait_state \<Rightarrow> wait_state res" where
  "waiting_loop Q [] s = Inr s"
| "waiting_loop Q (v # vs) s =
     (if kv_holding_waiting s = [] \<and> waiting s = [] then Inr s
      else bind_res (case v of Skip h \<Rightarrow> skip_request Q h s | Schedule \<Rightarrow> take_request Q s) (waiting_loop Q vs))"

definition requeue_skipped :: "queue_ops \<Rightarrow> wait_state \<Rightarrow> wait_state" where
  "requeue_skipped Q s =
     (let s = (if step_skipped_kv_holding s \<noteq> []
               then s\<lparr>kv_holding_waiting := q_prepend_requests Q (step_skipped_kv_holding s) (kv_holding_waiting s)\<rparr>
               else s)
      in if step_skipped_waiting s \<noteq> []
         then s\<lparr>waiting := q_prepend_requests Q (step_skipped_waiting s) (waiting s)\<rparr> else s)"

definition waiting_pass :: "queue_ops \<Rightarrow> verdict list \<Rightarrow> wait_state \<Rightarrow> wait_state res" where
  "waiting_pass Q vs s =
     bind_res (waiting_loop Q vs (s\<lparr>step_skipped_waiting := [], step_skipped_kv_holding := []\<rparr>))
       (\<lambda>s. Inr (requeue_skipped Q s))"

definition remove_from_queues :: "queue_ops \<Rightarrow> nat list \<Rightarrow> wait_state \<Rightarrow> wait_state" where
  "remove_from_queues Q rs s =
     (if rs = [] then s
      else s\<lparr>waiting := q_remove_requests Q rs (waiting s),
             kv_holding_waiting := q_remove_requests Q rs (kv_holding_waiting s),
             deferred_waiting := deferred_waiting s - set rs\<rparr>)"

section \<open>The order\<close>

lemma ref_lt_trans: "ref_lt st x y \<Longrightarrow> ref_lt st y z \<Longrightarrow> ref_lt st x z"
  unfolding ref_lt_def by (rule request_lt_trans)

lemma ref_lt_irrefl [simp]: "\<not> ref_lt st x x"
  by (simp add: ref_lt_def request_lt_irrefl)

lemma ref_lt_total: "x \<noteq> y \<Longrightarrow> ref_lt st x y \<or> ref_lt st y x"
  unfolding ref_lt_def by (rule request_lt_total)

interpretation prio: heap_order "ref_lt st"
proof
  fix a b c
  show "ref_lt st a b \<Longrightarrow> \<not> ref_lt st b a" using ref_lt_trans ref_lt_irrefl by blast
  show "\<not> ref_lt st b a \<Longrightarrow> \<not> ref_lt st c b \<Longrightarrow> \<not> ref_lt st c a"
    using ref_lt_total[of a b st] ref_lt_total[of b c st] ref_lt_trans by blast
qed

section \<open>The contract\<close>

text \<open>
  What the scheduler relies on: \<open>ok\<close> is the representation, \<open>first r q\<close> says that \<open>r\<close> may be served
  before the elements of \<open>q\<close>.
\<close>

locale request_queue =
  fixes Q :: queue_ops and ok :: "nat list \<Rightarrow> bool" and first :: "nat \<Rightarrow> nat list \<Rightarrow> bool"
  assumes ok_empty: "ok []"
    and add: "ok q \<Longrightarrow> ok (q_add Q r q) \<and> mset (q_add Q r q) = add_mset r (mset q)"
    and pop: "ok q \<Longrightarrow> q \<noteq> [] \<Longrightarrow> \<exists>r q'. q_pop Q q = Inr (r, q') \<and> q_peek Q q = Inr r \<and> ok q'
        \<and> mset q = add_mset r (mset q') \<and> first r q'"
    and pop_empty: "q_pop Q [] = Inl IndexError" "q_peek Q [] = Inl IndexError"
    and prepend: "ok q \<Longrightarrow> ok (q_prepend Q r q) \<and> mset (q_prepend Q r q) = add_mset r (mset q)"
    and prepend_requests: "ok q \<Longrightarrow> ok (q_prepend_requests Q rs q)
        \<and> mset (q_prepend_requests Q rs q) = mset rs + mset q"
    and remove: "ok q \<Longrightarrow> r \<in> set q \<Longrightarrow> \<exists>q'. q_remove Q r q = Inr q' \<and> ok q' \<and> mset q = add_mset r (mset q')"
    and remove_absent: "r \<notin> set q \<Longrightarrow> q_remove Q r q = Inl ValueError"
    and remove_requests: "ok q \<Longrightarrow> ok (q_remove_requests Q rs q)
        \<and> mset (q_remove_requests Q rs q) = filter_mset (\<lambda>r. r \<notin> set rs) (mset q)"
    and iter: "ok q \<Longrightarrow> mset (q_iter Q q) = mset q"
begin

definition state_ok :: "wait_state \<Rightarrow> bool" where
  "state_ok s \<longleftrightarrow> ok (waiting s) \<and> ok (kv_holding_waiting s)"

definition everyone :: "wait_state \<Rightarrow> nat multiset" where
  "everyone s = mset (waiting s) + mset (kv_holding_waiting s) + mset (step_skipped_waiting s)
     + mset (step_skipped_kv_holding s) + mset (running s)"

lemma pop_next_ok:
  assumes "state_ok s" "waiting s \<noteq> [] \<or> kv_holding_waiting s \<noteq> []"
  shows "\<exists>r s'. pop_next Q s = Inr (r, s') \<and> state_ok s' \<and> everyone s = add_mset r (everyone s')
    \<and> running s' = running s \<and> step_skipped_waiting s' = step_skipped_waiting s
    \<and> step_skipped_kv_holding s' = step_skipped_kv_holding s \<and> deferred_waiting s' = deferred_waiting s"
proof (cases "kv_holding_waiting s = []")
  case True
  then obtain r q where "q_pop Q (waiting s) = Inr (r, q)" "ok q" "mset (waiting s) = add_mset r (mset q)"
    using pop[of "waiting s"] assms by (auto simp: state_ok_def)
  then show ?thesis using True assms(1) by (simp add: pop_next_def state_ok_def everyone_def)
next
  case False
  then obtain r q where "q_pop Q (kv_holding_waiting s) = Inr (r, q)" "ok q"
      "mset (kv_holding_waiting s) = add_mset r (mset q)"
    using pop[of "kv_holding_waiting s"] assms by (auto simp: state_ok_def)
  then show ?thesis using False assms(1) by (simp add: pop_next_def state_ok_def everyone_def)
qed

lemma turn_ok:
  assumes "state_ok s" "waiting s \<noteq> [] \<or> kv_holding_waiting s \<noteq> []"
  shows "\<exists>s'. (case v of Skip h \<Rightarrow> skip_request Q h s | Schedule \<Rightarrow> take_request Q s) = Inr s'
    \<and> state_ok s' \<and> everyone s' = everyone s
    \<and> length (running s') = length (running s) + (if v = Schedule then 1 else 0)"
proof -
  obtain r s1 where s1: "pop_next Q s = Inr (r, s1)" "state_ok s1" "everyone s = add_mset r (everyone s1)"
      "running s1 = running s" using pop_next_ok[OF assms] by blast
  then show ?thesis
    by (cases v) (auto simp: skip_request_def take_request_def Let_def state_ok_def everyone_def)
qed

lemma waiting_loop_ok:
  "state_ok s \<Longrightarrow> \<exists>s'. waiting_loop Q vs s = Inr s' \<and> state_ok s' \<and> everyone s' = everyone s"
proof (induction vs arbitrary: s)
  case (Cons v vs)
  show ?case
  proof (cases "kv_holding_waiting s = [] \<and> waiting s = []")
    case False
    then obtain s1 where s1: "(case v of Skip h \<Rightarrow> skip_request Q h s | Schedule \<Rightarrow> take_request Q s) = Inr s1"
      "state_ok s1" "everyone s1 = everyone s" using turn_ok[OF Cons.prems] by blast
    then show ?thesis using Cons.IH[of s1] False by auto
  qed (use Cons.prems in simp)
qed simp

lemma requeue_ok:
  assumes "state_ok s"
  shows "state_ok (requeue_skipped Q s)"
    "mset (waiting (requeue_skipped Q s)) + mset (kv_holding_waiting (requeue_skipped Q s))
       + mset (running (requeue_skipped Q s)) = everyone s"
  using assms prepend_requests[of "waiting s"] prepend_requests[of "kv_holding_waiting s"]
  by (auto simp: requeue_skipped_def Let_def state_ok_def everyone_def)

lemma waiting_pass_ok:
  assumes "state_ok s"
  shows "\<exists>s'. waiting_pass Q vs s = Inr s' \<and> state_ok s'
    \<and> mset (waiting s') + mset (kv_holding_waiting s') + mset (running s')
       = mset (waiting s) + mset (kv_holding_waiting s) + mset (running s)"
proof -
  let ?s = "s\<lparr>step_skipped_waiting := [], step_skipped_kv_holding := []\<rparr>"
  have "state_ok ?s" using assms by (simp add: state_ok_def)
  from waiting_loop_ok[OF this] obtain s1 where
    s1: "waiting_loop Q vs ?s = Inr s1" "state_ok s1" "everyone s1 = everyone ?s" by blast
  have "everyone ?s = mset (waiting s) + mset (kv_holding_waiting s) + mset (running s)"
    by (simp add: everyone_def)
  then show ?thesis using s1 requeue_ok[OF s1(2)] by (simp add: waiting_pass_def)
qed

lemma enqueue_ok:
  assumes "state_ok s"
  shows "state_ok (enqueue_waiting_request Q st r s)"
    "everyone (enqueue_waiting_request Q st r s) = add_mset r (everyone s)"
  using assms add[of "waiting s" r] add[of "kv_holding_waiting s" r]
  by (auto simp: enqueue_waiting_request_def Let_def state_ok_def everyone_def)

lemma remove_ok:
  assumes "state_ok s"
  shows "state_ok (remove_from_queues Q rs s)"
    "mset (waiting (remove_from_queues Q rs s)) = filter_mset (\<lambda>r. r \<notin> set rs) (mset (waiting s))"
    "mset (kv_holding_waiting (remove_from_queues Q rs s))
       = filter_mset (\<lambda>r. r \<notin> set rs) (mset (kv_holding_waiting s))"
  using assms remove_requests[of "waiting s" rs] remove_requests[of "kv_holding_waiting s" rs]
  by (auto simp: remove_from_queues_def state_ok_def)

end

section \<open>Both queues meet it\<close>

lemma fold_Cons: "fold (#) rs q = rev rs @ q"
  by (induction rs arbitrary: q) simp_all

interpretation fcfs: request_queue fcfs_ops "\<lambda>q. True" "\<lambda>r q. True"
proof
  fix q :: "nat list" and r rs
  show "\<exists>r q'. q_pop fcfs_ops q = Inr (r, q') \<and> q_peek fcfs_ops q = Inr r \<and> True
        \<and> mset q = add_mset r (mset q') \<and> True" if "q \<noteq> []"
    using that by (cases q) (simp_all add: fcfs_ops_def fcfs_pop_def fcfs_peek_def)
qed (simp_all add: fcfs_ops_def fcfs_add_def fcfs_pop_def fcfs_peek_def fcfs_prepend_def fcfs_remove_def
    fcfs_prepend_requests_def fcfs_remove_requests_def fold_Cons)

lemma prio_prepend_ok:
  "prio.heap st h \<Longrightarrow> prio.heap st (prio_prepend_requests st rs h)
     \<and> mset (prio_prepend_requests st rs h) = mset rs + mset h"
  unfolding prio_prepend_requests_def
proof (induction rs arbitrary: h)
  case (Cons r rs)
  from Cons.IH[of "prio_add st r h"] Cons.prems show ?case
    by (simp add: prio_add_def prio.heappush_heap)
qed simp

lemma prio_pop_ok:
  assumes "prio.heap st h" "h \<noteq> []"
  shows "\<exists>h'. prio_pop st h = Inr (h ! 0, h') \<and> prio_peek h = Inr (h ! 0) \<and> prio.heap st h'
    \<and> mset h = add_mset (h ! 0) (mset h') \<and> (\<forall>x \<in> set h'. \<not> ref_lt st x (h ! 0))"
proof -
  obtain h' where h': "heappop (ref_lt st) h = Inr (h ! 0, h')" "mset h = add_mset (h ! 0) (mset h')"
    using heappop_mset[OF assms(2)] by blast
  have "set h' \<subseteq> set h" using h'(2) by (metis set_mset_add_mset_insert set_mset_mset subset_insertI)
  then show ?thesis
    using h' assms prio.heappop_heap[OF assms(1) h'(1)] prio.heap_root_set[OF assms(1)]
    by (auto simp: prio_pop_def prio_peek_def)
qed

lemma prio_iter_step:
  assumes "h \<noteq> []" "heappop (ref_lt st) h = Inr (r, h')"
  shows "prio_iter st h = r # prio_iter st h'"
  using assms by (subst prio_iter.simps) simp

lemma prio_iter_ok:
  "prio.heap st h \<Longrightarrow> mset (prio_iter st h) = mset h \<and> sorted_wrt (\<lambda>x y. \<not> ref_lt st y x) (prio_iter st h)"
proof (induction "length h" arbitrary: h rule: less_induct)
  case less
  show ?case
  proof (cases "h = []")
    case True
    then show ?thesis by (subst (1 2) prio_iter.simps) (simp add: heappop_def)
  next
    case False
    from prio_pop_ok[OF less.prems False] False obtain h' where
      h': "heappop (ref_lt st) h = Inr (h ! 0, h')" "prio.heap st h'"
        "mset h = add_mset (h ! 0) (mset h')" "\<forall>x \<in> set h'. \<not> ref_lt st x (h ! 0)"
      by (auto simp: prio_pop_def)
    have "length h' < length h" using arg_cong[OF h'(3), of size] by simp
    from less.hyps[OF this h'(2)]
    have ih: "mset (prio_iter st h') = mset h'" "sorted_wrt (\<lambda>x y. \<not> ref_lt st y x) (prio_iter st h')" by simp_all
    have "set (prio_iter st h') = set h'" using ih(1) by (rule mset_eq_setD)
    then show ?thesis using h'(3,4) ih prio_iter_step[OF False h'(1)] by simp
  qed
qed

interpretation prioq: request_queue "prio_ops st" "prio.heap st" "\<lambda>r q. \<forall>x \<in> set q. \<not> ref_lt st x r"
proof
  fix q r rs
  show "\<exists>r q'. q_pop (prio_ops st) q = Inr (r, q') \<and> q_peek (prio_ops st) q = Inr r \<and> prio.heap st q'
        \<and> mset q = add_mset r (mset q') \<and> (\<forall>x \<in> set q'. \<not> ref_lt st x r)" if "prio.heap st q" "q \<noteq> []"
    using prio_pop_ok[OF that] by (auto simp: prio_ops_def)
  show "\<exists>q'. q_remove (prio_ops st) r q = Inr q' \<and> prio.heap st q' \<and> mset q = add_mset r (mset q')"
    if "r \<in> set q" using that by (simp add: prio_ops_def prio_remove_def prio.heapify_heap)
qed (auto simp: prio_ops_def prio_add_def prio_prepend_def prio.heappush_heap prio_prepend_ok prio_remove_def
    prio_remove_requests_def prio.heapify_heap prio_iter_ok prio.heap_empty prio_pop_def prio_peek_def)

end
