(* ===== verification/QueueProps.thy ===== *)
theory QueueProps imports RequestQueue
begin

text \<open>
  The properties of the waiting queues: the heap behaves as a sorted list, no pass of the
  scheduler loses a request, first-come-first-served keeps its order across passes.
\<close>

section \<open>The heap as a sorted list\<close>

abbreviation in_order :: "store \<Rightarrow> nat list \<Rightarrow> bool" where
  "in_order st \<equiv> sorted_wrt (\<lambda>x y. \<not> ref_lt st y x)"

lemma in_order_unique:
  "in_order st xs \<Longrightarrow> in_order st ys \<Longrightarrow> mset xs = mset ys \<Longrightarrow> xs = ys"
proof (induction xs arbitrary: ys)
  case (Cons x xs)
  then obtain y ys' where ys: "ys = y # ys'" by (cases ys) auto
  have "x \<in> set ys" "y \<in> set (x # xs)" using Cons.prems(3) ys by (metis list.set_intros(1) mset_eq_setD)+
  then have "x = y \<or> (\<not> ref_lt st x y \<and> \<not> ref_lt st y x)" using Cons.prems(1,2) ys by auto
  then have "x = y" using ref_lt_total by blast
  then show ?case using Cons ys by simp
qed simp

lemma in_order_remove1: "in_order st xs \<Longrightarrow> in_order st (remove1 r xs)"
  by (induction xs) (auto dest: notin_set_remove1[rotated])

text \<open>The reference: a list kept in order, with insertion in front of the first element not before it.\<close>

definition insert_in_order :: "store \<Rightarrow> nat \<Rightarrow> nat list \<Rightarrow> nat list" where
  "insert_in_order st r xs = takeWhile (\<lambda>x. ref_lt st x r) xs @ r # dropWhile (\<lambda>x. ref_lt st x r) xs"

lemma insert_in_order_mset [simp]: "mset (insert_in_order st r xs) = add_mset r (mset xs)"
proof -
  let ?P = "\<lambda>x. ref_lt st x r"
  have "mset (takeWhile ?P xs) + mset (dropWhile ?P xs) = mset xs"
    by (metis mset_append takeWhile_dropWhile_id)
  then show ?thesis by (simp add: insert_in_order_def)
qed

lemma insert_in_order_ordered:
  assumes "in_order st xs"
  shows "in_order st (insert_in_order st r xs)"
proof -
  let ?P = "\<lambda>x. ref_lt st x r"
  have "in_order st (takeWhile ?P xs @ dropWhile ?P xs)" using assms by simp
  then have split: "in_order st (takeWhile ?P xs)" "in_order st (dropWhile ?P xs)"
      "\<forall>x \<in> set (takeWhile ?P xs). \<forall>y \<in> set (dropWhile ?P xs). \<not> ref_lt st y x"
    unfolding sorted_wrt_append by blast+
  have after: "\<not> ref_lt st x r" if x: "x \<in> set (dropWhile ?P xs)" for x
  proof -
    obtain y ys where ys: "dropWhile ?P xs = y # ys" using x by (cases "dropWhile ?P xs") auto
    then have "\<not> ref_lt st y r" using hd_dropWhile[of ?P xs] by simp
    moreover have "x = y \<or> \<not> ref_lt st x y" using split(2) x ys by auto
    ultimately show ?thesis using prio.not_lt_trans[of st y r x] by auto
  qed
  have before: "\<not> ref_lt st r x" if "x \<in> set (takeWhile ?P xs)" for x
    using set_takeWhileD[OF that] prio.lt_asym[of st x r] by simp
  show ?thesis unfolding insert_in_order_def sorted_wrt_append sorted_wrt.simps list.set
    using split after before by blast
qed

lemma prio_iter_unique:
  "prio.heap st h \<Longrightarrow> in_order st xs \<Longrightarrow> mset xs = mset h \<Longrightarrow> prio_iter st h = xs"
  using in_order_unique prio_iter_ok by metis

lemma prio_iter_set: "prio.heap st h \<Longrightarrow> set (prio_iter st h) = set h"
  using prio_iter_ok mset_eq_setD by metis

text \<open>
  Property C35. The priority queue is a sorted list. Whatever the shape of the heap, iterating
  yields its requests sorted by priority, arrival and id; adding and prepending insert in order,
  the pop and the peek return the head and the pop leaves the tail, removing one or many removes
  exactly those; and the heap order is kept by each.
\<close>

theorem priority_queue_refines_sorted_list:
  assumes "prio.heap st h"
  shows "in_order st (prio_iter st h) \<and> mset (prio_iter st h) = mset h
    \<and> prio.heap st (prio_add st r h) \<and> prio_iter st (prio_add st r h) = insert_in_order st r (prio_iter st h)
    \<and> prio_prepend st r h = prio_add st r h
    \<and> prio.heap st (prio_prepend_requests st rs h)
    \<and> prio_iter st (prio_prepend_requests st rs h) = fold (insert_in_order st) rs (prio_iter st h)
    \<and> (case prio_iter st h of
         [] \<Rightarrow> prio_pop st h = Inl IndexError \<and> prio_peek h = Inl IndexError
       | x # xs \<Rightarrow> prio_peek h = Inr x
           \<and> (\<exists>h'. prio_pop st h = Inr (x, h') \<and> prio.heap st h' \<and> prio_iter st h' = xs))
    \<and> (if r \<in> set h then \<exists>h'. prio_remove st r h = Inr h' \<and> prio.heap st h'
            \<and> prio_iter st h' = remove1 r (prio_iter st h)
       else prio_remove st r h = Inl ValueError)
    \<and> prio.heap st (prio_remove_requests st rs h)
    \<and> prio_iter st (prio_remove_requests st rs h) = filter (\<lambda>x. x \<notin> set rs) (prio_iter st h)"
proof (intro conjI)
  note it = prio_iter_ok[OF assms]
  show "in_order st (prio_iter st h)" "mset (prio_iter st h) = mset h" using it by simp_all
  show add: "prio.heap st (prio_add st r h)" for r
    using assms by (simp add: prio_add_def prio.heappush_heap)
  have add_iter: "prio_iter st (prio_add st r h) = insert_in_order st r (prio_iter st h)"
    if "prio.heap st h" for r h
    using that prio_iter_ok[OF that]
    by (intro prio_iter_unique) (simp_all add: prio_add_def prio.heappush_heap insert_in_order_ordered)
  then show "prio_iter st (prio_add st r h) = insert_in_order st r (prio_iter st h)" using assms by blast
  show "prio_prepend st r h = prio_add st r h" by (simp add: prio_prepend_def)
  show "prio.heap st (prio_prepend_requests st rs h)" using prio_prepend_ok[OF assms] by blast
  show "prio_iter st (prio_prepend_requests st rs h) = fold (insert_in_order st) rs (prio_iter st h)"
    unfolding prio_prepend_requests_def using assms
  proof (induction rs arbitrary: h)
    case (Cons r rs)
    have "prio.heap st (prio_add st r h)" using Cons.prems by (simp add: prio_add_def prio.heappush_heap)
    from Cons.IH[OF this] show ?case by (simp add: add_iter[OF Cons.prems])
  qed simp
  show "case prio_iter st h of
         [] \<Rightarrow> prio_pop st h = Inl IndexError \<and> prio_peek h = Inl IndexError
       | x # xs \<Rightarrow> prio_peek h = Inr x
           \<and> (\<exists>h'. prio_pop st h = Inr (x, h') \<and> prio.heap st h' \<and> prio_iter st h' = xs)"
  proof (cases "h = []")
    case True
    then have "prio_iter st h = []" using it by simp
    then show ?thesis using True by (simp add: prio_pop_def prio_peek_def)
  next
    case False
    from prio_pop_ok[OF assms False] obtain h' where
      h': "prio_pop st h = Inr (h ! 0, h')" "prio_peek h = Inr (h ! 0)" "prio.heap st h'" by blast
    then have "prio_iter st h = h ! 0 # prio_iter st h'"
      using False by (intro prio_iter_step) (simp_all add: prio_pop_def)
    then show ?thesis using h' by simp
  qed
  show "if r \<in> set h then \<exists>h'. prio_remove st r h = Inr h' \<and> prio.heap st h'
            \<and> prio_iter st h' = remove1 r (prio_iter st h)
       else prio_remove st r h = Inl ValueError"
  proof -
    have "prio_iter st (heapify (ref_lt st) (remove1 r h)) = remove1 r (prio_iter st h)"
      using it by (intro prio_iter_unique) (simp_all add: prio.heapify_heap in_order_remove1)
    then show ?thesis by (simp add: prio_remove_def prio.heapify_heap)
  qed
  show "prio.heap st (prio_remove_requests st rs h)"
    by (simp add: prio_remove_requests_def prio.heapify_heap)
  show "prio_iter st (prio_remove_requests st rs h) = filter (\<lambda>x. x \<notin> set rs) (prio_iter st h)"
    using it by (intro prio_iter_unique)
      (simp_all add: prio_remove_requests_def prio.heapify_heap sorted_wrt_filter)
qed

text \<open>Three requests of which the last is the most urgent.\<close>

definition queue_store :: store where
  "queue_store x = (example_request ''r'' [1])\<lparr>priority := (if x = 3 then - 1 else 0), arrival_time := int x\<rparr>"

theorem priority_queue_refines_sorted_list_witness:
  "prio_iter queue_store (prio_add queue_store 3 [1, 2]) = [3, 1, 2]"
proof -
  have lt: "ref_lt queue_store 1 2" "ref_lt queue_store 3 1" "\<not> ref_lt queue_store 1 3" "\<not> ref_lt queue_store 2 1"
    by (simp_all add: ref_lt_def request_lt_def queue_store_def)
  have h: "prio.heap queue_store [1, 2]"
    using lt by (auto simp: prio.heap_from_def parent_def less_Suc_eq)
  have "prio_iter queue_store [1, 2] = [1, 2]" using lt by (intro prio_iter_unique h) simp_all
  then show ?thesis using priority_queue_refines_sorted_list[OF h, of 3 "[]"] lt
    by (simp add: insert_in_order_def)
qed

section \<open>Runs over the waiting requests\<close>

abbreviation ops_of :: "scheduling_policy \<Rightarrow> store \<Rightarrow> queue_ops" where
  "ops_of p st \<equiv> fst (create_request_queue p st)"

text \<open>The representation each policy keeps.\<close>

definition queue_ok :: "scheduling_policy \<Rightarrow> store \<Rightarrow> nat list \<Rightarrow> bool" where
  "queue_ok p st q \<longleftrightarrow> (p = PRIORITY \<longrightarrow> prio.heap st q)"

interpretation either: request_queue "ops_of p st" "queue_ok p st" "\<lambda>r q. p = PRIORITY \<longrightarrow> (\<forall>x \<in> set q. \<not> ref_lt st x r)"
proof (cases p)
  case FCFS
  then have "ops_of p st = fcfs_ops" "queue_ok p st = (\<lambda>q. True)"
    "(\<lambda>r q. p = PRIORITY \<longrightarrow> (\<forall>x \<in> set q. \<not> ref_lt st x r)) = (\<lambda>r q. True)"
    by (auto simp: create_request_queue_def queue_ok_def)
  then show "request_queue (ops_of p st) (queue_ok p st) (\<lambda>r q. p = PRIORITY \<longrightarrow> (\<forall>x \<in> set q. \<not> ref_lt st x r))"
    using fcfs.request_queue_axioms by simp
next
  case PRIORITY
  then have "ops_of p st = prio_ops st" "queue_ok p st = prio.heap st"
    "(\<lambda>r q. p = PRIORITY \<longrightarrow> (\<forall>x \<in> set q. \<not> ref_lt st x r)) = (\<lambda>r q. \<forall>x \<in> set q. \<not> ref_lt st x r)"
    by (auto simp: create_request_queue_def queue_ok_def)
  then show "request_queue (ops_of p st) (queue_ok p st) (\<lambda>r q. p = PRIORITY \<longrightarrow> (\<forall>x \<in> set q. \<not> ref_lt st x r))"
    using prioq.request_queue_axioms[of st] by simp
qed

text \<open>What the order reads of the requests.\<close>

definition same_keys :: "store \<Rightarrow> store \<Rightarrow> bool" where
  "same_keys st st' \<longleftrightarrow> (\<forall>x. priority (st' x) = priority (st x) \<and> arrival_time (st' x) = arrival_time (st x)
     \<and> request_id (st' x) = request_id (st x))"

lemma same_keys_lt: "same_keys st st' \<Longrightarrow> ref_lt st' = ref_lt st"
  by (intro ext) (simp add: ref_lt_def request_lt_def same_keys_def)

lemma same_keys_ok: "same_keys st st' \<Longrightarrow> queue_ok p st' = queue_ok p st"
  by (intro ext) (simp add: queue_ok_def same_keys_lt)

text \<open>
  The states of the waiting requests: requests change but for what orders them, new ones are
  enqueued, running ones preempted, passes are made, finished requests are removed.
\<close>

definition no_waiting :: wait_state where
  "no_waiting = \<lparr>waiting = [], kv_holding_waiting = [], step_skipped_waiting = [],
     step_skipped_kv_holding = [], deferred_waiting = {}, running = []\<rparr>"

definition queued :: "wait_state \<Rightarrow> nat multiset" where
  "queued s = mset (waiting s) + mset (kv_holding_waiting s)"

definition preempt_to_waiting :: "queue_ops \<Rightarrow> nat \<Rightarrow> wait_state \<Rightarrow> wait_state" where
  "preempt_to_waiting Q r s =
     s\<lparr>running := remove1 r (running s), waiting := q_prepend Q r (waiting s)\<rparr>"

inductive wait_reach :: "scheduling_policy \<Rightarrow> store \<Rightarrow> wait_state \<Rightarrow> bool" for p where
  wait_start: "wait_reach p st no_waiting"
| wait_mutate: "wait_reach p st s \<Longrightarrow> same_keys st st' \<Longrightarrow> wait_reach p st' s"
| wait_enqueue: "wait_reach p st s \<Longrightarrow> r \<notin># queued s \<Longrightarrow> r \<notin> set (running s)
    \<Longrightarrow> wait_reach p st (enqueue_waiting_request (ops_of p st) st r s)"
| wait_preempt: "wait_reach p st s \<Longrightarrow> r \<in> set (running s) \<Longrightarrow> wait_reach p st (preempt_to_waiting (ops_of p st) r s)"
| wait_pass: "wait_reach p st s \<Longrightarrow> waiting_pass (ops_of p st) vs s = Inr s' \<Longrightarrow> wait_reach p st s'"
| wait_remove: "wait_reach p st s \<Longrightarrow> wait_reach p st (remove_from_queues (ops_of p st) rs s)"
| wait_stop: "wait_reach p st s \<Longrightarrow> wait_reach p st (s\<lparr>running := filter (\<lambda>r. r \<notin> R) (running s)\<rparr>)"

definition all_once :: "nat multiset \<Rightarrow> bool" where
  "all_once M \<longleftrightarrow> (\<forall>r. count M r \<le> 1)"

lemma all_once_add: "all_once (add_mset r M) \<longleftrightarrow> r \<notin># M \<and> all_once M"
proof
  assume a: "all_once (add_mset r M)"
  have "count M x \<le> 1" for x
    using a[unfolded all_once_def, rule_format, of x] by (cases "x = r") simp_all
  moreover have "count M r = 0" using a[unfolded all_once_def, rule_format, of r] by simp
  ultimately show "r \<notin># M \<and> all_once M" by (simp add: all_once_def not_in_iff)
next
  assume "r \<notin># M \<and> all_once M"
  then have r: "count M r = 0" and M: "\<And>x. count M x \<le> 1" by (simp_all add: all_once_def not_in_iff)
  have "count (add_mset r M) x \<le> 1" for x using r M[of x] by (cases "x = r") simp_all
  then show "all_once (add_mset r M)" by (simp add: all_once_def)
qed

lemma all_once_empty [simp]: "all_once {#}"
  by (simp add: all_once_def)

lemma all_once_mono: "all_once A \<Longrightarrow> B \<subseteq># A \<Longrightarrow> all_once B"
  unfolding all_once_def by (meson mset_subset_eq_count order_trans)

definition wait_inv :: "scheduling_policy \<Rightarrow> store \<Rightarrow> wait_state \<Rightarrow> bool" where
  "wait_inv p st s \<longleftrightarrow> queue_ok p st (waiting s) \<and> queue_ok p st (kv_holding_waiting s)
     \<and> all_once (queued s + mset (running s)) \<and> deferred_waiting s \<subseteq> set_mset (queued s)"

text \<open>The pass and the deferred requests.\<close>

lemma pop_next_deferred:
  assumes "pop_next Q s = Inr (r, s')"
  shows "deferred_waiting s' = deferred_waiting s" "running s' = running s"
    "step_skipped_waiting s' = step_skipped_waiting s" "step_skipped_kv_holding s' = step_skipped_kv_holding s"
  using assms by (auto simp: pop_next_def bind_res_eq_Inr split: if_splits)

definition set_aside :: "wait_state \<Rightarrow> nat multiset" where
  "set_aside s = mset (step_skipped_waiting s) + mset (step_skipped_kv_holding s)"

lemma loop_deferred:
  assumes "either.state_ok p st s" "deferred_waiting s \<subseteq> set_mset (queued s + set_aside s)"
    "waiting_loop (ops_of p st) vs s = Inr s'"
  shows "deferred_waiting s' \<subseteq> set_mset (queued s' + set_aside s')"
  using assms
proof (induction vs arbitrary: s)
  case (Cons v vs)
  show ?case
  proof (cases "kv_holding_waiting s = [] \<and> waiting s = []")
    case False
    have ne: "waiting s \<noteq> [] \<or> kv_holding_waiting s \<noteq> []" using False by blast
    from either.turn_ok[OF Cons.prems(1) ne, of v] obtain s1 where
      s1: "(case v of Skip h \<Rightarrow> skip_request (ops_of p st) h s | Schedule \<Rightarrow> take_request (ops_of p st) s) = Inr s1"
        "either.state_ok p st s1" "either.everyone s1 = either.everyone s" by blast
    from either.pop_next_ok[OF Cons.prems(1) ne] obtain r s0 where
      s0: "pop_next (ops_of p st) s = Inr (r, s0)" "either.everyone s = add_mset r (either.everyone s0)" by blast
    note d = pop_next_deferred[OF s0(1)]
    have q: "queued s = add_mset r (queued s0)"
      using s0(2) d by (simp add: either.everyone_def queued_def)
    have ds: "deferred_waiting s0 \<subseteq> insert r (set_mset (queued s0 + set_aside s0))"
      using Cons.prems(2) q d by (auto simp: set_aside_def)
    have "deferred_waiting s1 \<subseteq> set_mset (queued s1 + set_aside s1)"
    proof (cases v)
      case (Skip h)
      then have "s1 = (let s = s0\<lparr>deferred_waiting := insert r (deferred_waiting s0)\<rparr>
        in if h then s\<lparr>step_skipped_kv_holding := r # step_skipped_kv_holding s\<rparr>
           else s\<lparr>step_skipped_waiting := r # step_skipped_waiting s\<rparr>)"
        using s1(1) s0(1) by (simp add: skip_request_def Let_def)
      then have "queued s1 = queued s0" "set_aside s1 = add_mset r (set_aside s0)"
        "deferred_waiting s1 = insert r (deferred_waiting s0)"
        by (simp_all add: Let_def queued_def set_aside_def)
      then show ?thesis using ds by auto
    next
      case Schedule
      then have "s1 = s0\<lparr>deferred_waiting := deferred_waiting s0 - {r}, running := running s0 @ [r]\<rparr>"
        using s1(1) s0(1) by (simp add: take_request_def)
      then have "queued s1 = queued s0" "set_aside s1 = set_aside s0"
        "deferred_waiting s1 = deferred_waiting s0 - {r}" by (simp_all add: queued_def set_aside_def)
      then show ?thesis using ds by auto
    qed
    moreover have "waiting_loop (ops_of p st) vs s1 = Inr s'" using Cons.prems(3) False s1(1) by simp
    ultimately show ?thesis using Cons.IH[OF s1(2)] by simp
  qed (use Cons.prems in simp)
qed simp

lemma card_set_mset_size: "card (set_mset M) \<le> size M"
  by (induction M) (auto simp: card_insert_if)

lemma requeue_sel:
  "deferred_waiting (requeue_skipped Q s) = deferred_waiting s" "running (requeue_skipped Q s) = running s"
  by (simp_all add: requeue_skipped_def Let_def)

lemma pass_inv:
  assumes "wait_inv p st s" "waiting_pass (ops_of p st) vs s = Inr s'"
  shows "wait_inv p st s'" "queued s' + mset (running s') = queued s + mset (running s)"
proof -
  let ?s = "s\<lparr>step_skipped_waiting := [], step_skipped_kv_holding := []\<rparr>"
  have ok: "either.state_ok p st s" "either.state_ok p st ?s"
    using assms(1) by (simp_all add: wait_inv_def either.state_ok_def)
  from either.waiting_pass_ok[OF ok(1), of vs] assms(2) have
    s': "either.state_ok p st s'" "queued s' + mset (running s') = queued s + mset (running s)"
    by (simp_all add: queued_def)
  from assms(2) obtain s1 where s1: "waiting_loop (ops_of p st) vs ?s = Inr s1"
    "s' = requeue_skipped (ops_of p st) s1" by (auto simp: waiting_pass_def bind_res_eq_Inr)
  have "deferred_waiting ?s \<subseteq> set_mset (queued ?s + set_aside ?s)"
    using assms(1) by (simp add: wait_inv_def queued_def set_aside_def)
  from loop_deferred[OF ok(2) this s1(1)]
  have "deferred_waiting s1 \<subseteq> set_mset (queued s1 + set_aside s1)" .
  moreover from either.waiting_loop_ok[OF ok(2), of vs] s1(1) have "either.state_ok p st s1" by auto
  from either.requeue_ok(2)[OF this]
  have "queued s' = queued s1 + set_aside s1"
    unfolding s1(2) by (simp add: queued_def set_aside_def either.everyone_def requeue_sel)
  ultimately have "deferred_waiting s' \<subseteq> set_mset (queued s')" unfolding s1(2) requeue_sel by simp
  then show "wait_inv p st s'" using s' assms(1) by (simp add: wait_inv_def either.state_ok_def)
  show "queued s' + mset (running s') = queued s + mset (running s)" by (rule s'(2))
qed

lemma enqueue_inv:
  assumes I: "wait_inv p st s" and r: "r \<notin># queued s" "r \<notin> set (running s)"
  shows "wait_inv p st (enqueue_waiting_request (ops_of p st) st r s)"
proof -
  let ?s = "enqueue_waiting_request (ops_of p st) st r s"
  have ok: "either.state_ok p st s" using I by (simp add: wait_inv_def either.state_ok_def)
  have sel: "running ?s = running s" "step_skipped_waiting ?s = step_skipped_waiting s"
    "step_skipped_kv_holding ?s = step_skipped_kv_holding s"
    "deferred_waiting ?s \<subseteq> insert r (deferred_waiting s)"
    by (auto simp: enqueue_waiting_request_def Let_def)
  have q: "queued ?s = add_mset r (queued s)"
    using either.enqueue_ok(2)[OF ok, of st r] sel by (simp add: either.everyone_def queued_def)
  then have "all_once (queued ?s + mset (running ?s))"
    using I r sel(1) by (simp add: wait_inv_def all_once_add)
  then show ?thesis using I either.enqueue_ok(1)[OF ok, of st r] q sel(1,4)
    by (auto simp: wait_inv_def either.state_ok_def)
qed

lemma remove_inv:
  assumes I: "wait_inv p st s"
  shows "wait_inv p st (remove_from_queues (ops_of p st) rs s)"
proof -
  let ?s = "remove_from_queues (ops_of p st) rs s"
  have ok: "either.state_ok p st s" using I by (simp add: wait_inv_def either.state_ok_def)
  have q: "queued ?s = filter_mset (\<lambda>r. r \<notin> set rs) (queued s)"
    using either.remove_ok(2,3)[OF ok, of rs] by (simp add: queued_def)
  have sel: "running ?s = running s" "deferred_waiting ?s = deferred_waiting s - set rs"
    by (simp_all add: remove_from_queues_def)
  have "queued ?s + mset (running s) \<subseteq># queued s + mset (running s)" by (simp add: q)
  with I have "all_once (queued ?s + mset (running ?s))"
    unfolding wait_inv_def sel by (blast intro: all_once_mono)
  moreover have "deferred_waiting ?s \<subseteq> set_mset (queued ?s)" using I by (auto simp: wait_inv_def sel q)
  ultimately show ?thesis using either.remove_ok(1)[OF ok, of rs] by (simp add: wait_inv_def either.state_ok_def)
qed

lemma preempt_inv:
  assumes I: "wait_inv p st s" and r: "r \<in> set (running s)"
  shows "wait_inv p st (preempt_to_waiting (ops_of p st) r s)"
proof -
  have "queue_ok p st (waiting s)" using I by (simp add: wait_inv_def)
  note add = either.prepend[OF this, of r]
  let ?s = "preempt_to_waiting (ops_of p st) r s"
  have "mset (running s) = add_mset r (mset (running ?s))"
    using r by (simp add: preempt_to_waiting_def)
  moreover have q: "queued ?s = add_mset r (queued s)" using add by (simp add: preempt_to_waiting_def queued_def)
  ultimately have "queued ?s + mset (running ?s) = queued s + mset (running s)" by simp
  moreover have "deferred_waiting ?s = deferred_waiting s" "queue_ok p st (waiting ?s)"
    "kv_holding_waiting ?s = kv_holding_waiting s" using add by (simp_all add: preempt_to_waiting_def)
  ultimately show ?thesis using I unfolding wait_inv_def by (auto simp only: q set_mset_add_mset_insert)
qed

lemma wait_reach_inv: "wait_reach p st s \<Longrightarrow> wait_inv p st s"
proof (induction rule: wait_reach.induct)
  case (wait_start st)
  show ?case by (simp add: wait_inv_def no_waiting_def queued_def either.ok_empty)
next
  case (wait_mutate st s st')
  then show ?case by (simp add: wait_inv_def same_keys_ok)
next
  case (wait_stop st s R)
  have "queued s + mset (filter (\<lambda>r. r \<notin> R) (running s)) \<subseteq># queued s + mset (running s)" by simp
  with wait_stop.IH have "all_once (queued s + mset (filter (\<lambda>r. r \<notin> R) (running s)))"
    unfolding wait_inv_def by (blast intro: all_once_mono)
  with wait_stop.IH show ?case by (simp add: wait_inv_def queued_def)
qed (auto intro: enqueue_inv remove_inv preempt_inv pass_inv)



section \<open>First come, first served\<close>

abbreviation decided :: "verdict \<Rightarrow> nat list \<Rightarrow> verdict list \<Rightarrow> nat list" where
  "decided v rs vs \<equiv> map fst (filter (\<lambda>x. snd x = v) (zip rs vs))"

lemma fcfs_loop:
  "\<exists>s'. waiting_loop fcfs_ops vs s = Inr s'
    \<and> kv_holding_waiting s' = drop (length vs) (kv_holding_waiting s)
    \<and> waiting s' = drop (length vs - length (kv_holding_waiting s)) (waiting s)
    \<and> running s' = running s @ decided Schedule (kv_holding_waiting s @ waiting s) vs
    \<and> step_skipped_kv_holding s'
        = rev (decided (Skip True) (kv_holding_waiting s @ waiting s) vs) @ step_skipped_kv_holding s
    \<and> step_skipped_waiting s'
        = rev (decided (Skip False) (kv_holding_waiting s @ waiting s) vs) @ step_skipped_waiting s"
proof (induction vs arbitrary: s)
  case (Cons v vs)
  show ?case
  proof (cases "kv_holding_waiting s")
    case kv: (Cons r q)
    define s1 where "s1 = (case v of Skip h \<Rightarrow> (let s = s\<lparr>kv_holding_waiting := q, deferred_waiting := insert r (deferred_waiting s)\<rparr>
        in if h then s\<lparr>step_skipped_kv_holding := r # step_skipped_kv_holding s\<rparr>
           else s\<lparr>step_skipped_waiting := r # step_skipped_waiting s\<rparr>)
      | Schedule \<Rightarrow> s\<lparr>kv_holding_waiting := q, deferred_waiting := deferred_waiting s - {r}, running := running s @ [r]\<rparr>)"
    have eq: "waiting_loop fcfs_ops (v # vs) s = waiting_loop fcfs_ops vs s1"
      using kv by (cases v) (simp_all add: s1_def skip_request_def take_request_def pop_next_def fcfs_ops_def
        fcfs_pop_def Let_def)
    have "kv_holding_waiting s1 = q" "waiting s1 = waiting s" by (simp_all add: s1_def Let_def split: verdict.split)
    with Cons.IH[of s1] show ?thesis unfolding eq
      by (cases v) (auto simp: kv s1_def Let_def)
  next
    case kv: Nil
    show ?thesis
    proof (cases "waiting s")
      case w: (Cons r q)
      define s1 where "s1 = (case v of Skip h \<Rightarrow> (let s = s\<lparr>waiting := q, deferred_waiting := insert r (deferred_waiting s)\<rparr>
          in if h then s\<lparr>step_skipped_kv_holding := r # step_skipped_kv_holding s\<rparr>
             else s\<lparr>step_skipped_waiting := r # step_skipped_waiting s\<rparr>)
        | Schedule \<Rightarrow> s\<lparr>waiting := q, deferred_waiting := deferred_waiting s - {r}, running := running s @ [r]\<rparr>)"
      have eq: "waiting_loop fcfs_ops (v # vs) s = waiting_loop fcfs_ops vs s1"
        using kv w by (cases v) (simp_all add: s1_def skip_request_def take_request_def pop_next_def fcfs_ops_def
          fcfs_pop_def Let_def)
      have "kv_holding_waiting s1 = []" "waiting s1 = q" by (simp_all add: s1_def Let_def kv split: verdict.split)
      with Cons.IH[of s1] show ?thesis unfolding eq
        by (cases v) (auto simp: kv w s1_def Let_def)
    qed (simp add: kv)
  qed
qed simp

text \<open>
  Under first come, first served a pass keeps everybody's place. The queues are
  decided on in order, block holders first; the scheduled requests join the running ones in that
  order, and every request set aside is put back in front of those not reached, in its old order
  among them, in the queue of the block holders or in the other according to what it held.
\<close>

theorem fcfs_pass_keeps_order:
  shows "\<exists>s'. waiting_pass fcfs_ops vs s = Inr s'
    \<and> running s' = running s @ decided Schedule (kv_holding_waiting s @ waiting s) vs
    \<and> kv_holding_waiting s' = decided (Skip True) (kv_holding_waiting s @ waiting s) vs
        @ drop (length vs) (kv_holding_waiting s)
    \<and> waiting s' = decided (Skip False) (kv_holding_waiting s @ waiting s) vs
        @ drop (length vs - length (kv_holding_waiting s)) (waiting s)"
proof -
  let ?s = "s\<lparr>step_skipped_waiting := [], step_skipped_kv_holding := []\<rparr>"
  obtain s1 where s1: "waiting_loop fcfs_ops vs ?s = Inr s1"
    "kv_holding_waiting s1 = drop (length vs) (kv_holding_waiting s)"
    "waiting s1 = drop (length vs - length (kv_holding_waiting s)) (waiting s)"
    "running s1 = running s @ decided Schedule (kv_holding_waiting s @ waiting s) vs"
    "step_skipped_kv_holding s1 = rev (decided (Skip True) (kv_holding_waiting s @ waiting s) vs)"
    "step_skipped_waiting s1 = rev (decided (Skip False) (kv_holding_waiting s @ waiting s) vs)"
    using fcfs_loop[of vs ?s] by auto
  have "waiting_pass fcfs_ops vs s = Inr (requeue_skipped fcfs_ops s1)" using s1(1) by (simp add: waiting_pass_def)
  moreover have "running (requeue_skipped fcfs_ops s1) = running s1"
    "kv_holding_waiting (requeue_skipped fcfs_ops s1) = rev (step_skipped_kv_holding s1) @ kv_holding_waiting s1"
    "waiting (requeue_skipped fcfs_ops s1) = rev (step_skipped_waiting s1) @ waiting s1"
    by (simp_all add: requeue_skipped_def Let_def fcfs_ops_def fcfs_prepend_requests_def fold_Cons)
  ultimately show ?thesis by (simp add: s1(2-6))
qed

end
