(* ===== verification/SchedUtils.thy ===== *)
theory SchedUtils imports RequestModel
begin

text \<open>
  The stop conditions of \<^verbatim>\<open>vllm/v1/core/sched/utils.py\<close> and the loop of the scheduler that
  appends sampled tokens until one stops the request.
\<close>

section \<open>Repetition\<close>

fun match_loop :: "int list \<Rightarrow> int \<Rightarrow> int \<Rightarrow> int \<Rightarrow> int list \<Rightarrow> bool res" where
  "match_loop toks plen n target [] = Inr True"
| "match_loop toks plen n target (m # ms) =
     bind_res (py_get toks (- (plen * m + n))) (\<lambda>t.
       if t \<noteq> target then Inr False else match_loop toks plen n target ms)"

fun pattern_loop :: "int list \<Rightarrow> int \<Rightarrow> int \<Rightarrow> int list \<Rightarrow> bool res" where
  "pattern_loop toks plen cnt [] = Inr True"
| "pattern_loop toks plen cnt (n # ns) =
     bind_res (py_get toks (- n)) (\<lambda>target.
     bind_res (match_loop toks plen n target [1..cnt - 1]) (\<lambda>same.
       if same then pattern_loop toks plen cnt ns else Inr False))"

definition has_repeating_pattern :: "int list \<Rightarrow> int \<Rightarrow> int \<Rightarrow> bool res" where
  "has_repeating_pattern toks plen cnt = pattern_loop toks plen cnt [1..plen]"

fun size_loop :: "int list \<Rightarrow> int \<Rightarrow> int list \<Rightarrow> bool res" where
  "size_loop toks cnt [] = Inr False"
| "size_loop toks cnt (plen # plens) =
     (if plen * cnt > int (length toks) then Inr False
      else bind_res (has_repeating_pattern toks plen cnt) (\<lambda>found.
             if found then Inr True else size_loop toks cnt plens))"

definition check_sequence_repetition :: "int list \<Rightarrow> repetition_params \<Rightarrow> bool res" where
  "check_sequence_repetition toks p =
     (let least = (if min_pattern_size p \<le> 0 then 1 else min_pattern_size p)
      in if max_pattern_size p \<le> 0 \<or> min_count p < 2 \<or> least > max_pattern_size p then Inr False
         else size_loop toks (min_count p) [least..max_pattern_size p])"

section \<open>Removing from a list\<close>

text \<open>\<open>remove_all\<close>, with a listing of the set to remove.\<close>

definition remove_all :: "'a list \<Rightarrow> 'a list \<Rightarrow> 'a list" where
  "remove_all xs items =
     (if items = [] then xs
      else if length items = 1 then remove1 (items ! 0) xs
      else filter (\<lambda>x. x \<notin> set items) xs)"

section \<open>Stopping\<close>

text \<open>\<^verbatim>\<open>sampling_params.stop_token_ids or ()\<close>.\<close>

definition stop_ids :: "sampling_params \<Rightarrow> int list" where
  "stop_ids sp = (case stop_token_ids sp of None \<Rightarrow> [] | Some ids \<Rightarrow> ids)"

definition check_stop :: "int \<Rightarrow> request \<Rightarrow> (bool \<times> request) res" where
  "check_stop max_model_len r =
     (if req_pooling_params r \<noteq> None then Inl AssertionError
      else case req_sampling_params r of
        None \<Rightarrow> Inl AssertionError
      | Some sp \<Rightarrow>
          bind_res (py_get (output_token_ids r) (- 1)) (\<lambda>last_token.
            if Some last_token = eos_token_id sp then Inr (True, r\<lparr>status := FINISHED_STOPPED\<rparr>)
            else if last_token \<in> set (stop_ids sp)
            then Inr (True, r\<lparr>status := FINISHED_STOPPED, req_stop_reason := Some (StopToken last_token)\<rparr>)
            else if num_tokens r \<ge> max_model_len \<or> num_output_tokens r \<ge> max_tokens r
            then Inr (True, r\<lparr>status := FINISHED_LENGTH_CAPPED\<rparr>)
            else if num_output_tokens r < min_tokens sp then Inr (False, r)
            else case repetition_detection sp of
                   None \<Rightarrow> Inr (False, r)
                 | Some p \<Rightarrow>
                     bind_res (check_sequence_repetition (output_token_ids r) p) (\<lambda>found.
                       if found
                       then Inr (True, r\<lparr>status := FINISHED_REPETITION,
                                   req_stop_reason := Some (StopStr ''repetition_detected'')\<rparr>)
                       else Inr (False, r))))"

text \<open>
  The loop over the new tokens; \<^verbatim>\<open>del new_token_ids[num_new:]\<close> leaves those appended, which are
  the first part of the result.
\<close>

fun update_request_with_output ::
    "hasher option \<Rightarrow> int \<Rightarrow> int list \<Rightarrow> request \<Rightarrow> (int list \<times> bool \<times> request) res" where
  "update_request_with_output hasher max_model_len [] r = Inr ([], False, r)"
| "update_request_with_output hasher max_model_len (t # ts) r =
     bind_res (append_output_token_ids hasher [t] r) (\<lambda>r.
     bind_res (check_stop max_model_len r) (\<lambda>(stopped, r).
       if stopped then Inr ([t], True, r)
       else bind_res (update_request_with_output hasher max_model_len ts r) (\<lambda>(kept, stopped, r).
              Inr (t # kept, stopped, r))))"

section \<open>Repetition is repetition\<close>

text \<open>The reference: the sequence ends in a number of copies of a block of the size.\<close>

definition ends_with_copies :: "'a list \<Rightarrow> nat \<Rightarrow> nat \<Rightarrow> bool" where
  "ends_with_copies xs plen cnt \<longleftrightarrow>
     (\<exists>pre block. xs = pre @ concat (replicate cnt block) \<and> length block = plen)"

lemma concat_replicate_nth:
  "i < n * length b \<Longrightarrow> concat (replicate n b) ! i = b ! (i mod length b)"
proof (induction n arbitrary: i)
  case (Suc n)
  show ?case
  proof (cases "i < length b")
    case False
    then have "i - length b < n * length b" using Suc.prems by simp
    from Suc.IH[OF this] False show ?thesis by (simp add: nth_append le_mod_geq)
  qed (simp add: nth_append)
qed simp

text \<open>Counted from the end, every token of the last copy recurs one block length further back.\<close>

definition recurs :: "'a list \<Rightarrow> nat \<Rightarrow> nat \<Rightarrow> bool" where
  "recurs xs plen cnt \<longleftrightarrow>
     (\<forall>n. 1 \<le> n \<longrightarrow> n \<le> plen \<longrightarrow> (\<forall>m. 1 \<le> m \<longrightarrow> m < cnt \<longrightarrow>
        xs ! (length xs - (plen * m + n)) = xs ! (length xs - n)))"

lemma copies_recur:
  assumes "ends_with_copies xs plen cnt" "0 < cnt"
  shows "recurs xs plen cnt"
proof -
  obtain pre b where xs: "xs = pre @ concat (replicate cnt b)" "length b = plen"
    using assms(1) by (auto simp: ends_with_copies_def)
  have at: "xs ! (length xs - (plen * m + n)) = b ! (plen - n)" if n: "1 \<le> n" "n \<le> plen" and m: "m < cnt" for m n
  proof -
    let ?i = "plen * cnt - (plen * m + n)"
    have le: "plen * m + n \<le> plen * cnt"
      using n m by (metis Suc_leI add_le_cancel_left le_trans mult_Suc_right mult_le_mono2 add.commute)
    have "length xs = length pre + plen * cnt" by (simp add: xs length_concat sum_list_replicate mult.commute)
    then have "length xs - (plen * m + n) = length pre + ?i" using le by simp
    moreover have "?i < cnt * length b" using n m le xs(2) by (simp add: mult.commute)
    moreover have "?i mod plen = plen - n"
    proof -
      have "(cnt - Suc m) + Suc m = cnt" using m by simp
      then have "plen * cnt = plen * (cnt - Suc m) + plen * Suc m" by (metis add_mult_distrib2)
      then have "?i = (plen - n) + plen * (cnt - Suc m)" using n by (simp add: algebra_simps)
      moreover have "plen - n < plen" using n by simp
      ultimately show ?thesis by simp
    qed
    ultimately show ?thesis using concat_replicate_nth[of ?i cnt b] xs by (simp add: nth_append)
  qed
  show ?thesis unfolding recurs_def using at[of _ 0] at assms(2) by simp
qed

lemma recurring_copies:
  assumes r: "recurs xs plen cnt" and len: "plen * cnt \<le> length xs" and pos: "0 < plen" "0 < cnt"
  shows "ends_with_copies xs plen cnt"
proof -
  let ?b = "drop (length xs - plen) xs" let ?pre = "take (length xs - plen * cnt) xs"
  have sz: "plen \<le> length xs" using len pos by (metis le_trans mult.right_neutral mult_le_mono2 Suc_leI One_nat_def)
  then have lb: "length ?b = plen" by simp
  have "drop (length xs - plen * cnt) xs = concat (replicate cnt ?b)"
  proof (rule nth_equalityI)
    show "length (drop (length xs - plen * cnt) xs) = length (concat (replicate cnt ?b))"
      using len sz by (simp add: length_concat sum_list_replicate mult.commute)
    fix i assume "i < length (drop (length xs - plen * cnt) xs)"
    then have i: "i < plen * cnt" using len by simp
    let ?n = "plen - i mod plen" let ?m = "cnt - Suc (i div plen)"
    have q: "i div plen < cnt" using i pos by (simp add: less_mult_imp_div_less mult.commute)
    have mod: "i mod plen < plen" using pos by simp
    have split: "i = plen * (i div plen) + i mod plen" by simp
    have "plen * cnt = plen * ?m + plen * Suc (i div plen)"
      using q by (simp add: add_mult_distrib2[symmetric] del: mult_Suc_right)
    then have "plen * cnt = plen * ?m + (plen + plen * (i div plen))" by simp
    then have eq: "plen * cnt - i = plen * ?m + ?n" using split mod by linarith
    have "xs ! (length xs - (plen * ?m + ?n)) = xs ! (length xs - ?n)"
    proof (cases "?m = 0")
      case False
      then show ?thesis using r mod q unfolding recurs_def by (metis One_nat_def Suc_leI diff_less diff_le_self
        less_le_trans not_gr_zero zero_less_diff zero_less_Suc pos(2))
    qed simp
    moreover have "length xs - (plen * ?m + ?n) = length xs - plen * cnt + i" using eq i len by linarith
    moreover have "length xs - ?n = length xs - plen + i mod plen" using mod sz by linarith
    ultimately show "drop (length xs - plen * cnt) xs ! i = concat (replicate cnt ?b) ! i"
      using concat_replicate_nth[of i cnt ?b] i lb sz by (simp add: mult.commute)
  qed
  then have "xs = ?pre @ concat (replicate cnt ?b)" by (metis append_take_drop_id)
  then show ?thesis using lb unfolding ends_with_copies_def by blast
qed

lemma py_get_back:
  assumes "1 \<le> k" "k \<le> int (length xs)"
  shows "py_get xs (- k) = Inr (xs ! (length xs - nat k))"
proof -
  have "nat (int (length xs) - k) = length xs - nat k" using assms by linarith
  then show ?thesis using assms by (simp add: py_get_def py_index_def)
qed

lemma match_loop_eq:
  assumes "\<forall>m \<in> set ms. 1 \<le> plen * m + n \<and> plen * m + n \<le> int (length toks)"
  shows "match_loop toks plen n target ms
    = Inr (\<forall>m \<in> set ms. toks ! (length toks - nat (plen * m + n)) = target)"
  using assms
proof (induction ms)
  case (Cons m ms)
  then have "py_get toks (- (plen * m + n)) = Inr (toks ! (length toks - nat (plen * m + n)))"
    by (intro py_get_back) simp_all
  then show ?case using Cons by (simp del: minus_add_distrib)
qed simp

lemma position_bounds:
  fixes plen cnt n m :: int
  assumes "1 \<le> n" "n \<le> plen" "0 \<le> m" "m < cnt" "plen * cnt \<le> l"
  shows "1 \<le> plen * m + n" "plen * m + n \<le> l"
proof -
  have "0 \<le> plen * m" using assms by simp
  then show "1 \<le> plen * m + n" using assms(1) by simp
  have "plen * m + plen = plen * (m + 1)" by (simp add: algebra_simps)
  also have "\<dots> \<le> plen * cnt" using assms by (intro mult_left_mono) simp_all
  finally show "plen * m + n \<le> l" using assms by simp
qed

lemma pattern_loop_eq:
  assumes "\<forall>n \<in> set ns. 1 \<le> n \<and> n \<le> plen" "plen * cnt \<le> int (length toks)" "1 \<le> cnt"
  shows "pattern_loop toks plen cnt ns = Inr (\<forall>n \<in> set ns. \<forall>m \<in> {1..cnt - 1}.
    toks ! (length toks - nat (plen * m + n)) = toks ! (length toks - nat n))"
  using assms(1)
proof (induction ns)
  case (Cons n ns)
  have n: "1 \<le> n" "n \<le> plen" using Cons.prems by simp_all
  have b: "1 \<le> plen * m + n \<and> plen * m + n \<le> int (length toks)" if "0 \<le> m" "m < cnt" for m
    using position_bounds[OF n that assms(2)] by blast
  have "py_get toks (- n) = Inr (toks ! (length toks - nat n))"
    using b[of 0] assms(3) by (intro py_get_back) simp_all
  moreover have "match_loop toks plen n t [1..cnt - 1]
      = Inr (\<forall>m \<in> {1..cnt - 1}. toks ! (length toks - nat (plen * m + n)) = t)" for t
    using b by (subst match_loop_eq) simp_all
  ultimately show ?case using Cons by auto
qed simp

lemma has_repeating_pattern_eq:
  assumes "1 \<le> plen" "1 \<le> cnt" "plen * cnt \<le> int (length toks)"
  shows "has_repeating_pattern toks plen cnt = Inr (ends_with_copies toks (nat plen) (nat cnt))"
proof -
  obtain l c where lc: "plen = int l" "cnt = int c" "0 < l" "0 < c"
    using assms(1,2) by (metis int_one_le_iff_zero_less zero_le_imp_eq_int order_trans zero_le_one of_nat_0_less_iff)
  have "(\<forall>n \<in> {1..plen}. \<forall>m \<in> {1..cnt - 1}. toks ! (length toks - nat (plen * m + n)) = toks ! (length toks - nat n))
      \<longleftrightarrow> recurs toks l c"
  proof
    assume a: "\<forall>n \<in> {1..plen}. \<forall>m \<in> {1..cnt - 1}. toks ! (length toks - nat (plen * m + n)) = toks ! (length toks - nat n)"
    show "recurs toks l c" unfolding recurs_def
    proof (intro allI impI)
      fix n m assume "1 \<le> n" "n \<le> l" "1 \<le> m" "m < c"
      then have "toks ! (length toks - nat (plen * int m + int n)) = toks ! (length toks - nat (int n))"
        using a lc by auto
      moreover have "nat (plen * int m + int n) = l * m + n" by (simp add: lc nat_add_distrib nat_mult_distrib)
      ultimately show "toks ! (length toks - (l * m + n)) = toks ! (length toks - n)" by simp
    qed
  next
    assume r: "recurs toks l c"
    show "\<forall>n \<in> {1..plen}. \<forall>m \<in> {1..cnt - 1}. toks ! (length toks - nat (plen * m + n)) = toks ! (length toks - nat n)"
    proof (intro ballI)
      fix n m assume nm: "n \<in> {1..plen}" "m \<in> {1..cnt - 1}"
      then have "1 \<le> nat n" "nat n \<le> l" "1 \<le> nat m" "nat m < c" using lc by auto
      then have "toks ! (length toks - (l * nat m + nat n)) = toks ! (length toks - nat n)"
        using r unfolding recurs_def by blast
      moreover have "nat (plen * m + n) = l * nat m + nat n" using nm lc by (simp add: nat_add_distrib nat_mult_distrib)
      ultimately show "toks ! (length toks - nat (plen * m + n)) = toks ! (length toks - nat n)" by simp
    qed
  qed
  moreover have "l * c \<le> length toks" using assms(3) lc by (metis of_nat_le_iff of_nat_mult)
  then have "recurs toks l c \<longleftrightarrow> ends_with_copies toks l c"
    using copies_recur[OF _ lc(4)] recurring_copies[OF _ _ lc(3,4)] by blast
  ultimately show ?thesis
    using pattern_loop_eq[of "[1..plen]" plen cnt toks] assms lc(1,2) by (simp add: has_repeating_pattern_def)
qed

lemma copies_length: "ends_with_copies xs l c \<Longrightarrow> l * c \<le> length xs"
  by (auto simp: ends_with_copies_def length_concat sum_list_replicate)

lemma size_loop_eq:
  assumes "1 \<le> a" "1 \<le> cnt"
  shows "size_loop toks cnt [a..b] = Inr (\<exists>plen \<in> {a..b}. ends_with_copies toks (nat plen) (nat cnt))"
  using assms(1)
proof (induction a b rule: upto.induct)
  case (1 a b)
  show ?case
  proof (cases "a \<le> b")
    case True
    have split: "{a..b} = insert a {a + 1..b}" using True by auto
    show ?thesis
    proof (cases "a * cnt > int (length toks)")
      case over: True
      have "\<not> ends_with_copies toks (nat plen) (nat cnt)" if "plen \<in> {a..b}" for plen
      proof
        assume "ends_with_copies toks (nat plen) (nat cnt)"
        then have "nat plen * nat cnt \<le> length toks" by (rule copies_length)
        then have "int (nat plen) * int (nat cnt) \<le> int (length toks)" by (metis of_nat_le_iff of_nat_mult)
        then have "plen * cnt \<le> int (length toks)" using that 1(2) assms(2) by simp
        moreover have "a * cnt \<le> plen * cnt" using that assms(2) by (intro mult_right_mono) simp_all
        ultimately show False using over by simp
      qed
      then show ?thesis using over True by (subst upto_rec1[OF True]) simp
    next
      case False
      then show ?thesis using 1 True has_repeating_pattern_eq[of a cnt toks] assms(2)
        by (subst upto_rec1[OF True]) (simp add: split)
    qed
  qed simp
qed

lemma check_repetition_eq:
  "check_sequence_repetition toks p = Inr (2 \<le> min_count p
     \<and> (\<exists>plen \<in> {max 1 (min_pattern_size p)..max_pattern_size p}.
          ends_with_copies toks (nat plen) (nat (min_count p))))"
proof -
  have "(if min_pattern_size p \<le> 0 then 1 else min_pattern_size p) = max 1 (min_pattern_size p)" by auto
  moreover have "max 1 (min_pattern_size p) \<le> 0 \<longleftrightarrow> False" by auto
  ultimately show ?thesis
    using size_loop_eq[of "max 1 (min_pattern_size p)" "min_count p" toks "max_pattern_size p"]
    by (auto simp: check_sequence_repetition_def Let_def)
qed

text \<open>
  Property C39. Repetition detection means what its documentation says: it answers yes, and never
  raises, exactly when the checks are enabled and the output ends in \<open>min_count\<close> copies of a
  block of tokens whose length lies between the minimal pattern size (one when unset) and the
  maximal one.
\<close>

theorem repetition_detection_exact:
  "check_sequence_repetition toks p = Inr (2 \<le> min_count p
     \<and> (\<exists>plen \<in> {max 1 (min_pattern_size p)..max_pattern_size p}.
          ends_with_copies toks (nat plen) (nat (min_count p))))"
  by (rule check_repetition_eq)

section \<open>Appending until a token stops the request\<close>

text \<open>The request can be generated for, and its block hasher, if any, does not fail.\<close>

definition generating :: "request \<Rightarrow> bool" where
  "generating r \<longleftrightarrow> req_pooling_params r = None \<and> req_sampling_params r \<noteq> None \<and> \<not> is_finished r"

definition hasher_total :: "hasher option \<Rightarrow> bool" where
  "hasher_total hasher \<longleftrightarrow> (\<forall>h r. hasher = Some h \<longrightarrow> (\<exists>new. h r = Inr new))"

text \<open>What ends a generation at a token, in the order of the checks.\<close>

definition stop_status :: "int \<Rightarrow> sampling_params \<Rightarrow> request \<Rightarrow> request_status option" where
  "stop_status max_model_len sp r =
     (let t = last (output_token_ids r) in
      if eos_token_id sp = Some t \<or> t \<in> set (stop_ids sp)
      then Some FINISHED_STOPPED
      else if num_tokens r \<ge> max_model_len \<or> num_output_tokens r \<ge> max_tokens r
      then Some FINISHED_LENGTH_CAPPED
      else if num_output_tokens r \<ge> min_tokens sp \<and> (\<exists>p. repetition_detection sp = Some p
                \<and> check_sequence_repetition (output_token_ids r) p = Inr True)
      then Some FINISHED_REPETITION else None)"

lemma check_stop_eq:
  assumes "req_pooling_params r = None" "req_sampling_params r = Some sp" "output_token_ids r \<noteq> []"
  shows "\<exists>why. check_stop max_model_len r = Inr (case stop_status max_model_len sp r of
      None \<Rightarrow> (False, r) | Some st \<Rightarrow> (True, r\<lparr>status := st, req_stop_reason := why\<rparr>))"
proof -
  let ?t = "last (output_token_ids r)"
  have "1 \<le> int (length (output_token_ids r))" using assms(3) by (cases "output_token_ids r") auto
  from py_get_back[OF _ this] have last: "py_get (output_token_ids r) (- 1) = Inr ?t"
    using assms(3) by (simp add: last_conv_nth)
  obtain b where rep: "\<And>p. repetition_detection sp = Some p \<Longrightarrow> check_sequence_repetition (output_token_ids r) p = Inr b"
    by (cases "repetition_detection sp") (auto simp: check_repetition_eq)
  show ?thesis
  proof (cases "eos_token_id sp = Some ?t")
    case True
    then show ?thesis using assms last
      by (intro exI[of _ "req_stop_reason r"]) (simp add: check_stop_def stop_status_def Let_def)
  next
    case eos: False
    then have eos': "Some ?t \<noteq> eos_token_id sp" by metis
    show ?thesis
    proof (cases "?t \<in> set (stop_ids sp)")
      case True
      then show ?thesis using assms last eos eos'
        by (intro exI[of _ "Some (StopToken ?t)"]) (simp add: check_stop_def stop_status_def Let_def)
    next
      case False
      then have eq: "check_stop max_model_len r =
         (if num_tokens r \<ge> max_model_len \<or> num_output_tokens r \<ge> max_tokens r
            then Inr (True, r\<lparr>status := FINISHED_LENGTH_CAPPED\<rparr>)
            else if num_output_tokens r < min_tokens sp then Inr (False, r)
            else case repetition_detection sp of
                   None \<Rightarrow> Inr (False, r)
                 | Some p \<Rightarrow>
                     bind_res (check_sequence_repetition (output_token_ids r) p) (\<lambda>found.
                       if found
                       then Inr (True, r\<lparr>status := FINISHED_REPETITION,
                                   req_stop_reason := Some (StopStr ''repetition_detected'')\<rparr>)
                       else Inr (False, r)))"
        using assms last eos' by (simp add: check_stop_def)
      have st: "stop_status max_model_len sp r =
        (if num_tokens r \<ge> max_model_len \<or> num_output_tokens r \<ge> max_tokens r then Some FINISHED_LENGTH_CAPPED
         else if num_output_tokens r \<ge> min_tokens sp \<and> repetition_detection sp \<noteq> None \<and> b
         then Some FINISHED_REPETITION else None)"
        using eos False rep by (auto simp: stop_status_def Let_def)
      show ?thesis unfolding eq st using rep
        by (cases "repetition_detection sp")
          (auto intro: exI[of _ "req_stop_reason r"] exI[of _ "Some (StopStr ''repetition_detected'')"])
    qed
  qed
qed

text \<open>
  The reference for the loop: the number of tokens appended is that of the first one that stops
  the request, or all of them.
\<close>

definition with_output :: "request \<Rightarrow> int list \<Rightarrow> request" where
  "with_output r ts = r\<lparr>output_token_ids := output_token_ids r @ ts, all_token_ids := all_token_ids r @ ts\<rparr>"

definition stops_after :: "int \<Rightarrow> request \<Rightarrow> int list \<Rightarrow> bool" where
  "stops_after max_model_len r ts \<longleftrightarrow>
     stop_status max_model_len (the (req_sampling_params r)) (with_output r ts) \<noteq> None"

lemma stop_status_cong:
  "output_token_ids r' = output_token_ids r \<Longrightarrow> all_token_ids r' = all_token_ids r \<Longrightarrow> max_tokens r' = max_tokens r
    \<Longrightarrow> stop_status n sp r' = stop_status n sp r"
  by (simp only: stop_status_def num_tokens_def num_output_tokens_def)

lemma append_one:
  assumes "hasher_total hasher"
  shows "\<exists>r'. append_output_token_ids hasher [t] r = Inr r' \<and> output_token_ids r' = output_token_ids r @ [t]
    \<and> all_token_ids r' = all_token_ids r @ [t] \<and> max_tokens r' = max_tokens r \<and> status r' = status r
    \<and> req_sampling_params r' = req_sampling_params r \<and> req_pooling_params r' = req_pooling_params r"
proof (cases hasher)
  case (Some h)
  then show ?thesis using assms
    by (auto simp: append_output_token_ids_def update_block_hashes_def hasher_total_def bind_res_def split: sum.split)
      (metis sum.distinct(1))
qed (simp add: append_output_token_ids_def update_block_hashes_def)

lemma output_loop:
  assumes "hasher_total hasher" "generating r" "req_sampling_params r = Some sp"
  shows "\<exists>kept stopped r'. update_request_with_output hasher n ts r = Inr (kept, stopped, r')
    \<and> (\<exists>rest. ts = kept @ rest \<and> (\<not> stopped \<longrightarrow> rest = []))
    \<and> output_token_ids r' = output_token_ids r @ kept \<and> all_token_ids r' = all_token_ids r @ kept
    \<and> max_tokens r' = max_tokens r
    \<and> (\<forall>k < length kept. 0 < k \<longrightarrow> \<not> stops_after n r (take k kept))
    \<and> (if stopped then kept \<noteq> [] \<and> Some (status r') = stop_status n sp (with_output r kept)
       else status r' = status r \<and> (kept \<noteq> [] \<longrightarrow> \<not> stops_after n r kept))"
  using assms
proof (induction ts arbitrary: r)
  case Nil
  then show ?case by (intro exI[of _ "[]"] exI[of _ False] exI[of _ r]) simp
next
  case (Cons t ts)
  from append_one[OF assms(1), of t r] obtain r1 where
    r1: "append_output_token_ids hasher [t] r = Inr r1" "output_token_ids r1 = output_token_ids r @ [t]"
      "all_token_ids r1 = all_token_ids r @ [t]" "max_tokens r1 = max_tokens r" "status r1 = status r"
      "req_sampling_params r1 = Some sp" "req_pooling_params r1 = None"
    using Cons.prems(2,3) by (auto simp: generating_def)
  have g1: "generating r1" using Cons.prems(2) r1 by (simp add: generating_def is_finished_def)
  have st1: "stop_status n sp r1 = stop_status n sp (with_output r [t])"
    using r1 by (intro stop_status_cong) (simp_all add: with_output_def)
  obtain why where c: "check_stop n r1 = Inr (case stop_status n sp r1 of None \<Rightarrow> (False, r1)
      | Some st \<Rightarrow> (True, r1\<lparr>status := st, req_stop_reason := why\<rparr>))"
    using check_stop_eq[OF r1(7,6), of n] r1(2) by auto
  show ?case
  proof (cases "stop_status n sp r1")
    case (Some st)
    then have "update_request_with_output hasher n (t # ts) r
      = Inr ([t], True, r1\<lparr>status := st, req_stop_reason := why\<rparr>)" using r1(1) c by simp
    then show ?thesis using r1 Some st1
      by (intro exI[of _ "[t]"] exI[of _ True] exI[of _ "r1\<lparr>status := st, req_stop_reason := why\<rparr>"]) simp
  next
    case None
    from Cons.IH[OF assms(1) g1 r1(6)] obtain kept stopped r' rest where
      ih: "update_request_with_output hasher n ts r1 = Inr (kept, stopped, r')"
        "ts = kept @ rest" "\<not> stopped \<longrightarrow> rest = []"
        "output_token_ids r' = output_token_ids r1 @ kept" "all_token_ids r' = all_token_ids r1 @ kept"
        "max_tokens r' = max_tokens r1" "\<forall>k < length kept. 0 < k \<longrightarrow> \<not> stops_after n r1 (take k kept)"
        "if stopped then kept \<noteq> [] \<and> Some (status r') = stop_status n sp (with_output r1 kept)
         else status r' = status r1 \<and> (kept \<noteq> [] \<longrightarrow> \<not> stops_after n r1 kept)" by blast
    have shift: "stop_status n sp (with_output r1 xs) = stop_status n sp (with_output r (t # xs))" for xs
      using r1 by (intro stop_status_cong) (simp_all add: with_output_def)
    then have after: "stops_after n r1 xs = stops_after n r (t # xs)" for xs
      using r1(6) Cons.prems(3) by (simp add: stops_after_def)
    have one: "\<not> stops_after n r [t]" using None st1 Cons.prems(3) by (simp add: stops_after_def)
    have "\<not> stops_after n r (take k (t # kept))" if "k < length (t # kept)" "0 < k" for k
      using that ih(7) one after by (cases k; cases "k - 1") auto
    moreover have "update_request_with_output hasher n (t # ts) r = Inr (t # kept, stopped, r')"
      using r1(1) c None ih(1) by simp
    moreover have "if stopped then Some (status r') = stop_status n sp (with_output r (t # kept))
        else status r' = status r \<and> \<not> stops_after n r (t # kept)"
      using ih(8) shift after one r1(5) by (cases "kept = []") auto
    ultimately show ?thesis using ih r1 by (intro exI[of _ "t # kept"] exI[of _ stopped] exI[of _ r']) auto
  qed
qed

lemma not_stopped_within:
  assumes "\<not> stops_after n r ts"
  shows "num_tokens (with_output r ts) < n" "num_output_tokens (with_output r ts) < max_tokens r"
  using assms by (auto simp: stops_after_def stop_status_def Let_def with_output_def split: if_splits)

text \<open>
  Property C40. Appending a step's tokens stops at the first one that ends the request, and keeps
  nothing after it: all and only the tokens up to there are added to the output and to the
  sequence; the request is finished, with the status of the first applicable condition, exactly
  when it stopped; and a request that had room left neither outgrows \<open>max_tokens\<close> nor the model's
  length, whatever the sampler returned.
\<close>

theorem output_stops_at_first_stop:
  assumes "hasher_total hasher" "generating r"
  shows "\<exists>kept rest stopped r'. update_request_with_output hasher n ts r = Inr (kept, stopped, r')
    \<and> ts = kept @ rest \<and> (\<not> stopped \<longrightarrow> rest = [])
    \<and> output_token_ids r' = output_token_ids r @ kept \<and> all_token_ids r' = all_token_ids r @ kept
    \<and> (\<forall>k < length kept. 0 < k \<longrightarrow> \<not> stops_after n r (take k kept))
    \<and> (stopped \<longleftrightarrow> kept \<noteq> [] \<and> stops_after n r kept) \<and> (stopped \<longleftrightarrow> is_finished r')
    \<and> (num_output_tokens r < max_tokens r \<longrightarrow> num_output_tokens r' \<le> max_tokens r)
    \<and> (num_tokens r < n \<longrightarrow> num_tokens r' \<le> n)"
proof -
  obtain sp where sp: "req_sampling_params r = Some sp" using assms(2) by (auto simp: generating_def)
  from output_loop[OF assms sp, of n ts] obtain kept stopped r' rest where
    o: "update_request_with_output hasher n ts r = Inr (kept, stopped, r')"
      "ts = kept @ rest" "\<not> stopped \<longrightarrow> rest = []"
      "output_token_ids r' = output_token_ids r @ kept" "all_token_ids r' = all_token_ids r @ kept"
      "\<forall>k < length kept. 0 < k \<longrightarrow> \<not> stops_after n r (take k kept)"
      "if stopped then kept \<noteq> [] \<and> Some (status r') = stop_status n sp (with_output r kept)
       else status r' = status r \<and> (kept \<noteq> [] \<longrightarrow> \<not> stops_after n r kept)" by blast
  have sa: "stops_after n r xs \<longleftrightarrow> stop_status n sp (with_output r xs) \<noteq> None" for xs
    by (simp add: stops_after_def sp)
  have st: "stopped \<longleftrightarrow> kept \<noteq> [] \<and> stops_after n r kept" 
  proof (cases stopped)
    case True
    then have k: "kept \<noteq> []" "stop_status n sp (with_output r kept) = Some (status r')" using o(7) by simp_all
    then have "stops_after n r kept" unfolding sa by simp
    then show ?thesis using True k(1) by simp
  next
    case False
    then show ?thesis using o(7) by auto
  qed
  have "stop_status n sp x = Some s \<Longrightarrow> status_is_finished s" for x s
    by (auto simp: stop_status_def Let_def status_is_finished_def less_request_status_def split: if_splits)
  then have fin: "stopped \<longleftrightarrow> is_finished r'"
    using o(7) assms(2) by (auto simp: is_finished_def generating_def split: if_splits)
  have room: "num_output_tokens r' \<le> max_tokens r" if "num_output_tokens r < max_tokens r"
  proof (cases "length kept \<le> 1")
    case False
    then have "\<not> stops_after n r (take (length kept - 1) kept)" using o(6) by simp
    from not_stopped_within(2)[OF this] False show ?thesis
      by (simp add: with_output_def num_output_tokens_def o(4))
  qed (use that in \<open>simp add: num_output_tokens_def o(4)\<close>)
  have fits: "num_tokens r' \<le> n" if "num_tokens r < n"
  proof (cases "length kept \<le> 1")
    case False
    then have "\<not> stops_after n r (take (length kept - 1) kept)" using o(6) by simp
    from not_stopped_within(1)[OF this] False show ?thesis
      by (simp add: with_output_def num_tokens_def o(5))
  qed (use that in \<open>simp add: num_tokens_def o(5)\<close>)
  show ?thesis
    by (intro exI[of _ kept] exI[of _ rest] exI[of _ stopped] exI[of _ r'] conjI impI o st fin room fits)
qed

text \<open>Two tokens are left of five, none of which is a stop token.\<close>

definition example_params :: sampling_params where
  "example_params = \<lparr>sp_max_tokens = Some 2, min_tokens = 0, eos_token_id = Some 7, stop_token_ids = None,
     repetition_detection = None, sp_skip_reading_prefix_cache = None, sp_structured_outputs = False,
     sp_kv_cache_report_mode = None\<rparr>"

theorem output_stops_at_first_stop_witness:
  "\<exists>r'. update_request_with_output None 100 [4, 5, 6, 8, 9]
       ((example_request ''r'' [1])\<lparr>req_sampling_params := Some example_params, max_tokens := 2\<rparr>) = Inr ([4, 5], True, r')
     \<and> is_finished r' \<and> num_output_tokens r' \<le> 2"
proof -
  let ?r = "(example_request ''r'' [1])\<lparr>req_sampling_params := Some example_params, max_tokens := 2\<rparr>"
  have "hasher_total None" "generating ?r"
    by (simp_all add: hasher_total_def generating_def is_finished_def example_request_def status_is_finished_def
        less_request_status_def)
  from output_stops_at_first_stop[OF this, of 100 "[4, 5, 6, 8, 9]"] obtain kept stopped r' where
    o: "update_request_with_output None 100 [4, 5, 6, 8, 9] ?r = Inr (kept, stopped, r')"
      "stopped \<longleftrightarrow> is_finished r'" "num_output_tokens ?r < max_tokens ?r \<longrightarrow> num_output_tokens r' \<le> max_tokens ?r"
    by blast
  have "\<exists>r1. update_request_with_output None 100 [4, 5, 6, 8, 9] ?r = Inr ([4, 5], True, r1)"
    by (simp add: append_output_token_ids_def update_block_hashes_def check_stop_def example_request_def
        example_params_def py_get_def py_index_def stop_ids_def num_tokens_def num_output_tokens_def)
  then show ?thesis using o by (auto simp: num_output_tokens_def example_request_def)
qed

end
