(* ===== verification/Session.thy ===== *)
theory Session imports HashKeys QueueProps SchedUtils
begin

text \<open>
  Streaming sessions: requests whose input arrives in chunks. The continuation data
  (\<^verbatim>\<open>StreamingUpdate\<close> of \<^verbatim>\<open>vllm/v1/request.py\<close>) and the scheduler's side of it
  (\<^verbatim>\<open>add_request\<close>, \<^verbatim>\<open>_update_request_as_session\<close>, \<^verbatim>\<open>_handle_stopped_request\<close>,
  \<^verbatim>\<open>finish_requests\<close> and the end of \<^verbatim>\<open>update_from_output\<close> in \<^verbatim>\<open>vllm/v1/core/sched/scheduler.py\<close>).

  What \<^verbatim>\<open>_free_request\<close> does to the caches and connectors is an argument, \<open>release\<close>.
\<close>

section \<open>Updates\<close>

record streaming_update =
  su_mm_features :: "mm_feature list option"
  su_prompt_token_ids :: "int list option"
  su_max_tokens :: int
  su_arrival_time :: int
  su_sampling_params :: "sampling_params option"

definition update_from_request :: "request \<Rightarrow> streaming_update option" where
  "update_from_request r =
     (if \<not> resumable r then None
      else Some \<lparr>su_mm_features = Some (mm_features r), su_prompt_token_ids = prompt_token_ids r,
                 su_max_tokens = max_tokens r, su_arrival_time = arrival_time r,
                 su_sampling_params = req_sampling_params r\<rparr>)"

definition shift_feature :: "int \<Rightarrow> mm_feature \<Rightarrow> mm_feature" where
  "shift_feature base f = f\<lparr>mm_offset := mm_offset f + base\<rparr>"

definition update_request_as_session ::
    "hasher option \<Rightarrow> streaming_update \<Rightarrow> request \<Rightarrow> request res" where
  "update_request_as_session hasher u r =
     (let computed = num_computed_tokens r;
          kept = py_slice (all_token_ids r) (num_prompt_tokens r) computed;
          r = r\<lparr>all_token_ids := py_slice (all_token_ids r) 0 computed, output_token_ids := []\<rparr>
      in case prompt_token_ids r of
           None \<Rightarrow> Inl AssertionError
         | Some prompt \<Rightarrow>
             let fs = (case su_mm_features u of None \<Rightarrow> [] | Some fs \<Rightarrow> fs);
                 new = (case su_prompt_token_ids u of None \<Rightarrow> [] | Some ts \<Rightarrow> ts);
                 r = r\<lparr>mm_features := mm_features r @ map (shift_feature (num_tokens r)) fs\<rparr>;
                 prompt = prompt @ kept @ new;
                 r = r\<lparr>all_token_ids := all_token_ids r @ new, prompt_token_ids := Some prompt\<rparr>
             in bind_res (update_block_hashes hasher r) (\<lambda>r.
                  Inr (r\<lparr>num_prompt_tokens := int (length prompt), arrival_time := su_arrival_time u,
                         req_sampling_params := su_sampling_params u, max_tokens := su_max_tokens u,
                         status := WAITING\<rparr>)))"

section \<open>The scheduler's state\<close>

record session_state =
  store_of :: store
  waits :: wait_state
  requests :: "string \<rightharpoonup> nat"
  streams :: "nat \<Rightarrow> streaming_update option list option"
  num_streaming :: int
  finished_recving :: "string set"
  failed_recving :: "string set"

abbreviation contents :: "session_state \<Rightarrow> nat \<Rightarrow> request" where
  "contents S x \<equiv> store_of S x"

definition set_contents :: "nat \<Rightarrow> request \<Rightarrow> session_state \<Rightarrow> session_state" where
  "set_contents x r S = S\<lparr>store_of := (store_of S)(x := r)\<rparr>"

definition update_session :: "hasher option \<Rightarrow> streaming_update \<Rightarrow> nat \<Rightarrow> session_state \<Rightarrow> session_state res" where
  "update_session hasher u x S =
     bind_res (update_request_as_session hasher u (contents S x)) (\<lambda>r.
       Inr (set_contents x r
         (if status (contents S x) = WAITING_FOR_STREAMING_REQ
          then S\<lparr>num_streaming := num_streaming S - 1\<rparr> else S)))"

definition enqueue :: "scheduling_policy \<Rightarrow> nat \<Rightarrow> session_state \<Rightarrow> session_state" where
  "enqueue p x S =
     S\<lparr>waits := enqueue_waiting_request (ops_of p (store_of S)) (store_of S) x (waits S)\<rparr>"

text \<open>The result says whether the request is finished.\<close>

definition handle_stopped_request ::
    "scheduling_policy \<Rightarrow> hasher option \<Rightarrow> nat \<Rightarrow> session_state \<Rightarrow> (bool \<times> session_state) res" where
  "handle_stopped_request p hasher x S =
     (let r = contents S x; frontier = num_computed_tokens r - num_output_placeholders r
      in if \<not> resumable r then Inr (True, S)
         else if frontier < 0 then Inl AssertionError
         else
           let r = r\<lparr>num_computed_tokens := frontier, spec_token_ids := [], drop_stale_output := True,
                     num_stale_output_tokens := num_in_flight_tokens r, num_output_placeholders := 0\<rparr>;
               S = set_contents x r S
           in case streams S x of
                Some (u # us) \<Rightarrow>
                  let S = S\<lparr>streams := (streams S)(x := Some us)\<rparr>
                  in (case u of
                        None \<Rightarrow> Inr (True, S)
                      | Some u \<Rightarrow> bind_res (update_session hasher u x S) (\<lambda>S. Inr (False, enqueue p x S)))
              | _ \<Rightarrow>
                  Inr (False, enqueue p x (set_contents x (r\<lparr>status := WAITING_FOR_STREAMING_REQ\<rparr>)
                                (S\<lparr>num_streaming := num_streaming S + 1\<rparr>))))"

section \<open>Finishing from outside\<close>

text \<open>The first pass collects, in the order of the ids.\<close>

definition collect_one ::
    "string \<Rightarrow> session_state \<times> nat list \<times> nat list \<times> nat list \<Rightarrow> session_state \<times> nat list \<times> nat list \<times> nat list" where
  "collect_one rid = (\<lambda>(S, valid, run, wait).
     case requests S rid of
       None \<Rightarrow> (S, valid, run, wait)
     | Some x \<Rightarrow>
         if is_finished (contents S x) then (S, valid, run, wait)
         else if status (contents S x) = RUNNING then (S, valid @ [x], run @ [x], wait)
         else (if status (contents S x) = WAITING_FOR_STREAMING_REQ
               then S\<lparr>num_streaming := num_streaming S - 1\<rparr> else S, valid @ [x], run, wait @ [x]))"

definition finish_one ::
    "(nat \<Rightarrow> bool \<Rightarrow> session_state \<Rightarrow> session_state res) \<Rightarrow> request_status \<Rightarrow> nat \<Rightarrow> session_state \<Rightarrow> session_state res" where
  "finish_one release final x S =
     (let r = contents S x; rid = request_id r; remote = (status r = WAITING_FOR_REMOTE_KVS);
          delay = (remote \<and> rid \<notin> finished_recving S);
          S = (if remote then S\<lparr>finished_recving := finished_recving S - {rid},
                                failed_recving := failed_recving S - {rid}\<rparr> else S)
      in release x delay (set_contents x (r\<lparr>status := final\<rparr>) S))"

text \<open>\<open>ids\<close> lists the set of ids.\<close>

definition finish_requests ::
    "scheduling_policy \<Rightarrow> (nat \<Rightarrow> bool \<Rightarrow> session_state \<Rightarrow> session_state res) \<Rightarrow> string list \<Rightarrow> request_status
      \<Rightarrow> session_state \<Rightarrow> (nat list \<times> session_state) res" where
  "finish_requests p release ids final S =
     (if \<not> status_is_finished final then Inl AssertionError
      else
        let (S, valid, run, wait) = fold collect_one ids (S, [], [], []);
            S = (if run = [] then S
                 else S\<lparr>waits := (waits S)\<lparr>running := remove_all (running (waits S)) run\<rparr>\<rparr>);
            S = S\<lparr>waits := remove_from_queues (ops_of p (store_of S)) wait (waits S)\<rparr>
        in bind_res (fold_res (finish_one release final) valid S) (\<lambda>S. Inr (valid, S)))"

section \<open>Adding a request or a chunk\<close>

definition add_request ::
    "scheduling_policy \<Rightarrow> hasher option \<Rightarrow> (nat \<Rightarrow> bool \<Rightarrow> session_state \<Rightarrow> session_state res) \<Rightarrow> nat
      \<Rightarrow> session_state \<Rightarrow> session_state res" where
  "add_request p hasher release x S =
     (case requests S (request_id (contents S x)) of
        Some y \<Rightarrow>
          let u = update_from_request (contents S x)
          in if status (contents S y) \<noteq> WAITING_FOR_STREAMING_REQ
             then (case streams S y of
                     None \<Rightarrow> Inl AssertionError
                   | Some us \<Rightarrow> Inr (S\<lparr>streams := (streams S)(y := Some (us @ [u]))\<rparr>))
             else (case u of
                     Some u \<Rightarrow> update_session hasher u y S
                   | None \<Rightarrow> bind_res (finish_requests p release [request_id (contents S x)] FINISHED_ABORTED S)
                               (\<lambda>(_, S). Inr S))
      | None \<Rightarrow>
          let S = (if resumable (contents S x) then S\<lparr>streams := (streams S)(x := Some [])\<rparr> else S);
              S = enqueue p x S
          in Inr (S\<lparr>requests := (requests S)(request_id (contents S x) \<mapsto> x)\<rparr>))"

section \<open>The stopped requests of a step\<close>

text \<open>
  The part of \<^verbatim>\<open>update_from_output\<close> that deals with the requests that stopped: each comes with
  its status before the stop. The removal from the queues comes last, for all of them.
\<close>

fun stop_loop ::
    "scheduling_policy \<Rightarrow> hasher option \<Rightarrow> (nat \<Rightarrow> bool \<Rightarrow> session_state \<Rightarrow> session_state res)
      \<Rightarrow> (nat \<times> request_status) list \<Rightarrow> nat list \<times> nat list \<Rightarrow> session_state \<Rightarrow> ((nat list \<times> nat list) \<times> session_state) res" where
  "stop_loop p hasher release [] acc S = Inr (acc, S)"
| "stop_loop p hasher release ((x, before) # rest) (run, preempted) S =
     bind_res (handle_stopped_request p hasher x S) (\<lambda>(finished, S).
     bind_res (if finished then release x False S else Inr S) (\<lambda>S.
       stop_loop p hasher release rest
         (if before = RUNNING then (run @ [x], preempted) else (run, preempted @ [x])) S))"

definition stop_requests ::
    "scheduling_policy \<Rightarrow> hasher option \<Rightarrow> (nat \<Rightarrow> bool \<Rightarrow> session_state \<Rightarrow> session_state res)
      \<Rightarrow> (nat \<times> request_status) list \<Rightarrow> session_state \<Rightarrow> session_state res" where
  "stop_requests p hasher release stopped S =
     bind_res (stop_loop p hasher release stopped ([], []) S) (\<lambda>((run, preempted), S).
       let S = (if run = [] then S
                else S\<lparr>waits := (waits S)\<lparr>running := remove_all (running (waits S)) run\<rparr>\<rparr>)
       in Inr (S\<lparr>waits := remove_from_queues (ops_of p (store_of S)) preempted (waits S)\<rparr>))"

end
