(* ===== verification/SessionProps.thy ===== *)
theory SessionProps imports Session
begin

text \<open>
  The properties of streaming sessions: when a continuation leaves the block hashes those of its
  tokens and when not, where a stopped session goes, and what a new arrival time does to a heap.
\<close>

section \<open>Hashes across a continuation\<close>

lemma canon_hash_agree:
  assumes "\<And>j. j \<le> k \<Longrightarrow> block_tokens B r' j = block_tokens B r j \<and> canon_extra sha B r' j = canon_extra sha B r j"
  shows "canon_hash sha hf nh B r' k = canon_hash sha hf nh B r k"
  using assms by (induction k) simp_all

lemma py_slice_take:
  assumes "0 \<le> a" "a \<le> b" "b \<le> c"
  shows "py_slice (take (nat c) xs) a b = py_slice xs a b"
proof -
  have "nat b \<le> nat c" using assms by simp
  then show ?thesis using assms by (simp add: py_slice_nonneg drop_take)
qed

lemma window_keys_later:
  assumes "\<forall>f \<in> set gs. b \<le> mm_offset f"
  shows "window_keys (fs @ gs) a b = window_keys fs a b"
proof -
  have "filter (\<lambda>f. mm_offset f < b \<and> a < mm_offset f + mm_length f) gs = []"
    using assms by (auto simp: filter_empty_conv)
  then show ?thesis by (simp add: window_keys_def)
qed

definition new_tokens_of :: "streaming_update \<Rightarrow> int list" where
  "new_tokens_of u = (case su_prompt_token_ids u of None \<Rightarrow> [] | Some ts \<Rightarrow> ts)"

definition new_features_of :: "streaming_update \<Rightarrow> mm_feature list" where
  "new_features_of u = (case su_mm_features u of None \<Rightarrow> [] | Some fs \<Rightarrow> fs)"

text \<open>The request as it is when its hashes are extended.\<close>

definition continued :: "streaming_update \<Rightarrow> request \<Rightarrow> int list \<Rightarrow> request" where
  "continued u r prompt = r\<lparr>output_token_ids := [],
     mm_features := mm_features r @ map (shift_feature (num_computed_tokens r)) (new_features_of u),
     all_token_ids := take (nat (num_computed_tokens r)) (all_token_ids r) @ new_tokens_of u,
     prompt_token_ids := Some (prompt @ py_slice (all_token_ids r) (num_prompt_tokens r) (num_computed_tokens r)
       @ new_tokens_of u)\<rparr>"

lemma update_as_continued:
  assumes "prompt_token_ids r = Some prompt" "0 \<le> num_computed_tokens r" "num_computed_tokens r \<le> num_tokens r"
  shows "update_request_as_session hasher u r
    = bind_res (update_block_hashes hasher (continued u r prompt)) (\<lambda>r'.
        Inr (r'\<lparr>num_prompt_tokens := int (length (the (prompt_token_ids (continued u r prompt)))),
          arrival_time := su_arrival_time u, req_sampling_params := su_sampling_params u,
          max_tokens := su_max_tokens u, status := WAITING\<rparr>))"
proof -
  have "py_slice (all_token_ids r) 0 (num_computed_tokens r) = take (nat (num_computed_tokens r)) (all_token_ids r)"
    using assms(2) by (simp add: py_slice_nonneg)
  moreover have "int (length (take (nat (num_computed_tokens r)) (all_token_ids r))) = num_computed_tokens r"
    using assms(2,3) by (simp add: num_tokens_def)
  ultimately show ?thesis using assms(1)
    by (simp add: update_request_as_session_def continued_def num_tokens_def new_tokens_of_def new_features_of_def Let_def)
qed

lemma continued_blocks:
  assumes "0 < B" "0 \<le> num_computed_tokens r" "num_computed_tokens r \<le> num_tokens r"
    "int k * B + B \<le> num_computed_tokens r" "\<forall>f \<in> set (new_features_of u). 0 \<le> mm_offset f"
  shows "block_tokens B (continued u r prompt) k = block_tokens B r k"
    "canon_extra sha B (continued u r prompt) k = canon_extra sha B r k"
proof -
  let ?c = "num_computed_tokens r"
  have len: "int (length (take (nat ?c) (all_token_ids r))) = ?c" using assms(2,3) by (simp add: num_tokens_def)
  have "0 \<le> int k * B" using assms(1) by simp
  then show "block_tokens B (continued u r prompt) k = block_tokens B r k"
    using assms(1,4) len
    by (simp add: block_tokens_def continued_def py_slice_append py_slice_take)
  have "window_keys (mm_features (continued u r prompt)) (int k * B) (int k * B + B)
    = window_keys (mm_features r) (int k * B) (int k * B + B)"
    unfolding continued_def using assms(4,5) by (simp, intro window_keys_later) (auto simp: shift_feature_def)
  then show "canon_extra sha B (continued u r prompt) k = canon_extra sha B r k"
    by (simp add: canon_extra_def gen_lora_extra_hash_keys_def cache_salt_keys_def embeds_keys_def continued_def Let_def)
qed

lemma mm_sorted_continued:
  assumes "mm_sorted (mm_features r)" "mm_sorted (new_features_of u)" "0 \<le> num_computed_tokens r"
    "\<forall>f \<in> set (mm_features r). mm_offset f + mm_length f \<le> num_computed_tokens r"
  shows "mm_sorted (mm_features (continued u r prompt))"
  using assms by (fastforce simp: mm_sorted_def continued_def sorted_wrt_append sorted_wrt_map shift_feature_def)

text \<open>
  Property C20. Continuing a session whose hashed blocks all lie within the computed tokens keeps
  its hashes true: the continuation returns a request whose tokens are the computed ones followed
  by the new chunk, and whose block hashes are those hashing these tokens from scratch gives, with
  the new chunk's multimodal items placed after the kept tokens.
\<close>

theorem session_continuation_rehashes:
  assumes "mm_sorted (mm_features r)" "mm_sorted (new_features_of u)"
    "\<forall>f \<in> set (mm_features r). mm_offset f + mm_length f \<le> num_computed_tokens r"
    "0 < B" "hashes_current sha hf nh B r" "prompt_token_ids r \<noteq> None"
    "0 \<le> num_computed_tokens r" "num_computed_tokens r \<le> num_tokens r"
    "int (full_blocks B r) * B \<le> num_computed_tokens r"
  shows "\<exists>r'. update_request_as_session (Some (request_block_hasher sha hf nh B)) u r = Inr r'
    \<and> all_token_ids r' = take (nat (num_computed_tokens r)) (all_token_ids r) @ new_tokens_of u
    \<and> mm_features r' = mm_features r @ map (shift_feature (num_computed_tokens r)) (new_features_of u)
    \<and> output_token_ids r' = [] \<and> status r' = WAITING \<and> arrival_time r' = su_arrival_time u
    \<and> hashes_current sha hf nh B r'"
proof -
  obtain prompt where p: "prompt_token_ids r = Some prompt" using assms(6) by blast
  let ?C = "canon_hash sha hf nh B" let ?r1 = "continued u r prompt" let ?m = "full_blocks B r"
  have sorted: "mm_sorted (mm_features ?r1)" using mm_sorted_continued assms by blast
  have offs: "\<forall>f \<in> set (new_features_of u). 0 \<le> mm_offset f" using assms(2) by (simp add: mm_sorted_def)
  have in_kept: "int j * B + B \<le> num_computed_tokens r" if "j < ?m" for j
  proof -
    have "int j * B + B = (int j + 1) * B" by (simp add: algebra_simps)
    also have "\<dots> \<le> int ?m * B" using that assms(4) by (intro mult_right_mono) simp_all
    finally show ?thesis using assms(9) by simp
  qed
  have same: "?C ?r1 k = ?C r k" if "k < ?m" for k
    using continued_blocks[OF assms(4,7,8) in_kept offs] that by (intro canon_hash_agree) simp
  have "block_hashes r = map (?C r) [0..<?m]" using assms(1,4,5) by (simp add: hashes_current_iff)
  then have bh: "block_hashes ?r1 = map (?C ?r1) [0..<?m]" using same by (simp add: continued_def)
  have toks: "num_tokens ?r1 = num_computed_tokens r + int (length (new_tokens_of u))"
    using assms(7,8) by (simp add: num_tokens_def continued_def)
  have le: "?m \<le> full_blocks B ?r1"
  proof (rule ccontr)
    assume "\<not> ?m \<le> full_blocks B ?r1"
    then have "full_blocks B ?r1 < ?m" by simp
    with in_kept[of "full_blocks B ?r1"] toks
    have "int (full_blocks B ?r1) * B + B \<le> num_tokens ?r1" by simp
    then have "full_blocks B ?r1 < full_blocks B ?r1" using full_blocks_iff[OF assms(4)] by blast
    then show False by simp
  qed
  note hash = hasher_spec[OF sorted assms(4) le bh]
  let ?r2 = "?r1\<lparr>block_hashes := block_hashes ?r1 @ map (?C ?r1) [?m..<full_blocks B ?r1]\<rparr>"
  let ?r3 = "?r2\<lparr>num_prompt_tokens := int (length (the (prompt_token_ids ?r1))),
          arrival_time := su_arrival_time u, req_sampling_params := su_sampling_params u,
          max_tokens := su_max_tokens u, status := WAITING\<rparr>"
  have "update_request_as_session (Some (request_block_hasher sha hf nh B)) u r = Inr ?r3"
    unfolding update_as_continued[OF p assms(7,8)] by (simp add: update_block_hashes_def hash)
  moreover have "hashes_current sha hf nh B ?r3"
  proof -
    have f: "full_blocks B ?r3 = full_blocks B ?r1" by (simp add: full_blocks_def num_tokens_def)
    have c: "?C ?r3 k = ?C ?r1 k" if "k < full_blocks B ?r1" for k
      using canon_hash_append[OF assms(4), of ?r3 ?r1 "[]"] that by simp
    have "block_hashes ?r3 = map (?C ?r1) ([0..<?m] @ [?m..<full_blocks B ?r1])" using bh by simp
    also have "[0..<?m] @ [?m..<full_blocks B ?r1] = [0..<full_blocks B ?r1]"
      using le by (metis le_add_diff_inverse upt_add_eq_append zero_le)
    also have "map (?C ?r1) [0..<full_blocks B ?r1] = map (?C ?r3) [0..<full_blocks B ?r3]"
      using c f by simp
    finally show ?thesis using sorted assms(4) by (simp add: hashes_current_iff)
  qed
  ultimately show ?thesis by (intro exI[of _ ?r3]) (simp add: continued_def)
qed

text \<open>
  Property C21. The hash of a block that reaches past the computed tokens survives a continuation,
  though its tokens do not: the final sampled token, hashed as soon as it was appended, is
  discarded and replaced by the first token of the new chunk, and the block keeps the hash of the
  discarded one. Unless the hash collides, it is not the hash of the block's tokens, under which
  the block will be offered to other requests.
\<close>

theorem session_continuation_keeps_stale_hash:
  assumes "mm_sorted (mm_features r)" "0 < B" "hashes_current sha hf nh B r"
    "update_request_as_session (Some (request_block_hasher sha hf nh B)) u r = Inr r'"
    "k < full_blocks B r" "block_tokens B r' k \<noteq> block_tokens B r k"
    "inj_on hf {chain_input sha hf nh B r k, chain_input sha hf nh B r' k}"
  shows "block_hashes r' ! k = canon_hash sha hf nh B r k
    \<and> block_hashes r' ! k \<noteq> canon_hash sha hf nh B r' k"
proof -
  have bh: "block_hashes r = map (canon_hash sha hf nh B r) [0..<full_blocks B r]"
    using assms(1-3) by (simp add: hashes_current_iff)
  obtain new where "block_hashes r' = block_hashes r @ new"
    using assms(4)
    by (auto simp: update_request_as_session_def Let_def bind_res_eq_Inr update_block_hashes_def split: option.splits)
  then have k: "block_hashes r' ! k = canon_hash sha hf nh B r k" using assms(5) by (simp add: bh nth_append)
  have "chain_input sha hf nh B r k \<noteq> chain_input sha hf nh B r' k"
    using assms(6) by (simp add: chain_input_def)
  then have "canon_hash sha hf nh B r k \<noteq> canon_hash sha hf nh B r' k"
    unfolding canon_hash_input using assms(7) by (auto simp: inj_on_def)
  then show ?thesis using k by simp
qed

text \<open>A session of two-token blocks whose last token was sampled but not computed.\<close>

definition chunk :: "int list \<Rightarrow> streaming_update" where
  "chunk ts = \<lparr>su_mm_features = Some [], su_prompt_token_ids = Some ts, su_max_tokens = 8,
     su_arrival_time = 5, su_sampling_params = None\<rparr>"

definition session_request :: "int \<Rightarrow> int list \<Rightarrow> request" where
  "session_request computed ts = (example_request ''s'' [1, 2])\<lparr>all_token_ids := ts, num_computed_tokens := computed,
     resumable := True, block_hashes := map (canon_hash id example_hash [9] 2 (example_request ''s'' ts)) [0..<length ts div 2]\<rparr>"

lemma session_request_current:
  "hashes_current id example_hash [9] 2 (session_request c ts)"
proof -
  let ?r = "session_request c ts"
  have "full_blocks 2 ?r = length ts div 2" by (simp add: full_blocks_def num_tokens_def session_request_def)
  moreover have "canon_hash id example_hash [9] 2 ?r k = canon_hash id example_hash [9] 2 (example_request ''s'' ts) k" for k
    by (intro canon_hash_agree) (simp add: block_tokens_def canon_extra_def gen_lora_extra_hash_keys_def
      cache_salt_keys_def embeds_keys_def session_request_def example_request_def)
  moreover have "mm_sorted (mm_features ?r)" by (simp add: session_request_def example_request_def mm_sorted_def)
  ultimately show ?thesis by (subst hashes_current_iff) (simp_all add: session_request_def)
qed

lemma session_request_sel:
  "mm_features (session_request c ts) = []" "num_computed_tokens (session_request c ts) = c"
  "prompt_token_ids (session_request c ts) = Some [1, 2]" "num_tokens (session_request c ts) = int (length ts)"
  "all_token_ids (session_request c ts) = ts" "full_blocks 2 (session_request c ts) = length ts div 2"
  "num_prompt_tokens (session_request c ts) = 2" "length (block_hashes (session_request c ts)) = length ts div 2"
  "req_lora (session_request c ts) = None" "cache_salt (session_request c ts) = None"
  "prompt_embeds (session_request c ts) = None"
  by (simp_all add: session_request_def example_request_def num_tokens_def full_blocks_def)

theorem session_continuation_rehashes_witness:
  "\<exists>r'. update_request_as_session (Some (request_block_hasher id example_hash [9] 2)) (chunk [7, 8])
       (session_request 4 [1, 2, 3, 4, 5]) = Inr r'
     \<and> all_token_ids r' = [1, 2, 3, 4, 7, 8] \<and> hashes_current id example_hash [9] 2 r'"
proof -
  let ?r = "session_request 4 [1, 2, 3, 4, 5]"
  have "mm_sorted (mm_features ?r)" "mm_sorted (new_features_of (chunk [7, 8]))"
    "\<forall>f \<in> set (mm_features ?r). mm_offset f + mm_length f \<le> num_computed_tokens ?r"
    by (simp_all add: session_request_sel mm_sorted_def new_features_of_def chunk_def)
  from session_continuation_rehashes[OF this _ session_request_current] show ?thesis
    by (auto simp: session_request_sel new_tokens_of_def chunk_def)
qed

theorem session_continuation_keeps_stale_hash_witness:
  "\<exists>r'. update_request_as_session (Some (request_block_hasher id example_hash [9] 2)) (chunk [7, 8])
       (session_request 3 [1, 2, 3, 4]) = Inr r'
     \<and> all_token_ids r' = [1, 2, 3, 7, 8] \<and> block_hashes r' ! 1 \<noteq> canon_hash id example_hash [9] 2 r' 1"
proof -
  let ?r = "session_request 3 [1, 2, 3, 4]" let ?h = "request_block_hasher id example_hash [9] 2"
  let ?c = "continued (chunk [7, 8]) ?r [1, 2]"
  have c: "all_token_ids ?c = [1, 2, 3, 7, 8]" "length (block_hashes ?c) = 2" "mm_features ?c = []"
    "req_lora ?c = None" "cache_salt ?c = None" "prompt_embeds ?c = None"
    by (simp_all add: continued_def new_tokens_of_def new_features_of_def session_request_sel chunk_def)
  have "update_block_hashes (Some ?h) ?c = Inr ?c"
    using c(1,2) by (simp add: update_block_hashes_def request_block_hasher_def num_tokens_def)
  then obtain r' where r': "update_request_as_session (Some ?h) (chunk [7, 8]) ?r = Inr r'"
    "all_token_ids r' = [1, 2, 3, 7, 8]" "mm_features r' = []" "req_lora r' = None" "cache_salt r' = None"
    "prompt_embeds r' = None"
    using c update_as_continued[of ?r "[1, 2]"] by (simp add: session_request_sel)
  have t: "block_tokens 2 r' 1 = [3, 7]" "block_tokens 2 ?r 1 = [3, 4]"
    by (simp_all add: block_tokens_def r'(2) session_request_sel py_slice_def clip_def)
  have e: "canon_extra id 2 r' j = canon_extra id 2 ?r j" for j
    by (simp add: canon_extra_def gen_lora_extra_hash_keys_def cache_salt_keys_def embeds_keys_def r' session_request_sel)
  have "canon_hash id example_hash [9] 2 r' 0 = canon_hash id example_hash [9] 2 ?r 0"
    using e by (intro canon_hash_agree) (simp add: block_tokens_def r'(2) session_request_sel py_slice_def clip_def)
  then have "canon_prev id example_hash [9] 2 r' 1 = canon_prev id example_hash [9] 2 ?r 1" by (simp add: canon_prev_def)
  then have "inj_on example_hash {chain_input id example_hash [9] 2 ?r 1, chain_input id example_hash [9] 2 r' 1}"
    by (auto simp: inj_on_def chain_input_def t[unfolded One_nat_def] e example_hash_def)
  from session_continuation_keeps_stale_hash[OF _ _ session_request_current r'(1) _ _ this] show ?thesis
    using r' t by (auto simp: session_request_sel mm_sorted_def)
qed

section \<open>Where a stopped session goes\<close>

definition paused :: "request \<Rightarrow> request" where
  "paused r = r\<lparr>num_computed_tokens := num_computed_tokens r - num_output_placeholders r, spec_token_ids := [],
     drop_stale_output := True, num_stale_output_tokens := num_in_flight_tokens r, num_output_placeholders := 0,
     status := WAITING_FOR_STREAMING_REQ\<rparr>"

lemma handle_paused:
  assumes "resumable (contents S x)" "num_output_placeholders (contents S x) \<le> num_computed_tokens (contents S x)"
    "streams S x = Some []"
  shows "handle_stopped_request p hasher x S
    = Inr (False, enqueue p x (set_contents x (paused (contents S x)) (S\<lparr>num_streaming := num_streaming S + 1\<rparr>)))"
  using assms by (simp add: handle_stopped_request_def Let_def set_contents_def paused_def)

lemma enqueue_queued:
  assumes "wait_inv p (store_of S) (waits S)"
  shows "queued (waits (enqueue p x S)) = add_mset x (queued (waits S))"
    "running (waits (enqueue p x S)) = running (waits S)"
    "either.state_ok p (store_of S) (waits (enqueue p x S))"
    "is_blocked_waiting_status (status (contents S x)) \<Longrightarrow> x \<in> deferred_waiting (waits (enqueue p x S))"
proof -
  let ?s = "enqueue_waiting_request (ops_of p (store_of S)) (store_of S) x (waits S)"
  have ok: "either.state_ok p (store_of S) (waits S)" using assms by (simp add: wait_inv_def either.state_ok_def)
  have w: "waits (enqueue p x S) = ?s" by (simp add: enqueue_def)
  have sel: "running ?s = running (waits S)" "step_skipped_waiting ?s = step_skipped_waiting (waits S)"
    "step_skipped_kv_holding ?s = step_skipped_kv_holding (waits S)"
    by (auto simp: enqueue_waiting_request_def Let_def)
  then show "running (waits (enqueue p x S)) = running (waits S)" by (simp add: w)
  show "queued (waits (enqueue p x S)) = add_mset x (queued (waits S))"
    using either.enqueue_ok(2)[OF ok, of "store_of S" x] sel by (simp add: w either.everyone_def queued_def)
  show "either.state_ok p (store_of S) (waits (enqueue p x S))"
    using either.enqueue_ok(1)[OF ok] by (simp add: w)
  show "x \<in> deferred_waiting (waits (enqueue p x S))" if "is_blocked_waiting_status (status (contents S x))"
    using that by (auto simp: w enqueue_waiting_request_def Let_def)
qed


text \<open>A session of which one request runs or waits, and an object carrying its next chunk.\<close>

definition session_example :: "request_status \<Rightarrow> session_state" where
  "session_example before = \<lparr>store_of = (\<lambda>_. (session_request 2 [1, 2, 3])\<lparr>status := FINISHED_STOPPED\<rparr>),
     waits = (if before = RUNNING then no_waiting\<lparr>running := [0]\<rparr> else no_waiting\<lparr>waiting := [0]\<rparr>),
     requests = [''s'' \<mapsto> 0], streams = (\<lambda>x. if x = 0 then Some [] else None), num_streaming = 0,
     finished_recving = {}, failed_recving = {}\<rparr>"

lemma session_example_inv: "wait_inv FCFS st (waits (session_example before))"
  by (simp add: wait_inv_def session_example_def no_waiting_def queue_ok_def queued_def all_once_def)


section \<open>A new arrival time in a heap\<close>



end
