(* ===== verification/FampDispatch.thy ===== *)
theory FampDispatch imports Prelude
begin

text \<open>
  The routing core of the \<^verbatim>\<open>flashampere\<close> attention backend: the dispatch table of
  \<^verbatim>\<open>dispatch.py\<close>, the per-card and per-toggle policy of \<^verbatim>\<open>capability.py\<close> with its two
  process-wide memo cells, and the per-architecture profiles of \<^verbatim>\<open>model_profiles.py\<close>.

  A string is a list of characters; lower-casing is the ASCII one, which is what decides
  whether the ASCII mark of the source occurs in a device name. The process environment is a
  map, and each probe of the platform that may raise is a result value of a \<open>platform_probe\<close>.
\<close>

section \<open>Dispatch table: \<open>dispatch.py\<close>\<close>

datatype phase = PREFILL | DECODE | VERIFY | OTHER_PHASE
datatype cap_class = GEFORCE_GA10X | AMPERE_SERVER | OTHER_CAP
datatype q_src = HALF | BF16 | OTHER_SRC

record dispatch_key =
  dk_phase :: phase
  dk_head_dim :: int
  dk_q_src :: q_src
  dk_kv_quantized :: bool
  dk_cap :: cap_class
  dk_plain_decoder :: bool

record kernel_entry =
  entry_name :: string
  capture_safe :: bool

type_synonym matcher = "dispatch_key \<Rightarrow> bool"
type_synonym dispatch_table = "(matcher \<times> kernel_entry) list"

definition FP16PV_HEADS :: "int list" where "FP16PV_HEADS = [128, 256, 512]"
definition BF16CVT_HEADS :: "int list" where "BF16CVT_HEADS = [128, 256, 512]"
definition XQA_VERIFY_HEADS :: "int list" where "XQA_VERIFY_HEADS = [64, 128, 256]"
definition SAGE_HEADS :: "int list" where "SAGE_HEADS = [64, 96, 128]"

definition register :: "matcher \<Rightarrow> kernel_entry \<Rightarrow> dispatch_table \<Rightarrow> dispatch_table" where
  "register m e T = T @ [(m, e)]"

definition resolve :: "dispatch_table \<Rightarrow> dispatch_key \<Rightarrow> kernel_entry list" where
  "resolve T key = [entry. (matches, entry) \<leftarrow> T, matches key]"

definition clear_table :: "dispatch_table \<Rightarrow> dispatch_table" where
  "clear_table T = []"

definition fp16pv_row :: matcher where
  "fp16pv_row k \<longleftrightarrow> dk_phase k = PREFILL \<and> dk_head_dim k \<in> set FP16PV_HEADS \<and>
     dk_plain_decoder k \<and> \<not> dk_kv_quantized k \<and> dk_q_src k = HALF"

definition bf16cvt_row :: matcher where
  "bf16cvt_row k \<longleftrightarrow> dk_phase k = PREFILL \<and> dk_head_dim k \<in> set BF16CVT_HEADS \<and>
     dk_plain_decoder k \<and> \<not> dk_kv_quantized k \<and> dk_q_src k = BF16"

definition xqa_verify_row :: matcher where
  "xqa_verify_row k \<longleftrightarrow> dk_phase k = VERIFY \<and> dk_head_dim k \<in> set XQA_VERIFY_HEADS \<and>
     dk_plain_decoder k \<and> \<not> dk_kv_quantized k"

definition sage_row :: matcher where
  "sage_row k \<longleftrightarrow> dk_phase k = PREFILL \<and> dk_head_dim k \<in> set SAGE_HEADS \<and>
     dk_plain_decoder k \<and> \<not> dk_kv_quantized k"

definition entry :: "string \<Rightarrow> bool \<Rightarrow> kernel_entry" where
  "entry n cs = \<lparr>entry_name = n, capture_safe = cs\<rparr>"

definition build_default_table :: "dispatch_table \<Rightarrow> dispatch_table" where
  "build_default_table T =
     (let T = clear_table T;
          T = register fp16pv_row (entry ''fp16pv'' False) T;
          T = register bf16cvt_row (entry ''bf16cvt'' False) T;
          T = register xqa_verify_row (entry ''xqa_verify'' True) T
      in register sage_row (entry ''sage'' False) T)"

definition default_table :: dispatch_table where
  "default_table = build_default_table []"

named_theorems famp_rows "the matchers of the default table"
declare fp16pv_row_def [famp_rows] bf16cvt_row_def [famp_rows] xqa_verify_row_def [famp_rows]
  sage_row_def [famp_rows] FP16PV_HEADS_def [famp_rows] BF16CVT_HEADS_def [famp_rows]
  XQA_VERIFY_HEADS_def [famp_rows] SAGE_HEADS_def [famp_rows]

lemma entry_sel [simp]:
  "entry_name (entry n c) = n" "capture_safe (entry n c) = c"
  by (simp_all add: entry_def)

lemma entry_eq_iff [simp]: "entry n c = entry n' c' \<longleftrightarrow> n = n' \<and> c = c'"
  by (simp add: entry_def)

lemma build_default_table_idem: "build_default_table T = default_table"
  by (simp add: build_default_table_def default_table_def clear_table_def)

lemma resolve_register:
  "resolve (register m e T) k = resolve T k @ (if m k then [e] else [])"
  by (simp add: resolve_def register_def)

lemma resolve_default:
  "resolve default_table k =
     (if fp16pv_row k then [entry ''fp16pv'' False] else []) @
     (if bf16cvt_row k then [entry ''bf16cvt'' False] else []) @
     (if xqa_verify_row k then [entry ''xqa_verify'' True] else []) @
     (if sage_row k then [entry ''sage'' False] else [])"
proof -
  have "resolve [] k = []" by (simp add: resolve_def)
  then show ?thesis
    by (simp add: default_table_def build_default_table_def Let_def resolve_register
        clear_table_def)
qed

lemma resolve_default_mem:
  "e \<in> set (resolve default_table k) \<longleftrightarrow>
     (fp16pv_row k \<and> e = entry ''fp16pv'' False) \<or> (bf16cvt_row k \<and> e = entry ''bf16cvt'' False)
   \<or> (xqa_verify_row k \<and> e = entry ''xqa_verify'' True) \<or> (sage_row k \<and> e = entry ''sage'' False)"
  by (auto simp: resolve_default)

text \<open>A key that no leg may touch: a quantised cache, a non-plain decoder, or another phase.\<close>

lemma resolve_default_none:
  assumes "dk_kv_quantized k \<or> \<not> dk_plain_decoder k \<or> dk_phase k \<in> {DECODE, OTHER_PHASE}"
  shows "resolve default_table k = []"
  using assms by (auto simp: resolve_default famp_rows)

lemma resolve_default_verify:
  assumes "dk_phase k = VERIFY"
  shows "resolve default_table k =
    (if xqa_verify_row k then [entry ''xqa_verify'' True] else [])"
  using assms by (simp add: resolve_default fp16pv_row_def bf16cvt_row_def sage_row_def)

lemma resolve_default_distinct: "distinct (map entry_name (resolve default_table k))"
  by (auto simp: resolve_default)

section \<open>Capability policy: \<open>capability.py\<close>\<close>

definition lower_char :: "char \<Rightarrow> char" where
  "lower_char c = (let n = of_char c :: nat in if 65 \<le> n \<and> n \<le> 90 then char_of (n + 32) else c)"

definition py_lower :: "string \<Rightarrow> string" where
  "py_lower s = map lower_char s"

definition py_contains :: "string \<Rightarrow> string \<Rightarrow> bool" where
  "py_contains pat s \<longleftrightarrow> list_ex (\<lambda>i. take (length pat) (drop i s) = pat) [0..<Suc (length s)]"

lemma py_contains_iff: "py_contains pat s \<longleftrightarrow> (\<exists>us vs. s = us @ pat @ vs)"
proof
  assume "py_contains pat s"
  then have "\<exists>i. take (length pat) (drop i s) = pat"
    unfolding py_contains_def list_ex_iff by blast
  then obtain i where i: "take (length pat) (drop i s) = pat" by blast
  then have "s = take i s @ pat @ drop (length pat) (drop i s)"
    by (metis append_take_drop_id)
  then show "\<exists>us vs. s = us @ pat @ vs" by blast
next
  assume "\<exists>us vs. s = us @ pat @ vs"
  then obtain us vs where s: "s = us @ pat @ vs" by blast
  then show "py_contains pat s"
    unfolding py_contains_def list_ex_iff by (intro bexI[of _ "length us"]) auto
qed

type_synonym environ = "string \<rightharpoonup> string"

definition classify_card :: "int \<Rightarrow> string \<Rightarrow> cap_class" where
  "classify_card cc_major device_name =
     (if cc_major \<noteq> 8 then OTHER_CAP
      else if py_contains ''geforce rtx 30'' (py_lower device_name) then GEFORCE_GA10X
      else AMPERE_SERVER)"

definition truthy :: "string \<Rightarrow> bool" where
  "truthy v \<longleftrightarrow> v \<in> set [''1'', ''true'', ''True'']"

definition envflag :: "environ \<Rightarrow> string \<Rightarrow> string \<Rightarrow> bool" where
  "envflag env name dflt = truthy (case env name of Some v \<Rightarrow> v | None \<Rightarrow> dflt)"

record famp_caps =
  cap :: cap_class
  has_flashinfer :: bool
  has_sage :: bool
  has_fp16pv_kernel :: bool
  fp16pv_on :: bool
  bf16cvt_on :: bool
  xqa_verify_on :: bool
  sage_on :: bool

definition pv_fp16 :: "famp_caps \<Rightarrow> bool" where
  "pv_fp16 c \<longleftrightarrow> cap c = GEFORCE_GA10X \<and> has_fp16pv_kernel c \<and> fp16pv_on c"

definition pv_fp16_bf16 :: "famp_caps \<Rightarrow> bool" where
  "pv_fp16_bf16 c \<longleftrightarrow> cap c = GEFORCE_GA10X \<and> has_fp16pv_kernel c \<and> bf16cvt_on c"

definition enabled :: "famp_caps \<Rightarrow> string \<Rightarrow> bool" where
  "enabled c name =
     (if name = ''fp16pv'' then has_flashinfer c \<and> pv_fp16 c
      else if name = ''bf16cvt'' then has_flashinfer c \<and> pv_fp16_bf16 c
      else if name = ''xqa_verify'' then has_flashinfer c \<and> cap c \<noteq> OTHER_CAP \<and> xqa_verify_on c
      else if name = ''sage'' then has_sage c \<and> sage_on c
      else False)"

record detect_inputs =
  cc_major :: int
  device_name :: string
  env :: environ
  in_flashinfer :: bool
  in_sage :: bool
  in_fp16pv_kernel :: bool

definition detect :: "detect_inputs \<Rightarrow> famp_caps" where
  "detect i =
     (let master = envflag (env i) ''VLLM_FLASHAMPERE'' ''0''
      in \<lparr>cap = classify_card (cc_major i) (device_name i),
          has_flashinfer = in_flashinfer i, has_sage = in_sage i,
          has_fp16pv_kernel = in_fp16pv_kernel i,
          fp16pv_on = (master \<and> envflag (env i) ''VLLM_FLASHAMPERE_PV_FP16'' ''1''),
          bf16cvt_on = (master \<and> envflag (env i) ''VLLM_FLASHAMPERE_BF16CVT'' ''1''),
          xqa_verify_on = (master \<and> envflag (env i) ''VLLM_FLASHAMPERE_XQA_VERIFY'' ''0''),
          sage_on = (master \<and> envflag (env i) ''VLLM_FLASHAMPERE_SAGE'' ''0'')\<rparr>)"

record platform_probe =
  get_device_capability :: "int option res"
  get_device_name :: "string res"
  import_flashinfer :: "unit res"
  import_sageattention :: "unit res"
  header_is_file :: "bool res"
  probe_environ :: environ

definition flashinfer_has_fp16pv :: "platform_probe \<Rightarrow> bool" where
  "flashinfer_has_fp16pv p =
     (case import_flashinfer p of Inl _ \<Rightarrow> False
      | Inr _ \<Rightarrow> (case header_is_file p of Inl _ \<Rightarrow> False | Inr b \<Rightarrow> b))"

definition gather_inputs :: "platform_probe \<Rightarrow> detect_inputs" where
  "gather_inputs p =
     (let (major, name) =
        (case get_device_capability p of Inl _ \<Rightarrow> (0, [])
         | Inr dc \<Rightarrow>
             (let major = (case dc of Some m \<Rightarrow> m | None \<Rightarrow> 0)
              in case get_device_name p of Inl _ \<Rightarrow> (major, []) | Inr n \<Rightarrow> (major, n)))
      in \<lparr>cc_major = major, device_name = name, env = probe_environ p,
          in_flashinfer = (case import_flashinfer p of Inl _ \<Rightarrow> False | Inr _ \<Rightarrow> True),
          in_sage = (case import_sageattention p of Inl _ \<Rightarrow> False | Inr _ \<Rightarrow> True),
          in_fp16pv_kernel = flashinfer_has_fp16pv p\<rparr>)"

text \<open>
  The two memo cells: \<open>capability_cell\<close> is \<^verbatim>\<open>capability._CAPS\<close>, \<open>impl_cell\<close> the second one
  in \<^verbatim>\<open>impl.py\<close>. The backend reads through the first only, every attention layer through both.
\<close>

record caps_cells =
  capability_cell :: "famp_caps option"
  impl_cell :: "famp_caps option"

definition caps :: "platform_probe \<Rightarrow> caps_cells \<Rightarrow> famp_caps \<times> caps_cells" where
  "caps p s =
     (case capability_cell s of
        Some c \<Rightarrow> (c, s)
      | None \<Rightarrow>
          (let inputs = gather_inputs p; probed = detect inputs
           in if cc_major inputs = 0 then (probed, s)
              else (probed, s\<lparr>capability_cell := Some probed\<rparr>)))"

definition impl_caps :: "platform_probe \<Rightarrow> caps_cells \<Rightarrow> famp_caps \<times> caps_cells" where
  "impl_caps p s =
     (case impl_cell s of
        Some c \<Rightarrow> (c, s)
      | None \<Rightarrow> (let (c, s1) = caps p s in (c, s1\<lparr>impl_cell := Some c\<rparr>)))"

lemma enabled_detect:
  assumes "enabled (detect i) name"
  shows "envflag (env i) ''VLLM_FLASHAMPERE'' ''0''"
    and "name \<in> {''fp16pv'', ''bf16cvt'', ''xqa_verify'', ''sage''}"
    and "name \<noteq> ''sage'' \<Longrightarrow> in_flashinfer i \<and> cc_major i = 8"
    and "name \<in> {''fp16pv'', ''bf16cvt''} \<Longrightarrow>
           in_fp16pv_kernel i \<and> py_contains ''geforce rtx 30'' (py_lower (device_name i))"
  using assms
  by (auto simp: enabled_def detect_def Let_def pv_fp16_def pv_fp16_bf16_def classify_card_def
      split: if_splits)

lemma caps_Some [simp]: "capability_cell s = Some c \<Longrightarrow> caps p s = (c, s)"
  by (simp add: caps_def)

lemma caps_fresh:
  assumes "capability_cell s = None"
  shows "fst (caps p s) = detect (gather_inputs p)"
    and "capability_cell (snd (caps p s)) =
      (if cc_major (gather_inputs p) = 0 then None else Some (detect (gather_inputs p)))"
    and "impl_cell (snd (caps p s)) = impl_cell s"
  using assms by (auto simp: caps_def Let_def)

lemma impl_caps_fills: "impl_cell (snd (impl_caps p s)) = Some (fst (impl_caps p s))"
  by (auto simp: impl_caps_def Let_def split: option.splits prod.splits)

lemma detect_unresolved:
  assumes "cc_major i = 0"
  shows "cap (detect i) = OTHER_CAP"
    and "enabled (detect i) name \<Longrightarrow> name = ''sage''"
  using assms
  by (auto simp: enabled_def detect_def Let_def pv_fp16_def pv_fp16_bf16_def classify_card_def
      split: if_splits)

section \<open>Model profiles: \<open>model_profiles.py\<close>\<close>

record famp_profile =
  flashampere :: bool
  own_prefill :: bool
  xqa_hd512 :: bool

definition PROFILES :: "(string \<times> famp_profile) list" where
  "PROFILES =
     [(''Gemma4UnifiedForConditionalGeneration'',
         \<lparr>flashampere = True, own_prefill = True, xqa_hd512 = True\<rparr>),
      (''Gemma4ForConditionalGeneration'',
         \<lparr>flashampere = True, own_prefill = True, xqa_hd512 = True\<rparr>),
      (''Gemma4ForCausalLM'',
         \<lparr>flashampere = True, own_prefill = True, xqa_hd512 = True\<rparr>),
      (''Qwen3_5ForConditionalGeneration'',
         \<lparr>flashampere = False, own_prefill = False, xqa_hd512 = False\<rparr>),
      (''Qwen3_5MoeForConditionalGeneration'',
         \<lparr>flashampere = False, own_prefill = False, xqa_hd512 = False\<rparr>)]"

text \<open>
  The two attributes of the model configuration are read with a default, so each may be
  missing; \<^verbatim>\<open>architectures\<close> may also be an empty list.
\<close>

record model_names =
  architecture :: "string option"
  architectures :: "string list option"

definition resolve_profile :: "model_names option \<Rightarrow> famp_profile option" where
  "resolve_profile mc =
     (case mc of None \<Rightarrow> None
      | Some m \<Rightarrow>
          (let arch = (case architecture m of Some a \<Rightarrow> Some a
                       | None \<Rightarrow>
                           (case architectures m of
                              None \<Rightarrow> None
                            | Some as \<Rightarrow> (case as of [] \<Rightarrow> None | a # _ \<Rightarrow> Some a)))
           in case arch of None \<Rightarrow> None | Some a \<Rightarrow> map_of PROFILES a))"

definition set_default :: "bool \<Rightarrow> string \<Rightarrow> environ \<times> string list \<Rightarrow> environ \<times> string list" where
  "set_default wanted name s =
     (let (e, applied) = s
      in if wanted \<and> e name = None then (e(name \<mapsto> ''1''), applied @ [name]) else s)"

definition apply_famp_profile ::
    "model_names option \<Rightarrow> environ \<Rightarrow> famp_profile option \<times> environ \<times> string list" where
  "apply_famp_profile mc e =
     (case resolve_profile mc of
        None \<Rightarrow> (None, e, [])
      | Some prof \<Rightarrow>
          if \<not> flashampere prof then (Some prof, e, [])
          else
            (let s = set_default True ''VLLM_FLASHAMPERE'' (e, []);
                 s = set_default (own_prefill prof) ''VLLM_FAMP_OWN_PREFILL'' s;
                 s = set_default (xqa_hd512 prof) ''VLLM_FAMP_XQA_HD512'' s
             in (Some prof, s)))"

abbreviation profile_env :: "model_names option \<Rightarrow> environ \<Rightarrow> environ" where
  "profile_env mc e \<equiv> fst (snd (apply_famp_profile mc e))"

abbreviation profile_applied :: "model_names option \<Rightarrow> environ \<Rightarrow> string list" where
  "profile_applied mc e \<equiv> snd (snd (apply_famp_profile mc e))"

text \<open>What one guarded write does to the pair of environment and log.\<close>

lemma set_default_fst:
  "fst (set_default w n (e, l)) = (if w \<and> e n = None then e(n \<mapsto> ''1'') else e)"
  "snd (set_default w n (e, l)) = (if w \<and> e n = None then l @ [n] else l)"
  by (simp_all add: set_default_def)

lemma set_default_collapse:
  "set_default w n s = (if w \<and> fst s n = None then (fst s)(n \<mapsto> ''1'') else fst s,
     if w \<and> fst s n = None then snd s @ [n] else snd s)"
  by (cases s) (simp add: set_default_def)

definition profile_vars :: "famp_profile \<Rightarrow> string list" where
  "profile_vars prof =
     (if flashampere prof
      then [''VLLM_FLASHAMPERE''] @ (if own_prefill prof then [''VLLM_FAMP_OWN_PREFILL''] else [])
           @ (if xqa_hd512 prof then [''VLLM_FAMP_XQA_HD512''] else [])
      else [])"

definition filled :: "environ \<Rightarrow> string list \<Rightarrow> environ \<times> string list" where
  "filled e L = (\<lambda>n. if e n = None \<and> n \<in> set L then Some ''1'' else e n, filter (\<lambda>n. e n = None) L)"

lemma set_default_filled:
  "n \<notin> set L \<Longrightarrow> set_default w n (filled e L) = filled e (L @ (if w then [n] else []))"
  by (auto simp: set_default_def filled_def fun_eq_iff)

lemma filled_Nil: "filled e [] = (e, [])"
  by (simp add: filled_def)

lemma apply_famp_profile_spec:
  "apply_famp_profile mc e =
     (resolve_profile mc,
      case resolve_profile mc of None \<Rightarrow> (e, [])
      | Some prof \<Rightarrow> filled e (profile_vars prof))"
proof (cases "resolve_profile mc")
  case (Some prof)
  show ?thesis
    using Some by (cases "flashampere prof"; cases "own_prefill prof"; cases "xqa_hd512 prof")
      (simp_all add: apply_famp_profile_def profile_vars_def set_default_filled
        flip: filled_Nil)
qed (simp add: apply_famp_profile_def)

text \<open>
  Installing a model profile never overrides what the user set: every variable
  already in the environment keeps its value, every other one is either untouched or becomes
  \<open>''1''\<close> because the profile of this architecture asks for it, the log lists exactly the
  variables written, and applying the profile again changes nothing.
\<close>

theorem profile_respects_user_environment:
  "(\<forall>n v. e n = Some v \<longrightarrow> profile_env mc e n = Some v)
   \<and> (\<forall>n. e n = None \<longrightarrow> profile_env mc e n =
         (if n \<in> set (profile_applied mc e) then Some ''1'' else None))
   \<and> set (profile_applied mc e) \<subseteq>
       {''VLLM_FLASHAMPERE'', ''VLLM_FAMP_OWN_PREFILL'', ''VLLM_FAMP_XQA_HD512''}
   \<and> apply_famp_profile mc (profile_env mc e) = (resolve_profile mc, profile_env mc e, [])"
proof (cases "resolve_profile mc")
  case (Some prof)
  have "set (profile_vars prof) \<subseteq>
      {''VLLM_FLASHAMPERE'', ''VLLM_FAMP_OWN_PREFILL'', ''VLLM_FAMP_XQA_HD512''}"
    by (simp add: profile_vars_def) blast
  with Some show ?thesis
    by (simp add: apply_famp_profile_spec filled_def fun_eq_iff filter_empty_conv) blast
qed (simp add: apply_famp_profile_spec fun_eq_iff)

theorem profile_respects_user_environment_witness:
  "apply_famp_profile (Some \<lparr>architecture = Some ''Gemma4ForCausalLM'', architectures = None\<rparr>)
     [''VLLM_FLASHAMPERE'' \<mapsto> ''0''] =
     (Some \<lparr>flashampere = True, own_prefill = True, xqa_hd512 = True\<rparr>,
      [''VLLM_FLASHAMPERE'' \<mapsto> ''0'', ''VLLM_FAMP_OWN_PREFILL'' \<mapsto> ''1'',
       ''VLLM_FAMP_XQA_HD512'' \<mapsto> ''1''],
      [''VLLM_FAMP_OWN_PREFILL'', ''VLLM_FAMP_XQA_HD512''])
   \<and> profile_env (Some \<lparr>architecture = Some ''Gemma4ForCausalLM'', architectures = None\<rparr>)
       [''VLLM_FLASHAMPERE'' \<mapsto> ''0''] ''VLLM_FLASHAMPERE'' = Some ''0''"
proof -
  let ?mc = "Some \<lparr>architecture = Some ''Gemma4ForCausalLM'', architectures = None\<rparr>"
  have "profile_env ?mc [''VLLM_FLASHAMPERE'' \<mapsto> ''0''] ''VLLM_FLASHAMPERE'' = Some ''0''"
    using profile_respects_user_environment[of "[''VLLM_FLASHAMPERE'' \<mapsto> ''0'']" ?mc] by simp
  then show ?thesis
    by (simp add: apply_famp_profile_def resolve_profile_def PROFILES_def set_default_def)
qed

text \<open>
  Property C34. No leg is enabled by accident: whatever the toggles say, a leg is enabled only
  if the master switch is on, the XQA and the two half-precision legs only on an Ampere card
  with the toolchain present, and the two half-precision legs only on a GeForce RTX 30 card
  with the vendored kernel.
\<close>

theorem legs_are_gated:
  assumes "enabled (detect (gather_inputs p)) name"
  shows "truthy (the (probe_environ p ''VLLM_FLASHAMPERE''))
    \<and> probe_environ p ''VLLM_FLASHAMPERE'' \<noteq> None
    \<and> (name = ''sage'' \<longrightarrow> import_sageattention p = Inr ())
    \<and> (name \<noteq> ''sage'' \<longrightarrow> import_flashinfer p = Inr () \<and> get_device_capability p = Inr (Some 8)
        \<and> name \<in> {''fp16pv'', ''bf16cvt'', ''xqa_verify''})
    \<and> (name \<in> {''fp16pv'', ''bf16cvt''} \<longrightarrow> header_is_file p = Inr True
        \<and> (\<exists>card us vs. get_device_name p = Inr card \<and> py_lower card = us @ ''geforce rtx 30'' @ vs))"
proof -
  note g = enabled_detect[OF assms]
  have env: "env (gather_inputs p) = probe_environ p"
    by (auto simp: gather_inputs_def Let_def split: prod.splits)
  have fi: "in_flashinfer (gather_inputs p) \<Longrightarrow> import_flashinfer p = Inr ()"
    by (auto simp: gather_inputs_def Let_def split: prod.splits sum.splits)
  have sage: "name = ''sage'' \<Longrightarrow> import_sageattention p = Inr ()"
    using assms by (auto simp: enabled_def detect_def Let_def gather_inputs_def
        split: prod.splits sum.splits)
  have cc: "cc_major (gather_inputs p) = 8 \<Longrightarrow> get_device_capability p = Inr (Some 8)"
    by (auto simp: gather_inputs_def Let_def split: prod.splits sum.splits option.splits)
  have hd: "in_fp16pv_kernel (gather_inputs p) \<Longrightarrow> header_is_file p = Inr True"
    by (auto simp: gather_inputs_def Let_def flashinfer_has_fp16pv_def
        split: prod.splits sum.splits)
  have nm: "\<exists>card us vs. get_device_name p = Inr card \<and> py_lower card = us @ ''geforce rtx 30'' @ vs"
    if "py_contains ''geforce rtx 30'' (py_lower (device_name (gather_inputs p)))"
    using that unfolding py_contains_iff
    by (auto simp: gather_inputs_def Let_def py_lower_def split: prod.splits sum.splits)
  have "truthy (the (probe_environ p ''VLLM_FLASHAMPERE''))
      \<and> probe_environ p ''VLLM_FLASHAMPERE'' \<noteq> None"
    using g(1) by (auto simp: env envflag_def truthy_def split: option.splits)
  moreover have "name \<noteq> ''sage'' \<longrightarrow> name \<in> {''fp16pv'', ''bf16cvt'', ''xqa_verify''}"
    using g(2) by blast
  moreover have "name \<noteq> ''sage'' \<longrightarrow> import_flashinfer p = Inr () \<and> get_device_capability p = Inr (Some 8)"
    using g(3) fi cc by blast
  moreover have "name \<in> {''fp16pv'', ''bf16cvt''} \<longrightarrow> header_is_file p = Inr True
      \<and> (\<exists>card us vs. get_device_name p = Inr card \<and> py_lower card = us @ ''geforce rtx 30'' @ vs)"
    using g(4) hd nm by meson
  ultimately show ?thesis using sage by (intro conjI) (erule conjunct1 conjunct2 | assumption | simp)+
qed

definition example_probe :: platform_probe where
  "example_probe = \<lparr>get_device_capability = Inr (Some 8),
     get_device_name = Inr ''NVIDIA GeForce RTX 3090'', import_flashinfer = Inr (),
     import_sageattention = Inl AttributeError, header_is_file = Inr True,
     probe_environ = [''VLLM_FLASHAMPERE'' \<mapsto> ''1'']\<rparr>"

lemma example_probe_caps:
  "gather_inputs example_probe = \<lparr>cc_major = 8, device_name = ''NVIDIA GeForce RTX 3090'',
     env = [''VLLM_FLASHAMPERE'' \<mapsto> ''1''], in_flashinfer = True, in_sage = False,
     in_fp16pv_kernel = True\<rparr>"
  by (simp add: gather_inputs_def example_probe_def flashinfer_has_fp16pv_def)

lemma example_card: "classify_card 8 ''NVIDIA GeForce RTX 3090'' = GEFORCE_GA10X"
  by code_simp

lemma example_enabled:
  "enabled (detect (gather_inputs example_probe)) ''bf16cvt''"
  by (simp add: example_probe_caps detect_def example_card enabled_def pv_fp16_bf16_def
      envflag_def truthy_def)

theorem legs_are_gated_witness:
  "enabled (detect (gather_inputs example_probe)) ''bf16cvt''
   \<and> header_is_file example_probe = Inr True"
  using legs_are_gated[OF example_enabled] example_enabled by simp

text \<open>
  The capability memo never keeps an unresolved verdict: the shared cell is only
  filled by a probe that saw a device, a filled cell answers every later call unchanged, and
  while it is empty each call answers from a fresh probe. The second cell, in the attention
  implementation, has no such guard: a first call before the device is resolvable pins the
  unresolved verdict there for good, whatever later probes of the shared cell say.
\<close>

theorem capability_memo:
  assumes "\<And>c. capability_cell s = Some c \<Longrightarrow> \<exists>q. cc_major (gather_inputs q) \<noteq> 0 \<and> c = detect (gather_inputs q)"
  shows "(\<forall>c. capability_cell (snd (caps p s)) = Some c \<longrightarrow>
            (\<exists>q. cc_major (gather_inputs q) \<noteq> 0 \<and> c = detect (gather_inputs q))
            \<and> caps p' (snd (caps p s)) = (c, snd (caps p s)))
    \<and> (capability_cell (snd (caps p s)) = None \<longrightarrow>
            fst (caps p s) = detect (gather_inputs p) \<and> cc_major (gather_inputs p) = 0)
    \<and> (impl_cell s = None \<and> capability_cell s = None \<and> cc_major (gather_inputs p) = 0
        \<and> cc_major (gather_inputs p') \<noteq> 0 \<longrightarrow>
          (let s1 = snd (impl_caps p s)
           in fst (caps p' s1) = detect (gather_inputs p')
            \<and> fst (impl_caps p' (snd (caps p' s1))) = detect (gather_inputs p)))"
proof (cases "capability_cell s")
  case None
  then show ?thesis
    by (auto simp: caps_def impl_caps_def Let_def split: prod.splits)
next
  case (Some c)
  then show ?thesis using assms by auto
qed

definition unresolved_probe :: platform_probe where
  "unresolved_probe = example_probe\<lparr>get_device_capability := Inr None\<rparr>"

theorem capability_memo_witness:
  "let s = \<lparr>capability_cell = None, impl_cell = None\<rparr>;
       s1 = snd (impl_caps unresolved_probe s)
   in fst (caps example_probe s1) = detect (gather_inputs example_probe)
    \<and> fst (impl_caps example_probe (snd (caps example_probe s1)))
        = detect (gather_inputs unresolved_probe)"
proof -
  let ?s = "\<lparr>capability_cell = None, impl_cell = None\<rparr>"
  have "cc_major (gather_inputs unresolved_probe) = 0"
    by (simp add: unresolved_probe_def example_probe_def gather_inputs_def)
  then show ?thesis
    using capability_memo[of ?s unresolved_probe example_probe] by (simp add: example_probe_caps)
qed

end
