(* ===== verification/FampForward.thy ===== *)
theory FampForward imports FampDispatch
begin

text \<open>
  The attention implementation of \<^verbatim>\<open>flashampere/impl.py\<close>: what a layer fixes at construction,
  how a call is classified from its metadata, and \<^verbatim>\<open>forward\<close>, which walks the resolved
  dispatch entries and sinks to stock attention. The kernels and the stock attention act on a
  state of any type (the KV cache, the output tensor, the module tables); a kernel that
  declines may already have written to it.
\<close>

section \<open>What a layer fixes at construction\<close>

datatype torch_dtype = float16 | bfloat16 | other_dtype string

datatype attention_type = DECODER_ATTN | ENCODER_ATTN | ENCODER_ONLY_ATTN | ENCODER_DECODER_ATTN

record spec_config =
  num_speculative_tokens :: "int option"
  parallel_drafting :: bool

definition verify_upper_bound :: "spec_config option res \<Rightarrow> int" where
  "verify_upper_bound sc =
     (case sc of Inl _ \<Rightarrow> 1
      | Inr None \<Rightarrow> 1
      | Inr (Some c) \<Rightarrow>
          (case num_speculative_tokens c of
             None \<Rightarrow> 1
           | Some k \<Rightarrow> 1 + (if parallel_drafting c then 2 else 1) * k))"

text \<open>
  The attributes the base class leaves on the layer. The soft cap is a float of which only its
  absence or its being zero matters, so the model keeps it as an integer count of any unit.
\<close>

record base_impl =
  num_heads :: int
  num_kv_heads :: int
  head_size :: int
  attn_type :: attention_type
  layer_window :: "(int \<times> int) option"
  has_alibi :: bool
  soft_cap :: "int option"
  has_sinks :: bool
  kv_cache_dtype :: string
  dcp_world_size :: int

record famp_impl = base_impl +
  plain_decoder :: bool
  layer_caps :: famp_caps
  verify_ub :: int
  fc_max_num_seqs :: "int option"
  fc_max_num_batched_tokens :: "int option"

definition new_impl ::
    "base_impl \<Rightarrow> famp_caps \<Rightarrow> spec_config option res \<Rightarrow> (int \<times> int) res \<Rightarrow> famp_impl" where
  "new_impl b c sc sched =
     (let no_sw = (layer_window b = None \<or> layer_window b = Some (-1, -1));
          no_soft_cap = (soft_cap b = None \<or> soft_cap b = Some 0)
      in base_impl.extend b
           \<lparr>plain_decoder = (attn_type b = DECODER_ATTN \<and> no_sw \<and> \<not> has_alibi b \<and> no_soft_cap
              \<and> \<not> has_sinks b),
            layer_caps = c,
            verify_ub = verify_upper_bound sc,
            fc_max_num_seqs = (case sched of Inl _ \<Rightarrow> None | Inr (a, _) \<Rightarrow> Some a),
            fc_max_num_batched_tokens = (case sched of Inl _ \<Rightarrow> None | Inr (_, b) \<Rightarrow> Some b)\<rparr>)"

definition starts_with :: "string \<Rightarrow> string \<Rightarrow> bool" where
  "starts_with pat s \<longleftrightarrow> take (length pat) s = pat"

definition ends_with :: "string \<Rightarrow> string \<Rightarrow> bool" where
  "ends_with pat s \<longleftrightarrow> starts_with (rev pat) (rev s)"

definition is_quantized_kv_cache :: "string \<Rightarrow> bool" where
  "is_quantized_kv_cache d \<longleftrightarrow>
     starts_with ''fp8'' d \<or> ends_with ''per_token_head'' d \<or> starts_with ''nvfp4'' d"

section \<open>Metadata of one call\<close>

text \<open>
  Tensors are lists. \<open>seq_lens\<close> and \<open>query_start_loc\<close> live on the device; the three
  \<^verbatim>\<open>_cpu\<close> fields are the host twins the FlashAmpere builder attaches.
\<close>

datatype window = No_window | Scalar_window int | Pair_window int int
datatype causal_flag = Causal bool | Causal_tensor "bool list"

record attn_metadata =
  use_cascade :: bool
  max_query_len :: "int option"
  num_actual_tokens :: int
  seq_lens :: "int list"
  query_start_loc :: "int list"
  block_table :: "nat list list"
  slot_mapping :: "int list"
  causal :: causal_flag
  mm_prefix_query_range :: "(int \<times> int) list option"
  md_window :: window
  rswa_prefix_lens :: "int list option"
  rswa_window :: "int option"
  rswa_window_tensor :: "int list option"
  query_start_loc_cpu :: "int list option"
  seq_lens_cpu_upper_bound :: "int list option"
  is_prefilling_cpu :: "bool list option"

definition norm_window :: "window \<Rightarrow> window" where
  "norm_window w =
     (case w of
        No_window \<Rightarrow> No_window
      | Scalar_window i \<Rightarrow> if i = -1 then No_window else w
      | Pair_window a b \<Rightarrow> if a = -1 \<and> b = -1 then No_window else w)"

definition is_tensor :: "causal_flag \<Rightarrow> bool" where
  "is_tensor c = (case c of Causal_tensor _ \<Rightarrow> True | Causal _ \<Rightarrow> False)"

definition nonplain_metadata :: "attn_metadata \<Rightarrow> bool" where
  "nonplain_metadata m \<longleftrightarrow>
     is_tensor (causal m) \<or> mm_prefix_query_range m \<noteq> None \<or> norm_window (md_window m) \<noteq> No_window
     \<or> rswa_prefix_lens m \<noteq> None \<or> rswa_window m \<noteq> None \<or> rswa_window_tensor m \<noteq> None"

definition classify :: "famp_impl \<Rightarrow> attn_metadata \<Rightarrow> phase" where
  "classify impl m =
     (if use_cascade m then OTHER_PHASE
      else case max_query_len m of
        None \<Rightarrow> DECODE
      | Some mql \<Rightarrow>
          if mql \<le> 1 then DECODE
          else if mql \<le> verify_ub impl \<and> num_actual_tokens m = int (length (seq_lens m)) * mql
          then VERIFY else PREFILL)"

section \<open>The forward pass\<close>

datatype 's kernel_result = Ran 's | Declined 's | Raised py_error

text \<open>The calls \<open>forward\<close> makes, each with its arguments already applied.\<close>

record 's famp_kernels =
  stock_forward :: "'s \<Rightarrow> 's res"
  fp16pv_kernel :: "string \<Rightarrow> 's \<Rightarrow> 's kernel_result"
  xqa_kernel :: "'s \<Rightarrow> 's kernel_result"
  decode_hd512_kernel :: "'s \<Rightarrow> 's kernel_result"

definition run_leg :: "'s famp_kernels \<Rightarrow> string \<Rightarrow> 's \<Rightarrow> 's kernel_result" where
  "run_leg K name s =
     (if name = ''fp16pv'' \<or> name = ''bf16cvt'' then fp16pv_kernel K name s
      else if name = ''xqa_verify'' then xqa_kernel K s
      else Declined s)"

fun run_entries ::
    "'s famp_kernels \<Rightarrow> famp_caps \<Rightarrow> bool \<Rightarrow> kernel_entry list \<Rightarrow> 's \<Rightarrow> 's res" where
  "run_entries K c capturing [] s = stock_forward K s"
| "run_entries K c capturing (e # es) s =
     (if capturing \<and> \<not> capture_safe e then run_entries K c capturing es s
      else if \<not> enabled c (entry_name e) then run_entries K c capturing es s
      else case run_leg K (entry_name e) s of
        Ran s' \<Rightarrow> Inr s'
      | Declined s' \<Rightarrow> run_entries K c capturing es s'
      | Raised err \<Rightarrow> Inl err)"

definition q_src_of :: "torch_dtype \<Rightarrow> q_src" where
  "q_src_of d = (if d = float16 then HALF else if d = bfloat16 then BF16 else OTHER_SRC)"

definition key_of :: "famp_impl \<Rightarrow> torch_dtype \<Rightarrow> phase \<Rightarrow> dispatch_key" where
  "key_of impl qdt ph =
     \<lparr>dk_phase = ph, dk_head_dim = head_size impl, dk_q_src = q_src_of qdt,
      dk_kv_quantized = is_quantized_kv_cache (kv_cache_dtype impl),
      dk_cap = cap (layer_caps impl), dk_plain_decoder = plain_decoder impl\<rparr>"

definition forward ::
    "dispatch_table \<Rightarrow> 's famp_kernels \<Rightarrow> bool \<Rightarrow> famp_impl \<Rightarrow> torch_dtype \<Rightarrow> attn_metadata option
     \<Rightarrow> bool \<Rightarrow> bool \<Rightarrow> 's \<Rightarrow> 's res" where
  "forward T K capturing impl qdt md output_scale output_block_scale s =
     (case md of None \<Rightarrow> stock_forward K s
      | Some m \<Rightarrow>
          if output_scale \<or> output_block_scale \<or> dcp_world_size impl > 1
             \<or> (nonplain_metadata m \<and> head_size impl \<le> 256)
          then stock_forward K s
          else
            (let ph = classify impl m
             in if ph = DECODE then
                  (if head_size impl > 256 then
                     (case decode_hd512_kernel K s of
                        Ran s' \<Rightarrow> Inr s' | Declined s' \<Rightarrow> stock_forward K s' | Raised e \<Rightarrow> Inl e)
                   else stock_forward K s)
                else if ph = OTHER_PHASE then stock_forward K s
                else run_entries K (layer_caps impl) capturing (resolve T (key_of impl qdt ph)) s))"

subsection \<open>What the table walk amounts to\<close>

definition or_stock :: "'s famp_kernels \<Rightarrow> 's kernel_result \<Rightarrow> 's res" where
  "or_stock K r = (case r of Ran s' \<Rightarrow> Inr s' | Declined s' \<Rightarrow> stock_forward K s' | Raised e \<Rightarrow> Inl e)"

text \<open>The decision the walk makes, written as the policy a reader wants.\<close>

definition prefill_leg :: "famp_impl \<Rightarrow> torch_dtype \<Rightarrow> string option" where
  "prefill_leg impl qdt =
     (if head_size impl \<notin> {128, 256, 512} \<or> \<not> plain_decoder impl
         \<or> is_quantized_kv_cache (kv_cache_dtype impl) then None
      else if qdt = float16 \<and> enabled (layer_caps impl) ''fp16pv'' then Some ''fp16pv''
      else if qdt = bfloat16 \<and> enabled (layer_caps impl) ''bf16cvt'' then Some ''bf16cvt''
      else None)"

definition verify_leg :: "famp_impl \<Rightarrow> bool" where
  "verify_leg impl \<longleftrightarrow> head_size impl \<in> {64, 128, 256} \<and> plain_decoder impl
     \<and> \<not> is_quantized_kv_cache (kv_cache_dtype impl) \<and> enabled (layer_caps impl) ''xqa_verify''"

definition must_sink :: "famp_impl \<Rightarrow> attn_metadata \<Rightarrow> bool \<Rightarrow> bool \<Rightarrow> bool" where
  "must_sink impl m os obs \<longleftrightarrow> os \<or> obs \<or> dcp_world_size impl > 1
     \<or> (nonplain_metadata m \<and> head_size impl \<le> 256)"

definition direct_forward ::
    "'s famp_kernels \<Rightarrow> bool \<Rightarrow> famp_impl \<Rightarrow> torch_dtype \<Rightarrow> attn_metadata \<Rightarrow> bool \<Rightarrow> bool \<Rightarrow> 's \<Rightarrow> 's res"
  where
  "direct_forward K capturing impl qdt m os obs s =
     (if must_sink impl m os obs then stock_forward K s
      else case classify impl m of
        OTHER_PHASE \<Rightarrow> stock_forward K s
      | DECODE \<Rightarrow> if head_size impl > 256 then or_stock K (decode_hd512_kernel K s)
                  else stock_forward K s
      | VERIFY \<Rightarrow> if verify_leg impl then or_stock K (xqa_kernel K s) else stock_forward K s
      | PREFILL \<Rightarrow>
          if capturing then stock_forward K s
          else case prefill_leg impl qdt of
                 None \<Rightarrow> stock_forward K s
               | Some leg \<Rightarrow> or_stock K (fp16pv_kernel K leg s))"

lemma run_entries_append:
  "run_entries K c capturing (es @ [entry ''sage'' b]) s = run_entries K c capturing es s"
  by (induction es arbitrary: s) (auto simp: run_leg_def split: kernel_result.splits)

lemma run_entries_capture_unsafe:
  assumes "\<forall>e \<in> set es. \<not> capture_safe e"
  shows "run_entries K c True es s = stock_forward K s"
  using assms by (induction es) auto

lemma run_entries_single:
  "run_entries K c capturing [entry n cs] s =
     (if (capturing \<and> \<not> cs) \<or> \<not> enabled c n then stock_forward K s
      else or_stock K (run_leg K n s))"
  by (auto simp: or_stock_def split: kernel_result.splits)

lemma key_of_sel [simp]:
  "dk_phase (key_of impl qdt ph) = ph" "dk_head_dim (key_of impl qdt ph) = head_size impl"
  "dk_q_src (key_of impl qdt ph) = q_src_of qdt"
  "dk_kv_quantized (key_of impl qdt ph) = is_quantized_kv_cache (kv_cache_dtype impl)"
  "dk_cap (key_of impl qdt ph) = cap (layer_caps impl)"
  "dk_plain_decoder (key_of impl qdt ph) = plain_decoder impl"
  by (simp_all add: key_of_def)

lemma q_src_of_iff:
  "q_src_of d = HALF \<longleftrightarrow> d = float16" "q_src_of d = BF16 \<longleftrightarrow> d = bfloat16"
  by (auto simp: q_src_of_def)

lemma resolve_prefill:
  assumes "dk_phase k = PREFILL"
  shows "resolve default_table k =
    (if fp16pv_row k then [entry ''fp16pv'' False]
     else if bf16cvt_row k then [entry ''bf16cvt'' False] else [])
    @ (if sage_row k then [entry ''sage'' False] else [])"
  using assms by (auto simp: resolve_default fp16pv_row_def bf16cvt_row_def xqa_verify_row_def)

lemma prefill_rows:
  "fp16pv_row (key_of impl qdt PREFILL) \<and> enabled (layer_caps impl) ''fp16pv''
     \<longleftrightarrow> prefill_leg impl qdt = Some ''fp16pv''"
  "bf16cvt_row (key_of impl qdt PREFILL) \<and> enabled (layer_caps impl) ''bf16cvt''
     \<longleftrightarrow> prefill_leg impl qdt = Some ''bf16cvt''"
  by (auto simp: prefill_leg_def fp16pv_row_def bf16cvt_row_def FP16PV_HEADS_def
      BF16CVT_HEADS_def q_src_of_iff)

lemma prefill_leg_cases:
  "prefill_leg impl qdt \<in> {None, Some ''fp16pv'', Some ''bf16cvt''}"
  by (simp add: prefill_leg_def)

lemma fp16pv_bf16cvt_exclusive: "fp16pv_row k \<Longrightarrow> \<not> bf16cvt_row k"
  by (auto simp: fp16pv_row_def bf16cvt_row_def)

lemma run_prefill:
  "run_entries K (layer_caps impl) capturing (resolve default_table (key_of impl qdt PREFILL)) s =
     (if capturing then stock_forward K s
      else case prefill_leg impl qdt of
             None \<Rightarrow> stock_forward K s
           | Some leg \<Rightarrow> or_stock K (fp16pv_kernel K leg s))"
proof -
  let ?k = "key_of impl qdt PREFILL"
  let ?es = "if fp16pv_row ?k then [entry ''fp16pv'' False]
             else if bf16cvt_row ?k then [entry ''bf16cvt'' False] else []"
  have "run_entries K (layer_caps impl) capturing (resolve default_table ?k) s =
        run_entries K (layer_caps impl) capturing ?es s"
    unfolding resolve_prefill[OF key_of_sel(1)]
    by (cases "sage_row ?k") (simp_all only: if_True if_False append_Nil2 run_entries_append)
  also have "\<dots> = (if capturing then stock_forward K s
      else case prefill_leg impl qdt of
             None \<Rightarrow> stock_forward K s
           | Some leg \<Rightarrow> or_stock K (fp16pv_kernel K leg s))"
    using prefill_leg_cases[of impl qdt] prefill_rows[of impl qdt]
      fp16pv_bf16cvt_exclusive[of ?k]
    by (cases "fp16pv_row ?k"; cases "bf16cvt_row ?k")
      (auto simp: run_entries_single run_leg_def simp del: run_entries.simps(2) split: if_splits)
  finally show ?thesis .
qed

lemma run_verify:
  "run_entries K (layer_caps impl) capturing (resolve default_table (key_of impl qdt VERIFY)) s =
     (if verify_leg impl then or_stock K (xqa_kernel K s) else stock_forward K s)"
proof -
  have row: "xqa_verify_row (key_of impl qdt VERIFY) \<and> enabled (layer_caps impl) ''xqa_verify''
      \<longleftrightarrow> verify_leg impl"
    by (auto simp: verify_leg_def xqa_verify_row_def XQA_VERIFY_HEADS_def)
  show ?thesis
    unfolding resolve_default_verify[OF key_of_sel(1)] row[symmetric]
    by (auto simp: run_entries_single run_leg_def simp del: run_entries.simps(2))
qed

lemma forward_direct:
  "forward default_table K capturing impl qdt (Some m) os obs s
      = direct_forward K capturing impl qdt m os obs s"
proof (cases "must_sink impl m os obs")
  case True
  then show ?thesis by (auto simp: forward_def direct_forward_def must_sink_def)
next
  case False
  have "forward default_table K capturing impl qdt (Some m) os obs s =
    (let ph = classify impl m
     in if ph = DECODE then
          (if head_size impl > 256 then or_stock K (decode_hd512_kernel K s) else stock_forward K s)
        else if ph = OTHER_PHASE then stock_forward K s
        else run_entries K (layer_caps impl) capturing (resolve default_table (key_of impl qdt ph)) s)"
    using False unfolding forward_def must_sink_def or_stock_def by (simp only: option.case if_False)
  also have "\<dots> = direct_forward K capturing impl qdt m os obs s"
  proof (cases "classify impl m")
    case PREFILL
    show ?thesis unfolding direct_forward_def PREFILL Let_def run_prefill using False by simp
  next
    case DECODE
    show ?thesis unfolding direct_forward_def DECODE Let_def using False by simp
  next
    case VERIFY
    show ?thesis unfolding direct_forward_def VERIFY Let_def run_verify using False by simp
  next
    case OTHER_PHASE
    show ?thesis unfolding direct_forward_def OTHER_PHASE Let_def using False by simp
  qed
  finally show ?thesis .
qed

text \<open>
  Property C32. On the default routing table the forward pass is the direct policy: calls with
  output scales, a distributed context or non-plain metadata go to stock attention untouched;
  a verify batch tries the XQA leg and nothing else; a prefill tries exactly one of the two
  half-precision legs, chosen by the query type, and none while a graph is being captured; the
  Sage row never runs anything; every decline ends in stock attention.
\<close>

theorem forward_is_direct_policy:
  "forward T K capturing impl qdt None os obs s = stock_forward K s
   \<and> forward default_table K capturing impl qdt (Some m) os obs s
      = direct_forward K capturing impl qdt m os obs s"
  by (simp add: forward_direct) (simp add: forward_def)

subsection \<open>The sink contract\<close>

text \<open>
  What makes declining harmless: a kernel that gives up may leave traces in the state, but
  only traces the result of stock attention does not show. Under this contract a forward pass
  ends either in what stock attention makes of the state it was given, or in the result of
  one kernel, run on a state stock attention makes the same of. \<open>obs\<close> is what counts as the
  result.
\<close>

definition obs_res :: "('s \<Rightarrow> 'b) \<Rightarrow> 's res \<Rightarrow> 'b res" where
  "obs_res obs r = (case r of Inl e \<Rightarrow> Inl e | Inr s \<Rightarrow> Inr (obs s))"

lemma obs_res_simps [simp]: "obs_res obs (Inr s) = Inr (obs s)" "obs_res obs (Inl e) = Inl e"
  by (simp_all add: obs_res_def)

locale sink_contract =
  fixes K :: "'s famp_kernels" and ok :: "'s \<Rightarrow> bool" and obs :: "'s \<Rightarrow> 'b"
  assumes fp16pv_decline: "\<And>n s s'. ok s \<Longrightarrow> fp16pv_kernel K n s = Declined s' \<Longrightarrow>
      ok s' \<and> obs_res obs (stock_forward K s') = obs_res obs (stock_forward K s)"
    and xqa_decline: "\<And>s s'. ok s \<Longrightarrow> xqa_kernel K s = Declined s' \<Longrightarrow>
      ok s' \<and> obs_res obs (stock_forward K s') = obs_res obs (stock_forward K s)"
begin

definition like :: "'s \<Rightarrow> 's \<Rightarrow> bool" where
  "like s s' \<longleftrightarrow> ok s' \<and> obs_res obs (stock_forward K s') = obs_res obs (stock_forward K s)"

lemma like_trans: "like s s1 \<Longrightarrow> like s1 s2 \<Longrightarrow> like s s2"
  by (simp add: like_def)

lemma like_refl: "ok s \<Longrightarrow> like s s"
  by (simp add: like_def)

lemma like_ok: "like s s' \<Longrightarrow> ok s'"
  by (simp add: like_def)

lemma run_leg_decline:
  assumes "ok s" "run_leg K n s = Declined s'"
  shows "like s s'"
proof (cases "n = ''fp16pv'' \<or> n = ''bf16cvt''")
  case True
  then have "fp16pv_kernel K n s = Declined s'" using assms(2) by (simp add: run_leg_def)
  then show ?thesis unfolding like_def by (rule fp16pv_decline[OF assms(1)])
next
  case False
  show ?thesis
  proof (cases "n = ''xqa_verify''")
    case True
    then have "xqa_kernel K s = Declined s'" using assms(2) by (simp add: run_leg_def)
    then show ?thesis unfolding like_def by (rule xqa_decline[OF assms(1)])
  next
    case other: False
    then have "s' = s" using False assms(2) by (simp add: run_leg_def)
    then show ?thesis using assms(1) by (simp add: like_refl)
  qed
qed

lemma run_entries_result:
  assumes "ok s" "run_entries K c capturing es s = Inr s'"
  shows "obs_res obs (stock_forward K s) = Inr (obs s') \<or>
    (\<exists>e \<in> set es. \<exists>s1. like s s1 \<and> enabled c (entry_name e) \<and> (capturing \<longrightarrow> capture_safe e)
       \<and> run_leg K (entry_name e) s1 = Ran s')"
  using assms
proof (induction es arbitrary: s)
  case (Cons e es)
  show ?case
  proof (cases "(capturing \<and> \<not> capture_safe e) \<or> \<not> enabled c (entry_name e)")
    case True
    then have "run_entries K c capturing es s = Inr s'"
      using Cons.prems(2) by (auto split: if_splits)
    then show ?thesis using Cons.IH[OF Cons.prems(1)] by auto
  next
    case False
    show ?thesis
    proof (cases "run_leg K (entry_name e) s")
      case (Ran s1)
      then have "s1 = s'" using False Cons.prems(2) by auto
      then show ?thesis using Ran False like_refl[OF Cons.prems(1)] by auto
    next
      case (Declined s1)
      then have r: "run_entries K c capturing es s1 = Inr s'"
        using False Cons.prems(2) by auto
      have l: "like s s1" by (rule run_leg_decline[OF Cons.prems(1) Declined])
      from Cons.IH[OF like_ok[OF l] r] show ?thesis
      proof (elim disjE bexE exE conjE)
        assume "obs_res obs (stock_forward K s1) = Inr (obs s')"
        then show ?thesis using l by (simp add: like_def)
      next
        fix f s2 assume "f \<in> set es" "like s1 s2" "enabled c (entry_name f)"
          "capturing \<longrightarrow> capture_safe f" "run_leg K (entry_name f) s2 = Ran s'"
        then show ?thesis using like_trans[OF l] by (meson list.set_intros(2))
      qed
    next
      case (Raised x)
      then have "run_entries K c capturing (e # es) s = Inl x"
        using False unfolding run_entries.simps(2) by auto
      then show ?thesis using Cons.prems(2) by simp
    qed
  qed
qed simp

lemma forward_result:
  assumes "ok s" "head_size impl \<le> 256"
    and "forward T K capturing impl qdt (Some m) os ob s = Inr s'"
  shows "obs_res obs (stock_forward K s) = Inr (obs s') \<or>
    (\<exists>e s1. e \<in> set (resolve T (key_of impl qdt (classify impl m))) \<and> like s s1
       \<and> enabled (layer_caps impl) (entry_name e) \<and> (capturing \<longrightarrow> capture_safe e)
       \<and> run_leg K (entry_name e) s1 = Ran s')"
proof (cases "must_sink impl m os ob \<or> classify impl m \<in> {DECODE, OTHER_PHASE}")
  case True
  then have "forward T K capturing impl qdt (Some m) os ob s = stock_forward K s"
    using assms(2) by (auto simp: forward_def must_sink_def Let_def)
  then have "stock_forward K s = Inr s'" using assms(3) by simp
  then show ?thesis by simp
next
  case False
  then have "run_entries K (layer_caps impl) capturing
      (resolve T (key_of impl qdt (classify impl m))) s = Inr s'"
    using assms(3) by (auto simp: forward_def must_sink_def Let_def split: if_splits)
  from run_entries_result[OF assms(1) this] show ?thesis by blast
qed

end

end
