(* ===== verification/FampState.thy ===== *)
theory FampState imports FampForward
begin

text \<open>
  The state the FlashAmpere kernels act on: the paged KV cache and the output tensor of one
  layer, and the process-wide tables of \<^verbatim>\<open>xqa_verify.py\<close> and \<^verbatim>\<open>kernels.py\<close>.

  Tensors are lists of rows: a row of the KV cache is one token's keys (or values) for all
  heads, of any type. \<open>page_tokens\<close> is the second dimension of the cache, in the view that
  \<^verbatim>\<open>_split_kv\<close> returns.
\<close>

section \<open>Tables\<close>

type_synonym mod_key = "torch_dtype \<times> torch_dtype \<times> int \<times> int \<times> int \<times> int"
type_synonym buf_key = "int \<times> int \<times> int \<times> string"

record xqa_bufs =
  sem :: "32 word list"
  seq_u32 :: "32 word list"
  packed_mask :: "16 word list list list"

text \<open>
  The batched prefill state: the column template and the size of the scatter buffer, both
  created with the first step, the key of the planned step, and the plan the wrapper holds.
\<close>

record page_plan =
  qo_indptr :: "int list"
  kv_indptr :: "int list"
  kv_indices :: "nat list"
  last_page_len :: "int list"

record bp_state =
  bp_page :: int
  bp_col :: "nat list option"
  bp_scatter_len :: nat
  bp_planned :: "(nat \<times> nat \<times> int \<times> int) option"
  bp_plan :: "page_plan option"

type_synonym bp_key = "int \<times> int \<times> int \<times> torch_dtype \<times> int"

record fire_counters =
  fire_calls :: nat
  fire_seqs :: nat
  fire_fresh :: nat
  fire_cached :: nat
  fire_fp16pv :: nat
  fire_bf16cvt :: nat
  fire_batch :: nat

text \<open>
  \<open>cached_seq_lens_cpu\<close> is the attribute \<^verbatim>\<open>_famp_seq_lens_cpu\<close> that the kernels hang on the
  metadata of the step.
\<close>

record ('r, 'o) attn_tensors =
  page_tokens :: nat
  k_cache :: "'r list list"
  v_cache :: "'r list list"
  out_rows :: "'o list"

record ('r, 'o, 'm) famp_state = "('r, 'o) attn_tensors" +
  modules :: "mod_key \<rightharpoonup> 'm"
  bufs :: "buf_key \<rightharpoonup> xqa_bufs"
  scratch_on :: "string option"
  sm_count :: "int option"
  declined_capture_warned :: bool
  declined_page_logged :: bool
  xqa_fired :: bool
  fire :: fire_counters
  bp_states :: "bp_key \<rightharpoonup> bp_state"
  cached_seq_lens_cpu :: "int list option"

text \<open>What a call brings along.\<close>

record ('r, 'q) call_args =
  ca_query :: "'q list"
  ca_key :: "'r list"
  ca_value :: "'r list"
  ca_q_dtype :: torch_dtype
  ca_kv_dtype :: torch_dtype
  ca_device :: string
  ca_capturing :: bool

section \<open>Writing the cache\<close>

text \<open>
  The cache write of \<^verbatim>\<open>reshape_and_cache_flash\<close>: each token's row goes to its slot, a
  negative slot being a padding token.
\<close>

definition write_slot :: "nat \<Rightarrow> int \<times> 'r \<Rightarrow> 'r list list \<Rightarrow> 'r list list" where
  "write_slot bs sr cache =
     (let (slot, row) = sr
      in if slot < 0 then cache
         else let b = nat slot div bs; off = nat slot mod bs
              in cache[b := (cache ! b)[off := row]])"

definition reshape_and_cache ::
    "int list \<Rightarrow> 'r list \<Rightarrow> 'r list \<Rightarrow> ('r, 'o, 'z) attn_tensors_scheme \<Rightarrow> ('r, 'o, 'z) attn_tensors_scheme"
  where
  "reshape_and_cache slots ks vs st =
     st\<lparr>k_cache := fold (write_slot (page_tokens st)) (zip slots ks) (k_cache st),
        v_cache := fold (write_slot (page_tokens st)) (zip slots vs) (v_cache st)\<rparr>"

lemma write_frame [simp]:
  "out_rows (reshape_and_cache slots ks vs st) = out_rows st"
  "page_tokens (reshape_and_cache slots ks vs st) = page_tokens st"
  by (simp_all add: reshape_and_cache_def)

lemma write_tables [simp]:
  "modules (reshape_and_cache slots ks vs st) = modules st"
  "bufs (reshape_and_cache slots ks vs st) = bufs st"
  by (simp_all add: reshape_and_cache_def)

lemma write_kv:
  "k_cache (reshape_and_cache slots ks vs st) = fold (write_slot (page_tokens st)) (zip slots ks) (k_cache st)"
  "v_cache (reshape_and_cache slots ks vs st) = fold (write_slot (page_tokens st)) (zip slots vs) (v_cache st)"
  by (simp_all add: reshape_and_cache_def)

end
