(* ===== verification/CudagraphDispatch.thy ===== *)
theory CudagraphDispatch imports Prelude
begin

text \<open>
  The CUDA graph dispatcher of \<^verbatim>\<open>v1/cudagraph_dispatcher.py\<close>, with the graph modes and the
  rounding of the capture sizes for speculative decoding of \<^verbatim>\<open>config/compilation.py\<close>: which
  padded batch sizes are captured, and which captured graph a batch is sent to.
\<close>

unbundle bit_operations_syntax

section \<open>Graph modes: \<open>config/compilation.py\<close>\<close>

datatype cg_mode = NONE | PIECEWISE | FULL | FULL_DECODE_ONLY | FULL_AND_PIECEWISE

fun separate_routine :: "cg_mode \<Rightarrow> bool" where
  "separate_routine FULL_DECODE_ONLY = True"
| "separate_routine FULL_AND_PIECEWISE = True"
| "separate_routine _ = False"

fun decode_mode :: "cg_mode \<Rightarrow> cg_mode" where
  "decode_mode FULL_DECODE_ONLY = FULL"
| "decode_mode FULL_AND_PIECEWISE = FULL"
| "decode_mode m = m"

fun mixed_mode :: "cg_mode \<Rightarrow> cg_mode" where
  "mixed_mode FULL_DECODE_ONLY = NONE"
| "mixed_mode FULL_AND_PIECEWISE = PIECEWISE"
| "mixed_mode m = m"

text \<open>Called with a runtime mode only, so its assertion never fires.\<close>

definition has_mode :: "cg_mode \<Rightarrow> cg_mode \<Rightarrow> bool" where
  "has_mode m r =
     (if separate_routine m then r = decode_mode m \<or> r = mixed_mode m else m = r)"

definition requires_piecewise_compilation :: "cg_mode \<Rightarrow> bool" where
  "requires_piecewise_compilation m = has_mode m PIECEWISE"

definition max_cudagraph_mode :: "cg_mode \<Rightarrow> cg_mode" where
  "max_cudagraph_mode m = (if separate_routine m then FULL else m)"

definition has_full_cudagraphs :: "cg_mode \<Rightarrow> bool" where
  "has_full_cudagraphs m \<longleftrightarrow> max_cudagraph_mode m = FULL"

lemma separate_has_FULL: "separate_routine m \<Longrightarrow> has_mode m FULL \<and> decode_mode m = FULL"
  by (cases m) (simp_all add: has_mode_def)

lemma full_cudagraphs_iff: "has_full_cudagraphs m \<longleftrightarrow> decode_mode m = FULL"
  by (cases m) (simp_all add: has_full_cudagraphs_def max_cudagraph_mode_def)

section \<open>Rounding the capture sizes for speculative decoding\<close>

text \<open>\<^verbatim>\<open>sorted(set(...))\<close> is \<open>sort (remdups ...)\<close>.\<close>

definition sorted_set :: "int list \<Rightarrow> int list" where
  "sorted_set xs = sort (remdups xs)"

record capture_config =
  cudagraph_capture_sizes :: "int list option"
  max_cudagraph_capture_size :: "int option"
  enable_sp :: bool

definition capture_multiple :: "int \<Rightarrow> int \<Rightarrow> capture_config \<Rightarrow> int res" where
  "capture_multiple q tp c =
     (if tp > 1 \<and> enable_sp c then
        (let multiple_of = max q tp
         in if multiple_of mod q \<noteq> 0 \<or> multiple_of mod tp \<noteq> 0 then Inl ValueError
            else Inr multiple_of)
      else Inr q)"

definition rounded_sizes :: "int \<Rightarrow> int \<Rightarrow> int list \<Rightarrow> int list" where
  "rounded_sizes multiple_of mx sizes =
     (let rounded = sorted_set [round_up s multiple_of. s \<leftarrow> sizes, round_up s multiple_of \<le> mx]
      in if length rounded = 0 \<and> multiple_of \<le> mx then [multiple_of] else rounded)"

definition adjust_sizes_for_spec_decode ::
    "int \<Rightarrow> int \<Rightarrow> capture_config \<Rightarrow> capture_config res" where
  "adjust_sizes_for_spec_decode q tp c =
     bind_res (capture_multiple q tp c)
       (\<lambda>multiple_of.
          (case cudagraph_capture_sizes c of
             None \<Rightarrow> Inr c
           | Some sizes \<Rightarrow>
               if sizes = [] \<or> multiple_of \<le> 1 then Inr c
               else case max_cudagraph_capture_size c of
                 None \<Rightarrow> Inl AssertionError
               | Some mx \<Rightarrow>
                   (let rounded = rounded_sizes multiple_of mx sizes
                    in if length rounded = 0 then Inl ValueError
                       else Inr (c\<lparr>max_cudagraph_capture_size := Some (last rounded),
                                   cudagraph_capture_sizes := Some rounded\<rparr>))))"

section \<open>The dispatcher\<close>

record batch_descriptor =
  bd_num_tokens :: int
  bd_num_reqs :: "int option"
  bd_uniform :: bool
  bd_has_lora :: bool
  bd_num_active_loras :: int

definition plain_descriptor :: "int \<Rightarrow> batch_descriptor" where
  "plain_descriptor n = \<lparr>bd_num_tokens = n, bd_num_reqs = None, bd_uniform = False,
     bd_has_lora = False, bd_num_active_loras = 0\<rparr>"

record lora_settings =
  max_loras :: int
  specialize_active_lora :: bool

record dispatcher =
  capture :: capture_config
  compile_sizes :: "int list"
  cudagraph_specialize_lora :: bool
  lora_config :: "lora_settings option"
  max_num_seqs :: int
  uniform_decode_query_len :: int
  cudagraph_mode :: cg_mode
  keys_initialized :: bool
  bs_to_padded_graph_size :: "int list"
  captured_lora_counts :: "int list"
  piecewise_keys :: "batch_descriptor set"
  full_keys :: "batch_descriptor set"

definition new_dispatcher ::
    "capture_config \<Rightarrow> cg_mode \<Rightarrow> bool \<Rightarrow> bool \<Rightarrow> int list \<Rightarrow> bool \<Rightarrow> lora_settings option \<Rightarrow> int \<Rightarrow> int
     \<Rightarrow> dispatcher res" where
  "new_dispatcher cc configured compiled_piecewise breakable csizes spec_lora lora max_seqs nspec =
     bind_res (assert_res (\<not> requires_piecewise_compilation configured \<or> compiled_piecewise
                           \<or> breakable) AssertionError)
       (\<lambda>_. Inr \<lparr>capture = cc, compile_sizes = csizes, cudagraph_specialize_lora = spec_lora,
          lora_config = lora, max_num_seqs = max_seqs, uniform_decode_query_len = 1 + nspec,
          cudagraph_mode = NONE, keys_initialized = False, bs_to_padded_graph_size = [],
          captured_lora_counts = [], piecewise_keys = {}, full_keys = {}\<rparr>)"

definition specialize_lora_count :: "dispatcher \<Rightarrow> bool" where
  "specialize_lora_count d =
     (case lora_config d of None \<Rightarrow> False | Some l \<Rightarrow> specialize_active_lora l)"

definition py_set :: "'a list \<Rightarrow> int \<Rightarrow> 'a \<Rightarrow> 'a list res" where
  "py_set xs i v =
     (let j = py_index (int (length xs)) i
      in if 0 \<le> j \<and> j < int (length xs) then Inr (xs[nat j := v]) else Inl IndexError)"

definition fill_range :: "int \<times> int \<Rightarrow> int list \<Rightarrow> int list res" where
  "fill_range se tab =
     (let (stop, start) = se
      in fold_res (\<lambda>bs t. if bs = start then py_set t bs start else py_set t bs stop)
           [start..stop - 1] tab)"

definition check_compile_size :: "int \<Rightarrow> int list \<Rightarrow> int \<Rightarrow> unit \<Rightarrow> unit res" where
  "check_compile_size mx tab sz _ =
     (if sz \<le> mx
      then bind_res (py_get tab sz) (\<lambda>p. if p \<noteq> sz then Inl ValueError else Inr ())
      else Inr ())"

definition compute_bs_to_padded_graph_size :: "dispatcher \<Rightarrow> dispatcher res" where
  "compute_bs_to_padded_graph_size d =
     (case max_cudagraph_capture_size (capture d) of
        None \<Rightarrow> Inl AssertionError
      | Some mx \<Rightarrow>
          (case cudagraph_capture_sizes (capture d) of
             None \<Rightarrow> Inl AssertionError
           | Some sizes \<Rightarrow>
               bind_res (fold_res fill_range (zip (sizes @ [mx + 1]) ([0] @ sizes))
                           (replicate (nat (mx + 1)) 0))
                 (\<lambda>tab. bind_res
                    (if compile_sizes d \<noteq> [] \<and> cudagraph_mode d \<noteq> NONE
                     then fold_res (check_compile_size mx tab) (compile_sizes d) () else Inr ())
                    (\<lambda>_. Inr (d\<lparr>bs_to_padded_graph_size := tab\<rparr>)))))"

definition get_captured_lora_counts :: "int \<Rightarrow> bool \<Rightarrow> int list" where
  "get_captured_lora_counts n specialize =
     (if \<not> specialize then [n + 1]
      else [k \<leftarrow> [1..n + 1]. k AND (k - 1) = 0 \<or> k = n + 1])"

definition get_lora_cases :: "dispatcher \<Rightarrow> int list" where
  "get_lora_cases d =
     (case lora_config d of
        None \<Rightarrow> [0]
      | Some l \<Rightarrow>
          if cudagraph_specialize_lora d
          then [0] @ get_captured_lora_counts (max_loras l) (specialize_lora_count d)
          else [max_loras l + 1])"

definition create_padded_batch_descriptor ::
    "dispatcher \<Rightarrow> int \<Rightarrow> bool \<Rightarrow> bool \<Rightarrow> int \<Rightarrow> batch_descriptor res" where
  "create_padded_batch_descriptor d ntok uniform has_lora n_loras =
     bind_res (py_get (bs_to_padded_graph_size d) ntok)
       (\<lambda>padded.
          (let q = uniform_decode_query_len d
           in if uniform \<and> has_mode (cudagraph_mode d) FULL then
                (if padded mod q \<noteq> 0 then Inl AssertionError
                 else Inr \<lparr>bd_num_tokens = padded,
                           bd_num_reqs = Some (min (padded div q) (max_num_seqs d)),
                           bd_uniform = True, bd_has_lora = has_lora,
                           bd_num_active_loras = n_loras\<rparr>)
              else Inr \<lparr>bd_num_tokens = padded,
                        bd_num_reqs = Some (min padded (max_num_seqs d)),
                        bd_uniform = False, bd_has_lora = has_lora,
                        bd_num_active_loras = n_loras\<rparr>))"

definition relax :: "batch_descriptor \<Rightarrow> batch_descriptor" where
  "relax b = b\<lparr>bd_num_reqs := None, bd_uniform := False\<rparr>"

definition keys_of :: "dispatcher \<Rightarrow> cg_mode \<Rightarrow> batch_descriptor set" where
  "keys_of d m = (if m = PIECEWISE then piecewise_keys d else if m = FULL then full_keys d else {})"

definition add_cudagraph_key :: "cg_mode \<Rightarrow> batch_descriptor \<Rightarrow> dispatcher \<Rightarrow> dispatcher res" where
  "add_cudagraph_key m b d =
     (if m = PIECEWISE then Inr (d\<lparr>piecewise_keys := insert b (piecewise_keys d)\<rparr>)
      else if m = FULL then Inr (d\<lparr>full_keys := insert b (full_keys d)\<rparr>)
      else Inl AssertionError)"

definition mixed_step :: "cg_mode \<Rightarrow> int \<times> int \<Rightarrow> dispatcher \<Rightarrow> dispatcher res" where
  "mixed_step mode x d =
     (let (bs, loras) = x
      in bind_res (create_padded_batch_descriptor d bs False (loras > 0) loras)
           (\<lambda>b. add_cudagraph_key (mixed_mode mode)
                   (if mixed_mode mode = PIECEWISE then relax b else b) d))"

definition decode_step :: "int \<times> int \<Rightarrow> dispatcher \<Rightarrow> dispatcher res" where
  "decode_step x d =
     (let (bs, loras) = x
      in bind_res (create_padded_batch_descriptor d bs True (loras > 0) loras)
           (\<lambda>b. add_cudagraph_key FULL b d))"

definition initialize_cudagraph_keys :: "cg_mode \<Rightarrow> int \<Rightarrow> dispatcher \<Rightarrow> dispatcher res" where
  "initialize_cudagraph_keys mode q d0 =
     (let d = d0\<lparr>cudagraph_mode := mode\<rparr>
      in if mode = NONE then Inr (d\<lparr>keys_initialized := True\<rparr>)
         else
           bind_res (compute_bs_to_padded_graph_size d) (\<lambda>d.
             (let lora_cases = get_lora_cases d;
                  d = d\<lparr>captured_lora_counts := [n \<leftarrow> lora_cases. n \<noteq> 0]\<rparr>;
                  sizes = the (cudagraph_capture_sizes (capture d))
              in bind_res
                   (if mixed_mode mode \<noteq> NONE
                    then fold_res (mixed_step mode) [(b, n). b \<leftarrow> sizes, n \<leftarrow> lora_cases] d
                    else Inr d) (\<lambda>d.
                 bind_res
                   (if decode_mode mode = FULL \<and> separate_routine mode
                    then fold_res decode_step
                           [(b, n). b \<leftarrow> filter (\<lambda>x. x \<le> q * max_num_seqs d \<and> x \<ge> q) sizes,
                                    n \<leftarrow> lora_cases] d
                    else Inr d)
                   (\<lambda>d. Inr (d\<lparr>keys_initialized := True\<rparr>))))))"

text \<open>\<^verbatim>\<open>bisect_left\<close> on an increasing list.\<close>

definition bisect_left :: "int list \<Rightarrow> int \<Rightarrow> nat" where
  "bisect_left xs x = length (takeWhile (\<lambda>y. y < x) xs)"

definition effective_loras :: "dispatcher \<Rightarrow> bool \<Rightarrow> int \<Rightarrow> int res" where
  "effective_loras d has_lora n =
     (if has_lora \<and> n > 0 then
        (if specialize_lora_count d then
           (let idx = bisect_left (captured_lora_counts d) n
            in if idx < length (captured_lora_counts d) then Inr (captured_lora_counts d ! idx)
               else Inr n)
         else case lora_config d of None \<Rightarrow> Inl AssertionError | Some l \<Rightarrow> Inr (max_loras l + 1))
      else Inr n)"

text \<open>
  \<open>valid\<close> and \<open>invalid\<close> are the two optional mode sets; \<^verbatim>\<open>or\<close> and the truth test treat an
  empty set like a missing one.
\<close>

definition allowed_modes :: "cg_mode set option \<Rightarrow> cg_mode set option \<Rightarrow> cg_mode set" where
  "allowed_modes valid invalid =
     (let a = (case valid of None \<Rightarrow> {NONE, PIECEWISE, FULL}
               | Some v \<Rightarrow> if v = {} then {NONE, PIECEWISE, FULL} else v)
      in case invalid of None \<Rightarrow> a | Some i \<Rightarrow> if i = {} then a else a - i)"

definition dispatch ::
    "dispatcher \<Rightarrow> int \<Rightarrow> bool \<Rightarrow> bool \<Rightarrow> int \<Rightarrow> cg_mode set option \<Rightarrow> cg_mode set option
     \<Rightarrow> (cg_mode \<times> batch_descriptor) res" where
  "dispatch d ntok uniform has_lora n_loras valid invalid =
     (let allowed = allowed_modes valid invalid
      in if allowed = {} then Inl AssertionError
         else case max_cudagraph_capture_size (capture d) of
           None \<Rightarrow> Inr (NONE, plain_descriptor ntok)
         | Some mx \<Rightarrow>
             if \<not> keys_initialized d \<or> cudagraph_mode d = NONE \<or> ntok > mx \<or> allowed \<subseteq> {NONE}
             then Inr (NONE, plain_descriptor ntok)
             else
               bind_res (effective_loras d has_lora n_loras) (\<lambda>n.
                 bind_res (create_padded_batch_descriptor d ntok
                             (uniform \<and> separate_routine (cudagraph_mode d)) has_lora n) (\<lambda>b.
                   if FULL \<in> allowed \<and> b \<in> full_keys d then Inr (FULL, b)
                   else if PIECEWISE \<in> allowed \<and> relax b \<in> piecewise_keys d
                   then Inr (PIECEWISE, relax b)
                   else if NONE \<in> allowed then Inr (NONE, plain_descriptor ntok)
                   else Inl AssertionError)))"

section \<open>The padding table\<close>

text \<open>The capture size a batch of \<open>i\<close> tokens is padded to.\<close>

definition padded_to :: "int list \<Rightarrow> int \<Rightarrow> int" where
  "padded_to L i = hd (dropWhile (\<lambda>s. s < i) L)"

lemma padded_to_least:
  assumes "sorted L" "i \<le> last L" "L \<noteq> []"
  shows "padded_to L i \<in> set L" "i \<le> padded_to L i"
    "\<And>s. s \<in> set L \<Longrightarrow> i \<le> s \<Longrightarrow> padded_to L i \<le> s"
proof -
  have ne: "dropWhile (\<lambda>s. s < i) L \<noteq> []"
    using assms by (simp add: dropWhile_eq_Nil_conv) (metis last_in_set linorder_not_less)
  show "padded_to L i \<in> set L"
    unfolding padded_to_def using ne by (metis hd_in_set set_dropWhileD)
  show le: "i \<le> padded_to L i"
    unfolding padded_to_def using hd_dropWhile[OF ne] by simp
  fix s assume s: "s \<in> set L" "i \<le> s"
  then have "s \<in> set (dropWhile (\<lambda>s. s < i) L)"
    by (metis Un_iff leD set_append set_takeWhileD takeWhile_dropWhile_id)
  moreover have "sorted (dropWhile (\<lambda>s. s < i) L)"
    using assms(1) by (rule sorted_dropWhile)
  ultimately show "padded_to L i \<le> s"
    unfolding padded_to_def by (cases "dropWhile (\<lambda>s. s < i) L") auto
qed

lemma py_set_in:
  assumes "0 \<le> i" "i < int (length xs)"
  shows "py_set xs i v = Inr (xs[nat i := v])"
  using assms by (simp add: py_set_def py_index_def)

lemma fold_py_set:
  assumes "\<And>i. i \<in> set is \<Longrightarrow> 0 \<le> i \<and> i < int (length tab)"
  shows "fold_res (\<lambda>i t. py_set t i (f i)) is tab =
    Inr (map (\<lambda>j. if int j \<in> set is then f (int j) else tab ! j) [0..<length tab])"
  using assms
proof (induction "is" arbitrary: tab)
  case Nil
  then show ?case by (simp add: map_nth)
next
  case (Cons i "is")
  have i: "0 \<le> i" "i < int (length tab)" using Cons.prems[of i] by auto
  have "fold_res (\<lambda>i t. py_set t i (f i)) (i # is) tab
      = fold_res (\<lambda>i t. py_set t i (f i)) is (tab[nat i := f i])"
    by (simp add: py_set_in[OF i])
  also have "\<dots> = Inr (map (\<lambda>j. if int j \<in> set is then f (int j) else tab[nat i := f i] ! j)
      [0..<length tab])"
    using Cons.IH[of "tab[nat i := f i]"] Cons.prems by simp
  also have "\<dots> = Inr (map (\<lambda>j. if int j \<in> set (i # is) then f (int j) else tab ! j)
      [0..<length tab])"
    using i by (auto simp: nth_list_update)
  finally show ?case .
qed

lemma fill_range_in:
  assumes "0 \<le> start" "stop \<le> int (length tab)"
  shows "fill_range (stop, start) tab =
    Inr (map (\<lambda>j. if start \<le> int j \<and> int j < stop
                   then (if int j = start then start else stop) else tab ! j) [0..<length tab])"
proof -
  have *: "(\<lambda>bs t. if bs = start then py_set t bs start else py_set t bs stop) =
      (\<lambda>bs t. py_set t bs (if bs = start then start else stop))"
    by (intro ext) simp
  show ?thesis
    unfolding fill_range_def prod.case Let_def * using assms
    by (subst fold_py_set) auto
qed

fun segments :: "int list \<Rightarrow> (int \<times> int) list" where
  "segments (s # t # r) = (t, s) # segments (t # r)"
| "segments _ = []"

lemma zip_segments: "zip (ss @ [m]) (s # ss) = segments (s # ss @ [m])"
  by (induction ss arbitrary: s) simp_all

lemma sorted_wrt_last_less:
  "sorted_wrt (<) (xs :: int list) \<Longrightarrow> x \<in> set xs \<Longrightarrow> x \<le> last xs"
  by (induction xs) (auto simp: less_imp_le split: if_splits dest: last_in_set)

lemma fold_segments:
  assumes "sorted_wrt (<) (s # ss)" "0 \<le> s" "last (s # ss) \<le> int (length tab)"
  shows "fold_res fill_range (segments (s # ss)) tab =
    Inr (map (\<lambda>j. if s \<le> int j \<and> int j < last (s # ss) then padded_to (s # ss) (int j)
                  else tab ! j) [0..<length tab])"
  using assms
proof (induction ss arbitrary: s tab)
  case Nil
  then show ?case by (auto intro!: nth_equalityI)
next
  case (Cons t r)
  have st: "s < t" and sr: "sorted_wrt (<) (t # r)" using Cons.prems(1) by auto
  have lt: "t \<le> last (t # r)" using sorted_wrt_last_less[OF sr, of t] by simp
  let ?tab = "map (\<lambda>j. if s \<le> int j \<and> int j < t then (if int j = s then s else t)
    else tab ! j) [0..<length tab]"
  have "fold_res fill_range (segments (s # t # r)) tab = fold_res fill_range (segments (t # r)) ?tab"
    using Cons.prems lt by (simp add: fill_range_in)
  also have "\<dots> = Inr (map (\<lambda>j. if t \<le> int j \<and> int j < last (t # r) then padded_to (t # r) (int j)
      else ?tab ! j) [0..<length tab])"
    using Cons.IH[OF sr, of ?tab] Cons.prems st by simp
  also have "\<dots> = Inr (map (\<lambda>j. if s \<le> int j \<and> int j < last (s # t # r)
      then padded_to (s # t # r) (int j) else tab ! j) [0..<length tab])"
    using st lt by (auto simp: padded_to_def)
  finally show ?case .
qed

definition sizes_ok :: "capture_config \<Rightarrow> bool" where
  "sizes_ok c \<longleftrightarrow> (\<exists>sizes mx. cudagraph_capture_sizes c = Some sizes \<and>
     max_cudagraph_capture_size c = Some mx \<and> sizes \<noteq> [] \<and> last sizes = mx
     \<and> sorted_wrt (<) (0 # sizes))"

definition sizes_of :: "dispatcher \<Rightarrow> int list" where
  "sizes_of d = the (cudagraph_capture_sizes (capture d))"

definition max_of :: "dispatcher \<Rightarrow> int" where
  "max_of d = the (max_cudagraph_capture_size (capture d))"

definition pad_table :: "int list \<Rightarrow> int \<Rightarrow> int list" where
  "pad_table sizes mx = map (\<lambda>j. padded_to (0 # sizes) (int j)) [0..<nat (mx + 1)]"

lemma padded_to_append:
  assumes "i \<le> last L" "L \<noteq> []" "sorted_wrt (<) L"
  shows "padded_to (L @ M) i = padded_to L i"
proof -
  have "last L \<in> set L" "\<not> last L < i" using assms by auto
  then show ?thesis
    unfolding padded_to_def
    by (metis (no_types, lifting) dropWhile_append dropWhile_eq_Nil_conv hd_append2)
qed

lemma compute_table:
  assumes "sizes_ok (capture d)"
  shows "fold_res fill_range (zip (sizes_of d @ [max_of d + 1]) ([0] @ sizes_of d))
      (replicate (nat (max_of d + 1)) 0) = Inr (pad_table (sizes_of d) (max_of d))"
proof -
  let ?s = "sizes_of d" let ?m = "max_of d"
  from assms have s: "?s \<noteq> []" "last ?s = ?m" "sorted_wrt (<) (0 # ?s)"
    by (auto simp: sizes_ok_def sizes_of_def max_of_def)
  have m0: "0 < ?m" using s by (metis last_in_set sorted_wrt.simps(2))
  have "sorted_wrt (<) (0 # ?s @ [?m + 1])"
    using s sorted_wrt_last_less[of ?s] m0 by (auto simp: sorted_wrt_append)
  then have "fold_res fill_range (segments (0 # ?s @ [?m + 1])) (replicate (nat (?m + 1)) 0) =
     Inr (map (\<lambda>j. if 0 \<le> int j \<and> int j < last (0 # ?s @ [?m + 1])
        then padded_to (0 # ?s @ [?m + 1]) (int j) else replicate (nat (?m + 1)) 0 ! j)
        [0..<length (replicate (nat (?m + 1)) (0::int))])"
    by (rule fold_segments) (use m0 in simp_all)
  also have "\<dots> = Inr (pad_table ?s ?m)"
  proof -
    have "padded_to (0 # ?s @ [?m + 1]) (int j) = padded_to (0 # ?s) (int j)"
      if "j < nat (?m + 1)" for j
    proof -
      have "int j \<le> last (0 # ?s)" using that s by simp
      then show ?thesis using padded_to_append[of "int j" "0 # ?s" "[?m + 1]"] s(3) by simp
    qed
    then show ?thesis by (auto simp: pad_table_def)
  qed
  finally show ?thesis by (simp add: zip_segments)
qed

lemma pad_table_nth:
  assumes "0 \<le> i" "i \<le> mx"
  shows "py_get (pad_table sizes mx) i = Inr (padded_to (0 # sizes) i)"
  using assms by (simp add: pad_table_def py_get_def py_index_def)

section \<open>What initialisation captures\<close>

lemma create_congs [simp]:
  "create_padded_batch_descriptor (d\<lparr>full_keys := F\<rparr>) = create_padded_batch_descriptor d"
  "create_padded_batch_descriptor (d\<lparr>piecewise_keys := P\<rparr>) = create_padded_batch_descriptor d"
  by (simp_all add: create_padded_batch_descriptor_def fun_eq_iff Let_def cong: if_cong)

definition uniform_keys :: "dispatcher \<Rightarrow> (int \<times> int) list \<Rightarrow> batch_descriptor set" where
  "uniform_keys d xs =
     {b. \<exists>x \<in> set xs. create_padded_batch_descriptor d (fst x) True (snd x > 0) (snd x) = Inr b}"

definition mixed_keys :: "dispatcher \<Rightarrow> (int \<times> int) list \<Rightarrow> batch_descriptor set" where
  "mixed_keys d xs =
     {b. \<exists>x \<in> set xs. create_padded_batch_descriptor d (fst x) False (snd x > 0) (snd x) = Inr b}"

lemma decode_Cons:
  "fold_res decode_step (x # xs) d =
     bind_res (create_padded_batch_descriptor d (fst x) True (snd x > 0) (snd x))
       (\<lambda>b. fold_res decode_step xs (d\<lparr>full_keys := insert b (full_keys d)\<rparr>))"
  by (simp add: decode_step_def[of x d] add_cudagraph_key_def case_prod_beta bind_res_assoc)

lemma mixed_Cons:
  "fold_res (mixed_step mode) (x # xs) d =
     bind_res (create_padded_batch_descriptor d (fst x) False (snd x > 0) (snd x))
       (\<lambda>b. bind_res (add_cudagraph_key (mixed_mode mode)
               (if mixed_mode mode = PIECEWISE then relax b else b) d)
             (fold_res (mixed_step mode) xs))"
  by (simp add: mixed_step_def[of mode x d] case_prod_beta bind_res_assoc)

lemma fold_decode_step:
  assumes "fold_res decode_step xs d = Inr d'"
  shows "d' = d\<lparr>full_keys := full_keys d \<union> uniform_keys d xs\<rparr>"
  using assms
proof (induction xs arbitrary: d)
  case (Cons x xs)
  from Cons.prems obtain b where b:
      "create_padded_batch_descriptor d (fst x) True (snd x > 0) (snd x) = Inr b"
      "fold_res decode_step xs (d\<lparr>full_keys := insert b (full_keys d)\<rparr>) = Inr d'"
    unfolding decode_Cons by (auto simp: bind_res_eq_Inr)
  have "uniform_keys d (x # xs) = insert b (uniform_keys d xs)"
    using b(1) by (auto simp: uniform_keys_def)
  moreover have "uniform_keys (d\<lparr>full_keys := insert b (full_keys d)\<rparr>) xs = uniform_keys d xs"
    by (simp add: uniform_keys_def)
  ultimately show ?case using Cons.IH[OF b(2)] by simp
qed (simp add: uniform_keys_def)

lemma fold_decode_step_ok:
  assumes "\<And>x. x \<in> set xs \<Longrightarrow>
    \<exists>b. create_padded_batch_descriptor d (fst x) True (snd x > 0) (snd x) = Inr b"
  shows "\<exists>d'. fold_res decode_step xs d = Inr d'"
  using assms
proof (induction xs arbitrary: d)
  case (Cons x xs)
  obtain b where b: "create_padded_batch_descriptor d (fst x) True (snd x > 0) (snd x) = Inr b"
    using Cons.prems[of x] by auto
  have "\<exists>d'. fold_res decode_step xs (d\<lparr>full_keys := insert b (full_keys d)\<rparr>) = Inr d'"
    by (rule Cons.IH) (use Cons.prems in simp)
  then show ?case unfolding decode_Cons b by simp
qed simp

lemma fold_mixed_step:
  assumes "fold_res (mixed_step mode) xs d = Inr d'"
  shows "d' = d\<lparr>full_keys := full_keys d \<union> (if mixed_mode mode = FULL then mixed_keys d xs else {}),
    piecewise_keys := piecewise_keys d \<union>
      (if mixed_mode mode = PIECEWISE then relax ` mixed_keys d xs else {})\<rparr>"
  using assms
proof (induction xs arbitrary: d)
  case (Cons x xs)
  from Cons.prems obtain b d1 where b:
      "create_padded_batch_descriptor d (fst x) False (snd x > 0) (snd x) = Inr b"
      "add_cudagraph_key (mixed_mode mode)
         (if mixed_mode mode = PIECEWISE then relax b else b) d = Inr d1"
      "fold_res (mixed_step mode) xs d1 = Inr d'"
    unfolding mixed_Cons by (auto simp: bind_res_eq_Inr)
  have mk: "mixed_keys d (x # xs) = insert b (mixed_keys d xs)"
    using b(1) by (auto simp: mixed_keys_def)
  consider "mixed_mode mode = PIECEWISE" "d1 = d\<lparr>piecewise_keys := insert (relax b) (piecewise_keys d)\<rparr>"
    | "mixed_mode mode = FULL" "d1 = d\<lparr>full_keys := insert b (full_keys d)\<rparr>"
    using b(2) by (auto simp: add_cudagraph_key_def split: if_splits)
  then show ?case
    using Cons.IH[OF b(3)] by cases (simp_all add: mk, simp_all add: mixed_keys_def)
qed (simp add: mixed_keys_def)

lemma create_total:
  assumes "sizes_ok (capture d)" "bs_to_padded_graph_size d = pad_table (sizes_of d) (max_of d)"
    and "0 \<le> n" "n \<le> max_of d"
  shows "create_padded_batch_descriptor d n u l k =
    (let p = padded_to (0 # sizes_of d) n; q = uniform_decode_query_len d
     in if u \<and> has_mode (cudagraph_mode d) FULL then
          (if p mod q \<noteq> 0 then Inl AssertionError
           else Inr \<lparr>bd_num_tokens = p, bd_num_reqs = Some (min (p div q) (max_num_seqs d)),
                     bd_uniform = True, bd_has_lora = l, bd_num_active_loras = k\<rparr>)
        else Inr \<lparr>bd_num_tokens = p, bd_num_reqs = Some (min p (max_num_seqs d)),
                  bd_uniform = False, bd_has_lora = l, bd_num_active_loras = k\<rparr>)"
  using assms by (simp add: create_padded_batch_descriptor_def pad_table_nth Let_def)

text \<open>The state after initialisation: the fields it keeps, the padding table, and the keys.\<close>

definition initialised :: "cg_mode \<Rightarrow> int \<Rightarrow> dispatcher \<Rightarrow> bool" where
  "initialised mode q d \<longleftrightarrow> keys_initialized d \<and> cudagraph_mode d = mode
     \<and> bs_to_padded_graph_size d = pad_table (sizes_of d) (max_of d)
     \<and> full_keys d =
         (if mixed_mode mode = FULL
          then mixed_keys d [(b, n). b \<leftarrow> sizes_of d, n \<leftarrow> get_lora_cases d] else {})
       \<union> (if separate_routine mode
          then uniform_keys d [(b, n). b \<leftarrow> filter (\<lambda>x. x \<le> q * max_num_seqs d \<and> x \<ge> q) (sizes_of d),
                                   n \<leftarrow> get_lora_cases d] else {})
     \<and> piecewise_keys d =
         (if mixed_mode mode = PIECEWISE
          then relax ` mixed_keys d [(b, n). b \<leftarrow> sizes_of d, n \<leftarrow> get_lora_cases d] else {})"

lemma keys_congs [simp]:
  "uniform_keys (d\<lparr>full_keys := F\<rparr>) = uniform_keys d"
  "uniform_keys (d\<lparr>piecewise_keys := P\<rparr>) = uniform_keys d"
  "mixed_keys (d\<lparr>full_keys := F\<rparr>) = mixed_keys d"
  "mixed_keys (d\<lparr>piecewise_keys := P\<rparr>) = mixed_keys d"
  "uniform_keys (d\<lparr>keys_initialized := B\<rparr>) = uniform_keys d"
  "mixed_keys (d\<lparr>keys_initialized := B\<rparr>) = mixed_keys d"
  by (simp_all add: uniform_keys_def mixed_keys_def create_padded_batch_descriptor_def fun_eq_iff
      Let_def cong: if_cong)

lemma lora_cases_congs [simp]:
  "get_lora_cases (d\<lparr>full_keys := F\<rparr>) = get_lora_cases d"
  "get_lora_cases (d\<lparr>piecewise_keys := P\<rparr>) = get_lora_cases d"
  "get_lora_cases (d\<lparr>keys_initialized := B\<rparr>) = get_lora_cases d"
  "get_lora_cases (d\<lparr>captured_lora_counts := C\<rparr>) = get_lora_cases d"
  "get_lora_cases (d\<lparr>bs_to_padded_graph_size := T\<rparr>) = get_lora_cases d"
  "get_lora_cases (d\<lparr>cudagraph_mode := m\<rparr>) = get_lora_cases d"
  by (simp_all add: get_lora_cases_def specialize_lora_count_def cong: option.case_cong if_cong)

lemma sizes_congs [simp]:
  "sizes_of (d\<lparr>full_keys := F\<rparr>) = sizes_of d" "max_of (d\<lparr>full_keys := F\<rparr>) = max_of d"
  "sizes_of (d\<lparr>piecewise_keys := P\<rparr>) = sizes_of d" "max_of (d\<lparr>piecewise_keys := P\<rparr>) = max_of d"
  "sizes_of (d\<lparr>keys_initialized := B\<rparr>) = sizes_of d" "max_of (d\<lparr>keys_initialized := B\<rparr>) = max_of d"
  "sizes_of (d\<lparr>captured_lora_counts := C\<rparr>) = sizes_of d" "max_of (d\<lparr>captured_lora_counts := C\<rparr>) = max_of d"
  "sizes_of (d\<lparr>bs_to_padded_graph_size := T\<rparr>) = sizes_of d" "max_of (d\<lparr>bs_to_padded_graph_size := T\<rparr>) = max_of d"
  "sizes_of (d\<lparr>cudagraph_mode := m\<rparr>) = sizes_of d" "max_of (d\<lparr>cudagraph_mode := m\<rparr>) = max_of d"
  by (simp_all add: sizes_of_def max_of_def)

lemma compute_ok:
  assumes "sizes_ok (capture d)" "compute_bs_to_padded_graph_size d = Inr d'"
  shows "d' = d\<lparr>bs_to_padded_graph_size := pad_table (sizes_of d) (max_of d)\<rparr>"
proof -
  from assms(1) have s: "cudagraph_capture_sizes (capture d) = Some (sizes_of d)"
      "max_cudagraph_capture_size (capture d) = Some (max_of d)"
    by (auto simp: sizes_ok_def sizes_of_def max_of_def)
  show ?thesis
    using assms(2) compute_table[OF assms(1)]
    by (auto simp: compute_bs_to_padded_graph_size_def s bind_res_eq_Inr split: if_splits)
qed

lemma initialize_initialised:
  assumes so: "sizes_ok (capture d0)" and fresh: "full_keys d0 = {}" "piecewise_keys d0 = {}"
    and m: "mode \<noteq> NONE" and init: "initialize_cudagraph_keys mode q d0 = Inr d"
  shows "initialised mode q d"
    and "capture d = capture d0" "max_num_seqs d = max_num_seqs d0"
    "uniform_decode_query_len d = uniform_decode_query_len d0" "lora_config d = lora_config d0"
    "captured_lora_counts d = [n \<leftarrow> get_lora_cases d0. n \<noteq> 0]"
    "get_lora_cases d = get_lora_cases d0"
proof -
  let ?dm = "d0\<lparr>cudagraph_mode := mode\<rparr>"
  let ?d1 = "?dm\<lparr>bs_to_padded_graph_size := pad_table (sizes_of d0) (max_of d0)\<rparr>"
  let ?d2 = "?d1\<lparr>captured_lora_counts := [n \<leftarrow> get_lora_cases d0. n \<noteq> 0]\<rparr>"
  let ?xs = "[(b, n). b \<leftarrow> sizes_of d0, n \<leftarrow> get_lora_cases d0]"
  let ?ys = "[(b, n). b \<leftarrow> filter (\<lambda>x. x \<le> q * max_num_seqs d0 \<and> x \<ge> q) (sizes_of d0),
                      n \<leftarrow> get_lora_cases d0]"
  have so': "sizes_ok (capture ?dm)" using so by simp
  have dc: "compute_bs_to_padded_graph_size ?dm = Inr ?d1"
  proof (cases "compute_bs_to_padded_graph_size ?dm")
    case (Inl e)
    then show ?thesis using init m by (simp add: initialize_cudagraph_keys_def Let_def)
  next
    case (Inr dc)
    then show ?thesis using compute_ok[OF so' Inr] by simp
  qed
  have "bind_res (if mixed_mode mode \<noteq> NONE then fold_res (mixed_step mode) ?xs ?d2 else Inr ?d2)
      (\<lambda>d. bind_res (if decode_mode mode = FULL \<and> separate_routine mode
            then fold_res decode_step
              [(b, n). b \<leftarrow> filter (\<lambda>x. x \<le> q * max_num_seqs d \<and> x \<ge> q) (sizes_of d0),
                       n \<leftarrow> get_lora_cases d0] d
            else Inr d) (\<lambda>d. Inr (d\<lparr>keys_initialized := True\<rparr>))) = Inr d"
    using init m dc by (simp add: initialize_cudagraph_keys_def Let_def sizes_of_def cong: if_cong)
  then obtain d3 d4 where
      d3: "(if mixed_mode mode \<noteq> NONE then fold_res (mixed_step mode) ?xs ?d2 else Inr ?d2) = Inr d3" and
      d4: "(if decode_mode mode = FULL \<and> separate_routine mode
            then fold_res decode_step
              [(b, n). b \<leftarrow> filter (\<lambda>x. x \<le> q * max_num_seqs d3 \<and> x \<ge> q) (sizes_of d0),
                       n \<leftarrow> get_lora_cases d0] d3
            else Inr d3) = Inr d4" and
      d: "d = d4\<lparr>keys_initialized := True\<rparr>"
    unfolding bind_res_eq_Inr by blast
  have d3': "d3 = ?d2\<lparr>full_keys := (if mixed_mode mode = FULL then mixed_keys ?d2 ?xs else {}),
      piecewise_keys := (if mixed_mode mode = PIECEWISE then relax ` mixed_keys ?d2 ?xs else {})\<rparr>"
  proof (cases "mixed_mode mode = NONE")
    case True
    then have d3_eq: "d3 = ?d2" using d3 by simp
    show ?thesis unfolding d3_eq using True fresh by (cases d0) simp
  next
    case False
    then have "fold_res (mixed_step mode) ?xs ?d2 = Inr d3" using d3 by (simp only: if_True not_False_eq_True)
    from fold_mixed_step[OF this] show ?thesis using fresh by simp
  qed
  have d4': "d4 = d3\<lparr>full_keys := full_keys d3 \<union>
      (if separate_routine mode then uniform_keys d3 ?ys else {})\<rparr>"
  proof (cases "separate_routine mode")
    case True
    then have "fold_res decode_step ?ys d3 = Inr d4"
      using d4 separate_has_FULL[OF True] True by (simp add: d3')
    from fold_decode_step[OF this] True show ?thesis by simp
  next
    case False
    then show ?thesis using d4 by simp
  qed
  show "initialised mode q d"
    by (simp add: initialised_def d d4' d3')
  show "capture d = capture d0" "max_num_seqs d = max_num_seqs d0"
    "uniform_decode_query_len d = uniform_decode_query_len d0" "lora_config d = lora_config d0"
    "captured_lora_counts d = [n \<leftarrow> get_lora_cases d0. n \<noteq> 0]"
    "get_lora_cases d = get_lora_cases d0"
    by (simp_all add: d d4' d3')
qed

section \<open>Properties\<close>

lemma sizes_ok_facts:
  assumes "sizes_ok (capture d)"
  shows "sizes_of d \<noteq> []" "last (sizes_of d) = max_of d" "sorted_wrt (<) (0 # sizes_of d)"
    "0 < max_of d" "cudagraph_capture_sizes (capture d) = Some (sizes_of d)"
    "max_cudagraph_capture_size (capture d) = Some (max_of d)"
proof -
  show "sizes_of d \<noteq> []" "last (sizes_of d) = max_of d" "sorted_wrt (<) (0 # sizes_of d)"
    "cudagraph_capture_sizes (capture d) = Some (sizes_of d)"
    "max_cudagraph_capture_size (capture d) = Some (max_of d)"
    using assms by (auto simp: sizes_ok_def sizes_of_def max_of_def)
  then show "0 < max_of d" by (metis last_in_set sorted_wrt.simps(2))
qed

lemma padded_size:
  assumes "sizes_ok (capture d)" "0 < n" "n \<le> max_of d"
  shows "padded_to (0 # sizes_of d) n \<in> set (sizes_of d)"
    "n \<le> padded_to (0 # sizes_of d) n"
    "\<And>s. s \<in> set (sizes_of d) \<Longrightarrow> n \<le> s \<Longrightarrow> padded_to (0 # sizes_of d) n \<le> s"
proof -
  note f = sizes_ok_facts[OF assms(1)]
  have so: "sorted (0 # sizes_of d)" using f(3) by (rule strict_sorted_imp_sorted)
  have le: "n \<le> last (0 # sizes_of d)" using f(1,2) assms(3) by simp
  note p = padded_to_least[OF so le list.distinct(2)]
  show "n \<le> padded_to (0 # sizes_of d) n" by (rule p(2))
  then show "padded_to (0 # sizes_of d) n \<in> set (sizes_of d)" using p(1) assms(2) by auto
  show "\<And>s. s \<in> set (sizes_of d) \<Longrightarrow> n \<le> s \<Longrightarrow> padded_to (0 # sizes_of d) n \<le> s"
    using p(3) by simp
qed

lemma padded_to_size_self:
  assumes "sizes_ok (capture d)" "s \<in> set (sizes_of d)"
  shows "padded_to (0 # sizes_of d) s = s" "0 < s" "s \<le> max_of d"
proof -
  note f = sizes_ok_facts[OF assms(1)]
  show "0 < s" using f(3) assms(2) by simp
  show "s \<le> max_of d" using sorted_wrt_last_less[of "sizes_of d" s] f assms(2) by simp
  then show "padded_to (0 # sizes_of d) s = s"
    using padded_size[OF assms(1) \<open>0 < s\<close>] assms(2) by (metis order_antisym order_refl)
qed

lemma initialised_create:
  assumes "initialised mode q d" "sizes_ok (capture d)" "0 \<le> n" "n \<le> max_of d"
  shows "create_padded_batch_descriptor d n u l k =
    (let p = padded_to (0 # sizes_of d) n; q = uniform_decode_query_len d
     in if u \<and> has_mode mode FULL then
          (if p mod q \<noteq> 0 then Inl AssertionError
           else Inr \<lparr>bd_num_tokens = p, bd_num_reqs = Some (min (p div q) (max_num_seqs d)),
                     bd_uniform = True, bd_has_lora = l, bd_num_active_loras = k\<rparr>)
        else Inr \<lparr>bd_num_tokens = p, bd_num_reqs = Some (min p (max_num_seqs d)),
                  bd_uniform = False, bd_has_lora = l, bd_num_active_loras = k\<rparr>)"
  using create_total[OF assms(2) _ assms(3,4)] assms(1) by (simp add: initialised_def)

text \<open>
  The padding table answers every batch size up to the largest capture size: a
  non-empty batch is padded to the smallest captured size that holds it, and the empty batch
  stays empty.
\<close>

theorem padding_is_least_capture_size:
  assumes "sizes_ok (capture d0)" "full_keys d0 = {}" "piecewise_keys d0 = {}" "mode \<noteq> NONE"
    and "initialize_cudagraph_keys mode q d0 = Inr d" and "0 \<le> n" "n \<le> max_of d0"
  shows "\<exists>p. py_get (bs_to_padded_graph_size d) n = Inr p
    \<and> (n = 0 \<longrightarrow> p = 0)
    \<and> (0 < n \<longrightarrow> p \<in> set (sizes_of d0) \<and> n \<le> p \<and> (\<forall>s \<in> set (sizes_of d0). n \<le> s \<longrightarrow> p \<le> s))"
proof -
  note i = initialize_initialised[OF assms(1-5)]
  have sz: "sizes_of d = sizes_of d0" "max_of d = max_of d0"
    using i(2) by (simp_all add: sizes_of_def max_of_def)
  have "py_get (bs_to_padded_graph_size d) n = Inr (padded_to (0 # sizes_of d0) n)"
    using i(1) assms(6,7) by (simp add: initialised_def sz pad_table_nth)
  moreover have "padded_to (0 # sizes_of d0) 0 = 0" by (simp add: padded_to_def)
  ultimately show ?thesis
    using padded_size[OF assms(1), of n] assms(7) by auto
qed

definition example_dispatcher :: dispatcher where
  "example_dispatcher = \<lparr>capture = \<lparr>cudagraph_capture_sizes = Some [2, 4, 8],
       max_cudagraph_capture_size = Some 8, enable_sp = False\<rparr>, compile_sizes = [],
     cudagraph_specialize_lora = False, lora_config = None, max_num_seqs = 3,
     uniform_decode_query_len = 2, cudagraph_mode = NONE, keys_initialized = False,
     bs_to_padded_graph_size = [], captured_lora_counts = [], piecewise_keys = {}, full_keys = {}\<rparr>"

definition example_initialised :: dispatcher where
  "example_initialised =
     (case initialize_cudagraph_keys FULL_AND_PIECEWISE 2 example_dispatcher of
        Inr d \<Rightarrow> d | Inl e \<Rightarrow> example_dispatcher)"

lemma example_dispatcher_sel [simp]:
  "sizes_of example_dispatcher = [2, 4, 8]" "max_of example_dispatcher = 8"
  "full_keys example_dispatcher = {}" "piecewise_keys example_dispatcher = {}"
  "sizes_ok (capture example_dispatcher)"
  by (simp_all add: example_dispatcher_def sizes_of_def max_of_def sizes_ok_def)

lemma example_initialises:
  "initialize_cudagraph_keys FULL_AND_PIECEWISE 2 example_dispatcher = Inr example_initialised"
proof -
  have "\<exists>d. initialize_cudagraph_keys FULL_AND_PIECEWISE 2 example_dispatcher = Inr d"
    by (simp add: initialize_cudagraph_keys_def compute_bs_to_padded_graph_size_def
        example_dispatcher_def fill_range_def py_set_def py_get_def py_index_def mixed_step_def
        decode_step_def create_padded_batch_descriptor_def get_lora_cases_def has_mode_def
        add_cudagraph_key_def relax_def upto.simps Let_def numeral_eq_Suc)
  then show ?thesis by (auto simp: example_initialised_def)
qed

theorem padding_is_least_capture_size_witness:
  "\<exists>p. py_get (bs_to_padded_graph_size example_initialised) 3 = Inr p \<and> p \<in> {4, 8} \<and> p \<le> 4"
  using padding_is_least_capture_size[OF _ _ _ _ example_initialises, of 3] by fastforce

lemma dispatch_cases:
  assumes "dispatch d n u l k v i = Inr (m, b)" "m \<noteq> NONE"
  shows "\<exists>k' b0. keys_initialized d \<and> cudagraph_mode d \<noteq> NONE \<and> n \<le> max_of d \<and> m \<in> allowed_modes v i
    \<and> effective_loras d l k = Inr k'
    \<and> create_padded_batch_descriptor d n (u \<and> separate_routine (cudagraph_mode d)) l k' = Inr b0
    \<and> ((m = FULL \<and> b = b0 \<and> b \<in> full_keys d) \<or> (m = PIECEWISE \<and> b = relax b0 \<and> b \<in> piecewise_keys d))"
  using assms
  by (auto simp: dispatch_def Let_def max_of_def bind_res_eq_Inr split: if_splits option.splits)

text \<open>
  Property C16. A batch is only ever sent to a graph that was captured and that fits: when
  dispatch picks a graph, its descriptor is one of the initialised keys of an allowed mode,
  it has the smallest captured size that holds the batch, a uniform graph is only used for a
  uniform batch and has room for all its requests, and when no graph is picked the batch is
  run at its own size.
\<close>

theorem dispatch_selects_captured_graph:
  assumes "sizes_ok (capture d0)" "full_keys d0 = {}" "piecewise_keys d0 = {}" "mode \<noteq> NONE"
    and "initialize_cudagraph_keys mode q d0 = Inr d" and "0 < n"
    and "dispatch d n u l k v i = Inr (m, b)"
  shows "m \<in> insert NONE (allowed_modes v i)
    \<and> (m = NONE \<longrightarrow> b = plain_descriptor n)
    \<and> (m \<noteq> NONE \<longrightarrow> b \<in> keys_of d m \<and> n \<le> bd_num_tokens b \<and> bd_num_tokens b \<in> set (sizes_of d0)
        \<and> (\<forall>s \<in> set (sizes_of d0). n \<le> s \<longrightarrow> bd_num_tokens b \<le> s) \<and> bd_has_lora b = l)
    \<and> (m = FULL \<and> bd_uniform b \<longrightarrow> u \<and> bd_num_tokens b mod uniform_decode_query_len d0 = 0
        \<and> bd_num_reqs b = Some (min (bd_num_tokens b div uniform_decode_query_len d0) (max_num_seqs d0)))"
proof (cases "m = NONE")
  case True
  then have "b = plain_descriptor n"
    using assms(7)
    by (auto simp: dispatch_def Let_def bind_res_eq_Inr split: if_splits option.splits)
  then show ?thesis using True by simp
next
  case False
  note i = initialize_initialised[OF assms(1-5)]
  have sz: "sizes_of d = sizes_of d0" "max_of d = max_of d0" and so: "sizes_ok (capture d)"
    using i(2) assms(1) by (simp_all add: sizes_of_def max_of_def)
  from dispatch_cases[OF assms(7) False] obtain k' b0 where
      n: "n \<le> max_of d" and al: "m \<in> allowed_modes v i" and
      b0: "create_padded_batch_descriptor d n (u \<and> separate_routine (cudagraph_mode d)) l k' = Inr b0" and
      mb: "(m = FULL \<and> b = b0 \<and> b \<in> full_keys d) \<or> (m = PIECEWISE \<and> b = relax b0 \<and> b \<in> piecewise_keys d)"
    by blast
  let ?p = "padded_to (0 # sizes_of d) n"
  have b0': "bd_num_tokens b0 = ?p" "bd_has_lora b0 = l"
      "bd_uniform b0 \<Longrightarrow> u \<and> ?p mod uniform_decode_query_len d = 0
        \<and> bd_num_reqs b0 = Some (min (?p div uniform_decode_query_len d) (max_num_seqs d))"
    using b0 unfolding initialised_create[OF i(1) so less_imp_le[OF assms(6)] n]
    by (auto simp: Let_def split: if_splits)
  note p = padded_size[OF so assms(6) n]
  have "b \<in> keys_of d m" "bd_num_tokens b = ?p" "bd_has_lora b = l"
    using mb b0' by (auto simp: keys_of_def relax_def)
  moreover have "m = FULL \<and> bd_uniform b \<Longrightarrow> u \<and> ?p mod uniform_decode_query_len d = 0
        \<and> bd_num_reqs b = Some (min (?p div uniform_decode_query_len d) (max_num_seqs d))"
    using mb b0'(3) by auto
  ultimately show ?thesis
    using p al False by (simp add: sz i(3,4))
qed

definition example_key :: batch_descriptor where
  "example_key = \<lparr>bd_num_tokens = 4, bd_num_reqs = Some 2, bd_uniform = True, bd_has_lora = False,
     bd_num_active_loras = 0\<rparr>"

lemma example_initialised_facts:
  "initialised FULL_AND_PIECEWISE 2 example_initialised"
  "capture example_initialised = capture example_dispatcher"
  "max_num_seqs example_initialised = 3" "uniform_decode_query_len example_initialised = 2"
  "lora_config example_initialised = None"
  "sizes_of example_initialised = [2, 4, 8]" "max_of example_initialised = 8"
proof -
  show i: "initialised FULL_AND_PIECEWISE 2 example_initialised"
      "capture example_initialised = capture example_dispatcher"
      "max_num_seqs example_initialised = 3" "uniform_decode_query_len example_initialised = 2"
      "lora_config example_initialised = None"
    using initialize_initialised[OF example_dispatcher_sel(5,3,4) _ example_initialises]
    by (simp_all add: example_dispatcher_def del: example_dispatcher_sel)
  show "sizes_of example_initialised = [2, 4, 8]" "max_of example_initialised = 8"
    using i(2) by (simp_all add: sizes_of_def max_of_def example_dispatcher_def)
qed

lemma example_create:
  assumes "n = 3 \<or> n = 4"
  shows "create_padded_batch_descriptor example_initialised n True False 0 = Inr example_key"
  using assms example_initialised_facts(1)
  by (auto simp: create_padded_batch_descriptor_def initialised_def pad_table_nth
      example_initialised_facts has_mode_def padded_to_def example_key_def)

lemma example_full_key: "example_key \<in> full_keys example_initialised"
  using example_initialised_facts(1) example_create[of 4]
  by (simp add: initialised_def uniform_keys_def example_initialised_facts get_lora_cases_def)

theorem dispatch_selects_captured_graph_witness:
  "dispatch example_initialised 3 True False 0 None None = Inr (FULL, example_key)
   \<and> FULL \<in> insert NONE (allowed_modes None None)"
proof -
  have "dispatch example_initialised 3 True False 0 None None = Inr (FULL, example_key)"
    using example_initialised_facts(1) example_create[of 3] example_full_key
    by (simp add: dispatch_def allowed_modes_def example_initialised_facts example_dispatcher_def
        initialised_def effective_loras_def Let_def)
  with dispatch_selects_captured_graph[OF _ _ _ _ example_initialises, of 3 True False 0 None None FULL
      example_key]
  show ?thesis by simp
qed

subsection \<open>Speculative decoding\<close>

lemma sorted_set_strict: "sorted_wrt (<) (sorted_set xs)"
  by (simp add: sorted_set_def strict_sorted_iff)

lemma set_sorted_set [simp]: "set (sorted_set xs) = set xs"
  by (simp add: sorted_set_def)

lemma round_up_pos:
  assumes "0 < m" "0 < s"
  shows "0 < round_up s m" "m dvd round_up s m"
proof -
  have "1 \<le> (s + m - 1) div m" using assms by (simp add: le_div_iff_mult)
  then show "0 < round_up s m" using assms by (simp add: round_up_def)
  show "m dvd round_up s m" by (simp add: round_up_def)
qed

lemma rounded_sizes_facts:
  assumes "1 < mo" "\<And>s. s \<in> set sizes \<Longrightarrow> 0 < s"
  shows "sorted_wrt (<) (rounded_sizes mo mx sizes)"
    and "s \<in> set (rounded_sizes mo mx sizes) \<Longrightarrow> 0 < s \<and> mo dvd s"
  using assms round_up_pos[of mo] sorted_set_strict
  by (auto simp: rounded_sizes_def Let_def split: if_splits)

lemma adjust_sizes:
  assumes "adjust_sizes_for_spec_decode q tp c = Inr c'" "sizes_ok c" "0 < q"
  shows "sizes_ok c' \<and> (\<forall>s \<in> set (the (cudagraph_capture_sizes c')). q dvd s)"
proof -
  from assms(2) obtain sizes mx where c: "cudagraph_capture_sizes c = Some sizes"
      "max_cudagraph_capture_size c = Some mx" "sizes \<noteq> []" "last sizes = mx"
      "sorted_wrt (<) (0 # sizes)"
    by (auto simp: sizes_ok_def)
  from assms(1) obtain mo where m: "capture_multiple q tp c = Inr mo" and
    r: "mo \<le> 1 \<and> c' = c \<or> \<not> mo \<le> 1 \<and> rounded_sizes mo mx sizes \<noteq> []
        \<and> c' = c\<lparr>max_cudagraph_capture_size := Some (last (rounded_sizes mo mx sizes)),
                 cudagraph_capture_sizes := Some (rounded_sizes mo mx sizes)\<rparr>"
    using c(3) by (auto simp: adjust_sizes_for_spec_decode_def c bind_res_eq_Inr Let_def split: if_splits)
  have mo: "q dvd mo" "q \<le> mo"
    using m by (auto simp: capture_multiple_def Let_def dvd_eq_mod_eq_0 split: if_splits)
  show ?thesis
  proof (cases "mo \<le> 1")
    case True
    then have "q = 1" "c' = c" using mo assms(3) r by auto
    then show ?thesis using assms(2) by simp
  next
    case False
    let ?r = "rounded_sizes mo mx sizes"
    have pos: "1 < mo" "\<And>s. s \<in> set sizes \<Longrightarrow> 0 < s" using False c(5) by simp_all
    have f: "sorted_wrt (<) ?r" by (rule rounded_sizes_facts(1)) (rule pos, erule pos)
    have f2: "0 < s \<and> mo dvd s" if "s \<in> set ?r" for s
      by (rule rounded_sizes_facts(2)[of mo sizes]) (rule pos, erule pos, rule that)
    have r': "?r \<noteq> []" "c' = c\<lparr>max_cudagraph_capture_size := Some (last ?r),
        cudagraph_capture_sizes := Some ?r\<rparr>"
      using r False by blast+
    have "sorted_wrt (<) (0 # ?r)" using f f2 by simp
    then have "sizes_ok c'" using r'(1) unfolding sizes_ok_def r'(2) by simp
    moreover have "q dvd s" if "s \<in> set ?r" for s
      using f2[OF that] mo(1) dvd_trans by blast
    ultimately show ?thesis unfolding r'(2) by simp
  qed
qed

text \<open>A dispatcher built on rounded sizes can always describe a uniform batch.\<close>

lemma uniform_create_total:
  assumes "initialised mode q d" "sizes_ok (capture d)" "0 < n" "n \<le> max_of d"
    and "\<forall>s \<in> set (sizes_of d). uniform_decode_query_len d dvd s"
  shows "\<exists>b. create_padded_batch_descriptor d n u l k = Inr b"
  using padded_size(1)[OF assms(2-4)] assms(3,5)
  by (auto simp: initialised_create[OF assms(1,2) _ assms(4)] Let_def dvd_eq_mod_eq_0)

lemma effective_total:
  assumes "l \<longrightarrow> lora_config d \<noteq> None"
  shows "\<exists>k'. effective_loras d l k = Inr k'"
  using assms by (cases "lora_config d") (simp_all add: effective_loras_def Let_def)

lemma fold_mixed_step_ok:
  assumes "mixed_mode mode \<noteq> NONE"
    and "\<And>x. x \<in> set xs \<Longrightarrow>
      \<exists>b. create_padded_batch_descriptor d (fst x) False (snd x > 0) (snd x) = Inr b"
  shows "\<exists>d'. fold_res (mixed_step mode) xs d = Inr d'"
  using assms(2)
proof (induction xs arbitrary: d)
  case (Cons x xs)
  obtain b where b: "create_padded_batch_descriptor d (fst x) False (snd x > 0) (snd x) = Inr b"
    using Cons.prems[of x] by auto
  have "mixed_mode mode \<in> {PIECEWISE, FULL}" using assms(1) by (cases mode) auto
  then obtain d1 where d1: "add_cudagraph_key (mixed_mode mode)
      (if mixed_mode mode = PIECEWISE then relax b else b) d = Inr d1"
    "create_padded_batch_descriptor d1 = create_padded_batch_descriptor d"
    by (auto simp: add_cudagraph_key_def)
  have "\<exists>d'. fold_res (mixed_step mode) xs d1 = Inr d'"
    by (rule Cons.IH) (use Cons.prems d1(2) in simp)
  then show ?case unfolding mixed_Cons b by (simp add: d1)
qed simp

lemma initialize_total:
  assumes so: "sizes_ok (capture d0)" and m: "mode \<noteq> NONE" and cs: "compile_sizes d0 = []"
    and dv: "\<forall>s \<in> set (sizes_of d0). uniform_decode_query_len d0 dvd s"
  shows "\<exists>d. initialize_cudagraph_keys mode q d0 = Inr d"
proof -
  note f = sizes_ok_facts[OF so]
  let ?dm = "d0\<lparr>cudagraph_mode := mode\<rparr>"
  let ?d1 = "?dm\<lparr>bs_to_padded_graph_size := pad_table (sizes_of d0) (max_of d0)\<rparr>"
  let ?d2 = "?d1\<lparr>captured_lora_counts := [n \<leftarrow> get_lora_cases d0. n \<noteq> 0]\<rparr>"
  let ?xs = "[(b, n). b \<leftarrow> sizes_of d0, n \<leftarrow> get_lora_cases d0]"
  have so2: "sizes_ok (capture ?d2)" "bs_to_padded_graph_size ?d2 = pad_table (sizes_of ?d2) (max_of ?d2)"
    using so by simp_all
  have dc: "compute_bs_to_padded_graph_size ?dm = Inr ?d1"
    using compute_table[OF so] f(5,6) by (simp add: compute_bs_to_padded_graph_size_def cs)
  have mk: "\<exists>b. create_padded_batch_descriptor ?d2 x u l k = Inr b" if "x \<in> set (sizes_of d0)" for x u l k
  proof -
    have x: "0 \<le> x" "x \<le> max_of ?d2" "padded_to (0 # sizes_of ?d2) x = x"
      using padded_to_size_self[OF so that] by simp_all
    show ?thesis
      using create_total[OF so2 x(1,2), of u l k] dv that x(3)
      by (simp add: Let_def dvd_eq_mod_eq_0)
  qed
  obtain d3 where d3: "(if mixed_mode mode \<noteq> NONE then fold_res (mixed_step mode) ?xs ?d2
      else Inr ?d2) = Inr d3" and
    d3c: "create_padded_batch_descriptor d3 = create_padded_batch_descriptor ?d2"
  proof (cases "mixed_mode mode = NONE")
    case True
    then show ?thesis using that[of ?d2] by simp
  next
    case False
    have "\<exists>d'. fold_res (mixed_step mode) ?xs ?d2 = Inr d'"
      by (rule fold_mixed_step_ok[OF False]) (use mk in auto)
    then obtain d3 where d3: "fold_res (mixed_step mode) ?xs ?d2 = Inr d3" by blast
    show ?thesis using that[of d3] False d3 fold_mixed_step[OF d3] by simp
  qed
  let ?ys = "[(b, n). b \<leftarrow> filter (\<lambda>x. x \<le> q * max_num_seqs d3 \<and> x \<ge> q) (sizes_of d0),
                      n \<leftarrow> get_lora_cases d0]"
  have "\<exists>d4. fold_res decode_step ?ys d3 = Inr d4"
    by (rule fold_decode_step_ok) (use mk d3c in auto)
  then obtain d4 where d4: "(if decode_mode mode = FULL \<and> separate_routine mode
      then fold_res decode_step ?ys d3 else Inr d3) = Inr d4"
    by (cases "decode_mode mode = FULL \<and> separate_routine mode") auto
  have "initialize_cudagraph_keys mode q d0 = Inr (d4\<lparr>keys_initialized := True\<rparr>)"
    using m dc d3 d4 by (simp add: initialize_cudagraph_keys_def Let_def sizes_of_def cong: if_cong)
  then show ?thesis by blast
qed

text \<open>
  Property C15. Rounding the capture sizes for speculative decoding makes the dispatcher total:
  with the rounded sizes, initialisation does not raise (there being no sizes to compile
  for), and afterwards no batch, uniform or not, ever trips the divisibility assertion, so
  dispatch returns whenever running without a graph is allowed.
\<close>

theorem rounded_sizes_make_dispatch_total:
  assumes adj: "adjust_sizes_for_spec_decode q tp c = Inr c'" "sizes_ok c" "0 < q"
    and d0: "capture d0 = c'" "uniform_decode_query_len d0 = q" "compile_sizes d0 = []"
      "full_keys d0 = {}" "piecewise_keys d0 = {}" and m: "mode \<noteq> NONE"
  shows "\<exists>d. initialize_cudagraph_keys mode q d0 = Inr d
    \<and> (\<forall>n u l k v i. 0 < n \<longrightarrow> NONE \<in> allowed_modes v i \<longrightarrow> (l \<longrightarrow> lora_config d0 \<noteq> None)
         \<longrightarrow> (\<exists>r. dispatch d n u l k v i = Inr r))"
proof -
  note a = adjust_sizes[OF adj]
  have so: "sizes_ok (capture d0)" and dv: "\<forall>s \<in> set (sizes_of d0). uniform_decode_query_len d0 dvd s"
    using a by (simp_all add: d0 sizes_of_def)
  obtain d where init: "initialize_cudagraph_keys mode q d0 = Inr d"
    using initialize_total[OF so m d0(3) dv] by blast
  note i = initialize_initialised[OF so d0(4,5) m init]
  have sz: "sizes_of d = sizes_of d0" "max_of d = max_of d0" and so': "sizes_ok (capture d)"
    using i(2) so by (simp_all add: sizes_of_def max_of_def)
  have "\<exists>r. dispatch d n u l k v w = Inr r"
    if n: "0 < n" and al: "NONE \<in> allowed_modes v w" and lo: "l \<longrightarrow> lora_config d0 \<noteq> None"
    for n u l k v w
  proof (cases "n \<le> max_of d")
    case True
    obtain k' where k': "effective_loras d l k = Inr k'"
      using effective_total[of l d k] lo i(5) by auto
    obtain b where "create_padded_batch_descriptor d n (u \<and> separate_routine (cudagraph_mode d)) l k' = Inr b"
      using uniform_create_total[OF i(1) so' n True, unfolded sz i(4), OF dv] by blast
    then show ?thesis
      using al k' by (auto simp: dispatch_def Let_def split: option.splits)
  next
    case False
    then show ?thesis
      using al by (auto simp: dispatch_def Let_def max_of_def split: option.splits)
  qed
  then show ?thesis using init by blast
qed

theorem rounded_sizes_make_dispatch_total_witness:
  "adjust_sizes_for_spec_decode 3 1 (capture example_dispatcher) =
     Inr \<lparr>cudagraph_capture_sizes = Some [3, 6], max_cudagraph_capture_size = Some 6, enable_sp = False\<rparr>
   \<and> (\<exists>d. initialize_cudagraph_keys FULL_DECODE_ONLY 3
        (example_dispatcher\<lparr>capture := \<lparr>cudagraph_capture_sizes = Some [3, 6],
            max_cudagraph_capture_size = Some 6, enable_sp = False\<rparr>,
          uniform_decode_query_len := 3\<rparr>) = Inr d
      \<and> (\<exists>r. dispatch d 5 True False 0 None None = Inr r))"
proof -
  let ?c = "\<lparr>cudagraph_capture_sizes = Some [3, 6], max_cudagraph_capture_size = Some (6::int),
    enable_sp = False\<rparr>"
  let ?d0 = "example_dispatcher\<lparr>capture := ?c, uniform_decode_query_len := 3\<rparr>"
  have adj: "adjust_sizes_for_spec_decode 3 1 (capture example_dispatcher) = Inr ?c"
    by (simp add: example_dispatcher_def adjust_sizes_for_spec_decode_def capture_multiple_def
        rounded_sizes_def sorted_set_def round_up_def)
  have "\<exists>d. initialize_cudagraph_keys FULL_DECODE_ONLY 3 ?d0 = Inr d
    \<and> (\<forall>n u l k v i. 0 < n \<longrightarrow> NONE \<in> allowed_modes v i \<longrightarrow> (l \<longrightarrow> lora_config ?d0 \<noteq> None)
         \<longrightarrow> (\<exists>r. dispatch d n u l k v i = Inr r))"
    by (rule rounded_sizes_make_dispatch_total[OF adj]) (simp_all, simp add: example_dispatcher_def)
  then show ?thesis using adj by (auto simp: allowed_modes_def)
qed

end
