(* ===== verification/FampXqa.thy ===== *)
theory FampXqa imports FampState CudagraphDispatch
begin

text \<open>
  The verify leg of \<^verbatim>\<open>flashampere/xqa_verify.py\<close> with the module generator of
  \<^verbatim>\<open>flashampere/xqa/_jit_xqa.py\<close> and the prewarming of the metadata builder in
  \<^verbatim>\<open>flashampere/backend.py\<close>.

  The compiler and the compiled kernel are parameters (\<open>xqa_device\<close>): building a module may fail, and a
  module maps what it is launched with to the rows it writes.
\<close>

section \<open>Module generation: \<open>xqa/_jit_xqa.py\<close>\<close>

record xqa_spec =
  input_fp16 :: bool
  cache_elem_enum :: int
  tokens_per_page :: int
  head_elems :: int
  head_grp_size :: int
  sliding :: bool
  low_prec_output :: bool
  use_spec_dec :: bool
  spec_q_seq_len :: "int option"
  uri_dtypes :: "torch_dtype list"

text \<open>The dtypes \<^verbatim>\<open>filename_safe_dtype_map\<close> has a name for.\<close>

definition named_dtypes :: "torch_dtype list" where
  "named_dtypes = [float16, bfloat16, other_dtype ''float8_e4m3fn'', other_dtype ''float8_e5m2'',
     other_dtype ''int8'', other_dtype ''uint8'', other_dtype ''int32'', other_dtype ''uint32'',
     other_dtype ''int64'', other_dtype ''uint64'']"

definition cache_elem_of :: "torch_dtype \<Rightarrow> int" where
  "cache_elem_of d =
     (if d = other_dtype ''float8_e4m3fn'' then 2 else if d = other_dtype ''int8'' then 1
      else if d = other_dtype ''uint8'' then 3 else 0)"

definition gen_xqa_module ::
    "torch_dtype \<Rightarrow> torch_dtype \<Rightarrow> int \<Rightarrow> int \<Rightarrow> int \<Rightarrow> bool \<Rightarrow> torch_dtype \<Rightarrow> int \<Rightarrow> xqa_spec res" where
  "gen_xqa_module idt kvdt page hdim grp sw odt q =
     bind_res (if idt = float16 then Inr True else if idt = bfloat16 then Inr False
               else Inl ValueError) (\<lambda>fp16.
     if page \<notin> set [16, 32, 64, 128, 256] then Inl ValueError
     else if hdim mod 16 \<noteq> 0 \<or> hdim < 16 \<or> (hdim > 256 \<and> hdim \<noteq> 512) then Inl ValueError
     else if idt \<notin> set named_dtypes \<or> kvdt \<notin> set named_dtypes \<or> odt \<notin> set named_dtypes then Inl KeyError
     else Inr \<lparr>input_fp16 = fp16, cache_elem_enum = cache_elem_of kvdt, tokens_per_page = page,
            head_elems = hdim, head_grp_size = grp, sliding = sw,
            low_prec_output = (odt = other_dtype ''float8_e4m3fn''),
            use_spec_dec = (q > 1),
            spec_q_seq_len = (if q > 1 \<and> q * grp \<le> 32 then Some q else None),
            uri_dtypes = [idt, kvdt, odt]\<rparr>)"

section \<open>The verify leg: \<open>xqa_verify.py\<close>\<close>

text \<open>
  One launch: the two caches, the page table, the page-table capacity in tokens, the sequence
  lengths, the batch size, the query length, the mask and the query rows.
\<close>

record ('r, 'q, 'o, 'm) xqa_device =
  build_and_load :: "xqa_spec \<Rightarrow> 'm res"
  xqa_wrapper :: "'m \<Rightarrow> 'r list list \<Rightarrow> 'r list list \<Rightarrow> nat list list \<Rightarrow> int \<Rightarrow> 32 word list
     \<Rightarrow> int \<Rightarrow> int \<Rightarrow> 16 word list list list \<Rightarrow> 'q list \<Rightarrow> 'o list"
  multi_processor_count :: "string \<Rightarrow> int"

definition get_scratch :: "string \<Rightarrow> ('r, 'o, 'm) famp_state \<Rightarrow> ('r, 'o, 'm) famp_state" where
  "get_scratch dev st =
     (if scratch_on st = None \<or> scratch_on st \<noteq> Some dev then st\<lparr>scratch_on := Some dev\<rparr> else st)"

definition get_sm_count ::
    "('r, 'q, 'o, 'm) xqa_device \<Rightarrow> string \<Rightarrow> ('r, 'o, 'm) famp_state \<Rightarrow> ('r, 'o, 'm) famp_state" where
  "get_sm_count E dev st =
     (case sm_count st of Some _ \<Rightarrow> st | None \<Rightarrow> st\<lparr>sm_count := Some (multi_processor_count E dev)\<rparr>)"

definition get_module ::
    "('r, 'q, 'o, 'm) xqa_device \<Rightarrow> mod_key \<Rightarrow> ('r, 'o, 'm) famp_state \<Rightarrow> ('m \<times> ('r, 'o, 'm) famp_state) res"
  where
  "get_module E key st =
     (case modules st key of
        Some md \<Rightarrow> Inr (md, st)
      | None \<Rightarrow>
          (let (idt, kvdt, page, hdim, grp, q) = key
           in bind_res (gen_xqa_module idt kvdt page hdim grp False idt q) (\<lambda>spec.
                bind_res (build_and_load E spec) (\<lambda>md.
                  Inr (md, st\<lparr>modules := (modules st)(key \<mapsto> md)\<rparr>)))))"

definition causal_bits :: "nat \<Rightarrow> nat \<Rightarrow> nat \<Rightarrow> bool list" where
  "causal_bits q npm qi = map (\<lambda>ki. ki < q \<and> ki \<le> qi) [0..<npm * 32]"

definition pack32 :: "bool list \<Rightarrow> 32 word" where
  "pack32 bits = word_of_int (sum_list (map2 (\<lambda>b i. of_bool b * 2 ^ i) bits [0..<length bits]))"

text \<open>A little-endian reinterpretation of one 32-bit word as two 16-bit words.\<close>

definition view16 :: "32 word \<Rightarrow> 16 word list" where
  "view16 w = [ucast w, ucast (drop_bit 16 w)]"

definition mask_row :: "nat \<Rightarrow> nat \<Rightarrow> 16 word list" where
  "mask_row q qi =
     (let npm = (q + 31) div 32; bits = causal_bits q npm qi
      in concat (map (\<lambda>w. view16 (pack32 (take 32 (drop (32 * w) bits)))) [0..<npm]))"

definition new_bufs :: "int \<Rightarrow> int \<Rightarrow> int \<Rightarrow> xqa_bufs" where
  "new_bufs batch q hkv =
     (let nb_seq = hkv * batch
      in \<lparr>sem = replicate (nat (round_up nb_seq 2 + 2 + nb_seq + 2)) 0,
          seq_u32 = replicate (nat batch) 0,
          packed_mask = replicate (nat batch) (map (mask_row (nat q)) [0..<nat q])\<rparr>)"

definition get_buffers ::
    "buf_key \<Rightarrow> ('r, 'o, 'm) famp_state \<Rightarrow> xqa_bufs \<times> ('r, 'o, 'm) famp_state" where
  "get_buffers key st =
     (case bufs st key of
        Some b \<Rightarrow> (b, st)
      | None \<Rightarrow>
          (let (batch, q, hkv, dev) = key; b = new_bufs batch q hkv
           in (b, st\<lparr>bufs := (bufs st)(key \<mapsto> b)\<rparr>)))"

definition is_supported_head_dim :: "int \<Rightarrow> bool" where
  "is_supported_head_dim hdim \<longleftrightarrow> hdim \<in> set [64, 128, 256]"

definition is_supported_page_size :: "int \<Rightarrow> bool" where
  "is_supported_page_size ps \<longleftrightarrow> ps \<in> set [16, 32, 64, 128, 256]"

definition log_unsupported_page :: "('r, 'o, 'm) famp_state \<Rightarrow> ('r, 'o, 'm) famp_state" where
  "log_unsupported_page st =
     (if \<not> declined_page_logged st then st\<lparr>declined_page_logged := True\<rparr> else st)"

definition prewarm ::
    "('r, 'q, 'o, 'm) xqa_device \<Rightarrow> torch_dtype \<Rightarrow> torch_dtype \<Rightarrow> int \<Rightarrow> int \<Rightarrow> int \<Rightarrow> int \<Rightarrow> int list \<Rightarrow> int
     \<Rightarrow> string \<Rightarrow> ('r, 'o, 'm) famp_state \<Rightarrow> ('r, 'o, 'm) famp_state res" where
  "prewarm E qdt kvdt page hdim grp q num_reqs_list hkv dev st =
     (if \<not> is_supported_page_size page then Inr (log_unsupported_page st)
      else bind_res (get_module E (qdt, kvdt, page, hdim, grp, q) st) (\<lambda>(_, st).
             Inr (fold (\<lambda>n st. snd (get_buffers (n, q, hkv, dev) st)) num_reqs_list st)))"

text \<open>The hot path, once the module and the buffers of the shape are there.\<close>

definition xqa_launch ::
    "('r, 'q, 'o, 'm) xqa_device \<Rightarrow> ('r, 'q) call_args \<Rightarrow> attn_metadata \<Rightarrow> buf_key \<Rightarrow> 'm \<Rightarrow> xqa_bufs
     \<Rightarrow> ('r, 'o, 'm) famp_state \<Rightarrow> ('r, 'o, 'm) famp_state kernel_result" where
  "xqa_launch E a m buf_key md b st =
     (let num_reqs = int (length (seq_lens m)); q = the (max_query_len m); nt = num_reqs * q;
          q5 = py_slice (ca_query a) 0 nt
      in if int (length q5) \<noteq> nt \<or> int (length (py_slice (out_rows st) 0 nt)) \<noteq> nt
         then Raised RuntimeError
         else
           (let cols = (case block_table m of [] \<Rightarrow> 0 | r # _ \<Rightarrow> length r);
                max_seq_len = int cols * int (page_tokens st);
                b = b\<lparr>seq_u32 := map word_of_int (seq_lens m)\<rparr>;
                b = b\<lparr>sem := replicate (length (sem b)) 0\<rparr>;
                st = st\<lparr>bufs := (bufs st)(buf_key \<mapsto> b)\<rparr>;
                st = get_scratch (ca_device a) (get_sm_count E (ca_device a) st);
                out = xqa_wrapper E md (k_cache st) (v_cache st) (block_table m) max_seq_len
                        (seq_u32 b) num_reqs q (packed_mask b) q5;
                st = st\<lparr>out_rows := take (nat nt) out @ drop (nat nt) (out_rows st)\<rparr>
            in Ran (if \<not> xqa_fired st then st\<lparr>xqa_fired := True\<rparr> else st)))"

definition xqa_verify ::
    "('r, 'q, 'o, 'm) xqa_device \<Rightarrow> famp_impl \<Rightarrow> ('r, 'q) call_args \<Rightarrow> attn_metadata
     \<Rightarrow> ('r, 'o, 'm) famp_state \<Rightarrow> ('r, 'o, 'm) famp_state kernel_result" where
  "xqa_verify E impl a m st =
     (case max_query_len m of
        None \<Rightarrow> Raised TypeError
      | Some q \<Rightarrow>
          (let num_reqs = int (length (seq_lens m))
           in if q \<le> 1 \<or> num_actual_tokens m \<noteq> num_reqs * q then Declined st
              else
                (let hkv = num_kv_heads impl; hdim = head_size impl; page = int (page_tokens st)
                 in if hdim \<notin> set [64, 128, 256] \<or> ca_q_dtype a \<notin> set [float16, bfloat16] then Declined st
                    else if \<not> is_supported_page_size page then Declined (log_unsupported_page st)
                    else
                      (let st = reshape_and_cache (slot_mapping m) (ca_key a) (ca_value a) st
                       in if hkv = 0 then Raised ZeroDivisionError
                          else
                            (let mk = (ca_q_dtype a, ca_kv_dtype a, page, hdim, num_heads impl div hkv, q);
                                 bk = (num_reqs, q, hkv, ca_device a)
                             in if (modules st mk = None \<or> bufs st bk = None) \<and> ca_capturing a
                                then Declined (if \<not> declined_capture_warned st
                                               then st\<lparr>declined_capture_warned := True\<rparr> else st)
                                else case get_module E mk st of
                                  Inl e \<Rightarrow> Declined st
                                | Inr (md, st) \<Rightarrow>
                                    (let (b, st) = get_buffers bk st
                                     in xqa_launch E a m bk md b st))))))"

section \<open>Prewarming: \<open>backend.py\<close>\<close>

record builder_config =
  bc_caps :: famp_caps
  bc_spec :: "spec_config option"
  bc_mode :: cg_mode
  bc_head_dim :: int
  bc_q_dtype :: torch_dtype
  bc_kv_dtype :: torch_dtype
  bc_max_num_seqs :: int
  bc_sizes :: "int list option"
  bc_block_size :: int
  bc_heads_q :: int
  bc_heads_kv :: int
  bc_device :: string

definition prewarm_reqs :: "int \<Rightarrow> int \<Rightarrow> int list \<Rightarrow> int list" where
  "prewarm_reqs q max_seqs sizes =
     sorted_set [min (s div q) max_seqs. s \<leftarrow> sizes, s \<ge> q \<and> s mod q = 0]"

definition prewarm_xqa_verify ::
    "('r, 'q, 'o, 'm) xqa_device \<Rightarrow> builder_config \<Rightarrow> ('r, 'o, 'm) famp_state \<Rightarrow> ('r, 'o, 'm) famp_state" where
  "prewarm_xqa_verify E c st =
     (case bc_spec c of
        None \<Rightarrow> st
      | Some spec \<Rightarrow>
          (let k = (case num_speculative_tokens spec of None \<Rightarrow> 0 | Some k \<Rightarrow> k)
           in if \<not> enabled (bc_caps c) ''xqa_verify'' \<or> k = 0 \<or> \<not> has_full_cudagraphs (bc_mode c) then st
              else
                (let q = 1 + k
                 in if \<not> is_supported_head_dim (bc_head_dim c) \<or> bc_q_dtype c \<notin> set [float16, bfloat16]
                    then st
                    else
                      (let reqs = prewarm_reqs q (bc_max_num_seqs c)
                                    (case bc_sizes c of None \<Rightarrow> [] | Some s \<Rightarrow> s)
                       in if reqs = [] \<or> bc_heads_kv c = 0 then st
                          else case prewarm E (bc_q_dtype c) (bc_kv_dtype c) (bc_block_size c)
                                 (bc_head_dim c) (bc_heads_q c div bc_heads_kv c) q reqs
                                 (bc_heads_kv c) (bc_device c) st of
                            Inl e \<Rightarrow> st
                          | Inr st' \<Rightarrow> st'))))"

section \<open>The packed mask\<close>

lemma pack32_horner:
  "pack32 bits = word_of_int (horner_sum of_bool 2 bits)"
proof -
  have "map2 (\<lambda>b i. of_bool b * 2 ^ i) bits [0..<length bits]
      = map (\<lambda>i. of_bool (bits ! i) * 2 ^ i :: int) [0..<length bits]"
    by (rule nth_equalityI) simp_all
  then have "sum_list (map2 (\<lambda>b i. of_bool b * 2 ^ i) bits [0..<length bits])
      = (\<Sum>i = 0..<length bits. of_bool (bits ! i) * 2 ^ i :: int)"
    by (simp only: interv_sum_list_conv_sum_set_nat set_upt)
  then show ?thesis by (simp add: pack32_def horner_sum_eq_sum atLeast0LessThan)
qed

lemma bit_pack32:
  assumes "length bits = 32" "i < 32"
  shows "bit (pack32 bits) i = bits ! i"
  using assms by (simp add: pack32_horner bit_simps bit_horner_sum_bit_iff)

lemma view16_nth:
  assumes "h < 2" "i < 16"
  shows "bit (view16 w ! h) i = bit w (16 * h + i)"
proof -
  from assms(1) have "h = 0 \<or> h = 1" by auto
  then show ?thesis using assms(2) by (auto simp: view16_def bit_simps)
qed

lemma length_concat_const:
  "(\<And>x. x \<in> set xs \<Longrightarrow> length (f x) = n) \<Longrightarrow> length (concat (map f xs)) = n * length xs"
  by (induction xs) auto

lemma nth_concat_const:
  assumes "\<And>x. x \<in> set xs \<Longrightarrow> length (f x) = n" "i < n * length xs"
  shows "concat (map f xs) ! i = f (xs ! (i div n)) ! (i mod n)"
  using assms
proof (induction xs arbitrary: i)
  case (Cons x xs)
  have n: "length (f x) = n" "0 < n" using Cons.prems by (auto intro: gr0I)
  show ?case
  proof (cases "i < n")
    case True
    then show ?thesis using n by (simp add: nth_append)
  next
    case False
    then have "i div n = Suc ((i - n) div n)" "i mod n = (i - n) mod n"
      using n(2) by (simp_all add: le_div_geq le_mod_geq)
    then show ?thesis using False n Cons.prems Cons.IH[of "i - n"] by (simp add: nth_append)
  qed
qed simp

lemma length_mask_row: "length (mask_row q qi) = 2 * ((q + 31) div 32)"
  unfolding mask_row_def Let_def by (subst length_concat_const[where n = 2]) (simp_all add: view16_def)

lemma mask_row_bit:
  assumes "k < 32 * ((q + 31) div 32)"
  shows "bit (mask_row q qi ! (k div 16)) (k mod 16) \<longleftrightarrow> k < q \<and> k \<le> qi"
proof -
  let ?npm = "(q + 31) div 32" let ?bits = "causal_bits q ?npm qi"
  let ?f = "\<lambda>w. view16 (pack32 (take 32 (drop (32 * w) ?bits)))"
  have len: "length (?f w) = 2" for w by (simp add: view16_def)
  have k2: "k div 16 < 2 * ?npm" using assms by (simp add: less_mult_imp_div_less mult.commute)
  have "mask_row q qi ! (k div 16) = ?f ([0..<?npm] ! (k div 16 div 2)) ! (k div 16 mod 2)"
    unfolding mask_row_def Let_def
    by (rule nth_concat_const[where n = 2]) (use len k2 in simp_all)
  also have "[0..<?npm] ! (k div 16 div 2) = k div 32"
    using k2 by (simp add: div_mult2_eq[symmetric])
  finally have "bit (mask_row q qi ! (k div 16)) (k mod 16)
      = bit (pack32 (take 32 (drop (32 * (k div 32)) ?bits))) (16 * (k div 16 mod 2) + k mod 16)"
    by (simp add: view16_nth)
  also have "16 * (k div 16 mod 2) + k mod 16 = k mod 32"
    using mod_mult2_eq[of k 16 2] by simp
  also have "bit (pack32 (take 32 (drop (32 * (k div 32)) ?bits))) (k mod 32)
      = take 32 (drop (32 * (k div 32)) ?bits) ! (k mod 32)"
  proof (rule bit_pack32)
    have "32 * (k div 32) + 32 \<le> 32 * ?npm"
      using assms by (metis div_less_iff_less_mult mult.commute mult_Suc_right Suc_leI mult_le_mono2 add.commute zero_less_numeral)
    then show "length (take 32 (drop (32 * (k div 32)) ?bits)) = 32" by (simp add: causal_bits_def)
  qed simp
  also have "\<dots> = ?bits ! k"
    using assms by (simp add: causal_bits_def)
  also have "\<dots> \<longleftrightarrow> k < q \<and> k \<le> qi" using assms by (simp add: causal_bits_def)
  finally show ?thesis .
qed

text \<open>
  Property C33. The packed mask of the verify kernel is the causal one: it has one row per
  query position and request, rows of whole 32-bit words, and the bit of key position \<open>k\<close> in
  the row of query position \<open>i\<close> is set exactly when \<open>k \<le> i\<close>, the padding bits being clear.
\<close>

theorem packed_mask_is_causal:
  assumes "b < nat batch" "i < nat q" "k < 32 * ((nat q + 31) div 32)"
  shows "length (packed_mask (new_bufs batch q hkv)) = nat batch
    \<and> length (packed_mask (new_bufs batch q hkv) ! b) = nat q
    \<and> length (packed_mask (new_bufs batch q hkv) ! b ! i) = 2 * ((nat q + 31) div 32)
    \<and> (bit (packed_mask (new_bufs batch q hkv) ! b ! i ! (k div 16)) (k mod 16) \<longleftrightarrow> k \<le> i)"
proof -
  have "packed_mask (new_bufs batch q hkv) ! b ! i = mask_row (nat q) i"
    using assms by (simp add: new_bufs_def Let_def)
  then show ?thesis
    using assms mask_row_bit[OF assms(3), of i] length_mask_row[of "nat q" i]
    by (auto simp: new_bufs_def Let_def)
qed

theorem packed_mask_is_causal_witness:
  "bit (packed_mask (new_bufs 2 5 4) ! 1 ! 3 ! 0) 3 \<and> \<not> bit (packed_mask (new_bufs 2 5 4) ! 1 ! 3 ! 1) 4"
  using packed_mask_is_causal[of 1 2 3 5 3 4] packed_mask_is_causal[of 1 2 3 5 20 4] by simp

section \<open>Prewarming covers the captured shapes\<close>

lemma get_buffers_facts:
  "bufs (snd (get_buffers key st)) key = Some (fst (get_buffers key st))"
  "key' \<noteq> key \<Longrightarrow> bufs (snd (get_buffers key st)) key' = bufs st key'"
  "bufs st key' \<noteq> None \<Longrightarrow> bufs (snd (get_buffers key st)) key' = bufs st key'"
  "modules (snd (get_buffers key st)) = modules st"
  "scratch_on (snd (get_buffers key st)) = scratch_on st"
  "attn_tensors.truncate (snd (get_buffers key st)) = attn_tensors.truncate st"
  by (auto simp: get_buffers_def Let_def attn_tensors.truncate_def split: option.splits prod.splits)

lemma get_buffers_hit: "bufs st key = Some b \<Longrightarrow> get_buffers key st = (b, st)"
  by (simp add: get_buffers_def)

lemma get_module_hit: "modules st key = Some md \<Longrightarrow> get_module E key st = Inr (md, st)"
  by (simp add: get_module_def)

lemma get_module_miss:
  assumes "get_module E key st = Inr (md, st')"
  shows "modules st' key = Some md" "modules st \<subseteq>\<^sub>m modules st'" "bufs st' = bufs st"
    "scratch_on st' = scratch_on st" "attn_tensors.truncate st' = attn_tensors.truncate st"
  using assms
  by (auto simp: get_module_def bind_res_eq_Inr map_le_def attn_tensors.truncate_def
      split: option.splits prod.splits)

definition fold_buffers :: "int list \<Rightarrow> int \<Rightarrow> int \<Rightarrow> string \<Rightarrow> ('r, 'o, 'm) famp_state \<Rightarrow> ('r, 'o, 'm) famp_state" where
  "fold_buffers ns q hkv dev st = fold (\<lambda>n st. snd (get_buffers (n, q, hkv, dev) st)) ns st"

lemma fold_buffers_Nil: "fold_buffers [] q hkv dev st = st"
  by (simp add: fold_buffers_def)

lemma fold_buffers_Cons:
  "fold_buffers (x # xs) q hkv dev st = fold_buffers xs q hkv dev (snd (get_buffers (x, q, hkv, dev) st))"
  by (simp add: fold_buffers_def)

lemma dom_get_buffers: "dom (bufs st) \<subseteq> dom (bufs (snd (get_buffers key st)))"
  using get_buffers_facts(3)[of st] by (metis (no_types, lifting) domIff subsetI)

lemma fold_buffers_facts:
  "modules (fold_buffers ns q hkv dev st) = modules st"
  "scratch_on (fold_buffers ns q hkv dev st) = scratch_on st"
  by (induction ns arbitrary: st)
    (simp_all add: fold_buffers_Nil fold_buffers_Cons get_buffers_facts)

lemma fold_buffers_dom: "dom (bufs st) \<subseteq> dom (bufs (fold_buffers ns q hkv dev st))"
proof (induction ns arbitrary: st)
  case (Cons x xs)
  show ?case unfolding fold_buffers_Cons using dom_get_buffers Cons.IH by (rule subset_trans)
qed (simp add: fold_buffers_Nil)

lemma fold_buffers_mem:
  "n \<in> set ns \<Longrightarrow> (n, q, hkv, dev) \<in> dom (bufs (fold_buffers ns q hkv dev st))"
proof (induction ns arbitrary: st)
  case (Cons x xs)
  have x: "(x, q, hkv, dev) \<in> dom (bufs (snd (get_buffers (x, q, hkv, dev) st)))"
    using get_buffers_facts(1) by blast
  show ?case
  proof (cases "n = x")
    case True
    then show ?thesis unfolding fold_buffers_Cons using subsetD[OF fold_buffers_dom x] by simp
  next
    case False
    then show ?thesis unfolding fold_buffers_Cons using Cons by simp
  qed
qed simp

text \<open>Every configuration that reaches the module generator is one it accepts.\<close>

lemma gen_xqa_module_total:
  assumes "idt \<in> set [float16, bfloat16]" "is_supported_page_size page" "is_supported_head_dim hdim"
    and "kvdt \<in> set named_dtypes"
  shows "\<exists>spec. gen_xqa_module idt kvdt page hdim grp sw idt q = Inr spec
    \<and> tokens_per_page spec = page \<and> head_elems spec = hdim \<and> use_spec_dec spec = (q > 1)"
proof -
  have "idt \<in> set named_dtypes" using assms(1) by (auto simp: named_dtypes_def)
  then show ?thesis using assms
    by (auto simp: gen_xqa_module_def is_supported_page_size_def is_supported_head_dim_def)
qed

definition builds :: "('r, 'q, 'o, 'm) xqa_device \<Rightarrow> mod_key \<Rightarrow> bool" where
  "builds E key \<longleftrightarrow>
     (let (idt, kvdt, page, hdim, grp, q) = key
      in kvdt \<in> set named_dtypes
         \<and> (\<forall>spec. gen_xqa_module idt kvdt page hdim grp False idt q = Inr spec \<longrightarrow>
              (\<exists>md. build_and_load E spec = Inr md)))"

lemma get_module_total:
  assumes "builds E (idt, kvdt, page, hdim, grp, q)" "idt \<in> set [float16, bfloat16]"
    "is_supported_page_size page" "is_supported_head_dim hdim"
  shows "\<exists>md st'. get_module E (idt, kvdt, page, hdim, grp, q) st = Inr (md, st')"
  using assms(1) gen_xqa_module_total[OF assms(2-4), of kvdt grp False q]
  by (auto simp: get_module_def builds_def split: option.splits)

text \<open>The configuration in which the builder prewarms, and the keys it then fills.\<close>

definition prewarms :: "builder_config \<Rightarrow> int \<Rightarrow> bool" where
  "prewarms c k \<longleftrightarrow> (\<exists>spec. bc_spec c = Some spec \<and> num_speculative_tokens spec = Some k) \<and> 0 < k
     \<and> enabled (bc_caps c) ''xqa_verify'' \<and> has_full_cudagraphs (bc_mode c)
     \<and> is_supported_head_dim (bc_head_dim c) \<and> bc_q_dtype c \<in> set [float16, bfloat16]
     \<and> is_supported_page_size (bc_block_size c) \<and> bc_heads_kv c \<noteq> 0"

definition config_mod_key :: "builder_config \<Rightarrow> int \<Rightarrow> mod_key" where
  "config_mod_key c k = (bc_q_dtype c, bc_kv_dtype c, bc_block_size c, bc_head_dim c,
     bc_heads_q c div bc_heads_kv c, 1 + k)"

lemma prewarm_fills:
  assumes "prewarms c k" "bc_sizes c = Some sizes" "builds E (config_mod_key c k)"
    and r: "r \<in> set (prewarm_reqs (1 + k) (bc_max_num_seqs c) sizes)"
  shows "modules (prewarm_xqa_verify E c st) (config_mod_key c k) \<noteq> None"
    "bufs (prewarm_xqa_verify E c st) (r, 1 + k, bc_heads_kv c, bc_device c) \<noteq> None"
    "scratch_on (prewarm_xqa_verify E c st) = scratch_on st"
proof -
  let ?reqs = "prewarm_reqs (1 + k) (bc_max_num_seqs c) sizes"
  obtain md st1 where g: "get_module E (config_mod_key c k) st = Inr (md, st1)"
    using get_module_total[OF assms(3)[unfolded config_mod_key_def]] assms(1)
    unfolding config_mod_key_def prewarms_def by blast
  have ne: "?reqs \<noteq> []" using r by auto
  have eq: "prewarm_xqa_verify E c st = fold_buffers ?reqs (1 + k) (bc_heads_kv c) (bc_device c) st1"
    using assms(1,2) ne g
    by (auto simp: prewarm_xqa_verify_def prewarms_def prewarm_def config_mod_key_def fold_buffers_def
        Let_def)
  show "modules (prewarm_xqa_verify E c st) (config_mod_key c k) \<noteq> None"
    unfolding eq fold_buffers_facts(1) using get_module_miss(1)[OF g] by simp
  show "bufs (prewarm_xqa_verify E c st) (r, 1 + k, bc_heads_kv c, bc_device c) \<noteq> None"
    unfolding eq using fold_buffers_mem[OF r] by blast
  show "scratch_on (prewarm_xqa_verify E c st) = scratch_on st"
    unfolding eq fold_buffers_facts(2) by (rule get_module_miss(4)[OF g])
qed

text \<open>The request count of a uniform graph is on the ladder the builder computes.\<close>

lemma uniform_key_on_ladder:
  assumes so: "sizes_ok (capture d)" and i: "initialised mode q d"
    and b: "b \<in> full_keys d" "bd_uniform b" and q: "uniform_decode_query_len d = q"
  shows "\<exists>r. bd_num_reqs b = Some r \<and> r \<in> set (prewarm_reqs q (max_num_seqs d) (sizes_of d))"
proof -
  have c: "create_padded_batch_descriptor d x u l n = Inr b \<Longrightarrow> x \<in> set (sizes_of d) \<Longrightarrow>
      u \<and> x mod q = 0 \<and> bd_num_reqs b = Some (min (x div q) (max_num_seqs d))" for x u l n
  proof -
    assume cr: "create_padded_batch_descriptor d x u l n = Inr b" and x: "x \<in> set (sizes_of d)"
    note p = padded_to_size_self[OF so x]
    show "u \<and> x mod q = 0 \<and> bd_num_reqs b = Some (min (x div q) (max_num_seqs d))"
      using cr b(2) unfolding initialised_create[OF i so less_imp_le[OF p(2)] p(3)] p(1) q
      by (auto simp: Let_def split: if_splits)
  qed
  have "b \<notin> mixed_keys d [(b, n). b \<leftarrow> sizes_of d, n \<leftarrow> get_lora_cases d]"
    using c by (auto simp: mixed_keys_def)
  then have "b \<in> uniform_keys d [(b, n). b \<leftarrow> filter (\<lambda>x. x \<le> q * max_num_seqs d \<and> x \<ge> q) (sizes_of d),
      n \<leftarrow> get_lora_cases d]"
    using b(1) i by (auto simp: initialised_def split: if_splits)
  then obtain x n where x: "x \<in> set (sizes_of d)" "x \<ge> q"
      "create_padded_batch_descriptor d x True (n > 0) n = Inr b"
    by (auto simp: uniform_keys_def)
  from c[OF x(3,1)] x(1,2) show ?thesis by (auto simp: prewarm_reqs_def)
qed

lemma xqa_verify_warm:
  assumes "max_query_len m = Some q" "1 < q" "num_actual_tokens m = int (length (seq_lens m)) * q"
    and "head_size impl \<in> set [64, 128, 256]" "ca_q_dtype a \<in> set [float16, bfloat16]"
    and "is_supported_page_size (int (page_tokens st))" "num_kv_heads impl \<noteq> 0"
    and "modules st (ca_q_dtype a, ca_kv_dtype a, int (page_tokens st), head_size impl,
           num_heads impl div num_kv_heads impl, q) = Some md"
    and "bufs st (int (length (seq_lens m)), q, num_kv_heads impl, ca_device a) = Some b"
  shows "xqa_verify E impl a m st =
    xqa_launch E a m (int (length (seq_lens m)), q, num_kv_heads impl, ca_device a) md b
      (reshape_and_cache (slot_mapping m) (ca_key a) (ca_value a) st)"
  using assms
  by (simp add: xqa_verify_def Let_def reshape_and_cache_def get_module_hit get_buffers_hit
      del: list.set)

text \<open>
  Property C13. Prewarming covers what is captured: with the builder and the dispatcher
  configured alike and a compiler that accepts the configuration, the verify leg runs, and
  does not decline, for every uniform graph the dispatcher captures, during capture included,
  in any later state that kept the prewarmed tables.
\<close>

theorem prewarmed_verify_runs_in_capture:
  assumes c: "prewarms c k" "bc_sizes c = Some (sizes_of d)" "bc_max_num_seqs c = max_num_seqs d"
      "builds E (config_mod_key c k)"
    and d0: "sizes_ok (capture d0)" "full_keys d0 = {}" "piecewise_keys d0 = {}"
      "uniform_decode_query_len d0 = 1 + k" "mode \<noteq> NONE"
      "initialize_cudagraph_keys mode (1 + k) d0 = Inr d"
    and b: "b \<in> full_keys d" "bd_uniform b" "bd_num_reqs b = Some (int (length (seq_lens m)))"
    and m: "max_query_len m = Some (1 + k)" "num_actual_tokens m = int (length (seq_lens m)) * (1 + k)"
    and layer: "head_size impl = bc_head_dim c" "num_heads impl = bc_heads_q c"
      "num_kv_heads impl = bc_heads_kv c"
    and call: "ca_q_dtype a = bc_q_dtype c" "ca_kv_dtype a = bc_kv_dtype c" "ca_device a = bc_device c"
      "num_actual_tokens m \<le> int (length (ca_query a))"
    and st: "int (page_tokens st) = bc_block_size c" "num_actual_tokens m \<le> int (length (out_rows st))"
      "modules (prewarm_xqa_verify E c st0) \<subseteq>\<^sub>m modules st"
      "dom (bufs (prewarm_xqa_verify E c st0)) \<subseteq> dom (bufs st)"
  shows "\<exists>st'. xqa_verify E impl a m st = Ran st'"
proof -
  let ?r = "int (length (seq_lens m))"
  note i = initialize_initialised[OF d0(1-3,5,6)]
  have so: "sizes_ok (capture d)" and q: "uniform_decode_query_len d = 1 + k"
    using i(2,4) d0(1,4) by simp_all
  have r: "?r \<in> set (prewarm_reqs (1 + k) (bc_max_num_seqs c) (sizes_of d))"
    using uniform_key_on_ladder[OF so i(1) b(1,2) q] b(3) c(3) by auto
  note w = prewarm_fills[OF c(1,2,4) r, of st0]
  have "config_mod_key c k \<in> dom (modules (prewarm_xqa_verify E c st0))"
    using w(1) by (rule domIff[THEN iffD2])
  then have "modules (prewarm_xqa_verify E c st0) (config_mod_key c k) = modules st (config_mod_key c k)"
    using st(3) unfolding map_le_def by (rule bspec[rotated])
  then obtain md where md: "modules st (config_mod_key c k) = Some md"
    using w(1) by auto
  have "(?r, 1 + k, bc_heads_kv c, bc_device c) \<in> dom (bufs st)"
  proof (rule subsetD[OF st(4)])
    show "(?r, 1 + k, bc_heads_kv c, bc_device c) \<in> dom (bufs (prewarm_xqa_verify E c st0))"
      using w(2) by (simp add: domIff)
  qed
  then obtain bu where bu: "bufs st (?r, 1 + k, bc_heads_kv c, bc_device c) = Some bu" by blast
  have "xqa_verify E impl a m st = xqa_launch E a m (?r, 1 + k, num_kv_heads impl, ca_device a) md bu
      (reshape_and_cache (slot_mapping m) (ca_key a) (ca_value a) st)"
  proof (rule xqa_verify_warm)
    show "1 < 1 + k" "head_size impl \<in> set [64, 128, 256]" "ca_q_dtype a \<in> set [float16, bfloat16]"
      "is_supported_page_size (int (page_tokens st))" "num_kv_heads impl \<noteq> 0"
      using c(1) unfolding prewarms_def is_supported_head_dim_def layer call(1) st(1) by simp_all
    show "modules st (ca_q_dtype a, ca_kv_dtype a, int (page_tokens st), head_size impl,
        num_heads impl div num_kv_heads impl, 1 + k) = Some md"
      using md unfolding config_mod_key_def layer call(1,2) st(1) .
    show "bufs st (?r, 1 + k, num_kv_heads impl, ca_device a) = Some bu"
      using bu unfolding layer call(3) .
  qed (rule m)+
  moreover have "0 \<le> ?r * (1 + k)" using c(1) by (simp add: prewarms_def)
  then have len: "int (length (py_slice xs 0 (?r * (1 + k)))) = ?r * (1 + k)"
    if "?r * (1 + k) \<le> int (length xs)" for xs :: "'z list"
    using py_slice_length[of 0 "?r * (1 + k)" xs] that by simp
  ultimately show ?thesis
    using len[OF call(4)[unfolded m(2)]] len[OF st(2)[unfolded m(2)]]
    by (simp only: xqa_launch_def Let_def m(1) option.sel write_frame if_False simp_thms
        kernel_result.inject)
qed

definition example_builder :: builder_config where
  "example_builder = \<lparr>
     bc_caps = \<lparr>cap = AMPERE_SERVER, has_flashinfer = True, has_sage = False, has_fp16pv_kernel = True,
       fp16pv_on = True, bf16cvt_on = True, xqa_verify_on = True, sage_on = False\<rparr>,
     bc_spec = Some \<lparr>num_speculative_tokens = Some 1, parallel_drafting = False\<rparr>,
     bc_mode = FULL_AND_PIECEWISE, bc_head_dim = 128, bc_q_dtype = float16, bc_kv_dtype = float16,
     bc_max_num_seqs = 3, bc_sizes = Some [2, 4, 8], bc_block_size = 16, bc_heads_q = 8,
     bc_heads_kv = 2, bc_device = ''cuda:0''\<rparr>"

definition example_xqa :: "(int, int, int, unit) xqa_device" where
  "example_xqa = \<lparr>build_and_load = (\<lambda>_. Inr ()),
     xqa_wrapper = (\<lambda>_ _ _ _ _ _ _ _ _ q. map ((*) 10) q), multi_processor_count = (\<lambda>_. 82)\<rparr>"

definition example_famp_state :: "(int, int, unit) famp_state" where
  "example_famp_state = \<lparr>page_tokens = 16, k_cache = replicate 4 (replicate 16 0),
     v_cache = replicate 4 (replicate 16 0), out_rows = [0, 0, 0, 0], modules = (\<lambda>_. None),
     bufs = (\<lambda>_. None), scratch_on = None, sm_count = None, declined_capture_warned = False,
     declined_page_logged = False, xqa_fired = False,
     fire = \<lparr>fire_calls = 0, fire_seqs = 0, fire_fresh = 0, fire_cached = 0, fire_fp16pv = 0,
       fire_bf16cvt = 0, fire_batch = 0\<rparr>, bp_states = (\<lambda>_. None), cached_seq_lens_cpu = None\<rparr>"

definition example_metadata :: attn_metadata where
  "example_metadata = \<lparr>use_cascade = False, max_query_len = Some 2, num_actual_tokens = 4,
     seq_lens = [5, 9], query_start_loc = [0, 2, 4], block_table = [[1, 2], [3, 0]],
     slot_mapping = [19, 20, 55, 56], causal = Causal True, mm_prefix_query_range = None,
     md_window = No_window, rswa_prefix_lens = None, rswa_window = None, rswa_window_tensor = None,
     query_start_loc_cpu = None, seq_lens_cpu_upper_bound = None, is_prefilling_cpu = None\<rparr>"

definition example_base :: base_impl where
  "example_base = \<lparr>num_heads = 8, num_kv_heads = 2, head_size = 128, attn_type = DECODER_ATTN,
     layer_window = None, has_alibi = False, soft_cap = None, has_sinks = False,
     kv_cache_dtype = ''auto'', dcp_world_size = 1\<rparr>"

definition example_impl :: famp_impl where
  "example_impl = new_impl example_base (bc_caps example_builder) (Inr (bc_spec example_builder))
     (Inr (3, 8192))"

definition example_call :: "(int, int) call_args" where
  "example_call = \<lparr>ca_query = [1, 2, 3, 4], ca_key = [11, 12, 13, 14], ca_value = [21, 22, 23, 24],
     ca_q_dtype = float16, ca_kv_dtype = float16, ca_device = ''cuda:0'', ca_capturing = True\<rparr>"

lemma example_impl_sel [simp]:
  "head_size example_impl = 128" "num_heads example_impl = 8" "num_kv_heads example_impl = 2"
  by (simp_all add: example_impl_def new_impl_def example_base_def Let_def base_impl.extend_def)

lemma example_prewarms: "prewarms example_builder 1"
  by (simp add: prewarms_def example_builder_def enabled_def full_cudagraphs_iff
      is_supported_head_dim_def is_supported_page_size_def)

lemma fold_buffers_tensors:
  "attn_tensors.truncate (fold_buffers ns q hkv dev st) = attn_tensors.truncate st"
  by (induction ns arbitrary: st)
    (simp_all only: fold_buffers_Nil fold_buffers_Cons get_buffers_facts)

lemma prewarm_cases:
  "prewarm_xqa_verify E c st = st
   \<or> prewarm_xqa_verify E c st = log_unsupported_page st
   \<or> (\<exists>key md st1 ns q. get_module E key st = Inr (md, st1)
        \<and> prewarm_xqa_verify E c st = fold_buffers ns q (bc_heads_kv c) (bc_device c) st1)"
proof -
  have *: "st' = log_unsupported_page st \<or> (\<exists>key md st1. get_module E key st = Inr (md, st1)
      \<and> st' = fold_buffers ns q hkv dev st1)"
    if pw: "prewarm E qdt kvdt page hdim grp q ns hkv dev st = Inr st'" for qdt kvdt page hdim grp q ns hkv dev st'
  proof (cases "is_supported_page_size page")
    case True
    then obtain md st1 where "get_module E (qdt, kvdt, page, hdim, grp, q) st = Inr (md, st1)"
        "st' = fold_buffers ns q hkv dev st1"
      using pw unfolding prewarm_def fold_buffers_def[symmetric] by (auto simp: bind_res_eq_Inr)
    then show ?thesis by blast
  qed (use pw in \<open>simp add: prewarm_def\<close>)
  show ?thesis
  proof (cases "prewarm_xqa_verify E c st = st")
    case False
    then obtain qdt kvdt page hdim grp q ns where
        "prewarm E qdt kvdt page hdim grp q ns (bc_heads_kv c) (bc_device c) st
           = Inr (prewarm_xqa_verify E c st)"
      unfolding prewarm_xqa_verify_def Let_def by (auto split: option.splits if_splits sum.splits)
    from *[OF this] show ?thesis by blast
  qed simp
qed

lemma prewarm_tensors:
  "attn_tensors.truncate (prewarm_xqa_verify E c st) = attn_tensors.truncate st"
  using prewarm_cases[of E c st]
proof (elim disjE exE conjE)
  fix key md st1 ns q
  assume "get_module E key st = Inr (md, st1)"
    "prewarm_xqa_verify E c st = fold_buffers ns q (bc_heads_kv c) (bc_device c) st1"
  then show ?thesis using get_module_miss(5) fold_buffers_tensors by metis
qed (simp_all add: log_unsupported_page_def attn_tensors.truncate_def)

lemma prewarm_scratch: "scratch_on (prewarm_xqa_verify E c st) = scratch_on st"
  using prewarm_cases[of E c st]
proof (elim disjE exE conjE)
  fix key md st1 ns q
  assume "get_module E key st = Inr (md, st1)"
    "prewarm_xqa_verify E c st = fold_buffers ns q (bc_heads_kv c) (bc_device c) st1"
  then show ?thesis using get_module_miss(4) fold_buffers_facts(2) by metis
qed (simp_all add: log_unsupported_page_def)

lemma prewarm_keeps_tensors:
  "page_tokens (prewarm_xqa_verify E c st) = page_tokens st"
  "out_rows (prewarm_xqa_verify E c st) = out_rows st"
  using prewarm_tensors[of E c st] by (simp_all add: attn_tensors.truncate_def)

theorem prewarmed_verify_runs_in_capture_witness:
  "ca_capturing example_call
   \<and> (\<exists>st'. xqa_verify example_xqa example_impl example_call example_metadata
        (prewarm_xqa_verify example_xqa example_builder example_famp_state) = Ran st')"
proof -
  have "\<exists>st'. xqa_verify example_xqa example_impl example_call example_metadata
        (prewarm_xqa_verify example_xqa example_builder example_famp_state) = Ran st'"
  proof (rule prewarmed_verify_runs_in_capture[OF example_prewarms _ _ _ example_dispatcher_sel(5,3,4)
      _ _ _ example_full_key])
    show "initialize_cudagraph_keys FULL_AND_PIECEWISE (1 + 1) example_dispatcher = Inr example_initialised"
      using example_initialises by simp
    show "builds example_xqa (config_mod_key example_builder 1)"
      by (simp add: builds_def config_mod_key_def example_xqa_def named_dtypes_def example_builder_def)
    show "modules (prewarm_xqa_verify example_xqa example_builder example_famp_state)
        \<subseteq>\<^sub>m modules (prewarm_xqa_verify example_xqa example_builder example_famp_state)"
      by (rule map_le_refl)
  qed (simp_all add: prewarm_keeps_tensors example_initialised_facts,
       simp_all add: example_builder_def example_metadata_def example_call_def example_famp_state_def
        example_key_def example_dispatcher_def)
  then show ?thesis by (simp add: example_call_def)
qed

section \<open>What a captured call may allocate\<close>

text \<open>The two tables of the leg, as far as capture is concerned.\<close>

definition same_tables :: "('r, 'o, 'm) famp_state \<Rightarrow> ('r, 'o, 'm) famp_state \<Rightarrow> bool" where
  "same_tables st st' \<longleftrightarrow> modules st' = modules st \<and> dom (bufs st') = dom (bufs st)"

lemma same_tables_refl [simp]: "same_tables st st"
  by (simp add: same_tables_def)

lemma xqa_launch_tables:
  assumes "xqa_launch E a m bk md b st = Ran st'" "bk \<in> dom (bufs st)"
  shows "same_tables st st'" "scratch_on st' = Some (ca_device a)"
  using assms
  by (auto simp: xqa_launch_def Let_def same_tables_def get_scratch_def get_sm_count_def
      split: if_splits option.splits)

lemma xqa_launch_not_declined: "xqa_launch E a m bk md b st \<noteq> Declined st'"
  by (simp add: xqa_launch_def Let_def)

lemma xqa_capture_cases:
  assumes "ca_capturing a"
  shows "(\<exists>st1. xqa_verify E impl a m st = Declined st1 \<and> same_tables st st1)
    \<or> (\<exists>e. xqa_verify E impl a m st = Raised e)
    \<or> (\<exists>bk md b. xqa_verify E impl a m st = xqa_launch E a m bk md b
          (reshape_and_cache (slot_mapping m) (ca_key a) (ca_value a) st) \<and> bk \<in> dom (bufs st))"
proof (cases "max_query_len m")
  case None
  then show ?thesis by (simp add: xqa_verify_def)
next
  case (Some q)
  let ?st = "reshape_and_cache (slot_mapping m) (ca_key a) (ca_value a) st"
  let ?mk = "(ca_q_dtype a, ca_kv_dtype a, int (page_tokens st), head_size impl,
    num_heads impl div num_kv_heads impl, q)"
  let ?bk = "(int (length (seq_lens m)), q, num_kv_heads impl, ca_device a)"
  have lp: "same_tables st (log_unsupported_page st)"
    by (simp add: same_tables_def log_unsupported_page_def)
  have dw: "same_tables st (if \<not> declined_capture_warned ?st then ?st\<lparr>declined_capture_warned := True\<rparr> else ?st)"
    by (simp add: same_tables_def)
  show ?thesis
  proof (cases "modules st ?mk = None \<or> bufs st ?bk = None")
    case True
    then show ?thesis using assms lp dw
      by (simp add: xqa_verify_def Some Let_def)
  next
    case False
    then obtain md b where w: "modules ?st ?mk = Some md" "bufs ?st ?bk = Some b" by auto
    have "xqa_verify E impl a m st \<in> {Declined st, Declined (log_unsupported_page st),
        Raised ZeroDivisionError, xqa_launch E a m ?bk md b ?st}"
      using w by (simp add: xqa_verify_def Some Let_def get_module_hit get_buffers_hit split: if_split)
    moreover have "?bk \<in> dom (bufs st)" using w(2) by auto
    ultimately show ?thesis using lp same_tables_refl by blast
  qed
qed

text \<open>
  Nothing is compiled or allocated behind a graph capture, with one exception:
  while a graph is being captured a forward pass leaves the modules and the set of buffers as
  they were, whether it runs the leg or falls through to stock attention; but the workspace
  of the kernel is not part of what prewarming creates, so the first captured call does
  allocate it.
\<close>

theorem capture_leaves_tables_alone:
  assumes "ca_capturing a" "xqa_kernel K = xqa_verify E impl a m" "head_size impl \<le> 256"
    and stock: "\<And>s s'. stock_forward K s = Inr s' \<Longrightarrow> same_tables s s' \<and> scratch_on s' = scratch_on s"
    and run: "forward default_table K True impl qdt (Some m) os obs st = Inr st'"
  shows "same_tables st st'
    \<and> scratch_on (prewarm_xqa_verify E c st0) = scratch_on st0
    \<and> (xqa_verify E impl a m st = Ran st1 \<longrightarrow> scratch_on st1 = Some (ca_device a))"
proof -
  have ran: "same_tables st s' \<and> scratch_on s' = Some (ca_device a)"
    if "xqa_verify E impl a m st = Ran s'" for s'
    using xqa_capture_cases[OF assms(1), of E impl m st]
  proof (elim disjE exE conjE)
    fix bk md b
    assume l: "xqa_verify E impl a m st = xqa_launch E a m bk md b
        (reshape_and_cache (slot_mapping m) (ca_key a) (ca_value a) st)" and bk: "bk \<in> dom (bufs st)"
    show ?thesis
      using xqa_launch_tables[OF that[unfolded l]] bk by (simp add: same_tables_def)
  qed (use that in simp_all)
  have sunk: "same_tables st s'" if "stock_forward K s = Inr s'" "same_tables st s" for s s'
    using stock[OF that(1)] that(2) by (simp add: same_tables_def)
  have dec: "same_tables st s" if "xqa_verify E impl a m st = Declined s" for s
    using xqa_capture_cases[OF assms(1), of E impl m st]
  proof (elim disjE exE conjE)
    fix bk md b
    assume "xqa_verify E impl a m st = xqa_launch E a m bk md b
        (reshape_and_cache (slot_mapping m) (ca_key a) (ca_value a) st)"
    then show ?thesis using that xqa_launch_not_declined by metis
  qed (use that in simp_all)
  have leg: "same_tables st st'" if "or_stock K (xqa_verify E impl a m st) = Inr st'"
    using that ran dec sunk by (cases "xqa_verify E impl a m st") (auto simp: or_stock_def)
  have "same_tables st st'"
    using run assms(3) leg sunk[of st st'] unfolding forward_direct direct_forward_def assms(2)
    by (auto split: if_splits phase.splits)
  then show ?thesis using ran prewarm_scratch by blast
qed

definition example_kernels :: "(int, int, unit) famp_state famp_kernels" where
  "example_kernels = \<lparr>stock_forward = Inr, fp16pv_kernel = (\<lambda>_. Declined),
     xqa_kernel = xqa_verify example_xqa example_impl example_call example_metadata,
     decode_hd512_kernel = Declined\<rparr>"

definition example_declined :: "(int, int, unit) famp_state" where
  "example_declined =
     (reshape_and_cache (slot_mapping example_metadata) (ca_key example_call) (ca_value example_call)
        example_famp_state)\<lparr>declined_capture_warned := True\<rparr>"

lemma example_declines:
  "xqa_verify example_xqa example_impl example_call example_metadata example_famp_state
     = Declined example_declined"
  by (simp add: xqa_verify_def example_declined_def Let_def)
    (simp add: example_metadata_def example_call_def example_famp_state_def is_supported_page_size_def
      reshape_and_cache_def)

lemma example_forward:
  "forward default_table example_kernels True example_impl float16 (Some example_metadata) False False
     example_famp_state = Inr example_declined"
proof -
  have cl: "classify example_impl example_metadata = VERIFY"
    by (simp add: classify_def example_metadata_def example_impl_def new_impl_def Let_def
        verify_upper_bound_def example_builder_def base_impl.extend_def)
  have vl: "verify_leg example_impl"
    by (simp add: verify_leg_def example_impl_def new_impl_def Let_def example_base_def
        base_impl.extend_def is_quantized_kv_cache_def starts_with_def ends_with_def example_builder_def
        enabled_def)
  have ms: "\<not> must_sink example_impl example_metadata False False"
    by (simp add: must_sink_def example_impl_def new_impl_def Let_def example_base_def
        base_impl.extend_def nonplain_metadata_def example_metadata_def is_tensor_def norm_window_def)
  show ?thesis
    unfolding forward_direct direct_forward_def using cl vl ms
    by (simp add: example_kernels_def or_stock_def example_declines)
qed

theorem capture_leaves_tables_alone_witness:
  "forward default_table example_kernels True example_impl float16 (Some example_metadata) False False
     example_famp_state = Inr example_declined
   \<and> same_tables example_famp_state example_declined"
proof -
  have "same_tables example_famp_state example_declined
    \<and> scratch_on (prewarm_xqa_verify example_xqa example_builder example_famp_state)
        = scratch_on example_famp_state
    \<and> (xqa_verify example_xqa example_impl example_call example_metadata example_famp_state = Ran example_famp_state
        \<longrightarrow> scratch_on example_famp_state = Some (ca_device example_call))"
    by (rule capture_leaves_tables_alone[OF _ _ _ _ example_forward])
      (simp_all add: example_call_def example_kernels_def)
  then show ?thesis using example_forward by simp
qed

end
