(* ===== verification/FampPrefill.thy ===== *)
theory FampPrefill imports FampState
begin

text \<open>
  The prefill leg of \<^verbatim>\<open>flashampere/kernels.py\<close>: the host copies of the lengths, the gather of
  a request's cache rows, the page plan of the batched path, and \<open>fp16pv_prefill\<close> itself with
  its declines, its per-request loop and its counters.

  The attention kernels, the range check and the cast to half precision are parameters
  (\<open>prefill_device\<close>); the planner is one that accepts or rejects a plan.
\<close>

section \<open>Lengths on the host\<close>

definition row_has_query :: "int list \<Rightarrow> bool list" where
  "row_has_query qsl = map2 (\<lambda>a b. b - a > 0) (butlast qsl) (tl qsl)"

text \<open>
  \<open>exact_seq_lens_cpu\<close> returns the lengths, if any, and the host copy it leaves on the metadata.
  Indexing \<^verbatim>\<open>pre[:n]\<close> by a mask of another length raises.
\<close>

definition exact_seq_lens_cpu ::
    "attn_metadata \<Rightarrow> int list option \<Rightarrow> (int list option \<times> int list option) res" where
  "exact_seq_lens_cpu m cached =
     (case query_start_loc_cpu m of
        None \<Rightarrow> Inr (None, cached)
      | Some qsl \<Rightarrow>
          (let has_q = row_has_query qsl; n = length has_q;
               device = (case cached of
                           None \<Rightarrow> (Some (seq_lens m), Some (seq_lens m))
                         | Some sl \<Rightarrow> (Some sl, cached))
           in case (seq_lens_cpu_upper_bound m, is_prefilling_cpu m) of
                (Some ub, Some pre) \<Rightarrow>
                  if length pre < n then Inl IndexError
                  else if list_all (\<lambda>(p, h). h \<longrightarrow> p) (zip (take n pre) has_q)
                  then Inr (Some (take n ub), cached)
                  else Inr device
              | _ \<Rightarrow> Inr device))"

lemma row_has_query_nth:
  assumes "Suc i < length qsl"
  shows "i < length (row_has_query qsl)" "row_has_query qsl ! i \<longleftrightarrow> qsl ! i < qsl ! Suc i"
  using assms by (simp_all add: row_has_query_def nth_butlast nth_tl)

lemma length_row_has_query: "length (row_has_query qsl) = length qsl - 1"
  by (simp add: row_has_query_def)

text \<open>What the builder promises of the upper bound: it is exact for rows that are prefilling.\<close>

definition bound_exact :: "attn_metadata \<Rightarrow> bool" where
  "bound_exact m \<longleftrightarrow> (\<forall>ub pre. seq_lens_cpu_upper_bound m = Some ub \<longrightarrow> is_prefilling_cpu m = Some pre \<longrightarrow>
     length ub = length (seq_lens m) \<and>
     (\<forall>i < length (seq_lens m). i < length pre \<longrightarrow> pre ! i \<longrightarrow> ub ! i = seq_lens m ! i))"

lemma exact_rows:
  assumes "bound_exact m" "cached \<in> {None, Some (seq_lens m)}"
    and "query_start_loc_cpu m = Some qsl" "length qsl = Suc (length (seq_lens m))"
    and "exact_seq_lens_cpu m cached = Inr (Some sl, c')"
  shows "length sl = length (seq_lens m)" "c' \<in> {None, Some (seq_lens m)}"
    "\<And>i. i < length (seq_lens m) \<Longrightarrow> qsl ! i < qsl ! Suc i \<Longrightarrow> sl ! i = seq_lens m ! i"
proof -
  let ?n = "length (seq_lens m)"
  have n: "length (row_has_query qsl) = ?n" using assms(4) by (simp add: length_row_has_query)
  have "length sl = ?n \<and> c' \<in> {None, Some (seq_lens m)} \<and>
    (\<forall>i < ?n. qsl ! i < qsl ! Suc i \<longrightarrow> sl ! i = seq_lens m ! i)"
  proof (cases "sl = seq_lens m")
    case True
    then show ?thesis
      using assms by (auto simp: exact_seq_lens_cpu_def Let_def split: option.splits if_splits)
  next
    case False
    then obtain ub pre where u: "seq_lens_cpu_upper_bound m = Some ub" "is_prefilling_cpu m = Some pre"
        "?n \<le> length pre" "list_all (\<lambda>(p, h). h \<longrightarrow> p) (zip (take ?n pre) (row_has_query qsl))"
        "sl = take ?n ub" "c' = cached"
      using assms(2,3,5) n
      by (auto simp: exact_seq_lens_cpu_def Let_def split: option.splits if_splits)
    have "sl ! i = seq_lens m ! i" if "i < ?n" "qsl ! i < qsl ! Suc i" for i
    proof -
      have "row_has_query qsl ! i" using that assms(4) by (simp add: row_has_query_nth)
      then have "pre ! i" using u(3,4) that(1) n by (auto simp: list_all_length)
      then show ?thesis using assms(1) u that by (simp add: bound_exact_def)
    qed
    moreover have "length ub = ?n" using assms(1) u(1,2) by (simp add: bound_exact_def)
    ultimately show ?thesis using u assms(2) by auto
  qed
  then show "length sl = ?n" "c' \<in> {None, Some (seq_lens m)}"
    "\<And>i. i < ?n \<Longrightarrow> qsl ! i < qsl ! Suc i \<Longrightarrow> sl ! i = seq_lens m ! i" by blast+
qed

section \<open>Reading the paged cache\<close>

text \<open>
  The first \<open>seq_len\<close> logical rows of one request, from its page ids: selecting a page that
  does not exist and reshaping to a wrong number of rows raise.
\<close>

definition gather_one :: "nat \<Rightarrow> 'r list list \<Rightarrow> nat list \<Rightarrow> int \<Rightarrow> int \<Rightarrow> 'r list res" where
  "gather_one bs cache blk n_blocks seq_len =
     (if \<not> list_all (\<lambda>b. b < length cache) blk then Inl IndexError
      else if int (length (concat (map ((!) cache) blk))) \<noteq> n_blocks * int bs then Inl RuntimeError
      else Inr (py_slice (concat (map ((!) cache) blk)) 0 seq_len))"

text \<open>The rows the paged kernel reads for request \<open>i\<close> under a plan.\<close>

definition plan_rows :: "nat \<Rightarrow> 'r list list \<Rightarrow> page_plan \<Rightarrow> nat \<Rightarrow> 'r list" where
  "plan_rows bs cache p i =
     (let a = nat (kv_indptr p ! i); b = nat (kv_indptr p ! Suc i);
          pages = take (b - a) (drop a (kv_indices p))
      in take ((b - a - 1) * bs + nat (last_page_len p ! i)) (concat (map ((!) cache) pages)))"

section \<open>The page plan\<close>

definition cumsum :: "int list \<Rightarrow> int list" where
  "cumsum xs = map (\<lambda>i. sum_list (take (Suc i) xs)) [0..<length xs]"

definition scatter :: "nat \<Rightarrow> nat list \<Rightarrow> nat list \<Rightarrow> nat list" where
  "scatter n dest vals = fold (\<lambda>(d, v) a. a[d := v]) (zip dest vals) (replicate n 0)"

definition page_counts :: "int \<Rightarrow> int list \<Rightarrow> int list" where
  "page_counts ps sl = map (\<lambda>s. (s + ps - 1) div ps) sl"

text \<open>The validity mask of the flattened table and the compacted destinations.\<close>

definition page_valid :: "nat \<Rightarrow> nat list \<Rightarrow> int list \<Rightarrow> bool list" where
  "page_valid mb col npg =
     map2 (\<lambda>c n. int c < n) col (concat (map (\<lambda>n. replicate mb n) npg))"

definition page_dest :: "nat \<Rightarrow> bool list \<Rightarrow> nat list" where
  "page_dest trash valid =
     map2 (\<lambda>v p. if v then nat (p - 1) else trash) valid (cumsum (map of_bool valid))"

definition table_cols :: "nat list list \<Rightarrow> nat" where
  "table_cols bt = (case bt of [] \<Rightarrow> 0 | r # _ \<Rightarrow> length r)"

definition new_bp_state :: "int \<Rightarrow> bp_state" where
  "new_bp_state ps = \<lparr>bp_page = ps, bp_col = None, bp_scatter_len = 0, bp_planned = None, bp_plan = None\<rparr>"

definition step_key :: "nat \<Rightarrow> int list \<Rightarrow> int list \<Rightarrow> nat \<times> nat \<times> int \<times> int" where
  "step_key mid qsl sl = (mid, length sl, last qsl, sum_list sl)"

text \<open>The buffers for a table of \<open>B\<close> rows of \<open>mb\<close> columns, grown when they are too small.\<close>

definition grow_buffers :: "nat \<Rightarrow> nat \<Rightarrow> bp_state \<Rightarrow> bp_state" where
  "grow_buffers B mb s =
     (let small = (case bp_col s of None \<Rightarrow> True | Some c \<Rightarrow> length c < B * mb)
      in if small
         then s\<lparr>bp_col := Some (concat (replicate (max B 8) [0..<mb])),
                bp_scatter_len := max B 8 * mb + 1\<rparr>
         else s)"

definition make_plan :: "int \<Rightarrow> nat list \<Rightarrow> nat \<Rightarrow> attn_metadata \<Rightarrow> int list \<Rightarrow> int list \<Rightarrow> page_plan" where
  "make_plan ps col slen m qsl sl =
     (let B = length sl; mb = table_cols (block_table m);
          npg = page_counts ps sl;
          indptr = 0 # cumsum npg;
          klp = map2 (\<lambda>s n. s - (n - 1) * ps) sl npg;
          npg_dev = page_counts ps (seq_lens m);
          valid = page_valid mb (take (B * mb) col) npg_dev;
          sc = scatter slen (page_dest (slen - 1) valid) (concat (block_table m))
      in \<lparr>qo_indptr = qsl, kv_indptr = indptr, kv_indices = take (nat (last indptr)) sc,
          last_page_len = klp\<rparr>)"

text \<open>
  \<open>plan_step\<close>: \<open>None\<close> is a decline. The wrapper is planned once per step, the step being told
  apart by the identity \<open>mid\<close> of its metadata and a fingerprint of its lengths.
\<close>

definition plan_step ::
    "(page_plan \<Rightarrow> bool) \<Rightarrow> nat \<Rightarrow> attn_metadata \<Rightarrow> int list \<Rightarrow> int list \<Rightarrow> bp_state \<Rightarrow> bp_state \<times> bool" where
  "plan_step accepts mid m qsl sl s =
     (let key = step_key mid qsl sl
      in if bp_planned s = Some key then (s, True)
         else
           (let B = length sl; mb = table_cols (block_table m);
                s = grow_buffers B mb s;
                p = make_plan (bp_page s) (the (bp_col s)) (bp_scatter_len s) m qsl sl
            in if length (seq_lens m) \<noteq> B \<or> length (concat (block_table m)) < B * mb \<or> \<not> accepts p
               then (s, False)
               else (s\<lparr>bp_planned := Some key, bp_plan := Some p\<rparr>, True)))"

section \<open>Compaction\<close>

fun dest_from :: "nat \<Rightarrow> nat \<Rightarrow> bool list \<Rightarrow> nat list" where
  "dest_from trash k [] = []"
| "dest_from trash k (v # vs) = (if v then k else trash) # dest_from trash (if v then Suc k else k) vs"

definition compact :: "bool list \<Rightarrow> 'a list \<Rightarrow> 'a list" where
  "compact vs xs = map snd (filter fst (zip vs xs))"

lemma cumsum_Cons: "cumsum (x # xs) = x # map ((+) x) (cumsum xs)"
  by (simp add: cumsum_def map_upt_Suc del: upt_Suc)

lemma length_cumsum [simp]: "length (cumsum xs) = length xs"
  by (simp add: cumsum_def)

lemma dest_from_eq:
  "map2 (\<lambda>v p. if v then nat (int k + p - 1) else trash) valid (cumsum (map of_bool valid))
     = dest_from trash k valid"
proof (induction valid arbitrary: k)
  case (Cons v vs)
  have shift: "map2 f vs (map g ws) = map2 (\<lambda>v w. f v (g w)) vs ws" for f :: "bool \<Rightarrow> int \<Rightarrow> nat" and g ws
    by (simp add: zip_map2 comp_def case_prod_beta')
  have f: "(\<lambda>v p. if v then nat (int k + (1 + p) - 1) else trash)
      = (\<lambda>v p. if v then nat (int (Suc k) + p - 1) else trash)"
    by (intro ext) simp
  show ?case
  proof (cases v)
    case True
    then show ?thesis using Cons.IH[of "Suc k"] by (simp only: list.map of_bool_eq cumsum_Cons
          zip_Cons_Cons prod.case dest_from.simps shift f) simp
  next
    case False
    then show ?thesis using Cons.IH[of k] by (simp only: list.map of_bool_eq cumsum_Cons
          zip_Cons_Cons prod.case dest_from.simps shift) (simp cong: if_cong)
  qed
qed (simp add: cumsum_def)

lemma page_dest_eq: "page_dest trash valid = dest_from trash 0 valid"
  using dest_from_eq[of 0 trash valid] by (simp add: page_dest_def cong: if_cong)

lemma length_compact: "length vs = length xs \<Longrightarrow> length (compact vs xs) = length (filter id vs)"
  by (induction vs xs rule: list_induct2) (auto simp: compact_def)

lemma scatter_fold:
  assumes "length vals \<le> length valid" "k + length (filter id (take (length vals) valid)) \<le> trash"
    "trash < length a"
  shows "take (k + length (filter id (take (length vals) valid)))
      (fold (\<lambda>(d, v) a. a[d := v]) (zip (dest_from trash k valid) vals) a)
    = take k a @ compact (take (length vals) valid) vals"
  using assms
proof (induction valid arbitrary: k vals a)
  case Nil
  then show ?case by (simp add: compact_def)
next
  case (Cons v vs)
  show ?case
  proof (cases vals)
    case Nil
    then show ?thesis by (simp add: compact_def)
  next
    case vals: (Cons x xs)
    show ?thesis
    proof (cases v)
      case True
      have "take (Suc k) (a[k := x]) = take k a @ [x]"
        using Cons.prems vals True by (simp add: take_Suc_conv_app_nth)
      then show ?thesis
        using Cons.prems vals True Cons.IH[of xs "Suc k" "a[k := x]"] by (simp add: compact_def)
    next
      case False
      then show ?thesis
        using Cons.prems vals Cons.IH[of xs k "a[trash := x]"] by (simp add: compact_def)
    qed
  qed
qed

lemma scatter_compacts:
  assumes "length valid = length vals" "length (filter id valid) < n"
  shows "take (length (filter id valid)) (scatter n (page_dest (n - 1) valid) vals) = compact valid vals"
  using scatter_fold[of vals valid 0 "n - 1" "replicate n 0"] assms
  by (simp add: scatter_def page_dest_eq)

lemma compact_append:
  "length vs = length xs \<Longrightarrow> compact (vs @ ws) (xs @ ys) = compact vs xs @ compact ws ys"
  by (simp add: compact_def)

lemma compact_Cons: "compact (v # vs) (x # xs) = (if v then x # compact vs xs else compact vs xs)"
  by (simp add: compact_def)

lemma compact_prefix:
  "compact (map (\<lambda>c. int c < n) [0..<length row]) row = take (nat n) row"
proof -
  have "compact (map (\<lambda>c. int (k + c) < n) [0..<length row]) row = take (nat (n - int k)) row" for k
  proof (induction row arbitrary: k)
    case (Cons x xs)
    have eq: "map (\<lambda>c. int (k + c) < n) [0..<length (x # xs)]
        = (int k < n) # map (\<lambda>c. int (Suc k + c) < n) [0..<length xs]"
      by (auto simp: map_upt_Suc simp del: upt_Suc)
    show ?case
    proof (cases "int k < n")
      case True
      then have "nat (n - int k) = Suc (nat (n - int (Suc k)))" by simp
      then show ?thesis unfolding eq compact_Cons Cons.IH using True by simp
    next
      case False
      then show ?thesis unfolding eq compact_Cons Cons.IH by simp
    qed
  qed (simp add: compact_def)
  from this[of 0] show ?thesis by simp
qed

section \<open>The plan reads what the gather reads\<close>

text \<open>A table and lengths that fit each other: pages enough for every sequence.\<close>

definition table_fits :: "nat \<Rightarrow> nat \<Rightarrow> nat list list \<Rightarrow> int list \<Rightarrow> bool" where
  "table_fits bs mb bt sl \<longleftrightarrow> 0 < bs \<and> length bt = length sl \<and> (\<forall>row \<in> set bt. length row = mb)
     \<and> (\<forall>s \<in> set sl. 0 \<le> s \<and> s \<le> int mb * int bs)"

lemma page_count_bounds:
  assumes "0 < bs" "0 \<le> s" "s \<le> int mb * int bs"
  shows "0 \<le> (s + int bs - 1) div int bs" "(s + int bs - 1) div int bs \<le> int mb"
    "s \<le> (s + int bs - 1) div int bs * int bs" "0 < s \<Longrightarrow> ((s + int bs - 1) div int bs - 1) * int bs < s"
proof -
  let ?n = "(s + int bs - 1) div int bs"
  have b: "0 < int bs" using assms(1) by simp
  show "0 \<le> ?n" using assms by (simp add: pos_imp_zdiv_nonneg_iff)
  have k: "k \<le> ?n \<longleftrightarrow> k * int bs \<le> s + int bs - 1" for k by (rule le_div_iff_mult[OF b])
  have "\<not> int mb + 1 \<le> ?n" unfolding k using assms(3) b by (simp add: algebra_simps)
  then show "?n \<le> int mb" by simp
  have "\<not> ?n + 1 \<le> ?n" by simp
  then have "s + int bs - 1 < (?n + 1) * int bs" unfolding k by simp
  then show "s \<le> ?n * int bs" by (simp add: algebra_simps)
  have "?n * int bs \<le> s + int bs - 1" using k[of ?n] by simp
  then show "0 < s \<Longrightarrow> (?n - 1) * int bs < s" by (simp add: algebra_simps)
qed

lemma page_valid_eq:
  assumes "length npg = B"
  shows "page_valid mb (take (B * mb) (concat (replicate (B + k) [0..<mb]))) npg
    = concat (map (\<lambda>n. map (\<lambda>c. int c < n) [0..<mb]) npg)"
  using assms
proof (induction npg arbitrary: B)
  case (Cons n ns)
  then obtain B' where B: "B = Suc B'" "length ns = B'" by auto
  have "take (B * mb) (concat (replicate (B + k) [0..<mb]))
      = [0..<mb] @ take (B' * mb) (concat (replicate (B' + k) [0..<mb]))"
    by (simp add: B)
  then show ?case
    using Cons.IH[OF B(2)]
    by (simp add: page_valid_def zip_append) (simp add: zip_replicate2 comp_def map_replicate_const
        map_zip_map2)
qed (simp add: page_valid_def)

lemma length_concat_rows:
  "\<forall>row \<in> set bt. length row = mb \<Longrightarrow> length (concat bt) = length bt * mb"
  by (induction bt) auto

lemma count_valid:
  assumes "0 \<le> n" "n \<le> int mb"
  shows "length (filter id (map (\<lambda>c. int c < n) [0..<mb])) = nat n"
proof -
  have "length (filter id (map (\<lambda>c. int c < n) [0..<mb]))
      = length (compact (map (\<lambda>c. int c < n) [0..<length (replicate mb ())]) (replicate mb ()))"
    by (subst length_compact) simp_all
  also have "\<dots> = nat n" unfolding compact_prefix using assms by simp
  finally show ?thesis .
qed

lemma compact_table:
  assumes "length bt = length npg" "\<forall>row \<in> set bt. length row = mb"
  shows "compact (concat (map (\<lambda>n. map (\<lambda>c. int c < n) [0..<mb]) npg)) (concat bt)
    = concat (map2 (\<lambda>row n. take (nat n) row) bt npg)"
  using assms
proof (induction bt npg rule: list_induct2)
  case (Cons row bt n npg)
  have "compact (map (\<lambda>c. int c < n) [0..<mb]) row = take (nat n) row"
    using compact_prefix[of n row] Cons.prems by simp
  then show ?case using Cons by (simp add: compact_append)
qed (simp add: compact_def)

lemma count_table:
  assumes "\<forall>n \<in> set npg. 0 \<le> n \<and> n \<le> int mb"
  shows "length (filter id (concat (map (\<lambda>n. map (\<lambda>c. int c < n) [0..<mb]) npg))) = nat (sum_list npg)"
    "0 \<le> sum_list npg" "sum_list npg \<le> int (length npg * mb)"
  using assms
proof (induction npg)
  case (Cons n ns)
  { case 1
    then show ?case using Cons.IH(1,2) count_valid[of n mb] by (simp add: nat_add_distrib comp_def) }
  { case 2 then show ?case using Cons.IH(2) by simp }
  { case 3 then show ?case using Cons.IH(3) by (simp add: algebra_simps) }
qed simp_all

lemma last_cumsum: "last (0 # cumsum xs) = sum_list xs"
  by (cases xs rule: rev_cases) (simp_all add: cumsum_def)

text \<open>The indices of a plan built on fresh buffers are the used prefixes of the table rows.\<close>

lemma plan_indices:
  assumes fits: "table_fits bs mb (block_table m) (seq_lens m)" and mb: "mb = table_cols (block_table m)"
    and col: "col = concat (replicate (length (seq_lens m) + k) [0..<mb])"
      "length (seq_lens m) * mb < slen"
  shows "kv_indices (make_plan (int bs) col slen m qsl (seq_lens m)) =
    concat (map2 (\<lambda>row n. take (nat n) row) (block_table m) (page_counts (int bs) (seq_lens m)))"
proof -
  let ?npg = "page_counts (int bs) (seq_lens m)"
  let ?v = "concat (map (\<lambda>n. map (\<lambda>c. int c < n) [0..<mb]) ?npg)"
  have n: "\<forall>n \<in> set ?npg. 0 \<le> n \<and> n \<le> int mb"
    using fits page_count_bounds by (auto simp: table_fits_def page_counts_def)
  have l: "length ?npg = length (seq_lens m)" by (simp add: page_counts_def)
  have lv: "length ?v = length (concat (block_table m))"
    using fits length_concat_rows[of "block_table m" mb]
    by (simp add: table_fits_def length_concat comp_def l map_replicate_const sum_list_replicate mult.commute)
  have "page_valid mb (take (length (seq_lens m) * mb) col) ?npg = ?v"
    unfolding col(1) by (rule page_valid_eq[OF l])
  moreover have "nat (sum_list ?npg) < slen"
    using count_table(2,3)[OF n] col(2) unfolding l by linarith
  moreover have "take (length (filter id ?v)) (scatter slen (page_dest (slen - 1) ?v) (concat (block_table m)))
      = compact ?v (concat (block_table m))"
    by (rule scatter_compacts[OF lv]) (use count_table(1)[OF n] calculation(2) in simp)
  ultimately show ?thesis
    using compact_table[of "block_table m" ?npg mb] fits l
    by (simp add: make_plan_def Let_def mb[symmetric] last_cumsum count_table(1)[OF n] table_fits_def
        del: last.simps)
qed

lemma concat_segment:
  assumes "i < length xss"
  shows "take (length (xss ! i)) (drop (length (concat (take i xss))) (concat xss)) = xss ! i"
proof -
  have "concat xss = concat (take i xss) @ xss ! i @ concat (drop (Suc i) xss)"
    using id_take_nth_drop[OF assms] by (metis concat.simps(2) concat_append)
  then show ?thesis by simp
qed

lemma length_used_rows:
  assumes "length bt = length npg" "\<forall>row \<in> set bt. length row = mb"
    "\<forall>n \<in> set npg. 0 \<le> n \<and> n \<le> int mb"
  shows "length (concat (map2 (\<lambda>row n. take (nat n) row) bt npg)) = nat (sum_list npg) \<and> 0 \<le> sum_list npg"
  using assms
  by (induction bt npg rule: list_induct2) (auto simp: nat_add_distrib min_def)

lemma indptr_nth:
  "i \<le> length npg \<Longrightarrow> (0 # cumsum npg) ! i = sum_list (take i npg)"
  by (cases i) (simp_all add: cumsum_def)

text \<open>Pages \<open>a..b\<close> of a plan, and a row of the table cut to the pages in use.\<close>

lemma plan_rows_eq_gather:
  assumes fits: "table_fits bs mb (block_table m) (seq_lens m)" and mb: "mb = table_cols (block_table m)"
    and col: "col = concat (replicate (length (seq_lens m) + k) [0..<mb])"
      "length (seq_lens m) * mb < slen"
    and i: "i < length (seq_lens m)" "0 < seq_lens m ! i"
    and cache: "\<forall>b \<in> set (block_table m ! i). b < length cache" "\<forall>page \<in> set cache. length page = bs"
  shows "gather_one bs cache (take (nat (page_counts (int bs) (seq_lens m) ! i)) (block_table m ! i))
      (page_counts (int bs) (seq_lens m) ! i) (seq_lens m ! i)
    = Inr (plan_rows bs cache (make_plan (int bs) col slen m qsl (seq_lens m)) i)"
proof -
  let ?sl = "seq_lens m" let ?bt = "block_table m" let ?npg = "page_counts (int bs) ?sl"
  let ?p = "make_plan (int bs) col slen m qsl ?sl" let ?n = "?npg ! i" let ?s = "?sl ! i"
  let ?used = "map2 (\<lambda>row n. take (nat n) row) ?bt ?npg"
  have l: "length ?npg = length ?sl" "length ?bt = length ?sl" and rows: "\<forall>row \<in> set ?bt. length row = mb"
    and b: "0 < bs" using fits by (auto simp: page_counts_def table_fits_def)
  have s: "0 \<le> ?s" "?s \<le> int mb * int bs" using fits i(1) by (auto simp: table_fits_def)
  have npg: "\<forall>n \<in> set ?npg. 0 \<le> n \<and> n \<le> int mb"
    using fits page_count_bounds by (auto simp: table_fits_def page_counts_def)
  have ni: "?n = (?s + int bs - 1) div int bs" using i(1) by (simp add: page_counts_def)
  note n = page_count_bounds[OF b s, folded ni]
  have ip: "kv_indptr ?p ! j = sum_list (take j ?npg)" if "j \<le> length ?sl" for j
    using that indptr_nth[of j ?npg] l by (simp add: make_plan_def Let_def)
  have ui: "?used ! i = take (nat ?n) (?bt ! i)" using i(1) l by simp
  have lu: "length (?used ! i) = nat ?n"
    using n(2) rows i(1) l by (simp add: ui)
  have off: "length (concat (take i ?used)) = nat (sum_list (take i ?npg)) \<and> 0 \<le> sum_list (take i ?npg)"
    using length_used_rows[of "take i ?bt" "take i ?npg" mb] rows npg l
    by (simp add: take_map take_zip) (metis in_set_takeD)
  have nx: "sum_list (take (Suc i) ?npg) = sum_list (take i ?npg) + ?n"
    using i(1) l by (simp add: take_Suc_conv_app_nth)
  have seg: "take (nat ?n) (drop (nat (sum_list (take i ?npg))) (concat ?used)) = take (nat ?n) (?bt ! i)"
    using concat_segment[of i ?used] lu off i(1) l unfolding ui by simp
  have ki: "kv_indices ?p = concat ?used" by (rule plan_indices[OF fits mb col])
  have ii: "kv_indptr ?p ! i = sum_list (take i ?npg)" using ip[of i] i(1) by simp
  have cnt: "nat (kv_indptr ?p ! Suc i) - nat (sum_list (take i ?npg)) = nat ?n"
    using ip[of "Suc i"] i(1) nx off n(1) by (simp add: nat_add_distrib)
  have lp: "last_page_len ?p ! i = ?s - (?n - 1) * int bs"
    using i(1) l by (simp add: make_plan_def Let_def)
  have pr: "plan_rows bs cache ?p i
      = take ((nat ?n - 1) * bs + nat (?s - (?n - 1) * int bs)) (concat (map ((!) cache) (take (nat ?n) (?bt ! i))))"
    by (simp only: plan_rows_def Let_def ii cnt lp ki seg)
  have n1: "1 \<le> ?n" using n(3) i(2) b by (smt (verit) mult_nonneg_nonpos of_nat_0_le_iff mult.commute)
  have "int ((nat ?n - 1) * bs) = (?n - 1) * int bs" using n1 by (simp add: of_nat_diff)
  then have amount: "(nat ?n - 1) * bs + nat (?s - (?n - 1) * int bs) = nat ?s"
    using n(4)[OF i(2)] by linarith
  have ids: "list_all (\<lambda>b. b < length cache) (take (nat ?n) (?bt ! i))"
    using cache(1) by (auto simp: list_all_iff dest: in_set_takeD)
  have "length (concat (map ((!) cache) (take (nat ?n) (?bt ! i)))) = nat ?n * bs"
  proof -
    have "\<forall>page \<in> set (map ((!) cache) (take (nat ?n) (?bt ! i))). length page = bs"
      using ids cache(2) by (auto simp: list_all_iff)
    from length_concat_rows[OF this] lu show ?thesis by (simp add: ui)
  qed
  then show ?thesis
    using ids n(1) s(1) unfolding pr amount gather_one_def by (simp add: py_slice_nonneg)
qed

end
