(* ===== verification/FampKernel.thy ===== *)
theory FampKernel imports FampPrefill
begin

text \<open>
  \<open>fp16pv_prefill\<close> of \<^verbatim>\<open>flashampere/kernels.py\<close>: the declines, the batched path and the
  per-request loop. The attention kernels, the casts and the range check are fields of a
  \<open>prefill_device\<close>; the recorder inside \<^verbatim>\<open>run_fast\<close>, which only shortens how the same paged
  kernel is launched, is not modelled, so a run is one launch under the current plan.
\<close>

section \<open>Definitions\<close>

record ('r, 'q, 'o) prefill_device =
  has_fi :: bool
  pd_env :: environ
  bp_min_tokens :: int
  fi_hook_ok :: bool
  cast_q :: "'q \<Rightarrow> 'q"
  cast_row :: "'r \<Rightarrow> 'r"
  fits_fp16 :: "'q list \<Rightarrow> 'r list \<Rightarrow> 'r list \<Rightarrow> bool"
  own_prefill :: "'q list \<Rightarrow> 'r list \<Rightarrow> 'r list \<Rightarrow> causal_flag \<Rightarrow> 'o list"
  sdpa :: "'q \<Rightarrow> 'r list \<Rightarrow> 'r list \<Rightarrow> 'o"
  accepts_plan :: "page_plan \<Rightarrow> bool"
  paged_run :: "page_plan \<Rightarrow> 'r list list \<Rightarrow> 'r list list \<Rightarrow> 'q list \<Rightarrow> 'o list"

definition count_leg :: "string \<Rightarrow> fire_counters \<Rightarrow> fire_counters" where
  "count_leg leg f =
     (let f = f\<lparr>fire_calls := fire_calls f + 1, fire_seqs := fire_seqs f + 1\<rparr>
      in if leg = ''fp16pv'' then f\<lparr>fire_fp16pv := fire_fp16pv f + 1\<rparr>
         else f\<lparr>fire_bf16cvt := fire_bf16cvt f + 1\<rparr>)"

text \<open>The keys and values of one request: its own rows when fresh, else gathered.\<close>

definition request_kv ::
    "('r, 'q) call_args \<Rightarrow> attn_metadata \<Rightarrow> nat \<Rightarrow> int \<Rightarrow> int \<Rightarrow> int \<Rightarrow> ('r, 'o, 'm) famp_state
     \<Rightarrow> ('r list \<times> 'r list \<times> ('r, 'o, 'm) famp_state) res" where
  "request_kv a m i s e seq_len st =
     (if seq_len - (e - s) \<le> 0 then
        (let k = py_slice (ca_key a) s e; v = py_slice (ca_value a) s e
         in if int (length k) \<noteq> e - s \<or> int (length v) \<noteq> e - s then Inl RuntimeError
            else Inr (k, v, st\<lparr>fire := (fire st)\<lparr>fire_fresh := fire_fresh (fire st) + 1\<rparr>\<rparr>))
      else
        (let bs = page_tokens st; n_blocks = (seq_len + int bs - 1) div int bs;
             blk = py_slice (block_table m ! i) 0 n_blocks
         in bind_res (gather_one bs (k_cache st) blk n_blocks seq_len) (\<lambda>k.
              bind_res (gather_one bs (v_cache st) blk n_blocks seq_len) (\<lambda>v.
                Inr (k, v, st\<lparr>fire := (fire st)\<lparr>fire_cached := fire_cached (fire st) + 1\<rparr>\<rparr>)))))"

definition splice_rows :: "int \<Rightarrow> int \<Rightarrow> 'o list \<Rightarrow> 'o list \<Rightarrow> 'o list" where
  "splice_rows s e new old = take (nat s) old @ new @ drop (nat e) old"

definition finish_request ::
    "('r, 'q, 'o) prefill_device \<Rightarrow> attn_metadata \<Rightarrow> string \<Rightarrow> int \<Rightarrow> int \<Rightarrow> 'q list \<Rightarrow> 'r list \<Rightarrow> 'r list
     \<Rightarrow> ('r, 'o, 'm) famp_state \<Rightarrow> ('r, 'o, 'm) famp_state kernel_result" where
  "finish_request P m leg s e q k v st =
     (if leg = ''bf16cvt'' \<and> \<not> fits_fp16 P q k v then Declined st
      else
        (let q = map (cast_q P) q; k = map (cast_row P) k; v = map (cast_row P) v;
             out = (if e - s = 1 then [sdpa P (hd q) k v] else own_prefill P q k v (causal m))
         in if int (length out) \<noteq> e - s \<or> int (length (py_slice (out_rows st) s e)) \<noteq> e - s
            then Raised RuntimeError
            else Ran (st\<lparr>out_rows := splice_rows s e out (out_rows st), fire := count_leg leg (fire st)\<rparr>)))"

definition prefill_request ::
    "('r, 'q, 'o) prefill_device \<Rightarrow> ('r, 'q) call_args \<Rightarrow> attn_metadata \<Rightarrow> string \<Rightarrow> int list \<Rightarrow> int list
     \<Rightarrow> nat \<Rightarrow> ('r, 'o, 'm) famp_state \<Rightarrow> ('r, 'o, 'm) famp_state kernel_result" where
  "prefill_request P a m leg cu sl i st =
     (let s = cu ! i; e = cu ! Suc i
      in if e \<le> s then Ran st
         else case py_get sl (int i) of
           Inl err \<Rightarrow> Raised err
         | Inr seq_len \<Rightarrow>
             (let q = py_slice (ca_query a) s e
              in if int (length q) \<noteq> e - s then Raised RuntimeError
                 else case request_kv a m i s e seq_len st of
                   Inl err \<Rightarrow> Raised err
                 | Inr (k, v, st) \<Rightarrow> finish_request P m leg s e q k v st))"

fun prefill_loop ::
    "('r, 'q, 'o) prefill_device \<Rightarrow> ('r, 'q) call_args \<Rightarrow> attn_metadata \<Rightarrow> string \<Rightarrow> int list \<Rightarrow> int list
     \<Rightarrow> nat list \<Rightarrow> ('r, 'o, 'm) famp_state \<Rightarrow> ('r, 'o, 'm) famp_state kernel_result" where
  "prefill_loop P a m leg cu sl [] st = Ran st"
| "prefill_loop P a m leg cu sl (i # is) st =
     (case prefill_request P a m leg cu sl i st of
        Ran st' \<Rightarrow> prefill_loop P a m leg cu sl is st'
      | Declined st' \<Rightarrow> Declined st'
      | Raised err \<Rightarrow> Raised err)"

text \<open>A decode row mixed into the batch; the lengths are read only where a query has one row.\<close>

fun mixed_decode_row :: "int list \<Rightarrow> int list \<Rightarrow> bool res" where
  "mixed_decode_row [] sl = Inr False"
| "mixed_decode_row (q # qs) [] = (if q = 1 then Inl IndexError else mixed_decode_row qs [])"
| "mixed_decode_row (q # qs) (s # sl) = (if q = 1 \<and> s > 1 then Inr True else mixed_decode_row qs sl)"

definition batch_prefill_run ::
    "('r, 'q, 'o) prefill_device \<Rightarrow> famp_impl \<Rightarrow> ('r, 'q) call_args \<Rightarrow> attn_metadata \<Rightarrow> nat \<Rightarrow> int list
     \<Rightarrow> int list \<Rightarrow> ('r, 'o, 'm) famp_state \<Rightarrow> ('r, 'o, 'm) famp_state kernel_result" where
  "batch_prefill_run P impl a m mid qsl sl st =
     (let st = reshape_and_cache (slot_mapping m) (ca_key a) (ca_value a) st;
          skey = (num_heads impl, num_kv_heads impl, head_size impl, ca_kv_dtype a, int (page_tokens st));
          s0 = (case bp_states st skey of Some s \<Rightarrow> s | None \<Rightarrow> new_bp_state (int (page_tokens st)));
          (s1, ok) = plan_step (accepts_plan P) mid m qsl sl s0;
          st = st\<lparr>bp_states := (bp_states st)(skey \<mapsto> s1)\<rparr>
      in if \<not> ok then Declined st
         else if length (out_rows st) \<noteq> length (ca_query a) then Raised RuntimeError
         else
           (let out = paged_run P (the (bp_plan s1)) (k_cache st) (v_cache st) (ca_query a);
                f = fire st
            in Ran (st\<lparr>out_rows := out,
                      fire := f\<lparr>fire_calls := fire_calls f + 1, fire_batch := fire_batch f + 1\<rparr>\<rparr>)))"

definition batch_engages ::
    "('r, 'q, 'o) prefill_device \<Rightarrow> famp_impl \<Rightarrow> ('r, 'q) call_args \<Rightarrow> attn_metadata \<Rightarrow> string
     \<Rightarrow> int list option \<Rightarrow> int list \<Rightarrow> bool" where
  "batch_engages P impl a m leg slo qlens \<longleftrightarrow>
     envflag (pd_env P) ''VLLM_FAMP_BATCH_PREFILL'' ''0'' \<and> leg = ''fp16pv'' \<and> head_size impl \<le> 256
     \<and> ca_q_dtype a = float16 \<and> ca_kv_dtype a = float16
     \<and> query_start_loc_cpu m \<noteq> None \<and> slo \<noteq> None \<and> qlens \<noteq> [] \<and> Min (set qlens) > 1
     \<and> last (the (query_start_loc_cpu m)) \<ge> bp_min_tokens P \<and> fi_hook_ok P"

text \<open>The offsets and lengths the call works from: the host copies, or the device tensors.\<close>

definition host_lengths :: "attn_metadata \<Rightarrow> int list option \<Rightarrow> int list \<times> int list" where
  "host_lengths m slo =
     (case (query_start_loc_cpu m, slo) of
        (Some q, Some s) \<Rightarrow> (q, s)
      | _ \<Rightarrow> (query_start_loc m, seq_lens m))"

definition fp16pv_prefill ::
    "('r, 'q, 'o) prefill_device \<Rightarrow> famp_impl \<Rightarrow> ('r, 'q) call_args \<Rightarrow> attn_metadata \<Rightarrow> nat \<Rightarrow> string
     \<Rightarrow> ('r, 'o, 'm) famp_state \<Rightarrow> ('r, 'o, 'm) famp_state kernel_result" where
  "fp16pv_prefill P impl a m mid leg st =
     (if \<not> has_fi P then Declined st
      else case exact_seq_lens_cpu m (cached_seq_lens_cpu st) of
        Inl err \<Rightarrow> Raised err
      | Inr (slo, c') \<Rightarrow>
          (let st = st\<lparr>cached_seq_lens_cpu := c'\<rparr>;
               (cu, sl) = host_lengths m slo;
               n_req = length cu - 1;
               qlens = map (\<lambda>i. cu ! Suc i - cu ! i) [0..<n_req]
           in case (if head_size impl \<le> 256 then mixed_decode_row qlens sl else Inr False) of
                Inl err \<Rightarrow> Raised err
              | Inr True \<Rightarrow> Declined st
              | Inr False \<Rightarrow>
                  if batch_engages P impl a m leg slo qlens
                  then batch_prefill_run P impl a m mid cu sl st
                  else if head_size impl < 256 then Declined st
                  else prefill_loop P a m leg cu sl [0..<n_req]
                         (reshape_and_cache (slot_mapping m) (ca_key a) (ca_value a) st)))"

section \<open>What a run leaves alone\<close>

lemma request_kv_frame:
  assumes "request_kv a m i s e seq_len st = Inr (k, v, st')"
  shows "attn_tensors.truncate st' = attn_tensors.truncate st"
  using assms
  by (auto simp: request_kv_def Let_def bind_res_eq_Inr attn_tensors.truncate_def split: if_splits)

definition kv_frame :: "('r, 'o, 'm) famp_state \<Rightarrow> ('r, 'o, 'm) famp_state \<Rightarrow> bool" where
  "kv_frame st st' \<longleftrightarrow> page_tokens st' = page_tokens st \<and> k_cache st' = k_cache st \<and> v_cache st' = v_cache st"

lemma kv_frame_trans: "kv_frame a b \<Longrightarrow> kv_frame b c \<Longrightarrow> kv_frame a c"
  by (simp add: kv_frame_def)

text \<open>The rows past \<open>n\<close> are untouched as long as every request ends at or before \<open>n\<close>.\<close>

lemma drop_splice:
  assumes "0 \<le> s" "s \<le> e" "e \<le> int n" "int (length new) = e - s" "nat e \<le> length old"
  shows "drop n (splice_rows s e new old) = drop n old" "length (splice_rows s e new old) = length old"
proof -
  have l: "length (take (nat s) old @ new) = nat e" using assms by simp
  show "length (splice_rows s e new old) = length old"
    using assms l by (simp add: splice_rows_def)
  have "drop n (splice_rows s e new old) = drop (n - nat e) (drop (nat e) old)"
    using assms l unfolding splice_rows_def append_assoc[symmetric] by (subst drop_append) simp
  then show "drop n (splice_rows s e new old) = drop n old" using assms by simp
qed

lemma finish_cases:
  assumes "finish_request P m leg s e q k v st = r"
  shows "r = Declined st \<or> r = Raised RuntimeError \<or>
    (\<exists>out. int (length out) = e - s \<and> int (length (py_slice (out_rows st) s e)) = e - s
       \<and> r = Ran (st\<lparr>out_rows := splice_rows s e out (out_rows st), fire := count_leg leg (fire st)\<rparr>))"
proof (cases "leg = ''bf16cvt'' \<and> \<not> fits_fp16 P q k v")
  case True
  then show ?thesis using assms by (simp add: finish_request_def)
next
  case False
  let ?out = "if e - s = 1 then [sdpa P (hd (map (cast_q P) q)) (map (cast_row P) k) (map (cast_row P) v)]
    else own_prefill P (map (cast_q P) q) (map (cast_row P) k) (map (cast_row P) v) (causal m)"
  have "r = (if int (length ?out) \<noteq> e - s \<or> int (length (py_slice (out_rows st) s e)) \<noteq> e - s
      then Raised RuntimeError
      else Ran (st\<lparr>out_rows := splice_rows s e ?out (out_rows st), fire := count_leg leg (fire st)\<rparr>))"
    using assms False unfolding finish_request_def Let_def by (simp only: if_False)
  then show ?thesis
    by (cases "int (length ?out) \<noteq> e - s \<or> int (length (py_slice (out_rows st) s e)) \<noteq> e - s")
      (simp, intro disjI2 exI[of _ ?out], simp)
qed

lemma prefill_request_frame:
  assumes "prefill_request P a m leg cu sl i st = Ran st' \<or> prefill_request P a m leg cu sl i st = Declined st'"
    and "0 \<le> cu ! i" "cu ! Suc i \<le> int n"
  shows "kv_frame st st' \<and> drop n (out_rows st') = drop n (out_rows st)
    \<and> length (out_rows st') = length (out_rows st)"
proof (cases "cu ! Suc i \<le> cu ! i")
  case True
  then show ?thesis using assms(1) by (auto simp: prefill_request_def kv_frame_def)
next
  case False
  let ?s = "cu ! i" let ?e = "cu ! Suc i" let ?q = "py_slice (ca_query a) ?s ?e"
  from False assms(1) obtain seq_len k v st1 where
      kv: "request_kv a m i ?s ?e seq_len st = Inr (k, v, st1)" and
      fin: "finish_request P m leg ?s ?e ?q k v st1 = Ran st' \<or> finish_request P m leg ?s ?e ?q k v st1 = Declined st'"
    unfolding prefill_request_def Let_def by (auto split: sum.splits if_splits)
  have r: "st' = st1 \<or> (\<exists>out. int (length out) = ?e - ?s \<and> int (length (py_slice (out_rows st1) ?s ?e)) = ?e - ?s
      \<and> st' = st1\<lparr>out_rows := splice_rows ?s ?e out (out_rows st1), fire := count_leg leg (fire st1)\<rparr>)"
    using fin finish_cases[OF refl, of P m leg ?s ?e ?q k v st1] by (elim disjE) auto
  have f: "kv_frame st st1" "out_rows st1 = out_rows st"
    using request_kv_frame[OF kv] by (auto simp: kv_frame_def attn_tensors.truncate_def)
  from r show ?thesis
  proof (elim disjE exE conjE)
    fix out
    assume o: "int (length out) = ?e - ?s" "int (length (py_slice (out_rows st1) ?s ?e)) = ?e - ?s"
      "st' = st1\<lparr>out_rows := splice_rows ?s ?e out (out_rows st1), fire := count_leg leg (fire st1)\<rparr>"
    have "nat ?e \<le> length (out_rows st1)"
      using o(2) assms(2) False by (simp add: py_slice_nonneg)
    from drop_splice[OF assms(2) _ assms(3) o(1) this] False f o(3) show ?thesis
      by (simp add: kv_frame_def)
  qed (use f in simp)
qed

lemma prefill_loop_frame:
  assumes "prefill_loop P a m leg cu sl is st = Ran st' \<or> prefill_loop P a m leg cu sl is st = Declined st'"
    and "\<And>i. i \<in> set is \<Longrightarrow> 0 \<le> cu ! i \<and> cu ! Suc i \<le> int n"
  shows "kv_frame st st' \<and> drop n (out_rows st') = drop n (out_rows st)
    \<and> length (out_rows st') = length (out_rows st)"
  using assms
proof (induction "is" arbitrary: st)
  case Nil
  then show ?case by (auto simp: kv_frame_def)
next
  case (Cons i "is")
  have b: "0 \<le> cu ! i" "cu ! Suc i \<le> int n" using Cons.prems(2)[of i] by simp_all
  show ?case
  proof (cases "prefill_request P a m leg cu sl i st")
    case (Ran st1)
    have f1: "kv_frame st st1 \<and> drop n (out_rows st1) = drop n (out_rows st)
        \<and> length (out_rows st1) = length (out_rows st)"
      using prefill_request_frame[of P a m leg cu sl i st st1 n] Ran b by simp
    have "kv_frame st1 st' \<and> drop n (out_rows st') = drop n (out_rows st1)
        \<and> length (out_rows st') = length (out_rows st1)"
      by (rule Cons.IH) (use Ran Cons.prems in auto)
    then show ?thesis using f1 kv_frame_trans by auto
  next
    case (Declined st1)
    then have "prefill_request P a m leg cu sl i st = Declined st'" using Cons.prems(1) by auto
    then show ?thesis using prefill_request_frame[of P a m leg cu sl i st st' n] b by simp
  next
    case (Raised err)
    then show ?thesis using Cons.prems(1) by simp
  qed
qed

text \<open>The query offsets of a batch of \<open>n\<close> tokens.\<close>

definition offsets_ok :: "nat \<Rightarrow> int list \<Rightarrow> bool" where
  "offsets_ok n cu \<longleftrightarrow> (\<forall>i. Suc i < length cu \<longrightarrow> 0 \<le> cu ! i \<and> cu ! Suc i \<le> int n)"

definition batch_ok :: "nat \<Rightarrow> attn_metadata \<Rightarrow> bool" where
  "batch_ok n m \<longleftrightarrow> offsets_ok n (query_start_loc m) \<and>
     (\<forall>q. query_start_loc_cpu m = Some q \<longrightarrow> offsets_ok n q)"

definition kv_written :: "('r, 'q) call_args \<Rightarrow> attn_metadata \<Rightarrow> ('r, 'o, 'm) famp_state \<Rightarrow> bool" where
  "kv_written a m st \<longleftrightarrow>
     k_cache (reshape_and_cache (slot_mapping m) (ca_key a) (ca_value a) st) = k_cache st \<and>
     v_cache (reshape_and_cache (slot_mapping m) (ca_key a) (ca_value a) st) = v_cache st"

lemma kv_written_frame: "kv_frame st st' \<Longrightarrow> kv_written a m st \<Longrightarrow> kv_written a m st'"
  by (simp add: kv_written_def kv_frame_def reshape_and_cache_def)

lemma write_kv_frame:
  "kv_written a m st \<Longrightarrow> kv_frame st (reshape_and_cache (slot_mapping m) (ca_key a) (ca_value a) st)"
  by (simp add: kv_written_def kv_frame_def)

lemma batch_decline_frame:
  assumes "batch_prefill_run P impl a m mid qsl sl st = Declined st'" "kv_written a m st"
  shows "kv_frame st st' \<and> out_rows st' = out_rows st"
  using assms(1) write_kv_frame[OF assms(2)]
  by (auto simp: batch_prefill_run_def Let_def kv_frame_def split: prod.splits if_splits)

text \<open>A declined call leaves the cache as it was and every row outside the batch.\<close>

lemma fp16pv_decline_frame:
  assumes d: "fp16pv_prefill P impl a m mid leg st = Declined st'"
    and w: "kv_written a m st" and b: "batch_ok n m"
  shows "kv_frame st st' \<and> drop n (out_rows st') = drop n (out_rows st)
    \<and> length (out_rows st') = length (out_rows st)"
proof (cases "has_fi P")
  case False
  then show ?thesis using d by (simp add: fp16pv_prefill_def kv_frame_def)
next
  case True
  from d True obtain slo c' where x: "exact_seq_lens_cpu m (cached_seq_lens_cpu st) = Inr (slo, c')"
    by (auto simp: fp16pv_prefill_def split: sum.splits)
  obtain cu sl where cs: "host_lengths m slo = (cu, sl)"
    by (meson surj_pair)
  let ?st = "st\<lparr>cached_seq_lens_cpu := c'\<rparr>"
  let ?w = "reshape_and_cache (slot_mapping m) (ca_key a) (ca_value a) ?st"
  have cu: "offsets_ok n cu" using cs b by (auto simp: batch_ok_def host_lengths_def split: option.splits)
  have f0: "kv_frame st ?st" "kv_written a m ?st" "kv_frame ?st ?w"
    using w write_kv_frame[of a m ?st] by (simp_all add: kv_frame_def kv_written_def reshape_and_cache_def)
  let ?qlens = "map (\<lambda>i. cu ! Suc i - cu ! i) [0..<length cu - 1]"
  let ?rest = "if batch_engages P impl a m leg slo ?qlens then batch_prefill_run P impl a m mid cu sl ?st
    else if head_size impl < 256 then Declined ?st
    else prefill_loop P a m leg cu sl [0..<length cu - 1] ?w"
  have "fp16pv_prefill P impl a m mid leg st =
      (case (if head_size impl \<le> 256 then mixed_decode_row ?qlens sl else Inr False) of
         Inl err \<Rightarrow> Raised err | Inr True \<Rightarrow> Declined ?st | Inr False \<Rightarrow> ?rest)"
    by (simp only: fp16pv_prefill_def x cs sum.case prod.case Let_def True not_True_eq_False if_False)
  then have "st' = ?st \<or> ?rest = Declined st'"
    using d by (cases "if head_size impl \<le> 256 then mixed_decode_row ?qlens sl else Inr False")
      (simp_all only: sum.case split: bool.splits, simp_all)
  then consider "st' = ?st" | "batch_prefill_run P impl a m mid cu sl ?st = Declined st'"
    | "prefill_loop P a m leg cu sl [0..<length cu - 1] ?w = Declined st'"
    by (metis (no_types, lifting) kernel_result.inject(2))
  then show ?thesis
  proof cases
    case 1
    then show ?thesis by (simp add: kv_frame_def)
  next
    case 2
    from batch_decline_frame[OF this f0(2)] kv_frame_trans[OF f0(1)] show ?thesis by auto
  next
    case 3
    have "kv_frame ?w st' \<and> drop n (out_rows st') = drop n (out_rows ?w)
        \<and> length (out_rows st') = length (out_rows ?w)"
    proof (rule prefill_loop_frame)
      show "prefill_loop P a m leg cu sl [0..<length cu - 1] ?w = Ran st'
          \<or> prefill_loop P a m leg cu sl [0..<length cu - 1] ?w = Declined st'" using 3 by (rule disjI2)
    qed (use cu in \<open>simp add: offsets_ok_def\<close>)
    then show ?thesis using kv_frame_trans[OF f0(1) f0(3)] kv_frame_trans by auto
  qed
qed

end
