(* ===== verification/FampSink.thy ===== *)
theory FampSink imports FampXqa FampKernel
begin

text \<open>
  The two fast legs under the sink contract: the model's own kernels, next to a stock
  attention that computes every row of the batch from the caches and overwrites it, satisfy
  the contract of \<open>FampForward\<close>, so a forward pass of the default table either is stock
  attention or is the run of one enabled leg.
\<close>

section \<open>The kernels of a layer\<close>

text \<open>
  \<open>rows\<close> is what stock attention computes from the two caches, one row per token of the batch;
  \<open>hd512\<close> stands for the wide-head decode, which a head size of at most 256 never reaches.
\<close>

definition stock_attention ::
    "('r list list \<Rightarrow> 'r list list \<Rightarrow> 'o list) \<Rightarrow> ('r, 'o, 'm) famp_state \<Rightarrow> ('r, 'o, 'm) famp_state res" where
  "stock_attention rows st =
     (let out = rows (k_cache st) (v_cache st)
      in Inr (st\<lparr>out_rows := out @ drop (length out) (out_rows st)\<rparr>))"

definition layer_kernels ::
    "('r, 'q, 'o, 'm) xqa_device \<Rightarrow> ('r, 'q, 'o) prefill_device \<Rightarrow> ('r list list \<Rightarrow> 'r list list \<Rightarrow> 'o list)
     \<Rightarrow> (('r, 'o, 'm) famp_state \<Rightarrow> ('r, 'o, 'm) famp_state kernel_result) \<Rightarrow> famp_impl
     \<Rightarrow> ('r, 'q) call_args \<Rightarrow> attn_metadata \<Rightarrow> nat \<Rightarrow> ('r, 'o, 'm) famp_state famp_kernels" where
  "layer_kernels E P rows hd512 impl a m mid =
     \<lparr>stock_forward = stock_attention rows,
      fp16pv_kernel = fp16pv_prefill P impl a m mid,
      xqa_kernel = xqa_verify E impl a m,
      decode_hd512_kernel = hd512\<rparr>"

lemma layer_kernels_sel [simp]:
  "stock_forward (layer_kernels E P rows hd512 impl a m mid) = stock_attention rows"
  "fp16pv_kernel (layer_kernels E P rows hd512 impl a m mid) = fp16pv_prefill P impl a m mid"
  "xqa_kernel (layer_kernels E P rows hd512 impl a m mid) = xqa_verify E impl a m"
  by (simp_all add: layer_kernels_def)

text \<open>
  The state a forward pass starts from: the framework has already written the new rows into
  the cache, and stock attention covers the batch.
\<close>

definition call_ok ::
    "('r list list \<Rightarrow> 'r list list \<Rightarrow> 'o list) \<Rightarrow> ('r, 'q) call_args \<Rightarrow> attn_metadata
     \<Rightarrow> ('r, 'o, 'm) famp_state \<Rightarrow> bool" where
  "call_ok rows a m st \<longleftrightarrow> kv_written a m st \<and>
     batch_ok (length (rows (k_cache st) (v_cache st))) m"

definition visible :: "('r, 'o, 'm) famp_state \<Rightarrow> 'r list list \<times> 'r list list \<times> 'o list" where
  "visible st = (k_cache st, v_cache st, out_rows st)"

lemma stock_visible:
  assumes "kv_frame st st'" "drop (length (rows (k_cache st) (v_cache st))) (out_rows st')
      = drop (length (rows (k_cache st) (v_cache st))) (out_rows st)"
  shows "obs_res visible (stock_attention rows st') = obs_res visible (stock_attention rows st)"
  using assms by (simp add: stock_attention_def Let_def visible_def kv_frame_def)

lemma call_ok_frame: "kv_frame st st' \<Longrightarrow> call_ok rows a m st \<Longrightarrow> call_ok rows a m st'"
  using kv_written_frame by (auto simp: call_ok_def kv_frame_def)

lemma xqa_decline_frame:
  assumes "xqa_verify E impl a m st = Declined st'" "kv_written a m st"
  shows "kv_frame st st' \<and> out_rows st' = out_rows st"
proof (cases "max_query_len m")
  case None
  then show ?thesis using assms(1) by (simp add: xqa_verify_def)
next
  case (Some q)
  let ?st = "reshape_and_cache (slot_mapping m) (ca_key a) (ca_value a) st"
  have "st' \<in> {st, log_unsupported_page st, ?st, ?st\<lparr>declined_capture_warned := True\<rparr>}"
    using assms(1)
    by (auto simp: xqa_verify_def Some Let_def xqa_launch_not_declined
        split: if_splits sum.splits prod.splits)
  then show ?thesis
    using write_kv_frame[OF assms(2)] by (auto simp: kv_frame_def log_unsupported_page_def)
qed

interpretation famp: sink_contract "layer_kernels E P rows hd512 impl a m mid" "call_ok rows a m" visible
proof
  fix n s s'
  assume ok: "call_ok rows a m s"
    and d: "fp16pv_kernel (layer_kernels E P rows hd512 impl a m mid) n s = Declined s'"
  have f: "kv_frame s s' \<and> drop (length (rows (k_cache s) (v_cache s))) (out_rows s')
      = drop (length (rows (k_cache s) (v_cache s))) (out_rows s) \<and> length (out_rows s') = length (out_rows s)"
    using ok d by (intro fp16pv_decline_frame[of P impl a m mid n]) (simp_all add: call_ok_def)
  then show "call_ok rows a m s' \<and>
      obs_res visible (stock_forward (layer_kernels E P rows hd512 impl a m mid) s')
        = obs_res visible (stock_forward (layer_kernels E P rows hd512 impl a m mid) s)"
    using stock_visible[of s s' rows] call_ok_frame[of s s' rows a m] ok by simp
next
  fix s s'
  assume ok: "call_ok rows a m s"
    and d: "xqa_kernel (layer_kernels E P rows hd512 impl a m mid) s = Declined s'"
  have f: "kv_frame s s' \<and> out_rows s' = out_rows s"
    using ok d by (intro xqa_decline_frame[of E impl a m]) (simp_all add: call_ok_def)
  then show "call_ok rows a m s' \<and>
      obs_res visible (stock_forward (layer_kernels E P rows hd512 impl a m mid) s')
        = obs_res visible (stock_forward (layer_kernels E P rows hd512 impl a m mid) s)"
    using stock_visible[of s s' rows] call_ok_frame[of s s' rows a m] ok by simp
qed

text \<open>
  Property C14. Declining is never a correctness compromise: for head sizes up to 256, whatever
  the legs try and give up on along the way, partial writes included, a forward pass that
  returns has either produced exactly the caches and the rows stock attention produces from
  the state it was given, or it is the completed run of one leg that the routing table lists
  for this call and that is enabled, started on the same caches.
\<close>

theorem decline_is_invisible:
  assumes "call_ok rows a m s" "head_size impl \<le> 256"
    and "forward T (layer_kernels E P rows hd512 impl a m mid) capturing impl qdt (Some m) os ob s = Inr s'"
  shows "obs_res visible (stock_attention rows s) = Inr (visible s') \<or>
    (\<exists>e s1. e \<in> set (resolve T (key_of impl qdt (classify impl m)))
       \<and> enabled (layer_caps impl) (entry_name e) \<and> (capturing \<longrightarrow> capture_safe e)
       \<and> call_ok rows a m s1
       \<and> obs_res visible (stock_attention rows s1) = obs_res visible (stock_attention rows s)
       \<and> run_leg (layer_kernels E P rows hd512 impl a m mid) (entry_name e) s1 = Ran s')"
  using famp.forward_result[OF assms] unfolding famp.like_def layer_kernels_sel by blast

definition example_written :: "(int, int, unit) famp_state" where
  "example_written = reshape_and_cache (slot_mapping example_metadata) (ca_key example_call)
     (ca_value example_call) example_famp_state"

definition example_prefill :: "(int, int, int) prefill_device" where
  "example_prefill = \<lparr>has_fi = True, pd_env = (\<lambda>_. None), bp_min_tokens = 512, fi_hook_ok = True,
     cast_q = id, cast_row = id, fits_fp16 = (\<lambda>q k v. list_all (\<lambda>x. \<bar>x\<bar> \<le> 65504) (q @ k @ v)),
     own_prefill = (\<lambda>q k v _. map (\<lambda>x. x + sum_list k + sum_list v) q),
     sdpa = (\<lambda>q k v. q + sum_list k + sum_list v), accepts_plan = (\<lambda>_. True),
     paged_run = (\<lambda>_ _ _ q. q)\<rparr>"

definition example_rows :: "int list list \<Rightarrow> int list list \<Rightarrow> int list" where
  "example_rows k v = [k ! 1 ! 3, k ! 1 ! 4, v ! 3 ! 7, v ! 3 ! 8]"

abbreviation example_layer :: "(int, int, unit) famp_state famp_kernels" where
  "example_layer \<equiv> layer_kernels example_xqa example_prefill example_rows Declined example_impl
     example_call example_metadata 0"

definition example_end :: "(int, int, unit) famp_state" where
  "example_end = (reshape_and_cache (slot_mapping example_metadata) (ca_key example_call)
      (ca_value example_call) example_written)\<lparr>declined_capture_warned := True\<rparr>"

lemma example_rewrite:
  "fold (write_slot 16) (zip [19, 20, 55, 56] [11, 12, 13, 14])
     (fold (write_slot 16) (zip [19, 20, 55, 56] [11, 12, 13, 14]) (replicate 4 (replicate 16 (0 :: int))))
   = fold (write_slot 16) (zip [19, 20, 55, 56] [11, 12, 13, 14]) (replicate 4 (replicate 16 0))"
  "fold (write_slot 16) (zip [19, 20, 55, 56] [21, 22, 23, 24])
     (fold (write_slot 16) (zip [19, 20, 55, 56] [21, 22, 23, 24]) (replicate 4 (replicate 16 (0 :: int))))
   = fold (write_slot 16) (zip [19, 20, 55, 56] [21, 22, 23, 24]) (replicate 4 (replicate 16 0))"
  by code_simp+

lemma example_call_ok: "call_ok example_rows example_call example_metadata example_written"
proof -
  have sel: "page_tokens example_famp_state = 16" "k_cache example_famp_state = replicate 4 (replicate 16 0)"
      "v_cache example_famp_state = replicate 4 (replicate 16 0)"
      "slot_mapping example_metadata = [19, 20, 55, 56]" "ca_key example_call = [11, 12, 13, 14]"
      "ca_value example_call = [21, 22, 23, 24]"
    by (simp_all add: example_famp_state_def example_metadata_def example_call_def)
  have "kv_written example_call example_metadata example_written"
    unfolding kv_written_def example_written_def write_kv write_frame sel
    by (intro conjI example_rewrite)
  moreover have "batch_ok 4 example_metadata"
    by (simp add: batch_ok_def offsets_ok_def example_metadata_def less_Suc_eq numeral_2_eq_2
        numeral_3_eq_3 all_conj_distrib imp_conjL)
  moreover have "length (example_rows k v) = 4" for k v by (simp add: example_rows_def)
  ultimately show ?thesis by (simp add: call_ok_def)
qed

lemma example_sinks:
  "forward default_table example_layer True example_impl float16 (Some example_metadata) False False
     example_written = stock_attention example_rows example_end"
proof -
  have cl: "classify example_impl example_metadata = VERIFY"
    by (simp add: classify_def example_metadata_def example_impl_def new_impl_def Let_def
        verify_upper_bound_def example_builder_def base_impl.extend_def)
  have vl: "verify_leg example_impl"
    by (simp add: verify_leg_def example_impl_def new_impl_def Let_def example_base_def
        base_impl.extend_def is_quantized_kv_cache_def starts_with_def ends_with_def example_builder_def
        enabled_def)
  have ms: "\<not> must_sink example_impl example_metadata False False"
    by (simp add: must_sink_def example_impl_def new_impl_def Let_def example_base_def
        base_impl.extend_def nonplain_metadata_def example_metadata_def is_tensor_def norm_window_def)
  have st: "modules example_written = (\<lambda>_. None)" "page_tokens example_written = 16"
      "\<not> declined_capture_warned (reshape_and_cache (slot_mapping example_metadata) (ca_key example_call)
         (ca_value example_call) example_written)"
    by (simp_all add: example_written_def reshape_and_cache_def example_famp_state_def)
  have m: "max_query_len example_metadata = Some 2" "num_actual_tokens example_metadata = 4"
      "length (seq_lens example_metadata) = 2" "ca_q_dtype example_call = float16" "ca_capturing example_call"
    by (simp_all add: example_metadata_def example_call_def)
  have "xqa_verify example_xqa example_impl example_call example_metadata example_written
      = Declined example_end"
    using st m by (simp add: xqa_verify_def example_end_def Let_def is_supported_page_size_def)
  then show ?thesis
    unfolding forward_direct direct_forward_def using cl vl ms by (simp add: or_stock_def)
qed

theorem decline_is_invisible_witness:
  "forward default_table example_layer True example_impl float16 (Some example_metadata) False False
     example_written = stock_attention example_rows example_end
   \<and> (\<exists>s'. stock_attention example_rows example_end = Inr s'
        \<and> (obs_res visible (stock_attention example_rows example_written) = Inr (visible s')
           \<or> (\<exists>e. e \<in> set (resolve default_table (key_of example_impl float16
                      (classify example_impl example_metadata))))))"
proof -
  obtain s' where s': "stock_attention example_rows example_end = Inr s'"
    by (simp add: stock_attention_def Let_def)
  have "forward default_table example_layer True example_impl float16 (Some example_metadata) False False
     example_written = Inr s'" using example_sinks s' by simp
  from decline_is_invisible[OF example_call_ok _ this] s' example_sinks show ?thesis by auto
qed

end
