(* ===== verification/FampBatch.thy ===== *)
theory FampBatch imports FampSink
begin

text \<open>
  The batched prefill path of \<^verbatim>\<open>flashampere/kernels.py\<close> against the per-request one: with a
  paged kernel that attends each request's queries to the rows its plan names, both write the
  same output rows.
\<close>

section \<open>Reading back what was written\<close>

lemma write_slot_shape:
  assumes "\<forall>page \<in> set cache. length page = bs"
  shows "length (write_slot bs sr cache) = length cache" "\<forall>page \<in> set (write_slot bs sr cache). length page = bs"
proof -
  show "length (write_slot bs sr cache) = length cache"
    by (simp add: write_slot_def Let_def split: prod.split)
  show "\<forall>page \<in> set (write_slot bs sr cache). length page = bs"
  proof
    fix page assume p: "page \<in> set (write_slot bs sr cache)"
    obtain slot row where sr: "sr = (slot, row)" by fastforce
    show "length page = bs"
    proof (cases "slot < 0 \<or> length cache \<le> nat slot div bs")
      case True
      then have "write_slot bs sr cache = cache" by (auto simp: write_slot_def sr Let_def list_update_beyond)
      then show ?thesis using p assms by simp
    next
      case False
      then have "page \<in> insert ((cache ! (nat slot div bs))[nat slot mod bs := row]) (set cache)"
        using p set_update_subset_insert[of cache] by (auto simp: write_slot_def sr Let_def)
      then show ?thesis using assms False by auto
    qed
  qed
qed

lemma fold_write_shape:
  assumes "\<forall>page \<in> set cache. length page = bs"
  shows "length (fold (write_slot bs) xs cache) = length cache
    \<and> (\<forall>page \<in> set (fold (write_slot bs) xs cache). length page = bs)"
  using assms
proof (induction xs arbitrary: cache)
  case (Cons x xs)
  from Cons.IH[OF write_slot_shape(2)[OF Cons.prems]] write_slot_shape(1)[OF Cons.prems]
  show ?case by simp
qed simp

lemma slot_place:
  assumes "0 < bs" "off < bs"
  shows "nat (int (b * bs + off)) div bs = b" "nat (int (b * bs + off)) mod bs = off"
  using assms by (simp_all del: of_nat_add of_nat_mult)

lemma write_slot_other:
  assumes "0 < bs" "off < bs" "slot \<noteq> int (b * bs + off)"
  shows "write_slot bs (slot, row) cache ! b ! off = cache ! b ! off"
proof (cases "slot < 0 \<or> nat slot div bs \<noteq> b")
  case True
  then show ?thesis by (auto simp: write_slot_def Let_def)
next
  case False
  have "nat slot mod bs \<noteq> off"
  proof
    assume "nat slot mod bs = off"
    then have "nat slot = b * bs + off" using False div_mult_mod_eq[of "nat slot" bs] by simp
    then have "int (nat slot) = int (b * bs + off)" by (simp only:)
    then show False using False assms(3) by (simp del: of_nat_add of_nat_mult)
  qed
  then show ?thesis using False
    by (cases "b < length cache") (auto simp: write_slot_def Let_def list_update_beyond)
qed

lemma fold_write_other:
  assumes "0 < bs" "off < bs" "int (b * bs + off) \<notin> fst ` set xs"
  shows "fold (write_slot bs) xs cache ! b ! off = cache ! b ! off"
  using assms
proof (induction xs arbitrary: cache)
  case (Cons x xs)
  obtain slot row where x: "x = (slot, row)" by fastforce
  have "slot \<noteq> int (b * bs + off)" using Cons.prems(3) by (auto simp: x)
  then show ?case
    using Cons.IH[of "write_slot bs x cache"] write_slot_other[OF assms(1,2)] Cons.prems
    by (simp add: x)
qed simp

lemma write_read:
  assumes "0 < bs" "off < bs" "b < length cache" "\<forall>page \<in> set cache. length page = bs"
    and "distinct slots" "length rows = length slots" "j < length slots" "slots ! j = int (b * bs + off)"
  shows "fold (write_slot bs) (zip slots rows) cache ! b ! off = rows ! j"
proof -
  let ?pre = "zip (take j slots) (take j rows)" let ?post = "zip (drop (Suc j) slots) (drop (Suc j) rows)"
  let ?c = "fold (write_slot bs) ?pre cache"
  have split: "zip slots rows = ?pre @ (slots ! j, rows ! j) # ?post"
    using id_take_nth_drop[of j "zip slots rows"] assms(6,7) by (simp add: take_zip drop_zip)
  have c: "b < length ?c" "length (?c ! b) = bs"
    using fold_write_shape[OF assms(4), of ?pre] assms(3) by simp_all
  have "distinct (take j slots @ slots ! j # drop (Suc j) slots)"
    using assms(5) id_take_nth_drop[OF assms(7)] by simp
  then have "slots ! j \<notin> set (drop (Suc j) slots)" by simp
  then have post: "int (b * bs + off) \<notin> fst ` set ?post"
    using assms(8) by (auto dest: set_zip_leftD)
  have "fold (write_slot bs) (zip slots rows) cache ! b ! off
      = fold (write_slot bs) ?post (write_slot bs (slots ! j, rows ! j) ?c) ! b ! off"
    unfolding split by simp
  also have "\<dots> = write_slot bs (slots ! j, rows ! j) ?c ! b ! off"
    by (rule fold_write_other[OF assms(1,2) post])
  also have "\<dots> = rows ! j"
    using c assms(1,2) unfolding assms(8) by (simp add: write_slot_def Let_def slot_place del: of_nat_add of_nat_mult)
  finally show ?thesis .
qed

text \<open>A gathered row, by its position in the sequence.\<close>

lemma gather_nth:
  assumes g: "gather_one bs cache blk n s = Inr rows" and s: "0 \<le> s"
    and pages: "\<forall>page \<in> set cache. length page = bs" and p: "p < length rows"
  shows "rows ! p = cache ! (blk ! (p div bs)) ! (p mod bs)"
proof -
  have r: "rows = take (nat s) (concat (map ((!) cache) blk))" and ids: "\<forall>b \<in> set blk. b < length cache"
    using g s by (auto simp: gather_one_def py_slice_nonneg list_all_iff split: if_splits)
  have len: "length (cache ! b) = bs" if "b \<in> set blk" for b
    using ids pages that by (simp add: nth_mem)
  have "p < bs * length blk"
    using p unfolding r using length_concat_const[of blk "(!) cache" bs] len by simp
  then show ?thesis
    using nth_concat_const[of blk "(!) cache" bs p] len p by (simp add: r)
qed

section \<open>A consistent prefill batch\<close>

text \<open>
  What the scheduler hands to an attention layer for a batch of prefill chunks: offsets that
  tile the query, a page table that fits the lengths, and slots that are the places of the new
  tokens at the end of each sequence.
\<close>

definition slots_match :: "nat \<Rightarrow> attn_metadata \<Rightarrow> int list \<Rightarrow> bool" where
  "slots_match bs m qsl \<longleftrightarrow>
     (\<forall>i < length (seq_lens m). \<forall>j < nat (qsl ! Suc i - qsl ! i).
        (let p = nat (seq_lens m ! i - (qsl ! Suc i - qsl ! i)) + j
         in slot_mapping m ! (nat (qsl ! i) + j) = int (block_table m ! i ! (p div bs) * bs + p mod bs)))"

definition batch_consistent ::
    "nat \<Rightarrow> nat \<Rightarrow> int list \<Rightarrow> ('r, 'q) call_args \<Rightarrow> attn_metadata \<Rightarrow> ('r, 'o, 'm) famp_state \<Rightarrow> bool" where
  "batch_consistent bs mb qsl a m st \<longleftrightarrow>
     page_tokens st = bs \<and> table_fits bs mb (block_table m) (seq_lens m)
     \<and> mb = table_cols (block_table m) \<and> 0 < mb
     \<and> (\<forall>row \<in> set (block_table m). \<forall>b \<in> set row. b < length (k_cache st) \<and> b < length (v_cache st))
     \<and> (\<forall>page \<in> set (k_cache st). length page = bs) \<and> (\<forall>page \<in> set (v_cache st). length page = bs)
     \<and> query_start_loc_cpu m = Some qsl \<and> length qsl = Suc (length (seq_lens m)) \<and> seq_lens m \<noteq> []
     \<and> qsl ! 0 = 0
     \<and> (\<forall>i < length (seq_lens m). 1 < qsl ! Suc i - qsl ! i \<and> qsl ! Suc i - qsl ! i \<le> seq_lens m ! i)
     \<and> last qsl = int (length (ca_query a)) \<and> last qsl = int (length (ca_key a))
     \<and> last qsl = int (length (ca_value a)) \<and> last qsl = int (length (slot_mapping m))
     \<and> last qsl = int (length (out_rows st))
     \<and> distinct (slot_mapping m) \<and> slots_match bs m qsl"

lemma offsets_mono:
  assumes "length qsl = Suc n" "\<forall>i < n. 1 < qsl ! Suc i - qsl ! i" "qsl ! 0 = (0 :: int)"
    and "i \<le> j" "j \<le> n"
  shows "0 \<le> qsl ! i" "qsl ! i \<le> qsl ! j" "qsl ! n = last qsl"
proof -
  have step: "qsl ! k \<le> qsl ! Suc k" if "k < n" for k
    using assms(2)[rule_format, OF that] by simp
  have mono: "qsl ! i \<le> qsl ! j" if "i \<le> j" "j \<le> n" for i j
    using that
  proof (induction j)
    case (Suc j)
    show ?case
    proof (cases "i = Suc j")
      case False
      then have "qsl ! i \<le> qsl ! j" using Suc by simp
      then show ?thesis using step[of j] Suc.prems(2) by simp
    qed simp
  qed simp
  show "qsl ! i \<le> qsl ! j" by (rule mono[OF assms(4,5)])
  show "0 \<le> qsl ! i" using mono[of 0 i] assms(3,4,5) by simp
  show "qsl ! n = last qsl" using assms(1) by (subst last_conv_nth) auto
qed

text \<open>The rows of the cache a request attends to, after the write of the batch.\<close>

definition seq_rows :: "nat \<Rightarrow> 'r list list \<Rightarrow> nat list \<Rightarrow> int \<Rightarrow> 'r list" where
  "seq_rows bs cache row s = map (\<lambda>p. cache ! (row ! (p div bs)) ! (p mod bs)) [0..<nat s]"

lemma gather_seq_rows:
  assumes "gather_one bs cache (take n row) k s = Inr rows" "0 \<le> s" "0 < bs"
    and "\<forall>page \<in> set cache. length page = bs" "length rows = nat s" "nat s \<le> n * bs"
  shows "rows = seq_rows bs cache row s"
proof (rule nth_equalityI)
  show "length rows = length (seq_rows bs cache row s)" using assms(5) by (simp add: seq_rows_def)
  fix p assume p: "p < length rows"
  have "p div bs < n"
    using p assms(3,5,6) by (simp add: div_less_iff_less_mult)
  then show "rows ! p = seq_rows bs cache row s ! p"
    using gather_nth[OF assms(1,2,4) p] p assms(5) by (simp add: seq_rows_def)
qed

section \<open>The plan of the step\<close>

text \<open>
  What holds of the batched state of a head configuration between calls: its template belongs
  to the page table's width, and a plan kept for this step is the plan of this step.
\<close>

definition good_plan :: "nat \<Rightarrow> nat \<Rightarrow> int list \<Rightarrow> attn_metadata \<Rightarrow> page_plan \<Rightarrow> bool" where
  "good_plan bs mb qsl m p \<longleftrightarrow>
     (\<exists>k slen. p = make_plan (int bs) (concat (replicate (length (seq_lens m) + k) [0..<mb])) slen m qsl (seq_lens m)
        \<and> length (seq_lens m) * mb < slen)"

definition bp_ready :: "nat \<Rightarrow> nat \<Rightarrow> nat \<Rightarrow> int list \<Rightarrow> attn_metadata \<Rightarrow> bp_state \<Rightarrow> bool" where
  "bp_ready bs mb mid qsl m s \<longleftrightarrow> bp_page s = int bs
     \<and> (\<forall>c. bp_col s = Some c \<longrightarrow> (\<exists>n. c = concat (replicate n [0..<mb]) \<and> bp_scatter_len s = n * mb + 1))
     \<and> (bp_planned s = Some (step_key mid qsl (seq_lens m)) \<longrightarrow> (\<exists>p. bp_plan s = Some p \<and> good_plan bs mb qsl m p))"

lemma new_bp_ready: "bp_ready bs mb mid qsl m (new_bp_state (int bs))"
  by (simp add: bp_ready_def new_bp_state_def)

lemma length_template: "length (concat (replicate n [0..<mb])) = n * mb"
  by (induction n) simp_all

lemma grow_buffers_template:
  assumes "\<forall>c. bp_col s = Some c \<longrightarrow> (\<exists>n. c = concat (replicate n [0..<mb]) \<and> bp_scatter_len s = n * mb + 1)"
    and "0 < mb"
  shows "\<exists>k. bp_col (grow_buffers B mb s) = Some (concat (replicate (B + k) [0..<mb]))
    \<and> bp_scatter_len (grow_buffers B mb s) = (B + k) * mb + 1
    \<and> bp_page (grow_buffers B mb s) = bp_page s"
proof (cases "\<exists>c. bp_col s = Some c \<and> B * mb \<le> length c")
  case True
  then obtain c n where c: "bp_col s = Some c" "B * mb \<le> length c" "c = concat (replicate n [0..<mb])"
      "bp_scatter_len s = n * mb + 1"
    using assms(1) by blast
  then have "B \<le> n" using assms(2) by (simp only: length_template mult_le_cancel2)
  then show ?thesis using c by (intro exI[of _ "n - B"]) (simp add: grow_buffers_def)
next
  case False
  then have "grow_buffers B mb s = s\<lparr>bp_col := Some (concat (replicate (max B 8) [0..<mb])),
      bp_scatter_len := max B 8 * mb + 1\<rparr>"
    by (auto simp: grow_buffers_def split: option.splits)
  then show ?thesis by (intro exI[of _ "max B 8 - B"]) (simp add: max_def)
qed

lemma plan_step_good:
  assumes s: "bp_ready bs mb mid qsl m s" and fits: "table_fits bs mb (block_table m) (seq_lens m)"
    and mb: "mb = table_cols (block_table m)" "0 < mb" and acc: "\<And>p. accepts p"
  shows "\<exists>s' p. plan_step accepts mid m qsl (seq_lens m) s = (s', True) \<and> bp_plan s' = Some p
    \<and> good_plan bs mb qsl m p \<and> bp_ready bs mb mid qsl m s'"
proof (cases "bp_planned s = Some (step_key mid qsl (seq_lens m))")
  case True
  then show ?thesis using s by (auto simp: plan_step_def bp_ready_def)
next
  case False
  let ?g = "grow_buffers (length (seq_lens m)) mb s"
  obtain k where k: "bp_col ?g = Some (concat (replicate (length (seq_lens m) + k) [0..<mb]))"
      "bp_scatter_len ?g = (length (seq_lens m) + k) * mb + 1" "bp_page ?g = int bs"
    using grow_buffers_template[of s mb "length (seq_lens m)"] s mb(2) unfolding bp_ready_def by metis
  have "length (concat (block_table m)) = length (seq_lens m) * mb"
    using fits length_concat_rows[of "block_table m" mb] by (simp add: table_fits_def)
  then have "plan_step accepts mid m qsl (seq_lens m) s = (?g\<lparr>bp_planned := Some (step_key mid qsl (seq_lens m)),
      bp_plan := Some (make_plan (int bs) (concat (replicate (length (seq_lens m) + k) [0..<mb]))
        ((length (seq_lens m) + k) * mb + 1) m qsl (seq_lens m))\<rparr>, True)"
    using False acc k by (simp add: plan_step_def Let_def mb(1)[symmetric])
  moreover have "good_plan bs mb qsl m (make_plan (int bs) (concat (replicate (length (seq_lens m) + k) [0..<mb]))
        ((length (seq_lens m) + k) * mb + 1) m qsl (seq_lens m))"
    unfolding good_plan_def by (intro exI[of _ k] exI[of _ "(length (seq_lens m) + k) * mb + 1"])
      (simp add: algebra_simps)
  ultimately show ?thesis using k by (auto simp: bp_ready_def)
qed

section \<open>The rows of one request\<close>

text \<open>The bounds of a consistent batch, request by request.\<close>

lemma batch_bounds:
  assumes c: "batch_consistent bs mb qsl a m st" and i: "i < length (seq_lens m)"
  shows "0 \<le> qsl ! i" "qsl ! i + 1 < qsl ! Suc i" "qsl ! Suc i \<le> last qsl"
    "qsl ! Suc i - qsl ! i \<le> seq_lens m ! i" "seq_lens m ! i \<le> int mb * int bs"
    "0 < bs" "length (block_table m ! i) = mb" "block_table m ! i \<in> set (block_table m)"
proof -
  have q: "length qsl = Suc (length (seq_lens m))" "\<forall>i < length (seq_lens m). 1 < qsl ! Suc i - qsl ! i"
      "qsl ! 0 = 0" and fits: "table_fits bs mb (block_table m) (seq_lens m)"
    using c by (auto simp: batch_consistent_def)
  show "0 \<le> qsl ! i" using offsets_mono(1)[OF q, of i "Suc i"] i by simp
  show "qsl ! i + 1 < qsl ! Suc i" using q(2) i by fastforce
  show "qsl ! Suc i \<le> last qsl"
    using offsets_mono(2,3)[OF q, of "Suc i" "length (seq_lens m)"] i by simp
  show "qsl ! Suc i - qsl ! i \<le> seq_lens m ! i" using c i by (auto simp: batch_consistent_def)
  show "seq_lens m ! i \<le> int mb * int bs" "0 < bs" "length (block_table m ! i) = mb"
    "block_table m ! i \<in> set (block_table m)"
    using fits i by (auto simp: table_fits_def)
qed

text \<open>The cache of a layer after the rows \<open>new\<close> of the batch were written.\<close>

definition written :: "attn_metadata \<Rightarrow> nat \<Rightarrow> 'r list \<Rightarrow> 'r list list \<Rightarrow> 'r list list" where
  "written m bs new cache = fold (write_slot bs) (zip (slot_mapping m) new) cache"

definition cache_fits :: "nat \<Rightarrow> attn_metadata \<Rightarrow> 'r list list \<Rightarrow> bool" where
  "cache_fits bs m cache \<longleftrightarrow> (\<forall>row \<in> set (block_table m). \<forall>b \<in> set row. b < length cache)
     \<and> (\<forall>page \<in> set cache. length page = bs)"

lemma written_fits: "cache_fits bs m cache \<Longrightarrow> cache_fits bs m (written m bs new cache)"
  using fold_write_shape[of cache bs "zip (slot_mapping m) new"] by (auto simp: cache_fits_def written_def)

lemma batch_fits:
  assumes "batch_consistent bs mb qsl a m st"
  shows "cache_fits bs m (k_cache st)" "cache_fits bs m (v_cache st)"
  using assms unfolding batch_consistent_def cache_fits_def by blast+

text \<open>A fresh request attends to its own rows, a continued one to what the gather returns.\<close>

lemma fresh_rows:
  assumes c: "batch_consistent bs mb qsl a m st" and i: "i < length (seq_lens m)"
    and cache: "cache_fits bs m cache" and new: "int (length new) = last qsl"
    and fresh: "seq_lens m ! i \<le> qsl ! Suc i - qsl ! i"
  shows "py_slice new (qsl ! i) (qsl ! Suc i) = seq_rows bs (written m bs new cache) (block_table m ! i) (seq_lens m ! i)"
proof -
  note b = batch_bounds[OF c i]
  let ?s = "qsl ! i" let ?l = "seq_lens m ! i"
  have l: "?l = qsl ! Suc i - ?s" using fresh b(4) by simp
  have slice: "py_slice new ?s (qsl ! Suc i) = take (nat ?l) (drop (nat ?s) new)"
    using b(1,2) by (simp add: py_slice_nonneg l nat_diff_distrib)
  have len: "nat ?s + nat ?l \<le> length new" using b(1-3) new l by linarith
  have slots: "distinct (slot_mapping m)" "last qsl = int (length (slot_mapping m))"
    using c unfolding batch_consistent_def by blast+
  show ?thesis unfolding slice
  proof (rule nth_equalityI)
    show "length (take (nat ?l) (drop (nat ?s) new)) = length (seq_rows bs (written m bs new cache) (block_table m ! i) ?l)"
      using len by (simp add: seq_rows_def)
    fix p assume "p < length (take (nat ?l) (drop (nat ?s) new))"
    then have p: "p < nat ?l" by simp
    have slot: "slot_mapping m ! (nat ?s + p) = int (block_table m ! i ! (p div bs) * bs + p mod bs)"
    proof -
      have "slots_match bs m qsl" using c by (simp add: batch_consistent_def)
      from this[unfolded slots_match_def, rule_format, OF i, of p] p
      show ?thesis by (simp add: l Let_def)
    qed
    have "nat ?l \<le> mb * bs" using b(5) by (simp add: nat_le_iff)
    then have "p div bs < mb" using p b(6) by (simp add: div_less_iff_less_mult)
    then have page: "block_table m ! i ! (p div bs) < length cache"
      using cache b(7,8) by (auto simp: cache_fits_def)
    have "written m bs new cache ! (block_table m ! i ! (p div bs)) ! (p mod bs) = new ! (nat ?s + p)"
      unfolding written_def
      by (rule write_read[OF b(6) _ page _ _ _ _ slot])
        (use b(6) cache slots new len p in \<open>auto simp: cache_fits_def\<close>)
    then show "take (nat ?l) (drop (nat ?s) new) ! p = seq_rows bs (written m bs new cache) (block_table m ! i) ?l ! p"
      using p len by (simp add: seq_rows_def)
  qed
qed

lemma gathered_rows:
  assumes c: "batch_consistent bs mb qsl a m st" and i: "i < length (seq_lens m)"
    and cache: "cache_fits bs m cache" and p: "good_plan bs mb qsl m p"
  shows "gather_one bs cache (take (nat (page_counts (int bs) (seq_lens m) ! i)) (block_table m ! i))
      (page_counts (int bs) (seq_lens m) ! i) (seq_lens m ! i)
      = Inr (seq_rows bs cache (block_table m ! i) (seq_lens m ! i))" (is "?g")
    and "plan_rows bs cache p i = seq_rows bs cache (block_table m ! i) (seq_lens m ! i)" (is "?r")
proof -
  note b = batch_bounds[OF c i]
  let ?n = "page_counts (int bs) (seq_lens m) ! i" let ?l = "seq_lens m ! i"
  obtain k slen where p: "p = make_plan (int bs) (concat (replicate (length (seq_lens m) + k) [0..<mb])) slen m qsl (seq_lens m)"
      "length (seq_lens m) * mb < slen" using p by (auto simp: good_plan_def)
  have fits: "table_fits bs mb (block_table m) (seq_lens m)" "mb = table_cols (block_table m)"
    using c unfolding batch_consistent_def by blast+
  have l: "0 < ?l" using b(2,4) by simp
  have cache': "\<forall>b \<in> set (block_table m ! i). b < length cache" "\<forall>page \<in> set cache. length page = bs"
    using cache b(8) by (auto simp: cache_fits_def)
  have g: "gather_one bs cache (take (nat ?n) (block_table m ! i)) ?n ?l = Inr (plan_rows bs cache p i)"
    unfolding p(1) by (rule plan_rows_eq_gather[OF fits refl p(2) i l cache'])
  have n: "?n = (?l + int bs - 1) div int bs" using i by (simp add: page_counts_def)
  note pc = page_count_bounds[OF b(6) _ b(5), folded n]
  have sz: "length (plan_rows bs cache p i) = nat ?l" "nat ?l \<le> nat ?n * bs"
  proof -
    show k: "nat ?l \<le> nat ?n * bs" using pc(3) l pc(1) by (metis nat_int nat_le_eq_zle nat_mult_distrib less_imp_le)
    have "int (length (concat (map ((!) cache) (take (nat ?n) (block_table m ! i))))) = ?n * int bs"
      using g by (auto simp: gather_one_def split: if_splits)
    moreover have "plan_rows bs cache p i = take (nat ?l) (concat (map ((!) cache) (take (nat ?n) (block_table m ! i))))"
      using g l by (auto simp: gather_one_def py_slice_nonneg split: if_splits)
    ultimately show "length (plan_rows bs cache p i) = nat ?l" using pc(3) l by simp
  qed
  show ?r by (rule gather_seq_rows[OF g _ b(6) cache'(2) sz]) (use l in simp)
  then show ?g using g by simp
qed

section \<open>The per-request loop\<close>

text \<open>What the kernels are assumed to do with half-precision operands: casting changes nothing, and one row comes out per query row.\<close>

definition half_kernels :: "('r, 'q, 'o) prefill_device \<Rightarrow> bool" where
  "half_kernels P \<longleftrightarrow> cast_q P = id \<and> cast_row P = id
     \<and> (\<forall>q k v c. length (own_prefill P q k v c) = length q)"

definition request_out ::
    "('r, 'q, 'o) prefill_device \<Rightarrow> ('r, 'q) call_args \<Rightarrow> attn_metadata \<Rightarrow> nat \<Rightarrow> int list
     \<Rightarrow> 'r list list \<Rightarrow> 'r list list \<Rightarrow> nat \<Rightarrow> 'o list" where
  "request_out P a m bs qsl kc vc i =
     own_prefill P (py_slice (ca_query a) (qsl ! i) (qsl ! Suc i))
       (seq_rows bs kc (block_table m ! i) (seq_lens m ! i))
       (seq_rows bs vc (block_table m ! i) (seq_lens m ! i)) (Causal True)"

lemma ex_good_plan: "\<exists>p. good_plan bs mb qsl m p"
  unfolding good_plan_def by (intro exI[of _ _] exI[of _ 0] exI[of _ "Suc (length (seq_lens m) * mb)"]) simp

lemma request_kv_rows:
  assumes c: "batch_consistent bs mb qsl a m st" and i: "i < length (seq_lens m)"
    and kc: "kc = written m bs (ca_key a) (k_cache st)" and vc: "vc = written m bs (ca_value a) (v_cache st)"
    and s: "page_tokens s = bs" "k_cache s = kc" "v_cache s = vc"
  shows "\<exists>s'. request_kv a m i (qsl ! i) (qsl ! Suc i) (seq_lens m ! i) s
      = Inr (seq_rows bs kc (block_table m ! i) (seq_lens m ! i), seq_rows bs vc (block_table m ! i) (seq_lens m ! i), s')
      \<and> attn_tensors.truncate s' = attn_tensors.truncate s"
proof -
  note b = batch_bounds[OF c i]
  note fits = batch_fits[OF c]
  have new: "int (length (ca_key a)) = last qsl" "int (length (ca_value a)) = last qsl"
    using c unfolding batch_consistent_def by simp_all
  show ?thesis
  proof (cases "seq_lens m ! i \<le> qsl ! Suc i - qsl ! i")
    case True
    have "int (length (py_slice (ca_key a) (qsl ! i) (qsl ! Suc i))) = qsl ! Suc i - qsl ! i"
      "int (length (py_slice (ca_value a) (qsl ! i) (qsl ! Suc i))) = qsl ! Suc i - qsl ! i"
      using b(1-3) new by (simp_all add: py_slice_length)
    then show ?thesis
      using True fresh_rows[OF c i fits(1) new(1) True] fresh_rows[OF c i fits(2) new(2) True]
      by (simp add: request_kv_def Let_def kc vc attn_tensors.truncate_def)
  next
    case False
    obtain p where p: "good_plan bs mb qsl m p" using ex_good_plan by blast
    have n: "page_counts (int bs) (seq_lens m) ! i = (seq_lens m ! i + int bs - 1) div int bs"
      using i by (simp add: page_counts_def)
    have n0: "0 \<le> (seq_lens m ! i + int bs - 1) div int bs"
      using b by (intro page_count_bounds(1)[of bs _ mb]) simp_all
    have "gather_one bs kc (py_slice (block_table m ! i) 0 ((seq_lens m ! i + int bs - 1) div int bs))
        ((seq_lens m ! i + int bs - 1) div int bs) (seq_lens m ! i) = Inr (seq_rows bs kc (block_table m ! i) (seq_lens m ! i))"
      "gather_one bs vc (py_slice (block_table m ! i) 0 ((seq_lens m ! i + int bs - 1) div int bs))
        ((seq_lens m ! i + int bs - 1) div int bs) (seq_lens m ! i) = Inr (seq_rows bs vc (block_table m ! i) (seq_lens m ! i))"
      using gathered_rows(1)[OF c i written_fits[OF fits(1)] p] gathered_rows(1)[OF c i written_fits[OF fits(2)] p] n0
      unfolding n kc vc by (simp_all add: py_slice_nonneg)
    then show ?thesis
      using False s by (simp add: request_kv_def Let_def attn_tensors.truncate_def)
  qed
qed

lemma prefill_request_runs:
  assumes c: "batch_consistent bs mb qsl a m st" and i: "i < length (seq_lens m)"
    and kc: "kc = written m bs (ca_key a) (k_cache st)" and vc: "vc = written m bs (ca_value a) (v_cache st)"
    and s: "page_tokens s = bs" "k_cache s = kc" "v_cache s = vc" "length (out_rows s) = length (ca_query a)"
    and P: "half_kernels P" and causal: "causal m = Causal True"
  shows "\<exists>s'. prefill_request P a m ''fp16pv'' qsl (seq_lens m) i s = Ran s'
      \<and> kv_frame s s' \<and> length (out_rows s') = length (ca_query a)
      \<and> out_rows s' = splice_rows (qsl ! i) (qsl ! Suc i) (request_out P a m bs qsl kc vc i) (out_rows s)"
proof -
  note b = batch_bounds[OF c i]
  have q: "int (length (ca_query a)) = last qsl" using c unfolding batch_consistent_def by simp
  have lq: "int (length (py_slice (ca_query a) (qsl ! i) (qsl ! Suc i))) = qsl ! Suc i - qsl ! i"
    "int (length (py_slice (out_rows s) (qsl ! i) (qsl ! Suc i))) = qsl ! Suc i - qsl ! i"
    using b(1-3) q s(4) by (simp_all add: py_slice_length)
  obtain s1 where s1: "request_kv a m i (qsl ! i) (qsl ! Suc i) (seq_lens m ! i) s
      = Inr (seq_rows bs kc (block_table m ! i) (seq_lens m ! i), seq_rows bs vc (block_table m ! i) (seq_lens m ! i), s1)"
      "attn_tensors.truncate s1 = attn_tensors.truncate s"
    using request_kv_rows[OF c i kc vc s(1-3)] by blast
  have t: "out_rows s1 = out_rows s" "page_tokens s1 = page_tokens s" "k_cache s1 = k_cache s" "v_cache s1 = v_cache s"
    using s1(2) by (simp_all add: attn_tensors.truncate_def)
  have out: "int (length (request_out P a m bs qsl kc vc i)) = qsl ! Suc i - qsl ! i"
    using P lq(1) by (simp add: request_out_def half_kernels_def)
  have "finish_request P m ''fp16pv'' (qsl ! i) (qsl ! Suc i) (py_slice (ca_query a) (qsl ! i) (qsl ! Suc i))
      (seq_rows bs kc (block_table m ! i) (seq_lens m ! i)) (seq_rows bs vc (block_table m ! i) (seq_lens m ! i)) s1
      = Ran (s1\<lparr>out_rows := splice_rows (qsl ! i) (qsl ! Suc i) (request_out P a m bs qsl kc vc i) (out_rows s1),
              fire := count_leg ''fp16pv'' (fire s1)\<rparr>)"
    using P b(2) lq(2) out unfolding finish_request_def Let_def request_out_def
    by (simp add: causal t half_kernels_def)
  then have r: "prefill_request P a m ''fp16pv'' qsl (seq_lens m) i s
      = Ran (s1\<lparr>out_rows := splice_rows (qsl ! i) (qsl ! Suc i) (request_out P a m bs qsl kc vc i) (out_rows s1),
              fire := count_leg ''fp16pv'' (fire s1)\<rparr>)"
    using b(2) lq(1) i s1(1) by (simp add: prefill_request_def Let_def py_get_nat)
  have "length (splice_rows (qsl ! i) (qsl ! Suc i) (request_out P a m bs qsl kc vc i) (out_rows s)) = length (ca_query a)"
    using drop_splice(2)[of "qsl ! i" "qsl ! Suc i" "length (ca_query a)" "request_out P a m bs qsl kc vc i" "out_rows s"]
      b(1-3) q out s(4) by simp
  then show ?thesis using r t by (simp add: kv_frame_def)
qed

lemma prefill_loop_runs:
  assumes c: "batch_consistent bs mb qsl a m st"
    and kc: "kc = written m bs (ca_key a) (k_cache st)" and vc: "vc = written m bs (ca_value a) (v_cache st)"
    and P: "half_kernels P" and causal: "causal m = Causal True"
    and s: "page_tokens s = bs" "k_cache s = kc" "v_cache s = vc" "length (out_rows s) = length (ca_query a)"
    and j: "j \<le> length (seq_lens m)"
  shows "\<exists>s'. prefill_loop P a m ''fp16pv'' qsl (seq_lens m) [j..<length (seq_lens m)] s = Ran s'
      \<and> kv_frame s s'
      \<and> out_rows s' = take (nat (qsl ! j)) (out_rows s)
           @ concat (map (request_out P a m bs qsl kc vc) [j..<length (seq_lens m)])"
  using s j
proof (induction "length (seq_lens m) - j" arbitrary: j s)
  case 0
  then have j: "j = length (seq_lens m)" by simp
  have "length qsl = Suc (length (seq_lens m))" "last qsl = int (length (ca_query a))"
    using c unfolding batch_consistent_def by simp_all
  then have "nat (qsl ! j) = length (ca_query a)"
    by (metis diff_Suc_1 j last_conv_nth length_0_conv nat_int nat.distinct(1))
  then show ?case using 0 j by (simp add: kv_frame_def)
next
  case (Suc d)
  then have i: "j < length (seq_lens m)" by simp
  note b = batch_bounds[OF c i]
  let ?o = "request_out P a m bs qsl kc vc j"
  obtain s1 where s1: "prefill_request P a m ''fp16pv'' qsl (seq_lens m) j s = Ran s1" "kv_frame s s1"
      "length (out_rows s1) = length (ca_query a)" "out_rows s1 = splice_rows (qsl ! j) (qsl ! Suc j) ?o (out_rows s)"
    using prefill_request_runs[OF c i kc vc Suc.prems(1-4) P causal] by blast
  have "d = length (seq_lens m) - Suc j" "page_tokens s1 = bs" "k_cache s1 = kc" "v_cache s1 = vc"
      "Suc j \<le> length (seq_lens m)"
    using Suc.hyps(2) s1(2) Suc.prems i by (simp_all add: kv_frame_def)
  from Suc.hyps(1)[OF this(1) this(2-4) s1(3) this(5)] obtain s2 where
    s2: "prefill_loop P a m ''fp16pv'' qsl (seq_lens m) [Suc j..<length (seq_lens m)] s1 = Ran s2" "kv_frame s1 s2"
      "out_rows s2 = take (nat (qsl ! Suc j)) (out_rows s1)
         @ concat (map (request_out P a m bs qsl kc vc) [Suc j..<length (seq_lens m)])" by blast
  have "last qsl = int (length (ca_query a))" using c unfolding batch_consistent_def by simp
  then have len: "nat (qsl ! Suc j) \<le> length (ca_query a)" "nat (qsl ! j) \<le> nat (qsl ! Suc j)"
    using b(1-3) by simp_all
  have o: "length ?o = nat (qsl ! Suc j) - nat (qsl ! j)"
    using P b(1-3) \<open>last qsl = int (length (ca_query a))\<close>
    by (simp add: request_out_def half_kernels_def py_slice_nonneg)
  have "take (nat (qsl ! Suc j)) (out_rows s1) = take (nat (qsl ! j)) (out_rows s) @ ?o"
    using len o Suc.prems(4) by (simp add: s1(4) splice_rows_def)
  then have "out_rows s2 = take (nat (qsl ! j)) (out_rows s)
      @ concat (map (request_out P a m bs qsl kc vc) [j..<length (seq_lens m)])"
    using s2(3) i by (simp add: upt_conv_Cons)
  moreover have "prefill_loop P a m ''fp16pv'' qsl (seq_lens m) [j..<length (seq_lens m)] s = Ran s2"
    using s1(1) s2(1) i by (simp add: upt_conv_Cons)
  ultimately show ?case using kv_frame_trans[OF s1(2) s2(2)] by blast
qed

section \<open>The batched run\<close>

text \<open>The contract of the paged kernel: each request attends, causally, to the rows its plan names.\<close>

definition paged_contract :: "nat \<Rightarrow> ('r, 'q, 'o) prefill_device \<Rightarrow> bool" where
  "paged_contract bs P \<longleftrightarrow> (\<forall>p kc vc q. paged_run P p kc vc q =
     concat (map (\<lambda>i. own_prefill P (py_slice q (qo_indptr p ! i) (qo_indptr p ! Suc i))
       (plan_rows bs kc p i) (plan_rows bs vc p i) (Causal True)) [0..<length (qo_indptr p) - 1]))"

lemma paged_run_rows:
  assumes c: "batch_consistent bs mb qsl a m st" and contract: "paged_contract bs P"
    and p: "good_plan bs mb qsl m p"
    and kc: "kc = written m bs (ca_key a) (k_cache st)" and vc: "vc = written m bs (ca_value a) (v_cache st)"
  shows "paged_run P p kc vc (ca_query a)
    = concat (map (request_out P a m bs qsl kc vc) [0..<length (seq_lens m)])"
proof -
  have q: "qo_indptr p = qsl" using p by (auto simp: good_plan_def make_plan_def Let_def)
  have n: "length qsl - 1 = length (seq_lens m)" using c unfolding batch_consistent_def by simp
  have fits: "cache_fits bs m kc" "cache_fits bs m vc"
    unfolding kc vc by (intro written_fits batch_fits[OF c])+
  have "own_prefill P (py_slice (ca_query a) (qsl ! i) (qsl ! Suc i)) (plan_rows bs kc p i) (plan_rows bs vc p i)
      (Causal True) = request_out P a m bs qsl kc vc i" if "i < length (seq_lens m)" for i
    using gathered_rows(2)[OF c that fits(1) p] gathered_rows(2)[OF c that fits(2) p]
    by (simp add: request_out_def)
  then have "map (\<lambda>i. own_prefill P (py_slice (ca_query a) (qsl ! i) (qsl ! Suc i)) (plan_rows bs kc p i)
        (plan_rows bs vc p i) (Causal True)) [0..<length (seq_lens m)]
      = map (request_out P a m bs qsl kc vc) [0..<length (seq_lens m)]" by simp
  then show ?thesis using contract unfolding paged_contract_def q n by (simp only: q n)
qed

lemma batch_run_runs:
  assumes c: "batch_consistent bs mb qsl a m st" and contract: "paged_contract bs P"
    and acc: "\<And>p. accepts_plan P p"
    and ready: "\<And>s. bp_states st (num_heads impl, num_kv_heads impl, head_size impl, ca_kv_dtype a, int bs) = Some s
      \<Longrightarrow> bp_ready bs mb mid qsl m s"
  shows "\<exists>s'. batch_prefill_run P impl a m mid qsl (seq_lens m) st = Ran s'
      \<and> k_cache s' = written m bs (ca_key a) (k_cache st) \<and> v_cache s' = written m bs (ca_value a) (v_cache st)
      \<and> page_tokens s' = bs
      \<and> out_rows s' = concat (map (request_out P a m bs qsl (k_cache s') (v_cache s')) [0..<length (seq_lens m)])
      \<and> (\<forall>s. bp_states s' (num_heads impl, num_kv_heads impl, head_size impl, ca_kv_dtype a, int bs) = Some s
            \<longrightarrow> bp_ready bs mb mid qsl m s)"
proof -
  let ?key = "(num_heads impl, num_kv_heads impl, head_size impl, ca_kv_dtype a, int bs)"
  let ?w = "reshape_and_cache (slot_mapping m) (ca_key a) (ca_value a) st"
  let ?s0 = "case bp_states st ?key of Some s \<Rightarrow> s | None \<Rightarrow> new_bp_state (int bs)"
  have f: "page_tokens st = bs" "table_fits bs mb (block_table m) (seq_lens m)" "mb = table_cols (block_table m)"
      "0 < mb" "length (out_rows st) = length (ca_query a)"
    using c unfolding batch_consistent_def by (simp, blast, blast, blast, simp)
  have w: "page_tokens ?w = bs" "bp_states ?w = bp_states st" "out_rows ?w = out_rows st"
    "k_cache ?w = written m bs (ca_key a) (k_cache st)" "v_cache ?w = written m bs (ca_value a) (v_cache st)"
    by (simp_all add: f(1) reshape_and_cache_def written_def)
  have "bp_ready bs mb mid qsl m ?s0" using ready by (simp add: new_bp_ready split: option.splits)
  from plan_step_good[OF this f(2-4), of "accepts_plan P"] acc obtain s1 p where
    p: "plan_step (accepts_plan P) mid m qsl (seq_lens m) ?s0 = (s1, True)" "bp_plan s1 = Some p"
      "good_plan bs mb qsl m p" "bp_ready bs mb mid qsl m s1" by auto
  from paged_run_rows[OF c contract p(3) refl refl] p show ?thesis
    using f(5) by (simp add: batch_prefill_run_def Let_def w f(1) cong: option.case_cong)
qed

section \<open>The leg as a whole\<close>

text \<open>The host copies of the lengths that the builder attaches, with the device lengths as the fallback.\<close>

definition host_copies_ok :: "attn_metadata \<Rightarrow> ('r, 'o, 'm) famp_state \<Rightarrow> bool" where
  "host_copies_ok m st \<longleftrightarrow> bound_exact m \<and> cached_seq_lens_cpu st \<in> {None, Some (seq_lens m)}
     \<and> (\<forall>pre. is_prefilling_cpu m = Some pre \<longrightarrow> length pre = length (seq_lens m))"

definition leg_ready ::
    "nat \<Rightarrow> nat \<Rightarrow> int list \<Rightarrow> famp_impl \<Rightarrow> ('r, 'q) call_args \<Rightarrow> attn_metadata \<Rightarrow> nat \<Rightarrow> ('r, 'o, 'm) famp_state \<Rightarrow> bool" where
  "leg_ready bs mb qsl impl a m mid st \<longleftrightarrow>
     (\<forall>s. bp_states st (num_heads impl, num_kv_heads impl, head_size impl, ca_kv_dtype a, int bs) = Some s
        \<longrightarrow> bp_ready bs mb mid qsl m s)"

lemma exact_lengths_known:
  assumes c: "batch_consistent bs mb qsl a m st" and h: "host_copies_ok m st"
  shows "\<exists>c'. exact_seq_lens_cpu m (cached_seq_lens_cpu st) = Inr (Some (seq_lens m), c')"
proof -
  have q: "query_start_loc_cpu m = Some qsl" "length qsl = Suc (length (seq_lens m))"
    using c unfolding batch_consistent_def by blast+
  then have n: "length (row_has_query qsl) = length (seq_lens m)" by (simp add: length_row_has_query)
  have "\<exists>sl c'. exact_seq_lens_cpu m (cached_seq_lens_cpu st) = Inr (Some sl, c')"
    using h q n by (auto simp: exact_seq_lens_cpu_def host_copies_ok_def Let_def split: option.splits)
  then obtain sl c' where x: "exact_seq_lens_cpu m (cached_seq_lens_cpu st) = Inr (Some sl, c')" by blast
  have b: "bound_exact m" "cached_seq_lens_cpu st \<in> {None, Some (seq_lens m)}" using h by (simp_all add: host_copies_ok_def)
  have "sl ! i = seq_lens m ! i" if "i < length (seq_lens m)" for i
    using exact_rows(3)[OF b q x that] batch_bounds(2)[OF c that] by simp
  then have "sl = seq_lens m" using exact_rows(1)[OF b q x] by (simp add: nth_equalityI)
  then show ?thesis using x by blast
qed

lemma no_decode_row:
  "\<forall>q \<in> set qs. 1 < q \<Longrightarrow> mixed_decode_row qs sl = Inr False"
  by (induction qs sl rule: mixed_decode_row.induct) auto

lemma prefill_leg_runs:
  assumes c: "batch_consistent bs mb qsl a m st" and h: "host_copies_ok m st"
    and ready: "leg_ready bs mb qsl impl a m mid st"
    and hd: "head_size impl = 256" and causal: "causal m = Causal True"
    and P: "has_fi P" "half_kernels P" "paged_contract bs P" "\<And>p. accepts_plan P p"
  shows "\<exists>s'. fp16pv_prefill P impl a m mid ''fp16pv'' st = Ran s'
      \<and> k_cache s' = written m bs (ca_key a) (k_cache st) \<and> v_cache s' = written m bs (ca_value a) (v_cache st)
      \<and> out_rows s' = concat (map (request_out P a m bs qsl (k_cache s') (v_cache s')) [0..<length (seq_lens m)])"
proof -
  obtain c' where x: "exact_seq_lens_cpu m (cached_seq_lens_cpu st) = Inr (Some (seq_lens m), c')"
    using exact_lengths_known[OF c h] by blast
  let ?st = "st\<lparr>cached_seq_lens_cpu := c'\<rparr>"
  let ?w = "reshape_and_cache (slot_mapping m) (ca_key a) (ca_value a) ?st"
  let ?qlens = "map (\<lambda>i. qsl ! Suc i - qsl ! i) [0..<length (seq_lens m)]"
  have f: "query_start_loc_cpu m = Some qsl" "length qsl = Suc (length (seq_lens m))" "qsl ! 0 = 0"
      "page_tokens st = bs" "length (out_rows st) = length (ca_query a)"
    using c unfolding batch_consistent_def by (blast, blast, blast, blast, simp)
  have c1: "batch_consistent bs mb qsl a m ?st" using c unfolding batch_consistent_def by (elim conjE) (intro conjI; simp)
  have "\<forall>q \<in> set ?qlens. 1 < q" using batch_bounds(2)[OF c] by fastforce
  then have mixed: "mixed_decode_row ?qlens (seq_lens m) = Inr False" by (rule no_decode_row)
  have e: "fp16pv_prefill P impl a m mid ''fp16pv'' st =
      (if batch_engages P impl a m ''fp16pv'' (Some (seq_lens m)) ?qlens
       then batch_prefill_run P impl a m mid qsl (seq_lens m) ?st
       else prefill_loop P a m ''fp16pv'' qsl (seq_lens m) [0..<length (seq_lens m)] ?w)"
    using P(1) f(1,2) by (simp add: fp16pv_prefill_def x host_lengths_def Let_def mixed hd)
  show ?thesis
  proof (cases "batch_engages P impl a m ''fp16pv'' (Some (seq_lens m)) ?qlens")
    case True
    have "bp_ready bs mb mid qsl m s"
      if "bp_states ?st (num_heads impl, num_kv_heads impl, head_size impl, ca_kv_dtype a, int bs) = Some s" for s
      using ready that by (simp add: leg_ready_def)
    from batch_run_runs[OF c1 P(3,4) this, of impl] True show ?thesis unfolding e by auto
  next
    case False
    have w: "page_tokens ?w = bs" "k_cache ?w = written m bs (ca_key a) (k_cache ?st)"
        "v_cache ?w = written m bs (ca_value a) (v_cache ?st)" "length (out_rows ?w) = length (ca_query a)"
      by (simp_all add: f(4,5) reshape_and_cache_def written_def)
    from prefill_loop_runs[OF c1 refl refl P(2) causal w, of 0] False show ?thesis
      unfolding e using f(3) by (auto simp: kv_frame_def w)
  qed
qed


text \<open>Two requests over pages of two tokens: a fresh one, and one that continues a cached prefix.\<close>

definition example_batch :: attn_metadata where
  "example_batch = example_metadata\<lparr>max_query_len := Some 2, num_actual_tokens := 4, seq_lens := [2, 4],
     query_start_loc := [0, 2, 4], block_table := [[1, 0], [3, 2]], slot_mapping := [2, 3, 4, 5],
     causal := Causal True, query_start_loc_cpu := Some [0, 2, 4],
     seq_lens_cpu_upper_bound := Some [2, 4], is_prefilling_cpu := Some [True, True]\<rparr>"

definition example_pages :: "(int, int, unit) famp_state" where
  "example_pages = example_famp_state\<lparr>page_tokens := 2, k_cache := [[0, 0], [0, 0], [0, 0], [7, 8]],
     v_cache := [[0, 0], [0, 0], [0, 0], [17, 18]], out_rows := [0, 0, 0, 0],
     bp_states := (\<lambda>_. None), cached_seq_lens_cpu := None\<rparr>"

definition example_paged :: "(int, int, int) prefill_device" where
  "example_paged = example_prefill\<lparr>bp_min_tokens := 4, paged_run := (\<lambda>p kc vc q.
     concat (map (\<lambda>i. own_prefill example_prefill (py_slice q (qo_indptr p ! i) (qo_indptr p ! Suc i))
       (plan_rows 2 kc p i) (plan_rows 2 vc p i) (Causal True)) [0..<length (qo_indptr p) - 1]))\<rparr>"

definition example_wide :: famp_impl where
  "example_wide = example_impl\<lparr>head_size := 256\<rparr>"

definition batch_env :: environ where
  "batch_env = (\<lambda>_. None)(''VLLM_FAMP_BATCH_PREFILL'' \<mapsto> ''1'')"

lemma example_batch_consistent: "batch_consistent 2 2 [0, 2, 4] example_call example_batch example_pages"
proof -
  have "slots_match 2 example_batch [0, 2, 4]"
    by code_simp
  moreover have "table_fits 2 2 (block_table example_batch) (seq_lens example_batch)"
    by (simp add: table_fits_def example_batch_def)
  ultimately show ?thesis
    unfolding batch_consistent_def
    by (simp add: example_batch_def example_pages_def example_call_def table_cols_def less_Suc_eq
        numeral_2_eq_2 all_conj_distrib imp_conjL)
qed


section \<open>Which path reads the causal flag\<close>

lemma causal_update_sel:
  "seq_lens (m\<lparr>causal := c\<rparr>) = seq_lens m" "block_table (m\<lparr>causal := c\<rparr>) = block_table m"
  "slot_mapping (m\<lparr>causal := c\<rparr>) = slot_mapping m" "max_query_len (m\<lparr>causal := c\<rparr>) = max_query_len m"
  "num_actual_tokens (m\<lparr>causal := c\<rparr>) = num_actual_tokens m" "use_cascade (m\<lparr>causal := c\<rparr>) = use_cascade m"
  by simp_all

lemmas causal_blind = xqa_launch_def make_plan_def plan_step_def causal_update_sel

lemma plan_step_causal [simp]:
  "plan_step accepts mid (m\<lparr>causal := c\<rparr>) qsl sl s = plan_step accepts mid m qsl sl s"
  unfolding causal_blind by (rule refl)

lemma xqa_launch_causal [simp]:
  "xqa_launch E a (m\<lparr>causal := c\<rparr>) bk md b st = xqa_launch E a m bk md b st"
  unfolding causal_blind by (rule refl)

text \<open>
  The eligibility test, the phase, the verify leg and the batched prefill run are
  all blind to a scalar causal flag: a batch with \<open>causal = Causal False\<close>, which only asks for
  bidirectional attention, gets the result of the causal batch. Only the per-request loop hands
  the flag on.
\<close>

theorem causal_flag_is_not_consulted:
  "nonplain_metadata (m\<lparr>causal := Causal c\<rparr>) = nonplain_metadata (m\<lparr>causal := Causal True\<rparr>)
   \<and> classify impl (m\<lparr>causal := Causal c\<rparr>) = classify impl (m\<lparr>causal := Causal True\<rparr>)
   \<and> xqa_verify E impl a (m\<lparr>causal := Causal c\<rparr>) st = xqa_verify E impl a (m\<lparr>causal := Causal True\<rparr>) st
   \<and> batch_prefill_run P impl a (m\<lparr>causal := Causal c\<rparr>) mid qsl sl st
       = batch_prefill_run P impl a (m\<lparr>causal := Causal True\<rparr>) mid qsl sl st
   \<and> finish_request P (m\<lparr>causal := Causal c\<rparr>) ''fp16pv'' 0 2 [q1, q2] k v st
       = (let out = own_prefill P (map (cast_q P) [q1, q2]) (map (cast_row P) k) (map (cast_row P) v) (Causal c)
          in if length out = 2 \<and> 2 \<le> length (out_rows st)
             then Ran (st\<lparr>out_rows := splice_rows 0 2 out (out_rows st), fire := count_leg ''fp16pv'' (fire st)\<rparr>)
             else Raised RuntimeError)"
proof (intro conjI)
  show "nonplain_metadata (m\<lparr>causal := Causal c\<rparr>) = nonplain_metadata (m\<lparr>causal := Causal True\<rparr>)"
    by (simp add: nonplain_metadata_def is_tensor_def)
  show "classify impl (m\<lparr>causal := Causal c\<rparr>) = classify impl (m\<lparr>causal := Causal True\<rparr>)"
    unfolding classify_def causal_update_sel by (rule refl)
  show "xqa_verify E impl a (m\<lparr>causal := Causal c\<rparr>) st = xqa_verify E impl a (m\<lparr>causal := Causal True\<rparr>) st"
    unfolding xqa_verify_def xqa_launch_causal causal_update_sel by (rule refl)
  show "batch_prefill_run P impl a (m\<lparr>causal := Causal c\<rparr>) mid qsl sl st
       = batch_prefill_run P impl a (m\<lparr>causal := Causal True\<rparr>) mid qsl sl st"
    unfolding batch_prefill_run_def plan_step_causal causal_update_sel by (rule refl)
  show "finish_request P (m\<lparr>causal := Causal c\<rparr>) ''fp16pv'' 0 2 [q1, q2] k v st
       = (let out = own_prefill P (map (cast_q P) [q1, q2]) (map (cast_row P) k) (map (cast_row P) v) (Causal c)
          in if length out = 2 \<and> 2 \<le> length (out_rows st)
             then Ran (st\<lparr>out_rows := splice_rows 0 2 out (out_rows st), fire := count_leg ''fp16pv'' (fire st)\<rparr>)
             else Raised RuntimeError)"
    by (auto simp: finish_request_def Let_def py_slice_nonneg)
qed

end
