(* ===== verification/Spec2Isabelle.thy ===== *)
theory Spec2Isabelle imports KvLife KvViews EncoderProps SessionProps FampBatch
begin

text \<open>
  A verification library for the core of this vLLM fork: the memory and queues of the V1
  scheduler (\<^verbatim>\<open>src/vllm/vllm/v1\<close>) and the FlashAmpere attention back end the fork adds
  (\<^verbatim>\<open>src/flashampere\<close>).

  \<^bold>\<open>How the program works.\<close> The engine keeps requests in waiting queues. A scheduling step takes
  requests from the queues, finds KV cache blocks for their tokens, decides which encoder inputs
  must be computed, and sends the batch to the model runner, which picks a captured CUDA graph for
  the batch shape and runs attention, here FlashAmpere's. The outputs come back, tokens are
  appended and hashed, stopped requests leave. Each part below is modelled by one or several
  theories; a theory opens with what it holds.

  \<^bold>\<open>Conventions\<close> (\<open>Prelude\<close>, \<open>RequestModel\<close>). A Python exception is \<open>Inl\<close> of \<open>py_error\<close>, a
  return \<open>Inr\<close>; \<open>bind_res\<close> and \<open>fold_res\<close> chain and loop. State is passed explicitly: an object
  is a record, its attributes the fields, a method a function from the record to the updated
  record. A class instance that several containers share (a block, a request in a queue) is a
  number that indexes a map of contents, so aliasing and in-place updates are visible. A Python
  set that is iterated over comes with the listing of the iteration. Unbounded integers are
  \<open>int\<close>, bytes are \<open>8 word list\<close>, packed masks \<open>32 word\<close> and \<open>16 word\<close>. Floats (arrival times)
  are only compared and stand as integers. What is not in the repository (hash functions, CUDA
  kernels, the platform, file system, connectors) is an argument of the definitions, with what
  the code relies on as a hypothesis and a concrete instance in the witness.

  \<^bold>\<open>Blocks.\<close> \<open>FreeQueue\<close>: \<^verbatim>\<open>KVCacheBlock\<close> and the intrusive doubly linked
  \<^verbatim>\<open>FreeKVCacheBlockQueue\<close> of \<^verbatim>\<open>v1/core/kv_cache_utils.py\<close>, every pointer write in the order of
  the code, with its refinement to lists. \<open>HashKeys\<close>: the hash of a block and its extra keys
  (same file and \<^verbatim>\<open>multimodal/utils.py\<close>), the chained hasher, the views at coarser block sizes;
  lemmas that hashing incrementally is hashing from scratch and that equal hashes mean equal
  prefixes. \<open>BlockMap\<close> and \<open>BlockPool\<close>: \<^verbatim>\<open>v1/core/block_pool.py\<close>, every operation. \<open>PoolFree\<close>
  has the invariant of the free list and the reference counts, \<open>PoolCache\<close> that of the index,
  \<open>PoolProps\<close> the reachable pools and what each operation does there.

  \<^bold>\<open>KV cache.\<close> Above the pool sit one manager per cache group, a coordinator over them and
  \<^verbatim>\<open>KVCacheManager\<close>, which the scheduler calls. \<open>KvManager\<close>:
  \<^verbatim>\<open>v1/core/single_type_kv_cache_manager.py\<close>, the class hierarchy as the field \<open>mgr_kind\<close> (full,
  R-SWA, sliding window, chunked local, circular buffer and cross attention). \<open>KvCoord\<close> and
  \<open>KvViews\<close>: \<^verbatim>\<open>v1/core/kv_cache_coordinator.py\<close> and \<^verbatim>\<open>v1/core/kv_cache_manager.py\<close>,
  \<open>allocate_slots\<close> whole. \<open>KvLookup\<close>: the prefix-cache lookups of managers and coordinators and
  \<open>get_computed_blocks\<close>. \<open>KvDefer\<close>: when the scheduler gives blocks back, with the fences of
  steps in flight, and the step relation \<open>block_step\<close> over all operations on blocks. \<open>KvInv\<close>: the
  accounts (a reference count is the number of places that name the block) and the locale
  \<open>manager_op\<close>, the contract of an operation that is called on every manager in turn; \<open>KvOps\<close>,
  \<open>KvAlloc\<close> (with the locale \<open>manager_alloc\<close>) and \<open>KvRelease\<close> interpret the locales for adopting,
  allocating, recycling and releasing blocks. \<open>KvSlots\<close> and \<open>KvAdmit\<close>: the stages of
  \<open>reserve_slots\<close> put together. \<open>KvHits\<close>: what the lookup loops find, stated on the block hashes.
  \<open>KvProps\<close> and \<open>KvLife\<close>: the properties.

  \<^bold>\<open>Encoder cache.\<close> \<open>EncoderCache\<close>: both managers of \<^verbatim>\<open>v1/core/encoder_cache_manager.py\<close>.
  \<open>EncoderInv\<close>: the accounting invariant, operation by operation. \<open>EncoderSched\<close>:
  \<^verbatim>\<open>_try_schedule_encoder_inputs\<close> and its neighbours in \<^verbatim>\<open>v1/core/sched/scheduler.py\<close>, over a
  record of the manager's operations. \<open>EncoderClient\<close>: the locale \<open>encoder_cache\<close> with what the
  scheduler relies on, and the loop's correctness proved once in it. \<open>EncoderProps\<close>: both managers
  interpreted, reachable caches, the properties.

  \<^bold>\<open>Queues and requests.\<close> \<open>Heapq\<close>: the standard library's heap on a list, with the locale
  \<open>heap_order\<close>. \<open>RequestQueue\<close>: \<^verbatim>\<open>v1/core/sched/request_queue.py\<close>, the pass over the waiting
  requests of \<^verbatim>\<open>schedule\<close>, and the locale \<open>request_queue\<close>, interpreted for both queues.
  \<open>QueueProps\<close>: the heap as a sorted list, reachable states of the queues. \<open>SchedUtils\<close>:
  \<^verbatim>\<open>v1/core/sched/utils.py\<close> and \<^verbatim>\<open>_update_request_with_output\<close>. \<open>Session\<close> and \<open>SessionProps\<close>:
  streaming sessions, from \<^verbatim>\<open>StreamingUpdate\<close> of \<^verbatim>\<open>v1/request.py\<close> to \<^verbatim>\<open>add_request\<close>,
  \<^verbatim>\<open>finish_requests\<close> and \<^verbatim>\<open>_handle_stopped_request\<close> of the scheduler; they bring the hashes, the
  queues and the stop conditions together.

  \<^bold>\<open>CUDA graphs.\<close> \<open>CudagraphDispatch\<close>: \<^verbatim>\<open>v1/cudagraph_dispatcher.py\<close>, the capture sizes of
  \<^verbatim>\<open>config/compilation.py\<close> and the LoRA cases of \<^verbatim>\<open>lora/utils.py\<close>.

  \<^bold>\<open>FlashAmpere.\<close> \<open>FampDispatch\<close>: capabilities, environment profiles and the routing table
  (\<^verbatim>\<open>dispatch.py\<close>, \<^verbatim>\<open>capability.py\<close>, \<^verbatim>\<open>model_profiles.py\<close>). \<open>FampForward\<close>: \<^verbatim>\<open>FlashAmpereImpl\<close> of
  \<^verbatim>\<open>impl.py\<close>. \<open>FampXqa\<close>: the verify leg (\<^verbatim>\<open>xqa_verify.py\<close>, \<^verbatim>\<open>xqa/_jit_xqa.py\<close>, the prewarming of
  \<^verbatim>\<open>backend.py\<close>). \<open>FampState\<close>, \<open>FampKernel\<close>, \<open>FampPrefill\<close>, \<open>FampBatch\<close>: the prefill leg of
  \<^verbatim>\<open>kernels.py\<close>, per request and as one batched run on a page plan. \<open>FampSink\<close>: the legs as a
  client of the tensors they may write.

  \<^bold>\<open>Bounds and fuel.\<close> No model uses fuel. Loops of the code are structural recursion or a function
  with a measure (the list left, the position in the heap, the free entries left to evict). A loop
  of the code that would not end is the value \<open>Diverges\<close>: the hasher with a block size of zero. The
  fixed-point loop of the hybrid lookup is a partial function; \<open>hybrid_lookup_terminates\<close> shows
  that it returns.

  \<^bold>\<open>Not modelled.\<close> The main body of \<^verbatim>\<open>schedule\<close> and \<^verbatim>\<open>update_from_output\<close> around the parts
  above: the token budget loop threads through connectors, LoRA, structured output and metrics, and
  its effect on blocks, queues and encoder inputs is what the models of those parts take as
  arguments. Of the KV cache: the managers of Mamba layers, attention sinks and HiSparse, with
  checkpoints, boundary offloads and host pools; the per-group lookup for connectors; the
  constructors, which validate the configuration and group equal specs (the groups are an
  argument). The model runner, the CUDA kernels and the vendored FlashInfer library, whose
  meaning is that of tensors and devices. Servers, process and model loading, quantization
  methods, benchmarks. Within the modelled parts: logging, metrics, connectors' notifications.
\<close>

end
